(* ===== verification/Nk_Prelude.thy ===== *)
theory Nk_Prelude
  imports Main "HOL-Library.Word" "HOL-Library.Monad_Syntax"
begin

text \<open>
  Shared vocabulary of the development: the machine integer types of the Rust sources, the
  panic monad, checked arithmetic and the generic lemmas on lists, options and words that the
  component theories use.

  A Rust function that may panic (a failed \<open>assert!\<close> or \<open>debug_assert!\<close>, an arithmetic overflow,
  a slice index out of range, an \<open>expect\<close> on \<open>None\<close>, a null dereference) is modelled as a function
  into \<^typ>\<open>'a option\<close>: \<^term>\<open>None\<close> is the kernel's bugcheck and \<^term>\<open>Some r\<close> a normal return of \<open>r\<close>. This
  is the behaviour of the kernel's dev profile, which the boot scripts build. A Rust \<open>Option\<close> inside
  such a function is an inner \<^typ>\<open>'a option\<close>, and a Rust \<open>Result<T, NtStatus>\<close> is a sum whose left side is the
  status code.
\<close>

unbundle bit_operations_syntax

type_synonym u8 = "8 word"
type_synonym u16 = "16 word"
type_synonym u32 = "32 word"
type_synonym u64 = "64 word"

named_theorems nk_simps \<open>unfolding equations of the model's small helpers\<close>

section \<open>Panics\<close>

text \<open>An assertion, and indexing and updating a slice with Rust's bounds check.\<close>

definition require :: "bool \<Rightarrow> unit option" where
  "require b = (if b then Some () else None)"

definition idx :: "'a list \<Rightarrow> nat \<Rightarrow> 'a option" where
  "idx xs i = (if i < length xs then Some (xs ! i) else None)"

definition upd :: "'a list \<Rightarrow> nat \<Rightarrow> 'a \<Rightarrow> 'a list option" where
  "upd xs i v = (if i < length xs then Some (xs[i := v]) else None)"

definition sub_nat :: "nat \<Rightarrow> nat \<Rightarrow> nat option" where
  "sub_nat a b = (if b \<le> a then Some (a - b) else None)"

lemma require_bind [simp]: "Option.bind (require b) f = (if b then f () else None)"
  by (simp add: require_def)

lemma require_eq_Some [simp]: "require b = Some u \<longleftrightarrow> b"
  by (simp add: require_def)

lemma idx_in [simp]: "i < length xs \<Longrightarrow> idx xs i = Some (xs ! i)"
  by (simp add: idx_def)

lemma idx_eq_None [simp]: "idx xs i = None \<longleftrightarrow> length xs \<le> i"
  by (auto simp: idx_def)

lemma idx_eq_Some [simp]: "idx xs i = Some v \<longleftrightarrow> i < length xs \<and> v = xs ! i"
  by (auto simp: idx_def)

lemma upd_in [simp]: "i < length xs \<Longrightarrow> upd xs i v = Some (xs[i := v])"
  by (simp add: upd_def)

lemma upd_eq_Some: "upd xs i v = Some ys \<longleftrightarrow> i < length xs \<and> ys = xs[i := v]"
  by (auto simp: upd_def)

lemma sub_nat_le [simp]: "b \<le> a \<Longrightarrow> sub_nat a b = Some (a - b)"
  by (simp add: sub_nat_def)

lemma sub_nat_eq_Some: "sub_nat a b = Some c \<longleftrightarrow> b \<le> a \<and> c = a - b"
  by (auto simp: sub_nat_def)

text \<open>A \<open>for\<close> loop that threads a state and stops at the first panic.\<close>

fun foreach :: "('i \<Rightarrow> 's \<Rightarrow> 's option) \<Rightarrow> 'i list \<Rightarrow> 's \<Rightarrow> 's option" where
  "foreach f [] s = Some s"
| "foreach f (i # is) s = do { s' \<leftarrow> f i s; foreach f is s' }"

lemma foreach_Nil_fun [simp]: "foreach f [] = Some"
  by (simp add: fun_eq_iff)

lemma foreach_append: "foreach f (xs @ ys) s = do { s' \<leftarrow> foreach f xs s; foreach f ys s' }"
  by (induction f xs s rule: foreach.induct) (auto split: bind_split)

lemmas panic_elims = bind_eq_Some_conv upd_eq_Some sub_nat_eq_Some

section \<open>Checked arithmetic on 64-bit words\<close>

definition checked_add :: "u64 \<Rightarrow> u64 \<Rightarrow> u64 option" where
  "checked_add a b = (if unat a + unat b < 2 ^ 64 then Some (a + b) else None)"

definition checked_mul :: "u64 \<Rightarrow> u64 \<Rightarrow> u64 option" where
  "checked_mul a b = (if unat a * unat b < 2 ^ 64 then Some (a * b) else None)"

definition saturating_add :: "u64 \<Rightarrow> u64 \<Rightarrow> u64" where
  "saturating_add a b = (case checked_add a b of Some c \<Rightarrow> c | None \<Rightarrow> - 1)"

lemma checked_add_Some:
  "checked_add a b = Some c \<longleftrightarrow> unat a + unat b < 2 ^ 64 \<and> unat c = unat a + unat b"
proof (cases "unat a + unat b < 2 ^ 64")
  case True
  then have "unat (a + b) = unat a + unat b"
    by (simp add: unat_word_ariths)
  with True show ?thesis
    by (auto simp: checked_add_def word_unat_eq_iff)
qed (simp add: checked_add_def)

lemma checked_mul_Some:
  "checked_mul a b = Some c \<longleftrightarrow> unat a * unat b < 2 ^ 64 \<and> unat c = unat a * unat b"
proof (cases "unat a * unat b < 2 ^ 64")
  case True
  then have "unat (a * b) = unat a * unat b"
    by (simp add: unat_word_ariths)
  with True show ?thesis
    by (auto simp: checked_mul_def word_unat_eq_iff)
qed (simp add: checked_mul_def)

section \<open>Single bits of a word\<close>

text \<open>The simplifier normalises the mask \<open>1 << n\<close> to a power of two, so the lemmas are stated for that form.\<close>

lemma and_one_bit_eq_0:
  "w AND 2 ^ n = 0 \<longleftrightarrow> \<not> bit w n \<or> LENGTH('a) \<le> n" for w :: "'a::len word"
proof -
  have "w AND 2 ^ n = (if bit w n then 2 ^ n else 0)"
    by (rule bit_word_eqI) (auto simp: bit_and_iff bit_exp_iff)
  then show ?thesis by (simp add: exp_eq_zero_iff)
qed

lemma bit_set_one:
  "n < LENGTH('a) \<Longrightarrow> bit (w OR 2 ^ n) m \<longleftrightarrow> bit w m \<or> m = n"
  for w :: "'a::len word"
  by (auto simp: bit_or_iff bit_exp_iff)

lemma bit_clear_one:
  "n < LENGTH('a) \<Longrightarrow> bit (w AND NOT (2 ^ n)) m \<longleftrightarrow> bit w m \<and> m \<noteq> n"
  for w :: "'a::len word"
  by (auto simp: bit_and_iff bit_not_iff bit_exp_iff dest: bit_imp_le_length)

lemma bit_minus_one_word: "n < LENGTH('a) \<Longrightarrow> bit (- 1 :: 'a::len word) n"
  by simp

section \<open>Casts between widths\<close>

lemma unat_ucast_mod: "unat (ucast w :: 'b::len word) = unat w mod 2 ^ LENGTH('b)" for w :: "'a::len word"
  by (simp add: unsigned_ucast_eq take_bit_eq_mod)

lemma unat_ucast_up: "LENGTH('a) \<le> LENGTH('b) \<Longrightarrow> unat (ucast w :: 'b::len word) = unat w" for w :: "'a::len word"
proof -
  assume "LENGTH('a) \<le> LENGTH('b)"
  then have "unat w < 2 ^ LENGTH('b)"
    by (meson less_le_trans one_le_numeral power_increasing unsigned_less)
  then show ?thesis by (simp add: unat_ucast_mod)
qed

lemma unat_drop_bit_eq: "unat (drop_bit n x) = unat x div 2 ^ n" for x :: "'a :: len word"
proof -
  have "take_bit LENGTH('a) (unat x) = unat x" using unsigned_less [of x, where ?'a = nat] by (simp add: take_bit_nat_eq_self)
  then show ?thesis unfolding unsigned_drop_bit_eq by (simp add: drop_bit_eq_div)
qed

end
