(* ===== verification/Rtl_Status.thy ===== *)
theory Rtl_Status
  imports Nk_Prelude
begin

text \<open>
  \<open>NTSTATUS\<close> (\<^verbatim>\<open>kernel/src/rtl/status.rs\<close>): the 32-bit status codes the executive returns, their severity
  tests, and the conversion of a \<open>Result\<close> to a status. The collection \<open>status_defs\<close> unfolds the constants.
\<close>

type_synonym nt_status = u32

named_theorems status_defs \<open>values of the status constants\<close>

definition STATUS_SUCCESS :: nt_status where [status_defs]: "STATUS_SUCCESS = 0x00000000"
definition STATUS_WAIT_0 :: nt_status where [status_defs]: "STATUS_WAIT_0 = 0x00000000"
definition STATUS_TIMEOUT :: nt_status where [status_defs]: "STATUS_TIMEOUT = 0x00000102"
definition STATUS_PENDING :: nt_status where [status_defs]: "STATUS_PENDING = 0x00000103"
definition STATUS_UNSUCCESSFUL :: nt_status where [status_defs]: "STATUS_UNSUCCESSFUL = 0xC0000001"
definition STATUS_NOT_IMPLEMENTED :: nt_status where [status_defs]: "STATUS_NOT_IMPLEMENTED = 0xC0000002"
definition STATUS_INVALID_HANDLE :: nt_status where [status_defs]: "STATUS_INVALID_HANDLE = 0xC0000008"
definition STATUS_INVALID_PARAMETER :: nt_status where [status_defs]: "STATUS_INVALID_PARAMETER = 0xC000000D"
definition STATUS_NO_SUCH_DEVICE :: nt_status where [status_defs]: "STATUS_NO_SUCH_DEVICE = 0xC000000E"
definition STATUS_ACCESS_VIOLATION :: nt_status where [status_defs]: "STATUS_ACCESS_VIOLATION = 0xC0000005"
definition STATUS_DATATYPE_MISALIGNMENT :: nt_status where [status_defs]: "STATUS_DATATYPE_MISALIGNMENT = 0x80000002"
definition STATUS_ACCESS_DENIED :: nt_status where [status_defs]: "STATUS_ACCESS_DENIED = 0xC0000022"
definition STATUS_BUFFER_TOO_SMALL :: nt_status where [status_defs]: "STATUS_BUFFER_TOO_SMALL = 0xC0000023"
definition STATUS_OBJECT_TYPE_MISMATCH :: nt_status where [status_defs]: "STATUS_OBJECT_TYPE_MISMATCH = 0xC0000024"
definition STATUS_OBJECT_NAME_NOT_FOUND :: nt_status where [status_defs]: "STATUS_OBJECT_NAME_NOT_FOUND = 0xC0000034"
definition STATUS_OBJECT_NAME_COLLISION :: nt_status where [status_defs]: "STATUS_OBJECT_NAME_COLLISION = 0xC0000035"
definition STATUS_INSUFFICIENT_RESOURCES :: nt_status where [status_defs]: "STATUS_INSUFFICIENT_RESOURCES = 0xC000009A"
definition STATUS_DEVICE_NOT_READY :: nt_status where [status_defs]: "STATUS_DEVICE_NOT_READY = 0xC00000A3"
definition STATUS_INVALID_DEVICE_REQUEST :: nt_status where [status_defs]: "STATUS_INVALID_DEVICE_REQUEST = 0xC0000010"

definition is_success :: "nt_status \<Rightarrow> bool" where
  "is_success s \<longleftrightarrow> sint s \<ge> 0"

definition is_error :: "nt_status \<Rightarrow> bool" where
  "is_error s \<longleftrightarrow> drop_bit 30 s = 3"

definition status_of_result :: "nt_status + unit \<Rightarrow> nt_status" where
  "status_of_result r = (case r of Inr () \<Rightarrow> STATUS_SUCCESS | Inl s \<Rightarrow> s)"

section \<open>Severities\<close>

lemma is_success_bit: "is_success s \<longleftrightarrow> \<not> bit s 31"
proof -
  have "bit s 31 \<longleftrightarrow> sint s < 0"
    using bit_last_iff [of s] by simp
  then show ?thesis by (auto simp: is_success_def)
qed

lemma severity_bits:
  "drop_bit 30 s = (if bit s 31 then if bit s 30 then 3 else 2 else if bit s 30 then 1 else 0)" for s :: nt_status
proof (rule bit_word_eqI)
  fix n assume "n < LENGTH(32)"
  consider "n = 0" | "n = 1" | m where "n = Suc (Suc m)" by (metis One_nat_def not0_implies_Suc)
  then show "bit (drop_bit 30 s) n \<longleftrightarrow>
      bit (if bit s 31 then if bit s 30 then 3 else 2 else if bit s 30 then 1 else (0 :: nt_status)) n"
  proof cases
    case (3 m)
    then have "\<not> bit s (30 + n)" using bit_imp_le_length [of s "30 + n"] by auto
    with 3 show ?thesis by (simp add: bit_drop_bit_eq bit_Suc)
  qed (simp_all add: bit_drop_bit_eq bit_numeral_rec)
qed

text \<open>\<open>NT_SUCCESS\<close> is severity 00 or 01 and \<open>NT_ERROR\<close> severity 11; a status is never both.\<close>

lemma is_success_severity: "is_success s \<longleftrightarrow> drop_bit 30 s = 0 \<or> drop_bit 30 s = 1"
  by (simp add: is_success_bit severity_bits)

lemma is_error_not_success: "is_error s \<Longrightarrow> \<not> is_success s"
  by (simp add: is_error_def is_success_severity)

lemma status_constants_severity:
  "list_all is_success [STATUS_SUCCESS, STATUS_WAIT_0, STATUS_TIMEOUT, STATUS_PENDING]"
  "list_all is_error [STATUS_UNSUCCESSFUL, STATUS_NOT_IMPLEMENTED, STATUS_INVALID_HANDLE, STATUS_INVALID_PARAMETER,
     STATUS_NO_SUCH_DEVICE, STATUS_ACCESS_VIOLATION, STATUS_ACCESS_DENIED, STATUS_BUFFER_TOO_SMALL,
     STATUS_OBJECT_TYPE_MISMATCH, STATUS_OBJECT_NAME_NOT_FOUND, STATUS_OBJECT_NAME_COLLISION,
     STATUS_INSUFFICIENT_RESOURCES, STATUS_DEVICE_NOT_READY, STATUS_INVALID_DEVICE_REQUEST]"
  "\<not> is_success STATUS_DATATYPE_MISALIGNMENT \<and> \<not> is_error STATUS_DATATYPE_MISALIGNMENT"
  by code_simp+

end
