(* ===== verification/Ke_Ready.thy ===== *)
theory Ke_Ready
  imports Rtl_Status
begin

text \<open>
  The dispatcher's data and its ready queues (\<^verbatim>\<open>kernel/src/ke/scheduler.rs\<close>, with the structures of
  \<^verbatim>\<open>ke/thread.rs\<close> and \<^verbatim>\<open>ke/dispatcher.rs\<close>): threads, dispatcher headers, one bank of priority queues per
  processor, starvation relief, selection with work stealing and the context switch.

  An intrusive \<open>ListEntry\<close> list is the sequence of its members, which is what the linked lists of \<open>Rtl_List\<close>
  represent; unlinking an entry that is on no list is the fault on the poisoned links. A pointer to a
  \<open>DispatcherHeader\<close> is a \<open>hdr\<close>: a free-standing object, the header of a thread, or the header of a
  thread's embedded timeout timer. The fields of the objects that embed a header (\<open>Ksemaphore\<close>, \<open>Kmutant\<close>,
  \<open>Ktimer\<close>) are kept with it, which is where \<open>container_of!\<close> finds them. Threads are named by their address
  (0 is null) and processors by their number, which every operation takes for the \<open>KPRCB\<close> it runs on. The
  dispatcher lock is the atomicity of an operation.
\<close>

type_synonym tid = nat
type_synonym cpu = nat

datatype hdr = ObjHdr nat | ThreadHdr tid | WaitTimerHdr tid

datatype dispatcher_object_type =
  NotificationEvent | SynchronizationEvent | Mutant | Semaphore | Thread | Timer

datatype thread_state = Initialized | Ready | Running | Waiting | Terminated

datatype wait_type = WaitAll | WaitAny

definition THREAD_WAIT_OBJECTS :: nat where [nk_simps]: "THREAD_WAIT_OBJECTS = 3"
definition TIMER_WAIT_BLOCK :: nat where [nk_simps]: "TIMER_WAIT_BLOCK = THREAD_WAIT_OBJECTS"
definition DEFAULT_QUANTUM :: int where [nk_simps]: "DEFAULT_QUANTUM = 10"
definition STARVE_TICKS :: u64 where [nk_simps]: "STARVE_TICKS = 300"
definition BOOST_PRIORITY :: u8 where [nk_simps]: "BOOST_PRIORITY = 15"
definition STARVE_SCAN_INTERVAL :: u64 where [nk_simps]: "STARVE_SCAN_INTERVAL = 64"
definition MAX_CPUS :: nat where [nk_simps]: "MAX_CPUS = 8"

section \<open>Dispatcher objects\<close>

record dispatcher_header =
  object_type :: dispatcher_object_type
  signal_state :: int
  wait_list :: "(tid \<times> nat) list"
  wait_list_init :: bool
  limit :: int
  owner :: tid
  due_tick :: u64
  inserted :: bool
  timer_dpc :: nat

definition header_new :: "dispatcher_object_type \<Rightarrow> int \<Rightarrow> dispatcher_header" where
  "header_new ty sig = \<lparr>object_type = ty, signal_state = sig, wait_list = [], wait_list_init = False,
     limit = 0, owner = 0, due_tick = 0, inserted = False, timer_dpc = 0\<rparr>"

definition kevent_new :: "dispatcher_object_type \<Rightarrow> bool \<Rightarrow> dispatcher_header" where
  "kevent_new ty initially_signaled = header_new ty (if initially_signaled then 1 else 0)"

definition ksemaphore_new :: "int \<Rightarrow> int \<Rightarrow> dispatcher_header" where
  "ksemaphore_new initial lim = header_new Semaphore initial\<lparr>limit := lim\<rparr>"

definition kmutant_new :: dispatcher_header where
  "kmutant_new = header_new Mutant 1\<lparr>owner := 0\<rparr>"

definition ktimer_new :: dispatcher_header where
  "ktimer_new = header_new Timer 0\<lparr>due_tick := 0, inserted := False, timer_dpc := 0\<rparr>"

section \<open>Threads\<close>

record kwait_block =
  wb_thread :: tid
  wb_object :: hdr
  wait_key :: u32
  wb_active :: bool

definition kwait_block_new :: kwait_block where
  "kwait_block_new = \<lparr>wb_thread = 0, wb_object = ObjHdr 0, wait_key = 0, wb_active = False\<rparr>"

record kthread =
  kstate :: thread_state
  stack_top :: u64
  priority :: u8
  base_priority :: u8
  boosted :: bool
  ready_since :: u64
  quantum :: int
  wait_blocks :: "nat \<Rightarrow> kwait_block"
  wait_typ :: wait_type
  wait_count :: nat
  wait_timed :: bool
  wait_status :: nt_status
  cr3 :: u64
  gs_base :: u64

definition kthread_new :: "u64 \<Rightarrow> u64 \<Rightarrow> u8 \<Rightarrow> kthread option" where
  "kthread_new stack_base stack_size pri = do {
     top \<leftarrow> checked_add stack_base stack_size;
     Some \<lparr>kstate = Initialized, stack_top = top, priority = pri, base_priority = pri, boosted = False,
       ready_since = 0, quantum = DEFAULT_QUANTUM, wait_blocks = (\<lambda>_. kwait_block_new), wait_typ = WaitAny,
       wait_count = 0, wait_timed = False, wait_status = STATUS_SUCCESS, cr3 = 0, gs_base = 0\<rparr>
   }"

section \<open>Processors and the dispatcher state\<close>

text \<open>
  \<open>queues\<close>, \<open>summary\<close> and \<open>count\<close> are a processor's ready bank. Of the processor control block the model keeps
  what the dispatcher reads and writes: the idle and current threads, the quantum-end flag, the registers that
  a context switch loads, and whether a dispatch interrupt is pending on the processor.
\<close>

record ready_bank =
  queues :: "nat \<Rightarrow> tid list"
  summary :: u32
  bank_count :: nat

record kprcb =
  idle_thread :: tid
  current_thread :: tid
  quantum_end :: bool
  halting :: bool
  online :: bool
  dispatch_pending :: bool
  rsp0 :: u64
  syscall_stack :: u64
  loaded_cr3 :: u64
  active_cr3 :: u64
  kernel_gs_base :: u64

record kapc =
  kapc_inserted :: bool
  kernel_routine :: nat
  normal_routine :: nat
  normal_context :: u64
  apc_arg1 :: u64
  apc_arg2 :: u64
  kapc_thread :: tid

record ke =
  threads :: "tid \<Rightarrow> kthread"
  objs :: "hdr \<Rightarrow> dispatcher_header"
  banks :: "cpu \<Rightarrow> ready_bank"
  prcbs :: "cpu \<Rightarrow> kprcb"
  timer_list :: "hdr list"
  initialized :: bool
  tick_count :: u64
  earliest_timer_due :: u64
  starve_last_scan :: u64
  steals :: nat
  online_count :: nat
  idle_ipis :: nat
  kernel_address_space :: u64
  dpc_queue :: "nat list"
  dpc_inserted :: "nat \<Rightarrow> bool"
  kapcs :: "nat \<Rightarrow> kapc"
  kapc_queue :: "tid \<Rightarrow> nat list"
  delivering :: "cpu \<Rightarrow> bool"

definition upd_thread :: "tid \<Rightarrow> (kthread \<Rightarrow> kthread) \<Rightarrow> ke \<Rightarrow> ke" where
  "upd_thread t f s = s\<lparr>threads := (threads s)(t := f (threads s t))\<rparr>"

definition upd_obj :: "hdr \<Rightarrow> (dispatcher_header \<Rightarrow> dispatcher_header) \<Rightarrow> ke \<Rightarrow> ke" where
  "upd_obj h f s = s\<lparr>objs := (objs s)(h := f (objs s h))\<rparr>"

definition upd_bank :: "cpu \<Rightarrow> (ready_bank \<Rightarrow> ready_bank) \<Rightarrow> ke \<Rightarrow> ke" where
  "upd_bank c f s = s\<lparr>banks := (banks s)(c := f (banks s c))\<rparr>"

definition upd_prcb :: "cpu \<Rightarrow> (kprcb \<Rightarrow> kprcb) \<Rightarrow> ke \<Rightarrow> ke" where
  "upd_prcb c f s = s\<lparr>prcbs := (prcbs s)(c := f (prcbs s c))\<rparr>"

section \<open>Initialisation\<close>

definition ki_initialize :: "cpu \<Rightarrow> tid \<Rightarrow> ke \<Rightarrow> ke" where
  "ki_initialize c boot_thread s =
     (let s = s\<lparr>banks := (\<lambda>d. if d < MAX_CPUS then (banks s d)\<lparr>queues := (\<lambda>_. [])\<rparr> else banks s d),
                timer_list := [], initialized := True\<rparr>;
          s = upd_thread boot_thread (\<lambda>t. t\<lparr>kstate := Running\<rparr>) s
      in upd_prcb c (\<lambda>p. p\<lparr>idle_thread := boot_thread, current_thread := boot_thread\<rparr>) s)"

definition ki_initialize_ap :: "cpu \<Rightarrow> tid \<Rightarrow> ke \<Rightarrow> ke" where
  "ki_initialize_ap c idle s =
     (let s = upd_thread idle (\<lambda>t. t\<lparr>kstate := Running\<rparr>) s
      in upd_prcb c (\<lambda>p. p\<lparr>idle_thread := idle, current_thread := idle\<rparr>) s)"

text \<open>The end of an application processor's startup in \<^verbatim>\<open>ke/smp.rs\<close>, from the halting flag on.\<close>

definition ap_startup :: "cpu \<Rightarrow> tid \<Rightarrow> ke \<Rightarrow> ke" where
  "ap_startup c idle s =
     (let s = upd_prcb c (\<lambda>p. p\<lparr>halting := True, active_cr3 := kernel_address_space s\<rparr>) s;
          s = ki_initialize_ap c idle s;
          s = upd_prcb c (\<lambda>p. p\<lparr>online := True\<rparr>) s
      in s\<lparr>online_count := online_count s + 1\<rparr>)"

section \<open>Dispatch interrupts\<close>

definition request_dispatch_interrupt :: "cpu \<Rightarrow> ke \<Rightarrow> ke" where
  "request_dispatch_interrupt c s = upd_prcb c (\<lambda>p. p\<lparr>dispatch_pending := True\<rparr>) s"

definition set_halting :: "cpu \<Rightarrow> bool \<Rightarrow> ke \<Rightarrow> ke" where
  "set_halting c b s = (if c < MAX_CPUS then upd_prcb c (\<lambda>p. p\<lparr>halting := b\<rparr>) s else s)"

fun ipi_all :: "cpu list \<Rightarrow> ke \<Rightarrow> ke" where
  "ipi_all [] s = s"
| "ipi_all (d # ds) s = ipi_all ds (request_dispatch_interrupt d s)"

definition ipi_idle_cpus :: "cpu \<Rightarrow> ke \<Rightarrow> nat \<times> ke" where
  "ipi_idle_cpus me s =
     (let targets = filter (\<lambda>d. \<not> (d = me \<or> \<not> halting (prcbs s d)) \<and> online (prcbs s d)) [0..<MAX_CPUS];
          s = ipi_all targets s
      in (length targets, s\<lparr>idle_ipis := idle_ipis s + length targets\<rparr>))"

definition send_ipi_all_but_self :: "cpu \<Rightarrow> ke \<Rightarrow> ke" where
  "send_ipi_all_but_self me s = ipi_all (filter (\<lambda>d. d \<noteq> me \<and> online (prcbs s d)) [0..<MAX_CPUS]) s"

definition request_dispatch_ipi :: "cpu \<Rightarrow> ke \<Rightarrow> ke" where
  "request_dispatch_ipi c s =
     (let s = request_dispatch_interrupt c s in
      if online_count s > 1 then
        (let (idled, s) = ipi_idle_cpus c s in
         if idled = 0 then send_ipi_all_but_self c s else s)
      else s)"

section \<open>Ready queues\<close>

definition slot_of :: "kthread \<Rightarrow> nat" where
  "slot_of t = unat (priority t) mod 32"

definition ready_thread_locked :: "cpu \<Rightarrow> tid \<Rightarrow> ke \<Rightarrow> ke option" where
  "ready_thread_locked c t s = do {
     let pri = slot_of (threads s t);
     let s = upd_thread t (\<lambda>k. k\<lparr>kstate := Ready, ready_since := tick_count s\<rparr>) s;
     require (initialized s);
     Some (upd_bank c (\<lambda>b. b\<lparr>queues := (queues b)(pri := queues b pri @ [t]),
       summary := summary b OR push_bit pri 1, bank_count := bank_count b + 1\<rparr>) s)
   }"

definition saturating_sub :: "u64 \<Rightarrow> u64 \<Rightarrow> u64" where
  "saturating_sub a b = (if b \<le> a then a - b else 0)"

definition starved :: "u64 \<Rightarrow> ke \<Rightarrow> tid list \<Rightarrow> tid list" where
  "starved now s q = take 16 (filter (\<lambda>t. saturating_sub now (ready_since (threads s t)) > STARVE_TICKS) q)"

definition boost_one :: "cpu \<Rightarrow> nat \<Rightarrow> tid \<Rightarrow> ke \<Rightarrow> ke option" where
  "boost_one c pri t s = do {
     require (t \<in> set (queues (banks s c) pri));
     let s = upd_bank c (\<lambda>b. b\<lparr>queues := (queues b)(pri := remove1 t (queues b pri))\<rparr>) s;
     let s = (if queues (banks s c) pri = []
              then upd_bank c (\<lambda>b. b\<lparr>summary := summary b AND NOT (push_bit pri 1)\<rparr>) s else s);
     n \<leftarrow> sub_nat (bank_count (banks s c)) 1;
     let s = upd_bank c (\<lambda>b. b\<lparr>bank_count := n\<rparr>) s;
     let s = upd_thread t (\<lambda>k. k\<lparr>boosted := True, priority := BOOST_PRIORITY\<rparr>) s;
     let bp = unat BOOST_PRIORITY;
     Some (upd_bank c (\<lambda>b. b\<lparr>queues := (queues b)(bp := queues b bp @ [t]),
       summary := summary b OR push_bit bp 1, bank_count := bank_count b + 1\<rparr>) s)
   }"

definition boost_starved_locked :: "u64 \<Rightarrow> ke \<Rightarrow> ke option" where
  "boost_starved_locked now s =
     foreach (\<lambda>c. foreach (\<lambda>pri s. foreach (boost_one c pri) (starved now s (queues (banks s c) pri)) s)
       [1..<unat BOOST_PRIORITY]) [0..<MAX_CPUS] s"

definition decay_boost_locked :: "tid \<Rightarrow> ke \<Rightarrow> ke" where
  "decay_boost_locked t s =
     (if boosted (threads s t)
      then upd_thread t (\<lambda>k. k\<lparr>boosted := False, priority := base_priority k\<rparr>) s else s)"

definition ki_ready_thread :: "cpu \<Rightarrow> tid \<Rightarrow> ke \<Rightarrow> ke option" where
  "ki_ready_thread c t s = do {
     s \<leftarrow> ready_thread_locked c t s;
     Some (request_dispatch_ipi c s)
   }"

section \<open>Selection\<close>

text \<open>The index of the highest set bit, 31 minus the leading zeros of a nonzero summary.\<close>

definition leading_zeros :: "u32 \<Rightarrow> nat" where
  "leading_zeros w = length (takeWhile (\<lambda>p. \<not> bit w p) (rev [0..<32]))"

definition best_priority_in :: "cpu \<Rightarrow> ke \<Rightarrow> nat option" where
  "best_priority_in c s =
     (let w = summary (banks s c) in if w = 0 then None else Some (31 - leading_zeros w))"

definition pop_at :: "cpu \<Rightarrow> nat \<Rightarrow> ke \<Rightarrow> (tid \<times> ke) option" where
  "pop_at c pri s = (case queues (banks s c) pri of
     [] \<Rightarrow> None
   | t # q \<Rightarrow> do {
       let s = upd_bank c (\<lambda>b. b\<lparr>queues := (queues b)(pri := q)\<rparr>) s;
       n \<leftarrow> sub_nat (bank_count (banks s c)) 1;
       let s = upd_bank c (\<lambda>b. b\<lparr>bank_count := n\<rparr>) s;
       let s = (if queues (banks s c) pri = []
                then upd_bank c (\<lambda>b. b\<lparr>summary := summary b AND NOT (push_bit pri 1)\<rparr>) s else s);
       Some (t, s)
     })"

fun best_other :: "cpu list \<Rightarrow> cpu \<Rightarrow> ke \<Rightarrow> (nat \<times> cpu) option \<Rightarrow> (nat \<times> cpu) option" where
  "best_other [] c s best = best"
| "best_other (d # ds) c s best =
     (if d = c then best_other ds c s best
      else case best_priority_in d s of
        None \<Rightarrow> best_other ds c s best
      | Some pri \<Rightarrow> best_other ds c s
          (if (case best of None \<Rightarrow> True | Some (bp, _) \<Rightarrow> pri > bp) then Some (pri, d) else best))"

definition select_next_locked :: "cpu \<Rightarrow> ke \<Rightarrow> (tid \<times> ke) option" where
  "select_next_locked c s = (case best_priority_in c s of
     Some pri \<Rightarrow> pop_at c pri s
   | None \<Rightarrow>
       (case best_other [0..<MAX_CPUS] c s None of
          None \<Rightarrow> Some (0, s)
        | Some (pri, own) \<Rightarrow> pop_at own pri (s\<lparr>steals := steals s + 1\<rparr>)))"

definition ready_count :: "cpu \<Rightarrow> ke \<Rightarrow> nat" where
  "ready_count c s = bank_count (banks s c)"

section \<open>Context switch\<close>

text \<open>What the switch loads for the chosen thread: the kernel stacks, the address space and the user GS base.\<close>

definition load_stacks :: "cpu \<Rightarrow> tid \<Rightarrow> ke \<Rightarrow> ke" where
  "load_stacks c next s =
     upd_prcb c (\<lambda>p. p\<lparr>rsp0 := stack_top (threads s next), syscall_stack := stack_top (threads s next)\<rparr>) s"

definition load_space :: "cpu \<Rightarrow> tid \<Rightarrow> ke \<Rightarrow> ke" where
  "load_space c next s =
     (let target = (if cr3 (threads s next) \<noteq> 0 then cr3 (threads s next) else kernel_address_space s)
      in if target \<noteq> loaded_cr3 (prcbs s c)
         then upd_prcb c (\<lambda>p. p\<lparr>loaded_cr3 := target, active_cr3 := target\<rparr>) s else s)"

definition load_gs :: "cpu \<Rightarrow> tid \<Rightarrow> ke \<Rightarrow> ke" where
  "load_gs c next s =
     (if gs_base (threads s next) \<noteq> 0
      then upd_prcb c (\<lambda>p. p\<lparr>kernel_gs_base := gs_base (threads s next)\<rparr>) s else s)"

definition switch_to :: "cpu \<Rightarrow> tid \<Rightarrow> ke \<Rightarrow> ke" where
  "switch_to c next s =
     (let s = decay_boost_locked next s;
          s = upd_thread next (\<lambda>k. k\<lparr>kstate := Running, quantum := DEFAULT_QUANTUM\<rparr>) s;
          s = upd_prcb c (\<lambda>p. p\<lparr>current_thread := next\<rparr>) s;
          s = set_halting c (next = idle_thread (prcbs s c)) s;
          s = load_stacks c next s;
          s = load_space c next s
      in load_gs c next s)"

definition switch_away_locked :: "cpu \<Rightarrow> tid \<Rightarrow> ke \<Rightarrow> ke option" where
  "switch_away_locked c cur s = do {
     (next, s) \<leftarrow> select_next_locked c s;
     let next = (if next = 0 then idle_thread (prcbs s c) else next);
     Some (if next = cur then upd_thread cur (\<lambda>k. k\<lparr>kstate := Running\<rparr>) s else switch_to c next s)
   }"

end
