(* ===== verification/Ke_Wait.thy ===== *)
theory Ke_Wait
  imports Ke_Ready
begin

text \<open>
  Waiting and signalling (\<^verbatim>\<open>kernel/src/ke/scheduler.rs\<close>, \<^verbatim>\<open>ke/dispatcher.rs\<close>): wait blocks, the test whether a
  blocked thread's whole wait can complete, what a satisfied wait consumes, and the operations on events,
  semaphores, mutants and threads. A blocking call is two operations: \<open>ki_wait_for_objects\<close> up to the context
  switch, and \<open>ki_wait_resume\<close> in \<open>Ke_Apc\<close>, the rest of the call, which the thread runs when it is switched in again.
\<close>

datatype satisfy = NotYet | Timeout | SatAny nat | SatAll

definition I32_MAX :: int where [nk_simps]: "I32_MAX = 2147483647"
definition I32_MIN :: int where [nk_simps]: "I32_MIN = - 2147483648"
definition STATUS_SEMAPHORE_LIMIT_EXCEEDED :: nt_status where [status_defs]: "STATUS_SEMAPHORE_LIMIT_EXCEEDED = 0xC0000047"
definition STATUS_MUTANT_NOT_OWNED :: nt_status where [status_defs]: "STATUS_MUTANT_NOT_OWNED = 0xC0000046"

definition ensure_wait_list :: "hdr \<Rightarrow> ke \<Rightarrow> ke" where
  "ensure_wait_list h s =
     (if \<not> wait_list_init (objs s h)
      then upd_obj h (\<lambda>x. x\<lparr>wait_list := [], wait_list_init := True\<rparr>) s else s)"

section \<open>The wait test\<close>

definition signaled_for :: "tid \<Rightarrow> hdr \<Rightarrow> ke \<Rightarrow> bool" where
  "signaled_for t h s =
     (if signal_state (objs s h) > 0 then True
      else if object_type (objs s h) = Mutant then owner (objs s h) = t
      else False)"

definition wb :: "ke \<Rightarrow> tid \<Rightarrow> nat \<Rightarrow> kwait_block" where
  "wb s t i = wait_blocks (threads s t) i"

definition evaluate_wait :: "tid \<Rightarrow> ke \<Rightarrow> satisfy" where
  "evaluate_wait t s =
     (let n = wait_count (threads s t);
          rest = (if wait_timed (threads s t) \<and> signal_state (objs s (wb_object (wb s t TIMER_WAIT_BLOCK))) > 0
                  then Timeout else NotYet)
      in case wait_typ (threads s t) of
           WaitAny \<Rightarrow>
             (case find (\<lambda>i. signaled_for t (wb_object (wb s t i)) s) [0..<n] of
                Some i \<Rightarrow> SatAny i
              | None \<Rightarrow> rest)
         | WaitAll \<Rightarrow>
             (if n > 0 \<and> list_all (\<lambda>i. signaled_for t (wb_object (wb s t i)) s) [0..<n] then SatAll else rest))"

definition satisfy_object_for :: "tid \<Rightarrow> hdr \<Rightarrow> ke \<Rightarrow> ke option" where
  "satisfy_object_for t h s = (case object_type (objs s h) of
     SynchronizationEvent \<Rightarrow> Some (upd_obj h (\<lambda>x. x\<lparr>signal_state := 0\<rparr>) s)
   | Semaphore \<Rightarrow> do {
       require (signal_state (objs s h) > I32_MIN);
       Some (upd_obj h (\<lambda>x. x\<lparr>signal_state := signal_state x - 1\<rparr>) s)
     }
   | Mutant \<Rightarrow> do {
       require (signal_state (objs s h) > I32_MIN);
       Some (upd_obj h (\<lambda>x. x\<lparr>signal_state := signal_state x - 1, owner := t\<rparr>) s)
     }
   | _ \<Rightarrow> Some s)"

definition apply_consume :: "tid \<Rightarrow> satisfy \<Rightarrow> ke \<Rightarrow> (nt_status \<times> ke) option" where
  "apply_consume t r s = (case r of
     SatAny i \<Rightarrow> do {
       let key = wait_key (wb s t i);
       s \<leftarrow> satisfy_object_for t (wb_object (wb s t i)) s;
       Some (STATUS_WAIT_0 + key, s)
     }
   | SatAll \<Rightarrow> do {
       s \<leftarrow> foreach (\<lambda>i s. satisfy_object_for t (wb_object (wb s t i)) s) [0..<wait_count (threads s t)] s;
       Some (STATUS_WAIT_0, s)
     }
   | Timeout \<Rightarrow> Some (STATUS_TIMEOUT, s)
   | NotYet \<Rightarrow> Some (STATUS_UNSUCCESSFUL, s))"

section \<open>Leaving a wait\<close>

definition upd_block :: "tid \<Rightarrow> nat \<Rightarrow> (kwait_block \<Rightarrow> kwait_block) \<Rightarrow> ke \<Rightarrow> ke" where
  "upd_block t i f s = upd_thread t (\<lambda>k. k\<lparr>wait_blocks := (wait_blocks k)(i := f (wait_blocks k i))\<rparr>) s"

definition remove_wait_block :: "tid \<Rightarrow> nat \<Rightarrow> ke \<Rightarrow> ke option" where
  "remove_wait_block t i s = do {
     let h = wb_object (wb s t i);
     require ((t, i) \<in> set (wait_list (objs s h)));
     Some (upd_obj h (\<lambda>x. x\<lparr>wait_list := remove1 (t, i) (wait_list x)\<rparr>) s)
   }"

definition remove_timer :: "hdr \<Rightarrow> ke \<Rightarrow> ke option" where
  "remove_timer h s = do {
     require (h \<in> set (timer_list s));
     Some (s\<lparr>timer_list := remove1 h (timer_list s)\<rparr>)
   }"

definition unlink_block :: "tid \<Rightarrow> nat \<Rightarrow> ke \<Rightarrow> ke option" where
  "unlink_block t i s =
     (if wb_active (wb s t i) then do {
        s \<leftarrow> remove_wait_block t i s;
        Some (upd_block t i (\<lambda>w. w\<lparr>wb_active := False\<rparr>) s)
      } else Some s)"

definition unlink_thread_waits :: "tid \<Rightarrow> ke \<Rightarrow> ke option" where
  "unlink_thread_waits t s = do {
     s \<leftarrow> foreach (unlink_block t) [0..<wait_count (threads s t)] s;
     if wait_timed (threads s t) then do {
       s \<leftarrow> unlink_block t TIMER_WAIT_BLOCK s;
       s \<leftarrow> (if inserted (objs s (WaitTimerHdr t)) then do {
               s \<leftarrow> remove_timer (WaitTimerHdr t) s;
               Some (upd_obj (WaitTimerHdr t) (\<lambda>x. x\<lparr>inserted := False\<rparr>) s)
             } else Some s);
       Some (upd_thread t (\<lambda>k. k\<lparr>wait_timed := False\<rparr>) s)
     } else Some s
   }"

definition wake :: "cpu \<Rightarrow> tid \<Rightarrow> ke \<Rightarrow> ke option" where
  "wake c found s = do {
     let result = evaluate_wait found s;
     (status, s) \<leftarrow> apply_consume found result s;
     let s = upd_thread found (\<lambda>k. k\<lparr>wait_status := status\<rparr>) s;
     s \<leftarrow> unlink_thread_waits found s;
     ready_thread_locked c found s
   }"

definition find_waiter :: "hdr \<Rightarrow> ke \<Rightarrow> tid option" where
  "find_waiter h s =
     find (\<lambda>t. evaluate_wait t s \<noteq> NotYet) (map (\<lambda>(t, i). wb_thread (wb s t i)) (wait_list (objs s h)))"

partial_function (option) wait_test_loop :: "cpu \<Rightarrow> hdr \<Rightarrow> nat \<Rightarrow> ke \<Rightarrow> (nat \<times> ke) option" where
  "wait_test_loop c h woke s = (case find_waiter h s of
     None \<Rightarrow> Some (woke, s)
   | Some t \<Rightarrow> do { s \<leftarrow> wake c t s; wait_test_loop c h (woke + 1) s })"

declare wait_test_loop.simps [code]

definition ki_wait_test :: "cpu \<Rightarrow> hdr \<Rightarrow> ke \<Rightarrow> (nat \<times> ke) option" where
  "ki_wait_test c h s = wait_test_loop c h 0 (ensure_wait_list h s)"

section \<open>Timers the waits need\<close>

definition update_earliest_locked :: "ke \<Rightarrow> ke" where
  "update_earliest_locked s =
     s\<lparr>earliest_timer_due := fold (\<lambda>h e. min e (due_tick (objs s h))) (timer_list s) (- 1)\<rparr>"

definition insert_timer :: "hdr \<Rightarrow> ke \<Rightarrow> ke option" where
  "insert_timer h s = do {
     require (initialized s);
     Some (s\<lparr>timer_list := timer_list s @ [h]\<rparr>)
   }"

section \<open>Blocking\<close>

definition lay_out_block :: "tid \<Rightarrow> (nat \<times> hdr) \<Rightarrow> ke \<Rightarrow> ke option" where
  "lay_out_block cur = (\<lambda>(i, obj) s. do {
     require (i \<le> TIMER_WAIT_BLOCK);
     let s = ensure_wait_list obj s;
     Some (upd_block cur i (\<lambda>w. w\<lparr>wb_thread := cur, wb_object := obj, wait_key := of_nat i, wb_active := False\<rparr>) s)
   })"

definition link_block :: "tid \<Rightarrow> nat \<Rightarrow> ke \<Rightarrow> ke option" where
  "link_block cur i s = do {
     let obj = wb_object (wb s cur i);
     require (wait_list_init (objs s obj));
     let s = upd_obj obj (\<lambda>x. x\<lparr>wait_list := wait_list x @ [(cur, i)]\<rparr>) s;
     Some (upd_block cur i (\<lambda>w. w\<lparr>wb_active := True\<rparr>) s)
   }"

definition arm_timeout :: "tid \<Rightarrow> u64 \<Rightarrow> ke \<Rightarrow> ke option" where
  "arm_timeout cur ticks s = do {
     let h = WaitTimerHdr cur;
     due \<leftarrow> checked_add (tick_count s) (max ticks 1);
     let s = upd_obj h (\<lambda>_. ktimer_new\<lparr>due_tick := due\<rparr>) s;
     let s = ensure_wait_list h s;
     let s = upd_obj h (\<lambda>x. x\<lparr>inserted := True\<rparr>) s;
     s \<leftarrow> insert_timer h s;
     let s = upd_block cur TIMER_WAIT_BLOCK (\<lambda>w. w\<lparr>wb_thread := cur, wb_object := h, wb_active := True\<rparr>) s;
     let s = upd_obj h (\<lambda>x. x\<lparr>wait_list := wait_list x @ [(cur, TIMER_WAIT_BLOCK)]\<rparr>) s;
     let s = upd_thread cur (\<lambda>k. k\<lparr>wait_timed := True\<rparr>) s;
     Some (update_earliest_locked s)
   }"

definition ki_wait_for_objects :: "cpu \<Rightarrow> hdr list \<Rightarrow> wait_type \<Rightarrow> u64 option \<Rightarrow> ke \<Rightarrow> (nt_status option \<times> ke) option" where
  "ki_wait_for_objects c objects wt timeout_ticks s = do {
     require (length objects \<le> THREAD_WAIT_OBJECTS);
     let cur = current_thread (prcbs s c);
     let s = upd_thread cur (\<lambda>k. k\<lparr>wait_typ := wt, wait_count := length objects, wait_timed := False\<rparr>) s;
     s \<leftarrow> foreach (lay_out_block cur) (enumerate 0 objects) s;
     let result = evaluate_wait cur s;
     if result \<noteq> NotYet then do {
       (status, s) \<leftarrow> apply_consume cur result s;
       Some (Some status, s)
     }
     else if timeout_ticks = Some 0 then Some (Some STATUS_TIMEOUT, s)
     else do {
       s \<leftarrow> foreach (link_block cur) [0..<wait_count (threads s cur)] s;
       s \<leftarrow> (case timeout_ticks of Some ticks \<Rightarrow> arm_timeout cur ticks s | None \<Rightarrow> Some s);
       let s = upd_thread cur (\<lambda>k. k\<lparr>kstate := Waiting\<rparr>) s;
       s \<leftarrow> switch_away_locked c cur s;
       Some (None, s)
     }
   }"

definition ki_wait_for_object :: "cpu \<Rightarrow> hdr \<Rightarrow> u64 option \<Rightarrow> ke \<Rightarrow> (nt_status option \<times> ke) option" where
  "ki_wait_for_object c obj timeout_ticks s = ki_wait_for_objects c [obj] WaitAny timeout_ticks s"

definition ki_delay_thread :: "cpu \<Rightarrow> u64 \<Rightarrow> ke \<Rightarrow> (nt_status option \<times> ke) option" where
  "ki_delay_thread c ticks s = ki_wait_for_objects c [] WaitAll (Some ticks) s"

section \<open>Signalling\<close>

definition nudge :: "cpu \<Rightarrow> nat \<Rightarrow> ke \<Rightarrow> ke" where
  "nudge c woke s = (if woke > 0 then request_dispatch_ipi c s else s)"

definition ki_signal_object :: "cpu \<Rightarrow> hdr \<Rightarrow> ke \<Rightarrow> (int \<times> ke) option" where
  "ki_signal_object c h s = do {
     let prev = signal_state (objs s h);
     let s = upd_obj h (\<lambda>x. x\<lparr>signal_state := 1\<rparr>) s;
     (woke, s) \<leftarrow> ki_wait_test c h s;
     Some (prev, nudge c woke s)
   }"

definition ki_reset_object :: "hdr \<Rightarrow> ke \<Rightarrow> int \<times> ke" where
  "ki_reset_object h s = (signal_state (objs s h), upd_obj h (\<lambda>x. x\<lparr>signal_state := 0\<rparr>) s)"

definition ki_release_semaphore :: "cpu \<Rightarrow> hdr \<Rightarrow> int \<Rightarrow> ke \<Rightarrow> ((nt_status + int) \<times> ke) option" where
  "ki_release_semaphore c h adjustment s = do {
     let prev = signal_state (objs s h);
     let new = (if I32_MIN \<le> prev + adjustment \<and> prev + adjustment \<le> I32_MAX then prev + adjustment else I32_MAX);
     if new > limit (objs s h) \<or> adjustment \<le> 0 then Some (Inl STATUS_SEMAPHORE_LIMIT_EXCEEDED, s)
     else do {
       let s = upd_obj h (\<lambda>x. x\<lparr>signal_state := new\<rparr>) s;
       (woke, s) \<leftarrow> ki_wait_test c h s;
       Some (Inr prev, nudge c woke s)
     }
   }"

definition ki_release_mutant :: "cpu \<Rightarrow> hdr \<Rightarrow> ke \<Rightarrow> ((nt_status + int) \<times> ke) option" where
  "ki_release_mutant c h s = do {
     let cur = current_thread (prcbs s c);
     if owner (objs s h) \<noteq> cur then Some (Inl STATUS_MUTANT_NOT_OWNED, s)
     else do {
       let prev = signal_state (objs s h);
       require (prev < I32_MAX);
       let s = upd_obj h (\<lambda>x. x\<lparr>signal_state := signal_state x + 1\<rparr>) s;
       (woke, s) \<leftarrow> (if signal_state (objs s h) > 0
                      then ki_wait_test c h (upd_obj h (\<lambda>x. x\<lparr>owner := 0\<rparr>) s)
                      else Some (0, s));
       Some (Inr prev, nudge c woke s)
     }
   }"

definition ki_terminate_current_thread :: "cpu \<Rightarrow> ke \<Rightarrow> ke option" where
  "ki_terminate_current_thread c s = do {
     let cur = current_thread (prcbs s c);
     let s = upd_obj (ThreadHdr cur) (\<lambda>x. x\<lparr>signal_state := 1\<rparr>) s;
     (_, s) \<leftarrow> ki_wait_test c (ThreadHdr cur) s;
     let s = upd_thread cur (\<lambda>k. k\<lparr>kstate := Terminated\<rparr>) s;
     switch_away_locked c cur s
   }"

section \<open>The public interface\<close>

text \<open>
  The entry points of \<^verbatim>\<open>ke/dispatcher.rs\<close>. The waits take the current interrupt request level, which must be below
  \<open>DISPATCH_LEVEL\<close>.
\<close>

definition DISPATCH_LEVEL :: u8 where [nk_simps]: "DISPATCH_LEVEL = 2"

definition kevent_set :: "cpu \<Rightarrow> hdr \<Rightarrow> ke \<Rightarrow> (int \<times> ke) option" where
  "kevent_set c h s = ki_signal_object c h s"

definition kevent_reset :: "hdr \<Rightarrow> ke \<Rightarrow> int \<times> ke" where
  "kevent_reset h s = ki_reset_object h s"

definition kevent_read_state :: "hdr \<Rightarrow> ke \<Rightarrow> int" where
  "kevent_read_state h s = signal_state (objs s h)"

definition ksemaphore_release :: "cpu \<Rightarrow> hdr \<Rightarrow> int \<Rightarrow> ke \<Rightarrow> ((nt_status + int) \<times> ke) option" where
  "ksemaphore_release c h adjustment s = ki_release_semaphore c h adjustment s"

definition kmutant_release :: "cpu \<Rightarrow> hdr \<Rightarrow> ke \<Rightarrow> ((nt_status + int) \<times> ke) option" where
  "kmutant_release c h s = ki_release_mutant c h s"

definition ke_wait_for_single_object :: "u8 \<Rightarrow> cpu \<Rightarrow> hdr \<Rightarrow> ke \<Rightarrow> (nt_status option \<times> ke) option" where
  "ke_wait_for_single_object irql c h s = do {
     require (irql < DISPATCH_LEVEL);
     ki_wait_for_object c h None s
   }"

definition ke_wait_for_single_object_timeout ::
  "u8 \<Rightarrow> cpu \<Rightarrow> hdr \<Rightarrow> u64 option \<Rightarrow> ke \<Rightarrow> (nt_status option \<times> ke) option" where
  "ke_wait_for_single_object_timeout irql c h timeout_ticks s = do {
     require (irql < DISPATCH_LEVEL);
     ki_wait_for_object c h timeout_ticks s
   }"

definition ke_wait_for_multiple_objects ::
  "u8 \<Rightarrow> cpu \<Rightarrow> hdr list \<Rightarrow> bool \<Rightarrow> u64 option \<Rightarrow> ke \<Rightarrow> (nt_status option \<times> ke) option" where
  "ke_wait_for_multiple_objects irql c objects wait_all timeout_ticks s = do {
     require (irql < DISPATCH_LEVEL);
     let wt = (if wait_all then WaitAll else WaitAny);
     ki_wait_for_objects c objects wt timeout_ticks s
   }"

definition ke_wait_for_mutant :: "u8 \<Rightarrow> cpu \<Rightarrow> hdr \<Rightarrow> ke \<Rightarrow> (nt_status option \<times> ke) option" where
  "ke_wait_for_mutant irql c h s = do {
     require (irql < DISPATCH_LEVEL);
     ki_wait_for_object c h None s
   }"

definition ke_delay_execution_thread :: "u8 \<Rightarrow> cpu \<Rightarrow> u64 \<Rightarrow> ke \<Rightarrow> (nt_status option \<times> ke) option" where
  "ke_delay_execution_thread irql c ticks s = do {
     require (irql < DISPATCH_LEVEL);
     ki_delay_thread c ticks s
   }"

end
