(* ===== verification/Ke_Timer.thy ===== *)
theory Ke_Timer
  imports Ke_Wait
begin

text \<open>
  Timers, deferred procedure calls and interrupt-driven scheduling (\<^verbatim>\<open>kernel/src/ke/scheduler.rs\<close>,
  \<^verbatim>\<open>ke/dpc.rs\<close>). The routine a DPC runs is a parameter of the operations that drain the queue: a function from the
  processor and the DPC to the state it leaves. \<open>ki_dispatch_interrupt\<close> is the interrupt up to the release of the
  dispatcher lock; its last call, in the context of the thread that then runs, is \<open>ki_dispatch_resume\<close> in \<open>Ke_Apc\<close>.
\<close>

section \<open>Deferred procedure calls\<close>

definition ke_insert_queue_dpc :: "cpu \<Rightarrow> nat \<Rightarrow> ke \<Rightarrow> bool \<times> ke" where
  "ke_insert_queue_dpc c d s =
     (if dpc_inserted s d then (False, s)
      else (True, request_dispatch_interrupt c
              (s\<lparr>dpc_inserted := (dpc_inserted s)(d := True), dpc_queue := dpc_queue s @ [d]\<rparr>)))"

type_synonym dpc_routine = "cpu \<Rightarrow> nat \<Rightarrow> ke \<Rightarrow> ke option"

partial_function (option) ki_retire_dpcs :: "dpc_routine \<Rightarrow> cpu \<Rightarrow> ke \<Rightarrow> ke option" where
  "ki_retire_dpcs routine c s = (case dpc_queue s of
     [] \<Rightarrow> Some s
   | d # ds \<Rightarrow> do {
       s \<leftarrow> routine c d (s\<lparr>dpc_queue := ds, dpc_inserted := (dpc_inserted s)(d := False)\<rparr>);
       ki_retire_dpcs routine c s
     })"

declare ki_retire_dpcs.simps [code]

section \<open>Expiry\<close>

definition expire_one :: "cpu \<Rightarrow> hdr \<Rightarrow> ke \<Rightarrow> ke option" where
  "expire_one c h s = do {
     s \<leftarrow> remove_timer h s;
     let s = upd_obj h (\<lambda>x. x\<lparr>inserted := False, signal_state := 1\<rparr>) s;
     (_, s) \<leftarrow> ki_wait_test c h s;
     Some s
   }"

fun expire_all :: "cpu \<Rightarrow> hdr list \<Rightarrow> nat list \<Rightarrow> ke \<Rightarrow> (nat list \<times> ke) option" where
  "expire_all c [] dpcs s = Some (dpcs, s)"
| "expire_all c (h # hs) dpcs s = do {
     s \<leftarrow> expire_one c h s;
     let dpcs = (if timer_dpc (objs s h) \<noteq> 0 \<and> length dpcs < 16 then dpcs @ [timer_dpc (objs s h)] else dpcs);
     expire_all c hs dpcs s
   }"

definition due_timers :: "u64 \<Rightarrow> ke \<Rightarrow> hdr list" where
  "due_timers now s = take 16 (filter (\<lambda>h. due_tick (objs s h) \<le> now) (timer_list s))"

definition ki_expire_timers :: "cpu \<Rightarrow> ke \<Rightarrow> ke option" where
  "ki_expire_timers c s = do {
     let now = tick_count s;
     if earliest_timer_due s > now then Some s
     else do {
       (dpcs, s) \<leftarrow> expire_all c (due_timers now s) [] s;
       let s = update_earliest_locked s;
       Some (fold (\<lambda>d s. snd (ke_insert_queue_dpc c d s)) dpcs s)
     }
   }"

definition ke_set_timer :: "hdr \<Rightarrow> u64 \<Rightarrow> nat \<Rightarrow> ke \<Rightarrow> (bool \<times> ke) option" where
  "ke_set_timer h due dpc s = do {
     let was_set = inserted (objs s h);
     s \<leftarrow> (if was_set then remove_timer h s else Some s);
     let s = ensure_wait_list h s;
     let s = upd_obj h (\<lambda>x. x\<lparr>signal_state := 0, due_tick := due, timer_dpc := dpc, inserted := True\<rparr>) s;
     s \<leftarrow> insert_timer h s;
     Some (was_set, update_earliest_locked s)
   }"

definition ke_cancel_timer :: "hdr \<Rightarrow> ke \<Rightarrow> (bool \<times> ke) option" where
  "ke_cancel_timer h s = do {
     let was_set = inserted (objs s h);
     s \<leftarrow> (if was_set then do {
             s \<leftarrow> remove_timer h s;
             Some (update_earliest_locked (upd_obj h (\<lambda>x. x\<lparr>inserted := False\<rparr>) s))
           } else Some s);
     Some (was_set, s)
   }"

section \<open>The clock and dispatch interrupts\<close>

definition burn_quantum :: "cpu \<Rightarrow> ke \<Rightarrow> ke option" where
  "burn_quantum c s = do {
     let cur = current_thread (prcbs s c);
     if cur \<noteq> 0 \<and> cur \<noteq> idle_thread (prcbs s c) then do {
       require (quantum (threads s cur) > I32_MIN);
       let s = upd_thread cur (\<lambda>k. k\<lparr>quantum := quantum k - 1\<rparr>) s;
       Some (if quantum (threads s cur) \<le> 0
             then request_dispatch_interrupt c (upd_prcb c (\<lambda>p. p\<lparr>quantum_end := True\<rparr>) s) else s)
     } else Some s
   }"

definition ki_clock_tick :: "cpu \<Rightarrow> ke \<Rightarrow> ke option" where
  "ki_clock_tick c s = do {
     (now, s) \<leftarrow> (if c = 0 then do {
                     now \<leftarrow> checked_add (tick_count s) 1;
                     Some (now, s\<lparr>tick_count := tick_count s + 1\<rparr>)
                   } else Some (tick_count s, s));
     s \<leftarrow> burn_quantum c s;
     Some (if earliest_timer_due s \<le> now then request_dispatch_interrupt c s else s)
   }"

definition best_here :: "ke \<Rightarrow> nat option" where
  "best_here s = (case List.map_filter (\<lambda>c. best_priority_in c s) [0..<MAX_CPUS] of
     [] \<Rightarrow> None
   | ps \<Rightarrow> Some (Max (set ps)))"

definition starvation_scan :: "ke \<Rightarrow> ke option" where
  "starvation_scan s = do {
     let now = tick_count s;
     if saturating_sub now (starve_last_scan s) \<ge> STARVE_SCAN_INTERVAL
     then boost_starved_locked now (s\<lparr>starve_last_scan := now\<rparr>) else Some s
   }"

definition reschedule :: "cpu \<Rightarrow> bool \<Rightarrow> ke \<Rightarrow> ke option" where
  "reschedule c q_end s = do {
     let cur = current_thread (prcbs s c);
     let idle = idle_thread (prcbs s c);
     let best = best_here s;
     (resched, s) \<leftarrow>
       (if cur = idle then Some (best \<noteq> None, s)
        else if q_end then do {
          let s = upd_thread cur (\<lambda>k. k\<lparr>kstate := Ready, quantum := DEFAULT_QUANTUM\<rparr>) s;
          s \<leftarrow> ready_thread_locked c cur s;
          Some (True, s)
        }
        else Some ((case best of None \<Rightarrow> False | Some b \<Rightarrow> b > unat (priority (threads s cur))), s));
     if resched then do {
       s \<leftarrow> (if cur \<noteq> idle \<and> kstate (threads s cur) = Running then
               ready_thread_locked c cur (upd_thread cur (\<lambda>k. k\<lparr>kstate := Ready\<rparr>) s)
             else Some s);
       switch_away_locked c cur s
     } else Some s
   }"

definition ki_dispatch_interrupt :: "dpc_routine \<Rightarrow> cpu \<Rightarrow> ke \<Rightarrow> ke option" where
  "ki_dispatch_interrupt routine c s = do {
     s \<leftarrow> ki_retire_dpcs routine c s;
     if \<not> initialized s then Some s
     else do {
       s \<leftarrow> ki_expire_timers c s;
       let q_end = quantum_end (prcbs s c);
       let s = upd_prcb c (\<lambda>p. p\<lparr>quantum_end := False\<rparr>) s;
       s \<leftarrow> starvation_scan s;
       reschedule c q_end s
     }
   }"

end
