(* ===== verification/Ke_Apc.thy ===== *)
theory Ke_Apc
  imports Ke_Timer
begin

text \<open>
  Kernel asynchronous procedure calls (\<^verbatim>\<open>kernel/src/ke/apc.rs\<close>): a queue of \<open>Kapc\<close> objects per thread, drained in the
  thread's context when it resumes from a wait or leaves the dispatch interrupt. An APC's kernel and normal routines
  are function pointers, 0 for none; the code they name is a parameter of the delivery. Interrupt request levels are
  not part of the state.
\<close>

definition kapc_new :: kapc where
  "kapc_new = \<lparr>kapc_inserted = False, kernel_routine = 0, normal_routine = 0, normal_context = 0, apc_arg1 = 0,
     apc_arg2 = 0, kapc_thread = 0\<rparr>"

definition upd_apc :: "nat \<Rightarrow> (kapc \<Rightarrow> kapc) \<Rightarrow> ke \<Rightarrow> ke" where
  "upd_apc a f s = s\<lparr>kapcs := (kapcs s)(a := f (kapcs s a))\<rparr>"

definition ke_initialize_apc :: "nat \<Rightarrow> tid \<Rightarrow> nat \<Rightarrow> nat \<Rightarrow> u64 \<Rightarrow> u64 \<Rightarrow> u64 \<Rightarrow> ke \<Rightarrow> ke" where
  "ke_initialize_apc apc thread kr nr context a1 a2 s =
     upd_apc apc (\<lambda>k. k\<lparr>kapc_inserted := False, kernel_routine := kr, normal_routine := nr, normal_context := context,
       apc_arg1 := a1, apc_arg2 := a2, kapc_thread := thread\<rparr>) s"

definition ke_insert_queue_apc :: "nat \<Rightarrow> tid \<Rightarrow> ke \<Rightarrow> bool \<times> ke" where
  "ke_insert_queue_apc apc thread s =
     (if thread = 0 \<or> kapc_thread (kapcs s apc) \<noteq> thread then (False, s)
      else if kapc_inserted (kapcs s apc) then (False, s)
      else (True, (upd_apc apc (\<lambda>k. k\<lparr>kapc_inserted := True\<rparr>) s)
              \<lparr>kapc_queue := (kapc_queue s)(thread := kapc_queue s thread @ [apc])\<rparr>))"

text \<open>What the callbacks of drivers do to the dispatcher: the routine of a DPC, and the two routines of an APC.\<close>

datatype callback = DpcCall nat | ApcKernelCall nat nat | ApcNormalCall nat u64 u64 u64

type_synonym callbacks = "cpu \<Rightarrow> callback \<Rightarrow> ke \<Rightarrow> ke option"

definition deliver_one :: "callbacks \<Rightarrow> cpu \<Rightarrow> nat \<Rightarrow> ke \<Rightarrow> ke option" where
  "deliver_one f c apc s = do {
     let s = upd_apc apc (\<lambda>k. k\<lparr>kapc_inserted := False\<rparr>) s;
     s \<leftarrow> (if kernel_routine (kapcs s apc) \<noteq> 0 then f c (ApcKernelCall (kernel_routine (kapcs s apc)) apc) s else Some s);
     if normal_routine (kapcs s apc) \<noteq> 0
     then f c (ApcNormalCall (normal_routine (kapcs s apc)) (normal_context (kapcs s apc)) (apc_arg1 (kapcs s apc)) (apc_arg2 (kapcs s apc))) s
     else Some s
   }"

partial_function (option) deliver_loop :: "callbacks \<Rightarrow> cpu \<Rightarrow> ke \<Rightarrow> ke option" where
  "deliver_loop f c s = (case kapc_queue s (current_thread (prcbs s c)) of
     [] \<Rightarrow> Some s
   | a # as \<Rightarrow> do {
       s \<leftarrow> deliver_one f c a (s\<lparr>kapc_queue := (kapc_queue s)(current_thread (prcbs s c) := as)\<rparr>);
       deliver_loop f c s
     })"

declare deliver_loop.simps [code]

definition ki_deliver_apcs :: "callbacks \<Rightarrow> cpu \<Rightarrow> ke \<Rightarrow> ke option" where
  "ki_deliver_apcs f c s =
     (if \<not> c < MAX_CPUS then Some s
      else if delivering s c then Some s
      else do {
        s \<leftarrow> deliver_loop f c (s\<lparr>delivering := (delivering s)(c := True)\<rparr>);
        Some (s\<lparr>delivering := (delivering s)(c := False)\<rparr>)
      })"

text \<open>
  What a thread does when it runs again: the rest of \<open>ki_wait_for_objects\<close> after the switch, and the end of
  \<open>ki_dispatch_interrupt\<close>, which the interrupted thread reaches at once when it is not switched out.
\<close>

definition ki_wait_resume :: "callbacks \<Rightarrow> cpu \<Rightarrow> ke \<Rightarrow> (nt_status \<times> ke) option" where
  "ki_wait_resume f c s = do {
     let status = wait_status (threads s (current_thread (prcbs s c)));
     s \<leftarrow> ki_deliver_apcs f c s;
     Some (status, s)
   }"

definition ki_dispatch_resume :: "callbacks \<Rightarrow> cpu \<Rightarrow> ke \<Rightarrow> ke option" where
  "ki_dispatch_resume f c s = ki_deliver_apcs f c s"

end
