(* ===== verification/Ke_Ready_Laws.thy ===== *)
theory Ke_Ready_Laws
  imports Ke_Timer
begin

text \<open>
  The ready queues: their well-formedness (the summary mask and the counter of a bank describe its queues, and the
  queued threads are exactly the ready ones, each once and in the queue of its priority), that the queue
  operations keep it, and that selection picks the oldest thread of the highest priority.
\<close>

named_theorems ke_upd \<open>the state updates of the dispatcher model, unfolded\<close>

lemmas [ke_upd] = upd_thread_def upd_obj_def upd_bank_def upd_prcb_def upd_block_def Let_def

section \<open>Well-formedness\<close>

definition bank_ok :: "ready_bank \<Rightarrow> bool" where
  "bank_ok b \<longleftrightarrow> (\<forall>p. bit (summary b) p \<longleftrightarrow> queues b p \<noteq> []) \<and> (\<forall>p. distinct (queues b p))
     \<and> bank_count b = (\<Sum>p<32. length (queues b p))"

definition placed :: "ke \<Rightarrow> tid \<Rightarrow> cpu \<Rightarrow> nat \<Rightarrow> bool" where
  "placed s t c p \<longleftrightarrow> t \<in> set (queues (banks s c) p)"

definition queued :: "ke \<Rightarrow> tid \<Rightarrow> bool" where
  "queued s t \<longleftrightarrow> (\<exists>c p. placed s t c p)"

definition queues_ok :: "ke \<Rightarrow> bool" where
  "queues_ok s \<longleftrightarrow> initialized s \<and> (\<forall>c. bank_ok (banks s c)) \<and> (\<forall>t c p. placed s t c p \<longrightarrow> t \<noteq> 0 \<and> c < MAX_CPUS \<and> p = slot_of (threads s t))
     \<and> (\<forall>t c p d q. placed s t c p \<longrightarrow> placed s t d q \<longrightarrow> c = d)"

text \<open>\<open>ready_but X\<close> is the invariant while the threads of \<open>X\<close> are on their way into or out of a queue.\<close>

definition ready_but :: "tid set \<Rightarrow> ke \<Rightarrow> bool" where
  "ready_but X s \<longleftrightarrow> queues_ok s
     \<and> (\<forall>t. queued s t \<longleftrightarrow> t \<notin> X \<and> kstate (threads s t) = Ready)"

lemma bit_u32_less: "bit (w :: u32) p \<Longrightarrow> p < 32"
  using bit_imp_le_length [of w p] by simp

lemma slot_of_less [simp]: "slot_of k < 32"
  by (simp add: slot_of_def)

lemma bank_ok_bit: "bank_ok b \<Longrightarrow> bit (summary b) p \<longleftrightarrow> queues b p \<noteq> []"
  by (simp add: bank_ok_def)

lemma bank_ok_high: "bank_ok b \<Longrightarrow> 32 \<le> p \<Longrightarrow> queues b p = []"
  using bit_u32_less [of "summary b" p] by (auto simp: bank_ok_def)

lemma sum_length_upd:
  fixes p :: nat
  assumes "p < 32"
  shows "(\<Sum>i<32. length ((f(p := q)) i)) + length (f p) = (\<Sum>i<32. length (f i)) + length q"
proof -
  have "(\<Sum>i<32. length (f i)) = length (f p) + (\<Sum>i\<in>{..<32} - {p}. length (f i))"
    using assms by (subst sum.remove [of _ p]) auto
  moreover have "(\<Sum>i<32. length ((f(p := q)) i)) = length q + (\<Sum>i\<in>{..<32} - {p}. length (f i))"
    using assms by (subst sum.remove [of _ p]) (auto intro: sum.cong)
  ultimately show ?thesis by simp
qed

section \<open>Enqueueing and dequeueing in one bank\<close>

definition enq :: "nat \<Rightarrow> tid \<Rightarrow> ready_bank \<Rightarrow> ready_bank" where
  "enq p t b = b\<lparr>queues := (queues b)(p := queues b p @ [t]), summary := summary b OR push_bit p 1,
     bank_count := bank_count b + 1\<rparr>"

definition deq :: "nat \<Rightarrow> tid \<Rightarrow> ready_bank \<Rightarrow> ready_bank" where
  "deq p t b = b\<lparr>queues := (queues b)(p := remove1 t (queues b p)),
     summary := (if remove1 t (queues b p) = [] then summary b AND NOT (push_bit p 1) else summary b),
     bank_count := bank_count b - 1\<rparr>"

lemma bank_upd_commute: "b\<lparr>bank_count := n, summary := w\<rparr> = b\<lparr>summary := w, bank_count := n\<rparr>" for b :: ready_bank
  by (cases b) simp

lemma push_bit_one_u32: "push_bit p (1 :: u32) = 2 ^ p"
  by (simp add: push_bit_eq_mult)

lemma enq_queues [simp]: "queues (enq p t b) = (queues b)(p := queues b p @ [t])"
  by (simp add: enq_def)

lemma deq_queues [simp]: "queues (deq p t b) = (queues b)(p := remove1 t (queues b p))"
  by (simp add: deq_def)

lemma enq_ok:
  assumes "bank_ok b" "p < 32" "t \<notin> set (queues b p)"
  shows "bank_ok (enq p t b)"
proof -
  have "(\<Sum>i<32. length (queues (enq p t b) i)) = bank_count b + 1"
    using sum_length_upd [OF assms(2), of "queues b" "queues b p @ [t]"] assms(1) by (simp add: bank_ok_def)
  moreover have "bit (summary (enq p t b)) q \<longleftrightarrow> queues (enq p t b) q \<noteq> []" for q
    using assms bit_set_one [of p "summary b" q] by (auto simp: bank_ok_def enq_def push_bit_one_u32)
  ultimately show ?thesis
    using assms by (simp add: bank_ok_def) (simp add: enq_def)
qed

lemma deq_ok:
  assumes "bank_ok b" "p < 32" "t \<in> set (queues b p)"
  shows "bank_ok (deq p t b)" and "0 < bank_count b"
proof -
  have len: "length (queues b p) = length (remove1 t (queues b p)) + 1"
    using assms(3) by (simp add: length_remove1) (metis One_nat_def Suc_pred length_pos_if_in_set)
  have "(\<Sum>i<32. length (queues (deq p t b) i)) + 1 = bank_count b"
    using sum_length_upd [OF assms(2), of "queues b" "remove1 t (queues b p)"] assms(1) len by (simp add: bank_ok_def)
  then have cnt: "(\<Sum>i<32. length (queues (deq p t b) i)) = bank_count b - 1" and "0 < bank_count b" by auto
  then show "0 < bank_count b" by simp
  have "bit (summary (deq p t b)) q \<longleftrightarrow> queues (deq p t b) q \<noteq> []" for q
    using assms bit_clear_one [of p "summary b" q] by (auto simp: bank_ok_def deq_def push_bit_one_u32)
  then show "bank_ok (deq p t b)"
    using assms(1) cnt by (simp add: bank_ok_def) (simp add: deq_def)
qed

section \<open>Moving threads\<close>

lemma placed_upd_bank [simp]:
  "placed (s\<lparr>banks := (banks s)(c := b)\<rparr>) t d p \<longleftrightarrow> (if d = c then t \<in> set (queues b p) else placed s t d p)"
  by (simp add: placed_def)

lemma ready_butD:
  assumes "ready_but X s"
  shows "bank_ok (banks s c)" "initialized s" "placed s t c p \<Longrightarrow> t \<noteq> 0 \<and> c < MAX_CPUS \<and> p = slot_of (threads s t)"
    "placed s t c p \<Longrightarrow> placed s t d q \<Longrightarrow> c = d" "queued s t \<longleftrightarrow> t \<notin> X \<and> kstate (threads s t) = Ready"
  using assms unfolding ready_but_def queues_ok_def by blast+

lemma ready_but_frame:
  assumes "ready_but X s" "banks s' = banks s" "initialized s' = initialized s"
    and "\<And>t. queued s t \<Longrightarrow> kstate (threads s' t) = Ready \<and> slot_of (threads s' t) = slot_of (threads s t)"
    and "\<And>t. t \<notin> X' \<Longrightarrow> kstate (threads s' t) = Ready \<Longrightarrow> queued s t"
    and "\<And>t. t \<in> X' \<Longrightarrow> \<not> queued s t"
  shows "ready_but X' s'"
proof -
  have p: "placed s' = placed s" using assms(2) by (simp add: placed_def fun_eq_iff)
  have "queues_ok s'"
    using assms(1-4) p unfolding ready_but_def queues_ok_def by (metis queued_def)
  moreover have "queued s' t \<longleftrightarrow> t \<notin> X' \<and> kstate (threads s' t) = Ready" for t
    using assms(4-6) p by (metis queued_def)
  ultimately show ?thesis by (simp add: ready_but_def)
qed

lemma ready_thread_locked_eq:
  "initialized s \<Longrightarrow> ready_thread_locked c t s = Some (upd_bank c (enq (slot_of (threads s t)) t)
     (upd_thread t (\<lambda>k. k\<lparr>kstate := Ready, ready_since := tick_count s\<rparr>) s))"
  by (simp add: ready_thread_locked_def ke_upd enq_def fun_eq_iff)

lemma ready_thread_locked_ok:
  assumes r: "ready_but X s" and t: "t \<noteq> 0" "\<not> queued s t" "c < MAX_CPUS"
    and X: "t \<in> X \<or> kstate (threads s t) \<noteq> Ready"
  shows "\<exists>s'. ready_thread_locked c t s = Some s' \<and> ready_but (X - {t}) s'
    \<and> s' = s\<lparr>threads := (threads s)(t := (threads s t)\<lparr>kstate := Ready, ready_since := tick_count s\<rparr>),
         banks := (banks s)(c := enq (slot_of (threads s t)) t (banks s c))\<rparr>"
proof -
  let ?p = "slot_of (threads s t)"
  let ?s = "s\<lparr>threads := (threads s)(t := (threads s t)\<lparr>kstate := Ready, ready_since := tick_count s\<rparr>),
         banks := (banks s)(c := enq ?p t (banks s c))\<rparr>"
  have run: "ready_thread_locked c t s = Some ?s"
    using ready_butD(2) [OF r] by (simp add: ready_thread_locked_eq ke_upd)
  have pl: "placed ?s u d q \<longleftrightarrow> placed s u d q \<or> (u = t \<and> d = c \<and> q = ?p)" for u d q
    by (auto simp: placed_def)
  have nq: "\<not> placed s t d q" for d q using t(2) by (auto simp: queued_def)
  have b: "bank_ok (banks ?s d)" for d
    using ready_butD(1) [OF r, of d] enq_ok [OF ready_butD(1) [OF r, of c], of ?p t] nq [of c ?p] by (simp add: placed_def)
  have slot: "slot_of (threads ?s u) = slot_of (threads s u)" for u by (simp add: slot_of_def)
  have ok: "queues_ok ?s"
    unfolding queues_ok_def pl slot using b ready_butD(2-4) [OF r] t nq by auto
  have "queued ?s u \<longleftrightarrow> queued s u \<or> u = t" for u using pl by (auto simp: queued_def)
  then have "ready_but (X - {t}) ?s"
    using ok ready_butD(5) [OF r] X by (auto simp: ready_but_def)
  with run show ?thesis by blast
qed

text \<open>Taking the thread \<open>t\<close> out of the queue it is placed in.\<close>

lemma take_out_ok:
  assumes r: "ready_but X s" and pl: "placed s t c p"
  shows "ready_but (insert t X) (s\<lparr>banks := (banks s)(c := deq p t (banks s c))\<rparr>)"
    and "0 < bank_count (banks s c)"
proof -
  let ?s = "s\<lparr>banks := (banks s)(c := deq p t (banks s c))\<rparr>"
  have p: "p < 32" using ready_butD(3) [OF r pl] by simp
  have d: "distinct (queues (banks s c) q)" for q using ready_butD(1) [OF r] by (simp add: bank_ok_def)
  note dq = deq_ok [OF ready_butD(1) [OF r] p, of t c]
  show "0 < bank_count (banks s c)" using dq(2) pl by (simp add: placed_def)
  have b: "bank_ok (banks ?s d)" for d
    using ready_butD(1) [OF r, of d] dq(1) pl by (simp add: placed_def)
  have "placed ?s u e q \<longleftrightarrow> placed s u e q \<and> \<not> (u = t \<and> e = c \<and> q = p)" for u e q
    using d by (auto simp: placed_def)
  then have pl': "placed ?s u e q \<longleftrightarrow> placed s u e q \<and> u \<noteq> t" for u e q
    using ready_butD(3,4) [OF r] pl by (metis (no_types, lifting))
  have ok: "queues_ok ?s"
    unfolding queues_ok_def pl' using b ready_butD(2-4) [OF r] by auto
  have "queued ?s u \<longleftrightarrow> queued s u \<and> u \<noteq> t" for u using pl' by (auto simp: queued_def)
  then show "ready_but (insert t X) ?s"
    using ok ready_butD(5) [OF r] by (auto simp: ready_but_def)
qed

section \<open>Selection\<close>

lemma rev_upt_split: "p < n \<Longrightarrow> rev [0..<n] = rev [Suc p..<n] @ p # rev [0..<p]"
proof -
  assume "p < n"
  then have "[0..<n] = [0..<p] @ p # [Suc p..<n]"
    using upt_add_eq_append [of 0 p "n - p"] upt_conv_Cons [of p n] by simp
  then show ?thesis by simp
qed

lemma highest_bit:
  assumes "(w :: u32) \<noteq> 0"
  shows "bit w (31 - leading_zeros w)" and "\<And>q. bit w q \<Longrightarrow> q \<le> 31 - leading_zeros w"
proof -
  obtain n where n: "bit w n" using assms by (metis bit_eqI bit_0_eq bot_apply bot_bool_def)
  define p where "p = Max {q. q < 32 \<and> bit w q}"
  have f: "finite {q. q < 32 \<and> bit w q}" by simp
  have "p \<in> {q. q < 32 \<and> bit w q}"
    unfolding p_def using n bit_u32_less [OF n] by (intro Max_in f) auto
  then have p: "p < 32" "bit w p" by auto
  have top: "q \<le> p" if "bit w q" for q
    using Max_ge [OF f, of q] that bit_u32_less [OF that] by (simp add: p_def)
  have "takeWhile (\<lambda>q. \<not> bit w q) (rev [Suc p..<32] @ p # rev [0..<p]) = rev [Suc p..<32]"
    using p(2) top by (subst takeWhile_append2) (auto dest: top)
  then have "leading_zeros w = length (rev [Suc p..<32])"
    unfolding leading_zeros_def rev_upt_split [OF p(1)] by (rule arg_cong)
  then have "leading_zeros w = 31 - p" by simp
  then have "31 - leading_zeros w = p" using p(1) by simp
  with p top show "bit w (31 - leading_zeros w)" "\<And>q. bit w q \<Longrightarrow> q \<le> 31 - leading_zeros w" by auto
qed

lemma best_priority_in_None:
  "bank_ok (banks s c) \<Longrightarrow> best_priority_in c s = None \<longleftrightarrow> (\<forall>p. queues (banks s c) p = [])"
  using highest_bit(1) [of "summary (banks s c)"]
  by (auto simp: best_priority_in_def Let_def bank_ok_def)

lemma best_priority_in_Some:
  assumes "bank_ok (banks s c)"
  shows "best_priority_in c s = Some p \<longleftrightarrow>
    queues (banks s c) p \<noteq> [] \<and> (\<forall>q>p. queues (banks s c) q = [])"
proof -
  let ?w = "summary (banks s c)"
  have b: "bit ?w q \<longleftrightarrow> queues (banks s c) q \<noteq> []" for q using assms by (simp add: bank_ok_def)
  show ?thesis
  proof (cases "?w = 0")
    case True
    then show ?thesis using b by (auto simp: best_priority_in_def)
  next
    case False
    have "(31 - leading_zeros ?w = p) \<longleftrightarrow> bit ?w p \<and> (\<forall>q>p. \<not> bit ?w q)"
    proof (intro iffI conjI allI impI)
      assume "bit ?w p \<and> (\<forall>q>p. \<not> bit ?w q)"
      then show "31 - leading_zeros ?w = p"
        using highest_bit(1) [OF False] highest_bit(2) [OF False, of p] by (metis linorder_cases not_le)
    next
      fix q assume "31 - leading_zeros ?w = p" "p < q"
      then show "\<not> bit ?w q" using highest_bit(2) [OF False, of q] by auto
    qed (use highest_bit(1) [OF False] in auto)
    with False b show ?thesis by (simp add: best_priority_in_def Let_def)
  qed
qed

lemma best_other_spec:
  "best_other ds c s best = Some (p, d) \<Longrightarrow>
     (best = Some (p, d) \<or> (d \<in> set ds \<and> d \<noteq> c \<and> best_priority_in d s = Some p))
     \<and> (\<forall>e\<in>set ds. e \<noteq> c \<longrightarrow> (\<forall>q. best_priority_in e s = Some q \<longrightarrow> q \<le> p))
     \<and> (\<forall>q e. best = Some (q, e) \<longrightarrow> q \<le> p)"
proof (induction ds c s best rule: best_other.induct)
  case (2 d' ds c s best)
  then show ?case
    by (cases "best_priority_in d' s"; cases best) (auto split: if_splits)
qed simp

lemma best_other_None:
  "best_other ds c s best = None \<longleftrightarrow>
     best = None \<and> (\<forall>e\<in>set ds. e \<noteq> c \<longrightarrow> best_priority_in e s = None)"
  by (induction ds c s best rule: best_other.induct) (auto split: option.splits)

lemma pop_at_ok:
  assumes r: "ready_but X s" and q: "queues (banks s c) p = t # ts"
  shows "pop_at c p s = Some (t, s\<lparr>banks := (banks s)(c := deq p t (banks s c))\<rparr>)"
proof -
  have "placed s t c p" using q by (simp add: placed_def)
  then have "0 < bank_count (banks s c)" by (rule take_out_ok(2) [OF r])
  then show ?thesis using q by (simp add: pop_at_def ke_upd deq_def bank_upd_commute)
qed

text \<open>
  What selection promises: a thread of its own bank when that holds one, otherwise one of another bank, in each
  case the oldest of the highest priority there.
\<close>

definition picks :: "ke \<Rightarrow> cpu \<Rightarrow> tid \<Rightarrow> cpu \<Rightarrow> nat \<Rightarrow> bool" where
  "picks s c t d p \<longleftrightarrow> (\<exists>ts. queues (banks s d) p = t # ts) \<and> (\<forall>q>p. queues (banks s d) q = [])
     \<and> (d \<noteq> c \<longrightarrow> (\<forall>q. queues (banks s c) q = []) \<and> (\<forall>e q. q > p \<longrightarrow> queues (banks s e) q = []))"

lemma select_next_locked_spec:
  assumes r: "ready_but X s" and c: "c < MAX_CPUS"
  shows "(\<forall>t. \<not> queued s t) \<and> select_next_locked c s = Some (0, s)
    \<or> (\<exists>t d p n. picks s c t d p \<and> placed s t d p \<and> select_next_locked c s =
          Some (t, s\<lparr>banks := (banks s)(d := deq p t (banks s d)), steals := n\<rparr>))"
proof (cases "best_priority_in c s")
  case (Some p)
  note B = best_priority_in_Some [OF ready_butD(1) [OF r]]
  obtain t ts where q: "queues (banks s c) p = t # ts"
    using Some B by (metis list.exhaust)
  have "select_next_locked c s = Some (t, s\<lparr>banks := (banks s)(c := deq p t (banks s c))\<rparr>)"
    using Some pop_at_ok [OF r q] by (simp add: select_next_locked_def)
  moreover have "picks s c t c p" using Some B q by (auto simp: picks_def)
  moreover have "placed s t c p" using q by (simp add: placed_def)
  ultimately show ?thesis by (metis (no_types, lifting) ke.surjective ke.update_convs(3,10))
next
  case None
  note B = best_priority_in_Some [OF ready_butD(1) [OF r]]
  note N = best_priority_in_None [OF ready_butD(1) [OF r]]
  have far: "queues (banks s e) q = []" if "\<not> e < MAX_CPUS" for e q
    using that ready_butD(3) [OF r, of _ e q] by (cases "queues (banks s e) q") (auto simp: placed_def)
  show ?thesis
  proof (cases "best_other [0..<MAX_CPUS] c s None")
    case o: None
    then have "best_priority_in e s = None" if "e < MAX_CPUS" for e
      using that None by (cases "e = c") (auto simp: best_other_None)
    then have "queues (banks s e) q = []" for e q
      using N far by (cases "e < MAX_CPUS") blast+
    then have "\<not> queued s t" for t by (simp add: queued_def placed_def)
    with None o show ?thesis by (simp add: select_next_locked_def)
  next
    case (Some pd)
    obtain p d where o: "best_other [0..<MAX_CPUS] c s None = Some (p, d)" using Some by (cases pd) auto
    note sp = best_other_spec [OF o]
    from sp have d: "d \<noteq> c" "best_priority_in d s = Some p" by auto
    obtain t ts where q: "queues (banks s d) p = t # ts" using d(2) B by (metis list.exhaust)
    have high: "queues (banks s e) q = []" if "p < q" for e q
    proof (cases "e < MAX_CPUS")
      case True
      show ?thesis
      proof (cases "best_priority_in e s")
        case e: (Some r)
        then have "r \<le> p" using sp True None by (cases "e = c") auto
        with e that show ?thesis using B by auto
      qed (use N in auto)
    qed (rule far)
    have "ready_but X (s\<lparr>steals := steals s + 1\<rparr>)"
      using r by (rule ready_but_frame) (auto simp: ready_butD(5) [OF r])
    then have "select_next_locked c s = Some (t, s\<lparr>banks := (banks s)(d := deq p t (banks s d)), steals := steals s + 1\<rparr>)"
      using None o pop_at_ok [of X "s\<lparr>steals := steals s + 1\<rparr>" d p t ts] q
      by (simp add: select_next_locked_def)
    moreover have "picks s c t d p" using q high None N by (auto simp: picks_def)
    moreover have "placed s t d p" using q by (simp add: placed_def)
    ultimately show ?thesis by blast
  qed
qed

end
