(* ===== verification/Ke_Switch_Laws.thy ===== *)
theory Ke_Switch_Laws
  imports Ke_Ready_Laws
begin

text \<open>
  Who runs where: every online processor runs one thread, no thread runs on two, and the context
  switch keeps this together with the ready queues, touching nothing that concerns waits and timers.
\<close>

section \<open>Running threads\<close>

definition cpus :: "ke \<Rightarrow> cpu set" where
  "cpus s = {c. c < MAX_CPUS \<and> online (prcbs s c)}"

abbreviation current :: "ke \<Rightarrow> cpu \<Rightarrow> tid" where
  "current s c \<equiv> current_thread (prcbs s c)"

abbreviation idle :: "ke \<Rightarrow> cpu \<Rightarrow> tid" where
  "idle s c \<equiv> idle_thread (prcbs s c)"

text \<open>\<open>running_but E\<close> is the invariant while the current threads of the processors \<open>E\<close> are giving them up.\<close>

definition running_but :: "cpu set \<Rightarrow> ke \<Rightarrow> bool" where
  "running_but E s \<longleftrightarrow>
     (\<forall>c\<in>cpus s. current s c \<noteq> 0 \<and> idle s c \<noteq> 0 \<and> kstate (threads s (idle s c)) = Running
        \<and> (c \<notin> E \<longrightarrow> kstate (threads s (current s c)) = Running))
   \<and> (\<forall>c\<in>cpus s. \<forall>d\<in>cpus s. (current s c = current s d \<or> idle s c = idle s d \<or> current s c = idle s d) \<longrightarrow> c = d)
   \<and> (\<forall>t. kstate (threads s t) = Running \<longrightarrow> (\<exists>c\<in>cpus s. t = current s c \<or> t = idle s c))"

lemma running_butD:
  assumes "running_but E s" "c \<in> cpus s"
  shows "current s c \<noteq> 0" "idle s c \<noteq> 0" "kstate (threads s (idle s c)) = Running"
    "c \<notin> E \<Longrightarrow> kstate (threads s (current s c)) = Running"
    "d \<in> cpus s \<Longrightarrow> current s c = current s d \<Longrightarrow> c = d"
    "d \<in> cpus s \<Longrightarrow> idle s c = idle s d \<Longrightarrow> c = d"
    "d \<in> cpus s \<Longrightarrow> current s c = idle s d \<Longrightarrow> c = d"
  using assms unfolding running_but_def by blast+

lemma running_but_frame:
  assumes "running_but E s"
    and "\<And>c. online (prcbs s' c) = online (prcbs s c) \<and> current s' c = current s c \<and> idle s' c = idle s c"
    and "\<And>t. (kstate (threads s' t) = Running) = (kstate (threads s t) = Running)"
  shows "running_but E s'"
proof -
  have "cpus s' = cpus s" using assms(2) by (simp add: cpus_def)
  then show ?thesis using assms unfolding running_but_def by simp
qed

section \<open>What scheduling leaves alone\<close>

definition waitv :: "kthread \<Rightarrow> (nat \<Rightarrow> kwait_block) \<times> wait_type \<times> nat \<times> bool \<times> bool" where
  "waitv k = (wait_blocks k, wait_typ k, wait_count k, wait_timed k, kstate k = Waiting)"

definition same_waits :: "ke \<Rightarrow> ke \<Rightarrow> bool" where
  "same_waits s s' \<longleftrightarrow> objs s' = objs s \<and> timer_list s' = timer_list s
     \<and> earliest_timer_due s' = earliest_timer_due s
     \<and> (\<forall>t. waitv (threads s' t) = waitv (threads s t))"

lemma same_waits_refl [simp]: "same_waits s s"
  by (simp add: same_waits_def)

lemma same_waits_trans: "same_waits s s' \<Longrightarrow> same_waits s' s'' \<Longrightarrow> same_waits s s''"
  by (auto simp: same_waits_def)

lemma same_waits_ipi [simp]:
  "threads (ipi_all ds s) = threads s" "objs (ipi_all ds s) = objs s" "banks (ipi_all ds s) = banks s"
  "timer_list (ipi_all ds s) = timer_list s" "initialized (ipi_all ds s) = initialized s"
  "tick_count (ipi_all ds s) = tick_count s" "earliest_timer_due (ipi_all ds s) = earliest_timer_due s"
  "online (prcbs (ipi_all ds s) c) = online (prcbs s c)" "current (ipi_all ds s) c = current s c"
  "idle (ipi_all ds s) c = idle s c" "dpc_queue (ipi_all ds s) = dpc_queue s" "dpc_inserted (ipi_all ds s) = dpc_inserted s"
  by (induction ds s rule: ipi_all.induct) (auto simp: request_dispatch_interrupt_def ke_upd)

text \<open>Requesting interrupts changes nothing but the pending flags.\<close>

definition only_ipis :: "ke \<Rightarrow> ke \<Rightarrow> bool" where
  "only_ipis s s' \<longleftrightarrow> threads s' = threads s \<and> objs s' = objs s \<and> banks s' = banks s \<and> timer_list s' = timer_list s
     \<and> initialized s' = initialized s \<and> tick_count s' = tick_count s \<and> earliest_timer_due s' = earliest_timer_due s
     \<and> (\<forall>c. online (prcbs s' c) = online (prcbs s c) \<and> current s' c = current s c \<and> idle s' c = idle s c)"

lemma only_ipis_request: "only_ipis s (request_dispatch_interrupt c s)"
  by (simp add: only_ipis_def request_dispatch_interrupt_def ke_upd)

lemma only_ipis_request_ipi: "only_ipis s (request_dispatch_ipi c s)"
  using only_ipis_request [of s c]
  by (auto simp: only_ipis_def request_dispatch_ipi_def ipi_idle_cpus_def send_ipi_all_but_self_def Let_def)

lemma only_ipis_nudge: "only_ipis s (nudge c n s)"
  using only_ipis_request_ipi [of s c] by (auto simp: nudge_def only_ipis_def)

lemma only_ipis_ready: "only_ipis s s' \<Longrightarrow> ready_but X s \<Longrightarrow> ready_but X s'"
  by (rule ready_but_frame) (auto simp: only_ipis_def ready_butD(5))

lemma only_ipis_running: "only_ipis s s' \<Longrightarrow> running_but E s \<Longrightarrow> running_but E s'"
  by (rule running_but_frame) (auto simp: only_ipis_def)

lemma only_ipis_waits: "only_ipis s s' \<Longrightarrow> same_waits s s'"
  by (simp add: only_ipis_def same_waits_def)

section \<open>The context switch\<close>

text \<open>Loading the context of a thread touches only the registers of the processor.\<close>

definition only_regs :: "ke \<Rightarrow> ke \<Rightarrow> bool" where
  "only_regs s s' \<longleftrightarrow> (\<exists>f. s' = s\<lparr>prcbs := f\<rparr> \<and> (\<forall>d. online (f d) = online (prcbs s d) \<and> idle_thread (f d) = idle s d
     \<and> current_thread (f d) = current s d))"

lemma only_regs_trans [trans]: "only_regs s s' \<Longrightarrow> only_regs s' s'' \<Longrightarrow> only_regs s s''"
  by (force simp: only_regs_def)

lemma only_regs_self: "(\<And>d. online (f d) = online (prcbs s d) \<and> idle_thread (f d) = idle s d \<and> current_thread (f d) = current s d)
    \<Longrightarrow> only_regs s (s\<lparr>prcbs := f\<rparr>)"
  by (auto simp: only_regs_def)

lemma only_regs_refl: "only_regs s s"
  using only_regs_self [of "prcbs s" s] by simp

lemma only_regs_loads:
  "only_regs s (set_halting c b s)" "only_regs s (load_stacks c t s)" "only_regs s (load_space c t s)" "only_regs s (load_gs c t s)"
  using only_regs_refl
  by (auto simp: set_halting_def load_stacks_def load_space_def load_gs_def ke_upd intro!: only_regs_self split: if_splits)

definition decayed :: "kthread \<Rightarrow> kthread" where
  "decayed k = (if boosted k then k\<lparr>boosted := False, priority := base_priority k\<rparr> else k)"

lemma decay_boost_eq: "decay_boost_locked t s = s\<lparr>threads := (threads s)(t := decayed (threads s t))\<rparr>"
  by (simp add: decay_boost_locked_def decayed_def ke_upd)

lemma decayed_kstate [simp]: "kstate (decayed k) = kstate k" "waitv (decayed k) = waitv k"
  by (simp_all add: decayed_def waitv_def)

lemma switch_to_regs:
  "\<exists>f. switch_to c t s = s\<lparr>threads := (threads s)(t := (decayed (threads s t))\<lparr>kstate := Running, quantum := DEFAULT_QUANTUM\<rparr>),
        prcbs := f\<rparr> \<and> (\<forall>d. online (f d) = online (prcbs s d) \<and> idle_thread (f d) = idle s d
     \<and> current_thread (f d) = (if d = c then t else current s d))"
proof -
  let ?s = "upd_prcb c (\<lambda>p. p\<lparr>current_thread := t\<rparr>) (upd_thread t (\<lambda>k. k\<lparr>kstate := Running, quantum := DEFAULT_QUANTUM\<rparr>)
    (decay_boost_locked t s))"
  have "only_regs ?s (switch_to c t s)"
    unfolding switch_to_def Let_def by (meson only_regs_loads only_regs_trans)
  then obtain f where f: "switch_to c t s = ?s\<lparr>prcbs := f\<rparr>" "\<forall>d. online (f d) = online (prcbs ?s d) \<and> idle_thread (f d) = idle ?s d
     \<and> current_thread (f d) = current ?s d"
    by (auto simp: only_regs_def)
  show ?thesis
    unfolding f(1) by (rule exI [of _ f]) (use f(2) in \<open>simp add: decay_boost_eq ke_upd\<close>)
qed

lemma switch_to_frame [simp]:
  "objs (switch_to c t s) = objs s" "banks (switch_to c t s) = banks s" "timer_list (switch_to c t s) = timer_list s"
  "initialized (switch_to c t s) = initialized s" "tick_count (switch_to c t s) = tick_count s"
  "earliest_timer_due (switch_to c t s) = earliest_timer_due s" "online (prcbs (switch_to c t s) d) = online (prcbs s d)"
  "idle (switch_to c t s) d = idle s d" "current (switch_to c t s) d = (if d = c then t else current s d)"
  "dpc_queue (switch_to c t s) = dpc_queue s" "dpc_inserted (switch_to c t s) = dpc_inserted s"
proof -
  obtain f where f: "switch_to c t s = s\<lparr>threads := (threads s)(t := (decayed (threads s t))\<lparr>kstate := Running, quantum := DEFAULT_QUANTUM\<rparr>), prcbs := f\<rparr>"
    and g: "\<And>d. online (f d) = online (prcbs s d) \<and> idle_thread (f d) = idle s d \<and> current_thread (f d) = (if d = c then t else current s d)"
    using switch_to_regs [of c t s] by metis
  show "online (prcbs (switch_to c t s) d) = online (prcbs s d)" "idle (switch_to c t s) d = idle s d"
    "current (switch_to c t s) d = (if d = c then t else current s d)"
    unfolding f using g by simp_all
qed (use switch_to_regs [of c t s] in \<open>elim exE conjE, simp\<close>)+

lemma switch_to_threads:
  "threads (switch_to c t s) = (threads s)(t := (decayed (threads s t))\<lparr>kstate := Running, quantum := DEFAULT_QUANTUM\<rparr>)"
  using switch_to_regs [of c t s] by (elim exE conjE) simp

lemma switch_to_kstate: "kstate (threads (switch_to c t s) u) = (if u = t then Running else kstate (threads s u))"
  by (simp add: switch_to_threads)

lemma switch_to_waitv:
  "kstate (threads s t) \<noteq> Waiting \<Longrightarrow> waitv (threads (switch_to c t s) u) = waitv (threads s u)"
  by (simp add: switch_to_threads waitv_def decayed_def)

text \<open>
  The thread chosen by a switch on processor \<open>c\<close>: what selection picks, or the idle thread when every queue is
  empty.
\<close>

definition chosen :: "ke \<Rightarrow> cpu \<Rightarrow> tid \<Rightarrow> bool" where
  "chosen s c t \<longleftrightarrow> (\<exists>d p. picks s c t d p) \<or> (\<forall>u. \<not> queued s u) \<and> t = idle s c"

text \<open>The state in which the next thread has left its queue and the current one is in its new state.\<close>

lemma install_ready:
  assumes "ready_but {t} s" "kstate (threads s t) = Ready"
    and "\<And>u. u \<noteq> t \<Longrightarrow> threads s' u = threads s u" "kstate (threads s' t) = Running"
    and "banks s' = banks s" "initialized s' = initialized s"
  shows "ready_but {} s'"
proof (rule ready_but_frame [OF assms(1,5,6)])
  fix u assume "queued s u"
  then have "u \<noteq> t" "kstate (threads s u) = Ready" using ready_butD(5) [OF assms(1)] by auto
  then show "kstate (threads s' u) = Ready \<and> slot_of (threads s' u) = slot_of (threads s u)"
    using assms(3) by simp
next
  fix u assume "kstate (threads s' u) = Ready"
  then show "queued s u" using assms(3,4) ready_butD(5) [OF assms(1)] by (cases "u = t") auto
qed simp

lemma install_running:
  assumes r: "running_but {c} s" and c: "c \<in> cpus s"
    and cur: "kstate (threads s (current s c)) = Running \<Longrightarrow> current s c = idle s c"
    and t: "t \<noteq> 0" "kstate (threads s t) \<noteq> Running \<or> t = idle s c"
    and s': "\<And>u. kstate (threads s' u) = (if u = t then Running else kstate (threads s u))"
      "\<And>d. online (prcbs s' d) = online (prcbs s d) \<and> idle s' d = idle s d
         \<and> current s' d = (if d = c then t else current s d)"
  shows "running_but {} s'"
proof -
  have cpus: "cpus s' = cpus s" using s'(2) by (simp add: cpus_def)
  note D = running_butD [OF r]
  have new: "d = c" if "d \<in> cpus s" "current s d = t \<or> idle s d = t" for d
    using that D(3,4) [OF that(1)] D(6,7) [OF that(1) c] t(2) by (metis singletonD)
  show ?thesis
    unfolding running_but_def cpus
  proof (intro conjI ballI allI impI)
    fix u assume u: "kstate (threads s' u) = Running"
    show "\<exists>d\<in>cpus s. u = current s' d \<or> u = idle s' d"
    proof (cases "u = t")
      case False
      then obtain d where d: "d \<in> cpus s" "u = current s d \<or> u = idle s d"
        using u s'(1) r unfolding running_but_def by auto
      show ?thesis using d s'(2) cur u False s'(1) by (metis (full_types))
    qed (use c s'(2) in auto)
  next
    fix d e assume "d \<in> cpus s" "e \<in> cpus s"
      and "current s' d = current s' e \<or> idle s' d = idle s' e \<or> current s' d = idle s' e"
    then show "d = e" using s'(2) new D(5-7) c by (metis (no_types, lifting))
  qed (use D c s' t in auto)
qed

lemma switch_away_ok:
  assumes r: "ready_but {} s" and u: "running_but {c} s" and c: "c \<in> cpus s"
    and cur: "kstate (threads s (current s c)) = Running \<Longrightarrow> current s c = idle s c"
  shows "\<exists>s'. switch_away_locked c (current s c) s = Some s' \<and> ready_but {} s' \<and> running_but {} s'
     \<and> same_waits s s' \<and> chosen s c (current s' c) \<and> (\<forall>d. d \<noteq> c \<longrightarrow> current s' d = current s d)
     \<and> (\<forall>u. u \<noteq> current s' c \<longrightarrow> threads s' u = threads s u)
     \<and> cpus s' = cpus s \<and> (\<forall>d. idle s' d = idle s d) \<and> dpc_queue s' = dpc_queue s \<and> dpc_inserted s' = dpc_inserted s"
proof -
  have c8: "c < MAX_CPUS" using c by (simp add: cpus_def)
  have idle: "idle s c \<noteq> 0" "kstate (threads s (idle s c)) = Running" using running_butD [OF u c] by auto
  consider (none) "\<forall>t. \<not> queued s t" "select_next_locked c s = Some (0, s)"
    | (some) t d p n where "picks s c t d p" "placed s t d p"
        "select_next_locked c s = Some (t, s\<lparr>banks := (banks s)(d := deq p t (banks s d)), steals := n\<rparr>)"
    using select_next_locked_spec [OF r c8] by blast
  then show ?thesis
  proof cases
    case none
    let ?s = "if idle s c = current s c then upd_thread (current s c) (\<lambda>k. k\<lparr>kstate := Running\<rparr>) s else switch_to c (idle s c) s"
    have run: "switch_away_locked c (current s c) s = Some ?s"
      using none(2) by (simp add: switch_away_locked_def Let_def)
    have ks: "kstate (threads ?s v) = (if v = idle s c then Running else kstate (threads s v))" for v
      using idle by (simp add: switch_to_kstate ke_upd)
    have fr: "banks ?s = banks s" "initialized ?s = initialized s" "cpus ?s = cpus s" "objs ?s = objs s"
      by (simp_all add: ke_upd cpus_def)
    have "ready_but {} ?s"
      using r fr(1,2) by (rule ready_but_frame) (use none(1) ready_butD(5) [OF r] ks idle in \<open>auto split: if_splits\<close>)
    moreover have "running_but {} ?s"
      by (rule install_running [OF u c cur, of "idle s c"]) (use idle ks in \<open>auto simp: ke_upd\<close>)
    moreover have "same_waits s ?s"
      using idle switch_to_waitv [of s "idle s c" c] by (simp add: same_waits_def) (auto simp: ke_upd waitv_def)
    moreover have "chosen s c (current ?s c)"
      using none(1) by (simp add: chosen_def) (simp add: ke_upd)
    moreover have "threads ?s v = threads s v" if "v \<noteq> current ?s c" for v
      using that by (auto simp: ke_upd switch_to_threads split: if_splits)
    ultimately show ?thesis using run fr by (auto simp: ke_upd)
  next
    case some
    let ?m = "s\<lparr>banks := (banks s)(d := deq p t (banks s d)), steals := n\<rparr>"
    let ?s = "if t = current s c then upd_thread (current s c) (\<lambda>k. k\<lparr>kstate := Running\<rparr>) ?m else switch_to c t ?m"
    have t: "t \<noteq> 0" "kstate (threads s t) = Ready"
      using ready_butD(3) [OF r some(2)] ready_butD(5) [OF r, of t] some(2) by (auto simp: queued_def)
    have run: "switch_away_locked c (current s c) s = Some ?s"
      using some(3) t(1) by (simp add: switch_away_locked_def Let_def)
    have "ready_but {t} ?m"
      using take_out_ok(1) [OF r some(2)] by (rule ready_but_frame) (auto simp: ready_butD(5) [OF take_out_ok(1) [OF r some(2)]])
    then have "ready_but {} ?s"
      by (rule install_ready) (use t in \<open>auto simp: ke_upd switch_to_threads\<close>)
    moreover have "running_but {} ?s"
      by (rule install_running [OF u c cur, of t]) (use t in \<open>auto simp: ke_upd switch_to_kstate\<close>)
    moreover have "same_waits s ?s"
      using t switch_to_waitv [of ?m t c] by (simp add: same_waits_def) (auto simp: ke_upd waitv_def)
    moreover have "chosen s c (current ?s c)"
      using some(1) by (auto simp: chosen_def ke_upd)
    moreover have "threads ?s v = threads s v" if "v \<noteq> current ?s c" for v
      using that by (auto simp: ke_upd switch_to_threads split: if_splits)
    ultimately show ?thesis using run by (auto simp: ke_upd cpus_def)
  qed
qed

end
