(* ===== verification/Ke_Resched_Laws.thy ===== *)
theory Ke_Resched_Laws
  imports Ke_Switch_Laws
begin

text \<open>
  Starvation relief and the rescheduling step of the dispatch interrupt: that both keep the queues and the running
  threads well-formed, which threads the relief lifts, and which thread the processor runs afterwards.
\<close>

section \<open>Starvation relief\<close>

text \<open>
  \<open>boosts s s'\<close>: only the banks and the boost fields of threads differ, a boosted thread is at the boost priority,
  and nothing leaves the queues of that priority.
\<close>

definition lifted :: "kthread \<Rightarrow> kthread" where
  "lifted k = k\<lparr>boosted := True, priority := BOOST_PRIORITY\<rparr>"

definition boosts :: "ke \<Rightarrow> ke \<Rightarrow> bool" where
  "boosts s s' \<longleftrightarrow> (\<exists>th bk. s' = s\<lparr>threads := th, banks := bk\<rparr> \<and> (\<forall>t. th t = threads s t \<or> th t = lifted (threads s t))
     \<and> (\<forall>t c. placed s t c 15 \<longrightarrow> placed s' t c 15))"

lemma lifted_lifted [simp]: "lifted (lifted k) = lifted k"
  by (simp add: lifted_def)

lemma lifted_fields [simp]: "kstate (lifted k) = kstate k" "ready_since (lifted k) = ready_since k" "waitv (lifted k) = waitv k"
  "slot_of (lifted k) = 15"
  by (simp_all add: lifted_def waitv_def slot_of_def BOOST_PRIORITY_def)

lemma boosts_refl [simp]: "boosts s s"
  unfolding boosts_def by (intro exI [of _ "threads s"] exI [of _ "banks s"]) simp

lemma boosts_trans:
  assumes "boosts s s'" "boosts s' s''"
  shows "boosts s s''"
proof -
  obtain th bk where 1: "s' = s\<lparr>threads := th, banks := bk\<rparr>" "\<And>t. th t = threads s t \<or> th t = lifted (threads s t)"
    "\<And>t c. placed s t c 15 \<Longrightarrow> placed s' t c 15"
    using assms(1) by (auto simp: boosts_def)
  obtain th' bk' where 2: "s'' = s'\<lparr>threads := th', banks := bk'\<rparr>" "\<And>t. th' t = threads s' t \<or> th' t = lifted (threads s' t)"
    "\<And>t c. placed s' t c 15 \<Longrightarrow> placed s'' t c 15"
    using assms(2) by (auto simp: boosts_def)
  have "s'' = s\<lparr>threads := th', banks := bk'\<rparr>" using 1(1) 2(1) by simp
  moreover have "th' t = threads s t \<or> th' t = lifted (threads s t)" for t
    using 1(2) [of t] 2(2) [of t] by (auto simp: 1(1))
  moreover have "placed s'' t c 15" if "placed s t c 15" for t c using 1(3) 2(3) that by blast
  ultimately show ?thesis unfolding boosts_def by blast
qed

lemma boostsD:
  assumes "boosts s s'"
  shows "objs s' = objs s" "prcbs s' = prcbs s" "timer_list s' = timer_list s" "initialized s' = initialized s"
    "tick_count s' = tick_count s" "earliest_timer_due s' = earliest_timer_due s" "dpc_queue s' = dpc_queue s"
    "dpc_inserted s' = dpc_inserted s" "kstate (threads s' t) = kstate (threads s t)"
    "ready_since (threads s' t) = ready_since (threads s t)" "waitv (threads s' t) = waitv (threads s t)"
    "placed s t c 15 \<Longrightarrow> placed s' t c 15"
proof -
  obtain th bk where s': "s' = s\<lparr>threads := th, banks := bk\<rparr>" and th: "\<And>t. th t = threads s t \<or> th t = lifted (threads s t)"
    and p: "\<And>t c. placed s t c 15 \<Longrightarrow> placed s' t c 15"
    using assms by (auto simp: boosts_def)
  show "placed s t c 15 \<Longrightarrow> placed s' t c 15" by (rule p)
  show "objs s' = objs s" "prcbs s' = prcbs s" "timer_list s' = timer_list s" "initialized s' = initialized s"
    "tick_count s' = tick_count s" "earliest_timer_due s' = earliest_timer_due s" "dpc_queue s' = dpc_queue s"
    "dpc_inserted s' = dpc_inserted s"
    by (simp_all add: s')
  show "kstate (threads s' t) = kstate (threads s t)" "ready_since (threads s' t) = ready_since (threads s t)"
    "waitv (threads s' t) = waitv (threads s t)"
    using th [of t] by (auto simp: s')
qed

lemma boost_one_eq:
  assumes "0 < bank_count (banks s c)" "placed s t c p" "p < 15"
  shows "boost_one c p t s = Some (s\<lparr>banks := (banks s)(c := enq 15 t (deq p t (banks s c))),
    threads := (threads s)(t := lifted (threads s t))\<rparr>)"
  using assms by (simp add: boost_one_def ke_upd enq_def deq_def lifted_def placed_def BOOST_PRIORITY_def bank_upd_commute)

lemma boost_one_ok:
  assumes r: "ready_but {} s" and pl: "placed s t c p" and p: "p < 15"
  shows "\<exists>s'. boost_one c p t s = Some s' \<and> ready_but {} s' \<and> boosts s s' \<and> placed s' t c 15
    \<and> queues (banks s' c) p = remove1 t (queues (banks s c) p)
    \<and> (\<forall>d q. q \<noteq> 15 \<longrightarrow> (d, q) \<noteq> (c, p) \<longrightarrow> queues (banks s' d) q = queues (banks s d) q)"
proof -
  let ?m = "s\<lparr>banks := (banks s)(c := deq p t (banks s c))\<rparr>"
  let ?n = "s\<lparr>banks := (banks s)(c := deq p t (banks s c)), threads := (threads s)(t := lifted (threads s t))\<rparr>"
  let ?s = "s\<lparr>banks := (banks s)(c := enq 15 t (deq p t (banks s c))), threads := (threads s)(t := lifted (threads s t))\<rparr>"
  note m = take_out_ok(1) [OF r pl]
  have t: "t \<noteq> 0" "c < MAX_CPUS" "kstate (threads s t) = Ready"
    using ready_butD(3) [OF r pl] ready_butD(5) [OF r, of t] pl by (auto simp: queued_def)
  have nq: "\<not> queued ?m t" using ready_butD(5) [OF m, of t] by simp
  have n: "ready_but {t} ?n"
    using m by (rule ready_but_frame) (use ready_butD(5) [OF m] in \<open>auto simp: lifted_fields split: if_splits\<close>)
  have nqn: "\<not> queued ?n t" using ready_butD(5) [OF n, of t] by simp
  have npn: "\<not> placed ?n t d q" for d q using nqn by (auto simp: queued_def)
  have pls: "placed ?s u d q \<longleftrightarrow> placed ?n u d q \<or> (u = t \<and> d = c \<and> q = 15)" for u d q
    by (auto simp: placed_def)
  have b: "bank_ok (banks ?s d)" for d
    using ready_butD(1) [OF n, of d] enq_ok [OF ready_butD(1) [OF n, of c], of 15 t] npn [of c 15] by (cases "d = c") (auto simp: placed_def)
  have "queues_ok ?s"
    unfolding queues_ok_def pls using b ready_butD(2-4) [OF n] t npn by (auto simp: lifted_fields)
  moreover have "queued ?s u \<longleftrightarrow> queued ?n u \<or> u = t" for u using pls by (auto simp: queued_def)
  ultimately have "ready_but {} ?s"
    using ready_butD(5) [OF n] t(3) by (auto simp: ready_but_def)
  moreover have "boosts s ?s"
    unfolding boosts_def using p by (intro exI [of _ "threads ?s"] exI [of _ "banks ?s"]) (auto simp: placed_def)
  moreover have "boost_one c p t s = Some ?s"
    using boost_one_eq [OF take_out_ok(2) [OF r pl] pl p] .
  ultimately show ?thesis using p by (auto simp: placed_def)
qed

lemma boost_list_ok:
  assumes "ready_but {} s" "distinct ts" "set ts \<subseteq> set (queues (banks s c) p)" "p < 15"
  shows "\<exists>s'. foreach (boost_one c p) ts s = Some s' \<and> ready_but {} s' \<and> boosts s s' \<and> (\<forall>t\<in>set ts. placed s' t c 15)
    \<and> (\<forall>d q. q \<noteq> 15 \<longrightarrow> (d, q) \<noteq> (c, p) \<longrightarrow> queues (banks s' d) q = queues (banks s d) q)"
  using assms
proof (induction ts arbitrary: s)
  case (Cons t ts)
  then have pl: "placed s t c p" by (simp add: placed_def)
  obtain s1 where s1: "boost_one c p t s = Some s1" "ready_but {} s1" "boosts s s1" "placed s1 t c 15"
    "queues (banks s1 c) p = remove1 t (queues (banks s c) p)"
    "\<forall>d q. q \<noteq> 15 \<longrightarrow> (d, q) \<noteq> (c, p) \<longrightarrow> queues (banks s1 d) q = queues (banks s d) q"
    using boost_one_ok [OF Cons.prems(1) pl Cons.prems(4)] by blast
  have d: "distinct (queues (banks s c) p)" using ready_butD(1) [OF Cons.prems(1)] by (simp add: bank_ok_def)
  have "set ts \<subseteq> set (queues (banks s1 c) p)"
    unfolding s1(5) set_remove1_eq [OF d] using Cons.prems(2,3) by auto
  then obtain s2 where s2: "foreach (boost_one c p) ts s1 = Some s2" "ready_but {} s2" "boosts s1 s2" "\<forall>t\<in>set ts. placed s2 t c 15"
    "\<forall>d q. q \<noteq> 15 \<longrightarrow> (d, q) \<noteq> (c, p) \<longrightarrow> queues (banks s2 d) q = queues (banks s1 d) q"
    using Cons.IH [OF s1(2)] Cons.prems by auto
  moreover have "placed s2 t c 15" using s1(4) boostsD(12) [OF s2(3)] by blast
  ultimately show ?case using s1 boosts_trans by auto
qed simp

lemma starved_queue:
  assumes "ready_but {} s"
  shows "distinct (starved now s (queues (banks s c) p))" "set (starved now s (queues (banks s c) p)) \<subseteq> set (queues (banks s c) p)"
  using ready_butD(1) [OF assms, of c] by (auto simp: starved_def bank_ok_def distinct_filter dest: in_set_takeD)

lemma boost_bank_ok:
  assumes "ready_but {} s" "distinct ps" "set ps \<subseteq> {..<15}"
  shows "\<exists>s'. foreach (\<lambda>p s. foreach (boost_one c p) (starved now s (queues (banks s c) p)) s) ps s = Some s'
    \<and> ready_but {} s' \<and> boosts s s' \<and> (\<forall>p\<in>set ps. \<forall>t\<in>set (starved now s (queues (banks s c) p)). placed s' t c 15)
    \<and> (\<forall>d q. q \<noteq> 15 \<longrightarrow> d \<noteq> c \<longrightarrow> queues (banks s' d) q = queues (banks s d) q)"
  using assms
proof (induction ps arbitrary: s)
  case (Cons p ps)
  let ?ts = "starved now s (queues (banks s c) p)"
  obtain s1 where s1: "foreach (boost_one c p) ?ts s = Some s1" "ready_but {} s1" "boosts s s1" "\<forall>t\<in>set ?ts. placed s1 t c 15"
    "\<forall>d q. q \<noteq> 15 \<longrightarrow> (d, q) \<noteq> (c, p) \<longrightarrow> queues (banks s1 d) q = queues (banks s d) q"
    using boost_list_ok [OF Cons.prems(1) starved_queue [OF Cons.prems(1)], of p c now] Cons.prems(3) by auto
  obtain s2 where s2: "foreach (\<lambda>p s. foreach (boost_one c p) (starved now s (queues (banks s c) p)) s) ps s1 = Some s2"
    "ready_but {} s2" "boosts s1 s2" "\<forall>p\<in>set ps. \<forall>t\<in>set (starved now s1 (queues (banks s1 c) p)). placed s2 t c 15"
    "\<forall>d q. q \<noteq> 15 \<longrightarrow> d \<noteq> c \<longrightarrow> queues (banks s2 d) q = queues (banks s1 d) q"
    using Cons.IH [OF s1(2)] Cons.prems by auto
  have "starved now s1 (queues (banks s1 c) q) = starved now s (queues (banks s c) q)" if "q \<in> set ps" for q
  proof -
    have "q \<noteq> 15" "q \<noteq> p" using that Cons.prems(2,3) by auto
    then show ?thesis using s1(5) boostsD(10) [OF s1(3)] by (simp add: starved_def)
  qed
  then have "\<forall>q\<in>set (p # ps). \<forall>t\<in>set (starved now s (queues (banks s c) q)). placed s2 t c 15"
    using s2(4) s1(4) boostsD(12) [OF s2(3)] by auto
  then show ?case using s1 s2 boosts_trans by auto
qed simp

lemma boost_starved_ok:
  assumes "ready_but {} s"
  shows "\<exists>s'. boost_starved_locked now s = Some s' \<and> ready_but {} s' \<and> boosts s s'
    \<and> (\<forall>c<MAX_CPUS. \<forall>p\<in>{1..<15}. \<forall>t\<in>set (starved now s (queues (banks s c) p)). placed s' t c 15)"
proof -
  let ?f = "\<lambda>c. foreach (\<lambda>p s. foreach (boost_one c p) (starved now s (queues (banks s c) p)) s) [1..<15]"
  have sub: "set [1..<15] \<subseteq> {..<15 :: nat}" by auto
  have "\<exists>s'. foreach ?f cs s = Some s' \<and> ready_but {} s' \<and> boosts s s'
    \<and> (\<forall>c\<in>set cs. \<forall>p\<in>{1..<15}. \<forall>t\<in>set (starved now s (queues (banks s c) p)). placed s' t c 15)" if "distinct cs" for cs
    using assms that
  proof (induction cs arbitrary: s)
    case (Cons c cs)
    obtain s1 where s1: "?f c s = Some s1" "ready_but {} s1" "boosts s s1"
      "\<forall>p\<in>set [1..<15]. \<forall>t\<in>set (starved now s (queues (banks s c) p)). placed s1 t c 15"
      "\<forall>d q. q \<noteq> 15 \<longrightarrow> d \<noteq> c \<longrightarrow> queues (banks s1 d) q = queues (banks s d) q"
      using boost_bank_ok [OF Cons.prems(1) distinct_upt sub, of c now] by blast
    obtain s2 where s2: "foreach ?f cs s1 = Some s2" "ready_but {} s2" "boosts s1 s2"
      "\<forall>c\<in>set cs. \<forall>p\<in>{1..<15}. \<forall>t\<in>set (starved now s1 (queues (banks s1 c) p)). placed s2 t c 15"
      using Cons.IH [OF s1(2)] Cons.prems(2) by auto
    have "starved now s1 (queues (banks s1 d) q) = starved now s (queues (banks s d) q)" if "d \<in> set cs" "q \<in> {1..<15}" for d q
    proof -
      have "q \<noteq> 15" "d \<noteq> c" using that Cons.prems(2) by auto
      then show ?thesis using s1(5) boostsD(10) [OF s1(3)] by (simp add: starved_def)
    qed
    then have "\<forall>d\<in>set (c # cs). \<forall>p\<in>{1..<15}. \<forall>t\<in>set (starved now s (queues (banks s d) p)). placed s2 t d 15"
      using s2(4) s1(4) boostsD(12) [OF s2(3)] by auto
    moreover have "foreach ?f (c # cs) s = Some s2" using s1(1) s2(1) by simp
    ultimately show ?case using s2(2) boosts_trans [OF s1(3) s2(3)] by blast
  qed simp
  from this [of "[0..<MAX_CPUS]"] show ?thesis
    by (simp add: boost_starved_locked_def BOOST_PRIORITY_def Ball_def del: upt_rec_numeral)
qed

lemma boosts_running: "boosts s s' \<Longrightarrow> running_but E s \<Longrightarrow> running_but E s'"
  by (rule running_but_frame) (auto simp: boostsD)

lemma boosts_waits: "boosts s s' \<Longrightarrow> same_waits s s'"
  by (simp add: same_waits_def boostsD)

lemma starvation_scan_ok:
  assumes "ready_but {} s" "running_but {} s"
  shows "\<exists>s'. starvation_scan s = Some s' \<and> ready_but {} s' \<and> running_but {} s' \<and> same_waits s s'
    \<and> prcbs s' = prcbs s \<and> dpc_queue s' = dpc_queue s \<and> dpc_inserted s' = dpc_inserted s"
proof (cases "saturating_sub (tick_count s) (starve_last_scan s) \<ge> STARVE_SCAN_INTERVAL")
  case True
  let ?s = "s\<lparr>starve_last_scan := tick_count s\<rparr>"
  have "ready_but {} ?s" using assms(1) by (rule ready_but_frame) (auto simp: ready_butD(5) [OF assms(1)])
  then obtain s' where s': "boost_starved_locked (tick_count s) ?s = Some s'" "ready_but {} s'" "boosts ?s s'"
    using boost_starved_ok by blast
  have "running_but {} ?s" using assms(2) by (rule running_but_frame) auto
  then have "running_but {} s'" by (rule boosts_running [OF s'(3)])
  moreover have "same_waits s s'" using boosts_waits [OF s'(3)] by (simp add: same_waits_def)
  ultimately show ?thesis using True s' boostsD [OF s'(3)] by (simp add: starvation_scan_def Let_def)
qed (use assms in \<open>simp add: starvation_scan_def\<close>)

section \<open>Rescheduling\<close>

text \<open>The current thread of processor \<open>c\<close>, put back at the tail of its queue there.\<close>

definition requeued :: "cpu \<Rightarrow> (kthread \<Rightarrow> kthread) \<Rightarrow> ke \<Rightarrow> ke" where
  "requeued c f s = (let cur = current s c in
     s\<lparr>threads := (threads s)(cur := (f (threads s cur))\<lparr>kstate := Ready, ready_since := tick_count s\<rparr>),
       banks := (banks s)(c := enq (slot_of (threads s cur)) cur (banks s c))\<rparr>)"

lemma requeued_ok:
  assumes r: "ready_but {} s" and u: "running_but {} s" and c: "c \<in> cpus s" and i: "current s c \<noteq> idle s c"
    and f: "\<And>k. slot_of (f k) = slot_of k" "\<And>k. waitv ((f k)\<lparr>kstate := Ready\<rparr>) = waitv (k\<lparr>kstate := Ready\<rparr>)"
      "\<And>k. kstate (f k) = Ready"
  shows "ready_thread_locked c (current s c) (upd_thread (current s c) f s) = Some (requeued c f s)"
    and "ready_but {} (requeued c f s)" "running_but {c} (requeued c f s)" "same_waits s (requeued c f s)"
    and "prcbs (requeued c f s) = prcbs s" "kstate (threads (requeued c f s) (current s c)) = Ready"
proof -
  let ?t = "current s c" and ?u = "upd_thread (current s c) f s"
  have t: "?t \<noteq> 0" "kstate (threads s ?t) = Running" "c < MAX_CPUS"
    using running_butD [OF u c] c by (auto simp: cpus_def)
  then have nq: "\<not> queued s ?t" using ready_butD(5) [OF r, of ?t] by simp
  have ru: "ready_but {?t} ?u"
    using r by (rule ready_but_frame) (use nq ready_butD(5) [OF r] in \<open>auto simp: ke_upd split: if_splits\<close>)
  have nqu: "\<not> queued ?u ?t" using ready_butD(5) [OF ru, of ?t] by simp
  obtain s' where s': "ready_thread_locked c ?t ?u = Some s'" "ready_but ({?t} - {?t}) s'"
    "s' = ?u\<lparr>threads := (threads ?u)(?t := (threads ?u ?t)\<lparr>kstate := Ready, ready_since := tick_count ?u\<rparr>),
         banks := (banks ?u)(c := enq (slot_of (threads ?u ?t)) ?t (banks ?u c))\<rparr>"
    using ready_thread_locked_ok [OF ru t(1) nqu t(3)] by blast
  have e: "s' = requeued c f s"
    unfolding s'(3) by (simp add: requeued_def ke_upd f(1))
  show "ready_thread_locked c ?t ?u = Some (requeued c f s)" "ready_but {} (requeued c f s)" using s' e by auto
  show "prcbs (requeued c f s) = prcbs s" "kstate (threads (requeued c f s) ?t) = Ready"
    by (simp_all add: requeued_def Let_def)
  show "same_waits s (requeued c f s)"
    using f(2) [of "threads s ?t"] t(2) by (simp add: same_waits_def requeued_def Let_def waitv_def)
  have cp: "cpus (requeued c f s) = cpus s" by (simp add: requeued_def Let_def cpus_def)
  show "running_but {c} (requeued c f s)"
    unfolding running_but_def cp
    using u c i running_butD(3-7) [OF u] unfolding running_but_def by (simp add: requeued_def Let_def) metis
qed

lemma best_here_None:
  assumes r: "ready_but X s"
  shows "best_here s = None \<longleftrightarrow> (\<forall>t. \<not> queued s t)"
proof -
  note N = best_priority_in_None [OF ready_butD(1) [OF r]]
  have "best_here s = None \<longleftrightarrow> (\<forall>c<MAX_CPUS. best_priority_in c s = None)"
  proof -
    have "best_here s = None \<longleftrightarrow> List.map_filter (\<lambda>c. best_priority_in c s) [0..<MAX_CPUS] = []"
      by (simp add: best_here_def split: list.split)
    also have "\<dots> \<longleftrightarrow> (\<forall>c<MAX_CPUS. best_priority_in c s = None)"
      by (simp add: List.map_filter_def filter_empty_conv Ball_def)
    finally show ?thesis .
  qed
  also have "\<dots> \<longleftrightarrow> (\<forall>c<MAX_CPUS. \<forall>p. queues (banks s c) p = [])" using N by simp
  also have "\<dots> \<longleftrightarrow> (\<forall>t. \<not> queued s t)"
  proof
    assume *: "\<forall>c<MAX_CPUS. \<forall>p. queues (banks s c) p = []"
    have "\<not> placed s t c p" for t c p using * ready_butD(3) [OF r, of t c p] by (auto simp: placed_def)
    then show "\<forall>t. \<not> queued s t" by (simp add: queued_def)
  next
    assume "\<forall>t. \<not> queued s t"
    then have "t \<notin> set (queues (banks s c) p)" for t c p by (auto simp: queued_def placed_def)
    then show "\<forall>c<MAX_CPUS. \<forall>p. queues (banks s c) p = []" by (metis list.set_intros(1) neq_Nil_conv)
  qed
  finally show ?thesis .
qed

lemma best_here_Some:
  assumes r: "ready_but X s" and b: "best_here s = Some b"
  shows "\<exists>c t. placed s t c b" and "placed s t c p \<Longrightarrow> p \<le> b"
proof -
  note B = best_priority_in_Some [OF ready_butD(1) [OF r]]
  let ?ps = "List.map_filter (\<lambda>c. best_priority_in c s) [0..<MAX_CPUS]"
  have ps: "p \<in> set ?ps \<longleftrightarrow> (\<exists>c<MAX_CPUS. best_priority_in c s = Some p)" for p
    by (force simp: List.map_filter_def)
  have "?ps \<noteq> []" "b = Max (set ?ps)" using b by (auto simp: best_here_def split: list.splits)
  then have max: "b \<in> set ?ps" "\<And>p. p \<in> set ?ps \<Longrightarrow> p \<le> b"
    by (metis List.finite_set Max_in set_empty) (metis List.finite_set Max_ge \<open>b = Max (set ?ps)\<close>)
  from max(1) obtain e where "best_priority_in e s = Some b" unfolding ps by blast
  then show "\<exists>c t. placed s t c b" using B by (metis list.set_intros(1) neq_Nil_conv placed_def)
  assume pl: "placed s t c p"
  then have "c < MAX_CPUS" "queues (banks s c) p \<noteq> []" using ready_butD(3) [OF r pl] by (auto simp: placed_def)
  moreover obtain q where q: "best_priority_in c s = Some q"
    using best_priority_in_None [OF ready_butD(1) [OF r]] calculation(2) by (metis not_None_eq)
  ultimately have "p \<le> q" using B by (metis linorder_le_less_linear)
  moreover have "q \<in> set ?ps" unfolding ps using q \<open>c < MAX_CPUS\<close> by blast
  ultimately show "p \<le> b" using max(2) by (meson le_trans)
qed

text \<open>
  The thread a processor runs after the rescheduling step: an idle processor takes what selection picks, a thread
  at the end of its quantum competes from the tail of its queue, and otherwise the current thread is given up only
  when a thread of strictly higher priority is queued on some processor, and then it competes in the same way.
\<close>

definition outcome :: "ke \<Rightarrow> cpu \<Rightarrow> bool \<Rightarrow> tid \<Rightarrow> bool" where
  "outcome s c q t \<longleftrightarrow>
     (if current s c = idle s c then chosen s c t
      else if q then chosen (requeued c (\<lambda>k. k\<lparr>kstate := Ready, quantum := DEFAULT_QUANTUM\<rparr>) s) c t
      else if \<exists>u d p. placed s u d p \<and> unat (priority (threads s (current s c))) < p
        then chosen (requeued c (\<lambda>k. k\<lparr>kstate := Ready\<rparr>) s) c t
      else t = current s c)"

lemma reschedule_ok:
  assumes r: "ready_but {} s" and u: "running_but {} s" and c: "c \<in> cpus s"
  shows "\<exists>s'. reschedule c q s = Some s' \<and> ready_but {} s' \<and> running_but {} s' \<and> same_waits s s'
    \<and> outcome s c q (current s' c) \<and> (\<forall>d. d \<noteq> c \<longrightarrow> current s' d = current s d)
    \<and> cpus s' = cpus s \<and> dpc_queue s' = dpc_queue s \<and> dpc_inserted s' = dpc_inserted s"
proof (cases "current s c = idle s c")
  case idle: True
  show ?thesis
  proof (cases "best_here s")
    case None
    then have "chosen s c (current s c)" using best_here_None [OF r] idle by (simp add: chosen_def)
    with None idle r u show ?thesis by (simp add: reschedule_def outcome_def)
  next
    case (Some b)
    have "running_but {c} s" using u by (auto simp: running_but_def)
    from switch_away_ok [OF r this c] idle Some show ?thesis
      by (auto simp: reschedule_def outcome_def)
  qed
next
  case busy: False
  have kr: "kstate (threads s (current s c)) = Running" using running_butD(4) [OF u c] by simp
  have sw: "\<exists>s'. switch_away_locked c (current s c) (requeued c f s) = Some s' \<and> ready_but {} s' \<and> running_but {} s'
      \<and> same_waits s s' \<and> chosen (requeued c f s) c (current s' c) \<and> (\<forall>d. d \<noteq> c \<longrightarrow> current s' d = current s d)
      \<and> cpus s' = cpus s \<and> dpc_queue s' = dpc_queue s \<and> dpc_inserted s' = dpc_inserted s"
    if f: "\<And>k. slot_of (f k) = slot_of k" "\<And>k. waitv ((f k)\<lparr>kstate := Ready\<rparr>) = waitv (k\<lparr>kstate := Ready\<rparr>)"
      "\<And>k. kstate (f k) = Ready" for f
  proof -
    note R = requeued_ok [OF r u c busy f]
    have cp: "cpus (requeued c f s) = cpus s" using R(5) by (simp add: cpus_def)
    have "dpc_queue (requeued c f s) = dpc_queue s" "dpc_inserted (requeued c f s) = dpc_inserted s"
      by (simp_all add: requeued_def Let_def)
    with switch_away_ok [OF R(2,3)] show ?thesis
      using R(4-6) cp c by (auto intro: same_waits_trans)
  qed
  show ?thesis
  proof (cases q)
    case True
    let ?f = "\<lambda>k. k\<lparr>kstate := Ready, quantum := DEFAULT_QUANTUM\<rparr>"
    have f: "\<And>k. slot_of (?f k) = slot_of k" "\<And>k. waitv ((?f k)\<lparr>kstate := Ready\<rparr>) = waitv (k\<lparr>kstate := Ready\<rparr>)" "\<And>k. kstate (?f k) = Ready"
      by (simp_all add: slot_of_def waitv_def)
    show ?thesis using sw [of ?f, OF f] requeued_ok(1,6) [of s c ?f, OF r u c busy f] True busy
      by (simp add: reschedule_def outcome_def)
  next
    case False
    let ?f = "\<lambda>k. k\<lparr>kstate := Ready\<rparr>"
    have f: "\<And>k. slot_of (?f k) = slot_of k" "\<And>k. waitv ((?f k)\<lparr>kstate := Ready\<rparr>) = waitv (k\<lparr>kstate := Ready\<rparr>)" "\<And>k. kstate (?f k) = Ready"
      by (simp_all add: slot_of_def waitv_def)
    let ?hi = "case best_here s of None \<Rightarrow> False | Some b \<Rightarrow> unat (priority (threads s (current s c))) < b"
    have hi: "?hi \<longleftrightarrow> (\<exists>u d p. placed s u d p \<and> unat (priority (threads s (current s c))) < p)"
    proof (cases "best_here s")
      case None
      then show ?thesis using best_here_None [OF r] by (auto simp: queued_def)
    next
      case (Some b)
      then show ?thesis using best_here_Some [OF r Some] by (simp add: Some) (meson less_le_trans)
    qed
    show ?thesis
    proof (cases ?hi)
      case True
      then show ?thesis using sw [of ?f, OF f] requeued_ok(1) [of s c ?f, OF r u c busy f] busy False kr hi
        by (simp add: reschedule_def outcome_def)
    next
      case no: False
      then have "reschedule c q s = Some s" using False busy by (simp add: reschedule_def Let_def)
      moreover have "outcome s c q (current s c)" using no False busy unfolding hi outcome_def by auto
      ultimately show ?thesis using r u by auto
    qed
  qed
qed

text \<open>
  A consequence: while its own bank is empty, a processor keeps its thread whatever is queued on the others.
\<close>

lemma reschedule_keeps_local:
  assumes r: "ready_but {} s" and u: "running_but {} s" and c: "c \<in> cpus s"
    and busy: "current s c \<noteq> idle s c" and own: "\<And>p. queues (banks s c) p = []"
  shows "\<exists>s'. reschedule c q s = Some s' \<and> current s' c = current s c"
proof -
  have "t = current s c" if ch: "chosen (requeued c f s) c t" for t f
  proof -
    have "placed (requeued c f s) (current s c) c (slot_of (threads s (current s c)))"
      by (simp add: placed_def requeued_def Let_def)
    then have "queued (requeued c f s) (current s c)" unfolding queued_def by blast
    then obtain d p where p: "picks (requeued c f s) c t d p" using ch by (auto simp: chosen_def)
    have "queues (banks (requeued c f s) c) (slot_of (threads s (current s c))) \<noteq> []" by (simp add: requeued_def Let_def)
    then have "d = c" using p by (auto simp: picks_def)
    with p show ?thesis using own by (auto simp: picks_def requeued_def Let_def split: if_splits)
  qed
  then show ?thesis using reschedule_ok [OF r u c, of q] busy by (auto simp: outcome_def split: if_splits)
qed

end
