(* ===== verification/Ke_Wait_Laws.thy ===== *)
theory Ke_Wait_Laws
  imports Ke_Resched_Laws
begin

text \<open>
  Waits: the invariant that ties wait lists, wait blocks, timeout timers and mutant ownership together, and what
  satisfying a wait does. The main result on one wake-up says which parts of the state it changes; the wait test
  is a sequence of them that ends with no satisfiable waiter on the object.
\<close>

section \<open>Invariants\<close>

abbreviation is_waiting :: "ke \<Rightarrow> tid \<Rightarrow> bool" where
  "is_waiting s t \<equiv> kstate (threads s t) = Waiting"

definition blocks_ok :: "ke \<Rightarrow> bool" where
  "blocks_ok s \<longleftrightarrow>
     (\<forall>h. distinct (wait_list (objs s h)) \<and> (wait_list_init (objs s h) \<or> wait_list (objs s h) = []))
   \<and> (\<forall>h t i. (t, i) \<in> set (wait_list (objs s h)) \<longleftrightarrow> wb_active (wb s t i) \<and> wb_object (wb s t i) = h)
   \<and> (\<forall>t i. wb_active (wb s t i) \<longleftrightarrow>
        is_waiting s t \<and> (i < wait_count (threads s t) \<or> i = 3 \<and> wait_timed (threads s t)))
   \<and> (\<forall>t i. wb_active (wb s t i) \<longrightarrow> wb_thread (wb s t i) = t \<and> (\<forall>u. wb_object (wb s t i) = WaitTimerHdr u \<longleftrightarrow> i = 3 \<and> u = t))
   \<and> (\<forall>t. wait_count (threads s t) \<le> 3 \<and> (wait_timed (threads s t) \<longrightarrow> is_waiting s t) \<and> (is_waiting s t \<longrightarrow> t \<noteq> 0))"

definition timers_ok :: "ke \<Rightarrow> bool" where
  "timers_ok s \<longleftrightarrow> distinct (timer_list s) \<and> (\<forall>h. h \<in> set (timer_list s) \<longleftrightarrow> inserted (objs s h))
   \<and> (\<forall>t. inserted (objs s (WaitTimerHdr t)) \<longrightarrow> wait_timed (threads s t))
   \<and> (\<forall>h\<in>set (timer_list s). earliest_timer_due s \<le> due_tick (objs s h) \<and> object_type (objs s h) = Timer)"

definition mutant_ok :: "dispatcher_header \<Rightarrow> bool" where
  "mutant_ok x \<longleftrightarrow> (object_type x = Mutant \<longrightarrow> signal_state x \<le> 1 \<and> (owner x = 0 \<longleftrightarrow> signal_state x = 1))"

definition mutants_ok :: "ke \<Rightarrow> bool" where
  "mutants_ok s \<longleftrightarrow> (\<forall>h. mutant_ok (objs s h))
   \<and> (\<forall>h t. is_waiting s t \<longrightarrow> object_type (objs s h) = Mutant \<longrightarrow> signaled_for t h s \<longrightarrow> I32_MIN + 3 < signal_state (objs s h))"

definition waits_ok :: "ke \<Rightarrow> bool" where
  "waits_ok s \<longleftrightarrow> blocks_ok s \<and> timers_ok s \<and> mutants_ok s"

text \<open>Every blocked thread outside \<open>U\<close> has to wait on, and every timed wait outside \<open>U\<close> has its timer armed.\<close>

definition asleep_but :: "tid set \<Rightarrow> ke \<Rightarrow> bool" where
  "asleep_but U s \<longleftrightarrow> (\<forall>t. is_waiting s t \<longrightarrow> t \<notin> U \<longrightarrow> evaluate_wait t s = NotYet)"

definition armed_but :: "tid set \<Rightarrow> ke \<Rightarrow> bool" where
  "armed_but U s \<longleftrightarrow> (\<forall>t. wait_timed (threads s t) \<longrightarrow> t \<notin> U \<longrightarrow> inserted (objs s (WaitTimerHdr t)))"

lemma blocks_okD:
  assumes "blocks_ok s"
  shows "distinct (wait_list (objs s h))" "wait_list_init (objs s h) \<or> wait_list (objs s h) = []"
    "(t, i) \<in> set (wait_list (objs s h)) \<longleftrightarrow> wb_active (wb s t i) \<and> wb_object (wb s t i) = h"
    "wb_active (wb s t i) \<longleftrightarrow> is_waiting s t \<and> (i < wait_count (threads s t) \<or> i = 3 \<and> wait_timed (threads s t))"
    "wb_active (wb s t i) \<Longrightarrow> wb_thread (wb s t i) = t"
    "wb_active (wb s t i) \<Longrightarrow> wb_object (wb s t i) = WaitTimerHdr u \<longleftrightarrow> i = 3 \<and> u = t"
    "wait_count (threads s t) \<le> 3" "wait_timed (threads s t) \<Longrightarrow> is_waiting s t" "is_waiting s t \<Longrightarrow> t \<noteq> 0"
proof -
  have "wait_list_init (objs s h) \<or> wait_list (objs s h) = []" using assms by (simp add: blocks_ok_def)
  then show "wait_list_init (objs s h) \<or> wait_list (objs s h) = []" .
qed (use assms in \<open>simp_all add: blocks_ok_def\<close>)

lemma waitvD:
  assumes "waitv k' = waitv k"
  shows "wait_blocks k' = wait_blocks k" "wait_typ k' = wait_typ k" "wait_count k' = wait_count k"
    "wait_timed k' = wait_timed k" "(kstate k' = Waiting) = (kstate k = Waiting)"
  using assms by (simp_all add: waitv_def)

lemma same_waits_frame:
  assumes "same_waits s s'"
  shows "wb s' t i = wb s t i" "wait_count (threads s' t) = wait_count (threads s t)" "wait_timed (threads s' t) = wait_timed (threads s t)"
    "is_waiting s' t = is_waiting s t" "signaled_for t h s' = signaled_for t h s" "evaluate_wait t s' = evaluate_wait t s"
proof -
  have o: "objs s' = objs s" and "waitv (threads s' t) = waitv (threads s t)" using assms by (simp_all add: same_waits_def)
  note w = waitvD [OF this(2)]
  have b: "wb s' t i = wb s t i" for i by (simp add: wb_def w)
  have sg: "signaled_for t h s' = signaled_for t h s" for h by (simp add: signaled_for_def o)
  show "evaluate_wait t s' = evaluate_wait t s" unfolding evaluate_wait_def b sg w o ..
  show "wb s' t i = wb s t i" "signaled_for t h s' = signaled_for t h s" by (fact b, fact sg)
qed (use assms waitvD [of "threads s' t" "threads s t"] in \<open>simp_all add: same_waits_def\<close>)

lemma same_waits_ok:
  assumes "same_waits s s'"
  shows "waits_ok s \<Longrightarrow> waits_ok s'" "asleep_but U s \<Longrightarrow> asleep_but U s'" "armed_but U s \<Longrightarrow> armed_but U s'"
proof -
  note F = same_waits_frame [OF assms]
  have G: "objs s' = objs s" "timer_list s' = timer_list s" "earliest_timer_due s' = earliest_timer_due s"
    using assms by (simp_all add: same_waits_def)
  show "waits_ok s \<Longrightarrow> waits_ok s'" unfolding waits_ok_def blocks_ok_def timers_ok_def mutants_ok_def F G .
  show "asleep_but U s \<Longrightarrow> asleep_but U s'" unfolding asleep_but_def F .
  show "armed_but U s \<Longrightarrow> armed_but U s'" unfolding armed_but_def F G .
qed

section \<open>When a wait can complete\<close>

lemma find_SomeD: "find P xs = Some x \<Longrightarrow> x \<in> set xs \<and> P x"
  by (induction xs) (auto split: if_splits)

lemma evaluate_NotYet_iff:
  "evaluate_wait t s = NotYet \<longleftrightarrow>
     (case wait_typ (threads s t) of
        WaitAny \<Rightarrow> \<forall>i<wait_count (threads s t). \<not> signaled_for t (wb_object (wb s t i)) s
      | WaitAll \<Rightarrow> wait_count (threads s t) = 0 \<or> (\<exists>i<wait_count (threads s t). \<not> signaled_for t (wb_object (wb s t i)) s))
     \<and> \<not> (wait_timed (threads s t) \<and> 0 < signal_state (objs s (wb_object (wb s t 3))))"
proof (cases "wait_typ (threads s t)")
  case WaitAll
  then show ?thesis by (auto simp: evaluate_wait_def Let_def list_all_iff nk_simps)
next
  case WaitAny
  let ?P = "\<lambda>i. signaled_for t (wb_object (wb s t i)) s"
  show ?thesis
  proof (cases "find ?P [0..<wait_count (threads s t)]")
    case None
    then have "\<forall>i<wait_count (threads s t). \<not> ?P i" by (simp add: find_None_iff)
    with None WaitAny show ?thesis by (simp add: evaluate_wait_def Let_def nk_simps)
  next
    case (Some i)
    then have "i < wait_count (threads s t)" "?P i" using find_SomeD [OF Some] by auto
    with Some WaitAny show ?thesis by (auto simp: evaluate_wait_def Let_def)
  qed
qed

lemma evaluate_mono:
  assumes "evaluate_wait t s = NotYet" "waitv (threads s' t) = waitv (threads s t)"
    and "\<And>h. signaled_for t h s' \<Longrightarrow> signaled_for t h s" "\<And>h. 0 < signal_state (objs s' h) \<Longrightarrow> 0 < signal_state (objs s h)"
  shows "evaluate_wait t s' = NotYet"
  using assms(1) assms(3,4) waitvD [OF assms(2)] unfolding evaluate_NotYet_iff wb_def
  by (auto split: wait_type.splits)

section \<open>Consuming the objects of a satisfied wait\<close>

text \<open>
  A consumed object loses signal state only: nothing becomes signalled for another thread, and a consumed mutant
  is owned by the thread that took it.
\<close>

fun sticky :: "dispatcher_object_type \<Rightarrow> bool" where
  "sticky NotificationEvent = True"
| "sticky Thread = True"
| "sticky Timer = True"
| "sticky _ = False"

definition consumed :: "tid \<Rightarrow> hdr set \<Rightarrow> ke \<Rightarrow> ke \<Rightarrow> bool" where
  "consumed t H s s' \<longleftrightarrow> (\<exists>ob. s' = s\<lparr>objs := ob\<rparr> \<and> (\<forall>h. h \<notin> H \<longrightarrow> ob h = objs s h)
     \<and> (\<forall>h. \<exists>sg ow. ob h = (objs s h)\<lparr>signal_state := sg, owner := ow\<rparr> \<and> (0 < sg \<longrightarrow> 0 < signal_state (objs s h))
          \<and> (sticky (object_type (objs s h)) \<longrightarrow> sg = signal_state (objs s h))
          \<and> (if object_type (objs s h) = Mutant then h \<in> H \<longrightarrow> sg \<le> 0 \<and> ow = t else ow = owner (objs s h))))"

lemma consumed_refl: "consumed t {} s s"
  unfolding consumed_def by (intro exI [of _ "objs s"]) (auto intro!: exI [of _ "signal_state (objs s _)"] exI [of _ "owner (objs s _)"])

lemma consumedD:
  assumes "consumed t H s s'"
  shows "threads s' = threads s" "banks s' = banks s" "prcbs s' = prcbs s" "timer_list s' = timer_list s"
    "initialized s' = initialized s" "tick_count s' = tick_count s" "earliest_timer_due s' = earliest_timer_due s"
    "dpc_queue s' = dpc_queue s" "dpc_inserted s' = dpc_inserted s"
    "object_type (objs s' h) = object_type (objs s h)" "wait_list (objs s' h) = wait_list (objs s h)"
    "wait_list_init (objs s' h) = wait_list_init (objs s h)" "limit (objs s' h) = limit (objs s h)"
    "due_tick (objs s' h) = due_tick (objs s h)" "inserted (objs s' h) = inserted (objs s h)" "timer_dpc (objs s' h) = timer_dpc (objs s h)"
    "0 < signal_state (objs s' h) \<Longrightarrow> 0 < signal_state (objs s h)"
    "h \<notin> H \<Longrightarrow> objs s' h = objs s h" "object_type (objs s h) \<noteq> Mutant \<Longrightarrow> owner (objs s' h) = owner (objs s h)"
    "object_type (objs s h) = Mutant \<Longrightarrow> h \<in> H \<Longrightarrow> signal_state (objs s' h) \<le> 0 \<and> owner (objs s' h) = t"
    "sticky (object_type (objs s h)) \<Longrightarrow> signal_state (objs s' h) = signal_state (objs s h)"
proof -
  obtain ob where s': "s' = s\<lparr>objs := ob\<rparr>" and out: "\<And>h. h \<notin> H \<Longrightarrow> ob h = objs s h"
    and ob: "\<And>h. \<exists>sg ow. ob h = (objs s h)\<lparr>signal_state := sg, owner := ow\<rparr> \<and> (0 < sg \<longrightarrow> 0 < signal_state (objs s h))
          \<and> (sticky (object_type (objs s h)) \<longrightarrow> sg = signal_state (objs s h))
          \<and> (if object_type (objs s h) = Mutant then h \<in> H \<longrightarrow> sg \<le> 0 \<and> ow = t else ow = owner (objs s h))"
    using assms unfolding consumed_def by blast
  show "threads s' = threads s" "banks s' = banks s" "prcbs s' = prcbs s" "timer_list s' = timer_list s"
    "initialized s' = initialized s" "tick_count s' = tick_count s" "earliest_timer_due s' = earliest_timer_due s"
    "dpc_queue s' = dpc_queue s" "dpc_inserted s' = dpc_inserted s" by (simp_all add: s')
  obtain sg ow where h: "ob h = (objs s h)\<lparr>signal_state := sg, owner := ow\<rparr>" "0 < sg \<longrightarrow> 0 < signal_state (objs s h)"
    "sticky (object_type (objs s h)) \<longrightarrow> sg = signal_state (objs s h)"
    "if object_type (objs s h) = Mutant then h \<in> H \<longrightarrow> sg \<le> 0 \<and> ow = t else ow = owner (objs s h)"
    using ob [of h] by blast
  show "object_type (objs s' h) = object_type (objs s h)" "wait_list (objs s' h) = wait_list (objs s h)"
    "wait_list_init (objs s' h) = wait_list_init (objs s h)" "limit (objs s' h) = limit (objs s h)"
    "due_tick (objs s' h) = due_tick (objs s h)" "inserted (objs s' h) = inserted (objs s h)" "timer_dpc (objs s' h) = timer_dpc (objs s h)"
    "0 < signal_state (objs s' h) \<Longrightarrow> 0 < signal_state (objs s h)"
    "object_type (objs s h) \<noteq> Mutant \<Longrightarrow> owner (objs s' h) = owner (objs s h)"
    "object_type (objs s h) = Mutant \<Longrightarrow> h \<in> H \<Longrightarrow> signal_state (objs s' h) \<le> 0 \<and> owner (objs s' h) = t"
    "sticky (object_type (objs s h)) \<Longrightarrow> signal_state (objs s' h) = signal_state (objs s h)"
    using h by (simp_all add: s')
  show "h \<notin> H \<Longrightarrow> objs s' h = objs s h" using out by (simp add: s')
qed

text \<open>Room to consume an object \<open>n\<close> times: the counters do not overflow, and a mutant is free or held by the thread.\<close>

definition can_take :: "tid \<Rightarrow> nat \<Rightarrow> dispatcher_header \<Rightarrow> bool" where
  "can_take t n x \<longleftrightarrow>
     (object_type x = Semaphore \<longrightarrow> I32_MIN + int n \<le> signal_state x)
   \<and> (object_type x = Mutant \<longrightarrow> I32_MIN + int n \<le> signal_state x \<and> signal_state x \<le> 1 \<and> (0 < signal_state x \<or> owner x = t))"

lemma satisfy_object_ok:
  assumes "can_take t (Suc n) (objs s h)"
  shows "\<exists>x. satisfy_object_for t h s = Some (s\<lparr>objs := (objs s)(h := x)\<rparr>) \<and> can_take t n x
    \<and> (\<exists>sg ow. x = (objs s h)\<lparr>signal_state := sg, owner := ow\<rparr> \<and> (0 < sg \<longrightarrow> 0 < signal_state (objs s h))
          \<and> (sticky (object_type (objs s h)) \<longrightarrow> sg = signal_state (objs s h))
          \<and> (if object_type (objs s h) = Mutant then sg \<le> 0 \<and> ow = t else ow = owner (objs s h)))"
proof -
  have self: "x = x\<lparr>signal_state := signal_state x, owner := owner x\<rparr>" for x :: dispatcher_header by simp
  consider (ev) "object_type (objs s h) = SynchronizationEvent" | (sem) "object_type (objs s h) = Semaphore"
    | (mut) "object_type (objs s h) = Mutant" | (sticky) "object_type (objs s h) \<in> {NotificationEvent, Thread, Timer}"
    by (cases "object_type (objs s h)") auto
  then show ?thesis
  proof cases
    case ev
    then show ?thesis
      by (intro exI [of _ "(objs s h)\<lparr>signal_state := 0\<rparr>"] conjI exI [of _ 0] exI [of _ "owner (objs s h)"])
         (simp_all add: satisfy_object_for_def ke_upd can_take_def)
  next
    case sem
    then show ?thesis using assms
      by (intro exI [of _ "(objs s h)\<lparr>signal_state := signal_state (objs s h) - 1\<rparr>"] conjI
          exI [of _ "signal_state (objs s h) - 1"] exI [of _ "owner (objs s h)"])
         (simp_all add: satisfy_object_for_def ke_upd can_take_def)
  next
    case mut
    then show ?thesis using assms
      by (intro exI [of _ "(objs s h)\<lparr>signal_state := signal_state (objs s h) - 1, owner := t\<rparr>"] conjI
          exI [of _ "signal_state (objs s h) - 1"] exI [of _ t])
         (simp_all add: satisfy_object_for_def ke_upd can_take_def)
  next
    case sticky
    then have "satisfy_object_for t h s = Some s" by (auto simp: satisfy_object_for_def)
    then show ?thesis using sticky
      by (intro exI [of _ "objs s h"] conjI exI [of _ "signal_state (objs s h)"] exI [of _ "owner (objs s h)"])
         (auto simp: can_take_def)
  qed
qed

lemma can_take_less: "can_take t (Suc n) x \<Longrightarrow> can_take t n x"
  by (auto simp: can_take_def)

lemma consume_ok:
  assumes "\<And>h. h \<in> set hs \<Longrightarrow> can_take t (length hs) (objs s h)"
  shows "\<exists>s'. foreach (satisfy_object_for t) hs s = Some s' \<and> consumed t (set hs) s s'"
  using assms
proof (induction hs arbitrary: s)
  case Nil
  then show ?case using consumed_refl by simp
next
  case (Cons h hs)
  obtain x sg ow where x: "satisfy_object_for t h s = Some (s\<lparr>objs := (objs s)(h := x)\<rparr>)" "can_take t (length hs) x"
    "x = (objs s h)\<lparr>signal_state := sg, owner := ow\<rparr>" "0 < sg \<longrightarrow> 0 < signal_state (objs s h)"
    "sticky (object_type (objs s h)) \<longrightarrow> sg = signal_state (objs s h)"
    "if object_type (objs s h) = Mutant then sg \<le> 0 \<and> ow = t else ow = owner (objs s h)"
    using satisfy_object_ok [of t "length hs" s h] Cons.prems [of h] by auto
  let ?s = "s\<lparr>objs := (objs s)(h := x)\<rparr>"
  have "can_take t (length hs) (objs ?s h')" if "h' \<in> set hs" for h'
    using that x(2) Cons.prems [of h'] can_take_less by (cases "h' = h") auto
  then obtain s' where s': "foreach (satisfy_object_for t) hs ?s = Some s'" "consumed t (set hs) ?s s'"
    using Cons.IH by blast
  obtain ob where ob: "s' = ?s\<lparr>objs := ob\<rparr>" "\<And>h. h \<notin> set hs \<Longrightarrow> ob h = objs ?s h"
    "\<And>h. \<exists>sg ow. ob h = (objs ?s h)\<lparr>signal_state := sg, owner := ow\<rparr> \<and> (0 < sg \<longrightarrow> 0 < signal_state (objs ?s h))
          \<and> (sticky (object_type (objs ?s h)) \<longrightarrow> sg = signal_state (objs ?s h))
          \<and> (if object_type (objs ?s h) = Mutant then h \<in> set hs \<longrightarrow> sg \<le> 0 \<and> ow = t else ow = owner (objs ?s h))"
    using s'(2) unfolding consumed_def by blast
  have "consumed t (set (h # hs)) s s'"
    unfolding consumed_def
  proof (intro exI [of _ ob] conjI allI impI)
    show "s' = s\<lparr>objs := ob\<rparr>" using ob(1) by simp
    show "ob h' = objs s h'" if "h' \<notin> set (h # hs)" for h' using ob(2) that by simp
    fix h'
    show "\<exists>sg ow. ob h' = (objs s h')\<lparr>signal_state := sg, owner := ow\<rparr> \<and> (0 < sg \<longrightarrow> 0 < signal_state (objs s h'))
        \<and> (sticky (object_type (objs s h')) \<longrightarrow> sg = signal_state (objs s h'))
        \<and> (if object_type (objs s h') = Mutant then h' \<in> set (h # hs) \<longrightarrow> sg \<le> 0 \<and> ow = t else ow = owner (objs s h'))"
    proof (cases "h' = h")
      case False
      then have "objs ?s h' = objs s h'" "h' \<in> set (h # hs) \<longleftrightarrow> h' \<in> set hs" by auto
      then show ?thesis using ob(3) [of h'] by (simp only:)
    next
      case True
      have x': "objs ?s h = x" by simp
      obtain sg' ow' where y: "ob h = x\<lparr>signal_state := sg', owner := ow'\<rparr>" "0 < sg' \<longrightarrow> 0 < signal_state x"
        "sticky (object_type x) \<longrightarrow> sg' = signal_state x"
        "if object_type x = Mutant then h \<in> set hs \<longrightarrow> sg' \<le> 0 \<and> ow' = t else ow' = owner x"
        using ob(3) [of h] unfolding x' by blast
      show ?thesis
      proof (cases "h \<in> set hs")
        case True
        then show ?thesis unfolding \<open>h' = h\<close> using x(3-6) y by (intro exI [of _ sg'] exI [of _ ow']) (auto split: if_splits)
      next
        case False
        then have "ob h = x" using ob(2) by simp
        then show ?thesis unfolding \<open>h' = h\<close> using x(3-6) by (intro exI [of _ sg] exI [of _ ow]) auto
      qed
    qed
  qed
  then show ?case using x(1) s'(1) by simp
qed

text \<open>The objects a satisfied wait takes, and the status it returns.\<close>

definition taken :: "tid \<Rightarrow> satisfy \<Rightarrow> ke \<Rightarrow> hdr list" where
  "taken t r s = (case r of SatAny i \<Rightarrow> [wb_object (wb s t i)]
     | SatAll \<Rightarrow> map (\<lambda>i. wb_object (wb s t i)) [0..<wait_count (threads s t)] | _ \<Rightarrow> [])"

definition status_of :: "tid \<Rightarrow> satisfy \<Rightarrow> ke \<Rightarrow> nt_status" where
  "status_of t r s = (case r of SatAny i \<Rightarrow> STATUS_WAIT_0 + wait_key (wb s t i) | SatAll \<Rightarrow> STATUS_WAIT_0
     | Timeout \<Rightarrow> STATUS_TIMEOUT | NotYet \<Rightarrow> STATUS_UNSUCCESSFUL)"

lemma satisfy_object_threads: "satisfy_object_for t h s = Some s' \<Longrightarrow> threads s' = threads s"
  by (auto simp: satisfy_object_for_def ke_upd split: dispatcher_object_type.splits if_splits)

lemma foreach_satisfy:
  "foreach (\<lambda>i s. satisfy_object_for t (wb_object (wb s t i)) s) is s = foreach (satisfy_object_for t) (map (\<lambda>i. wb_object (wb s t i)) is) s"
proof (induction "is" arbitrary: s)
  case (Cons i "is")
  show ?case
  proof (cases "satisfy_object_for t (wb_object (wb s t i)) s")
    case (Some s')
    then have "wb s' = wb s" using satisfy_object_threads by (simp add: wb_def fun_eq_iff)
    with Some Cons show ?thesis by simp
  qed simp
qed simp

lemma apply_consume_eq:
  "apply_consume t r s = do { s' \<leftarrow> foreach (satisfy_object_for t) (taken t r s) s; Some (status_of t r s, s') }"
  unfolding apply_consume_def foreach_satisfy by (cases r) (simp_all add: taken_def status_of_def Let_def bind_assoc)

lemma evaluate_taken:
  assumes "blocks_ok s" "h \<in> set (taken t (evaluate_wait t s) s)"
  shows "\<exists>i<wait_count (threads s t). h = wb_object (wb s t i) \<and> signaled_for t h s"
proof (cases "wait_typ (threads s t)")
  case WaitAny
  let ?P = "\<lambda>i. signaled_for t (wb_object (wb s t i)) s"
  show ?thesis
  proof (cases "find ?P [0..<wait_count (threads s t)]")
    case (Some i)
    then have "evaluate_wait t s = SatAny i" using WaitAny by (simp add: evaluate_wait_def Let_def)
    with Some assms(2) show ?thesis using find_SomeD [OF Some] by (auto simp: taken_def)
  qed (use WaitAny assms(2) in \<open>simp add: evaluate_wait_def Let_def taken_def split: if_splits\<close>)
next
  case WaitAll
  then show ?thesis using assms(2) by (auto simp: evaluate_wait_def Let_def taken_def list_all_iff split: if_splits)
qed

lemma length_taken: "blocks_ok s \<Longrightarrow> length (taken t r s) \<le> 3"
  using blocks_okD(7) [of s t] by (cases r) (auto simp: taken_def)

lemma can_take_signaled:
  assumes "mutants_ok s" "is_waiting s t" "signaled_for t h s" "n \<le> 3"
  shows "can_take t n (objs s h)"
proof -
  have "mutant_ok (objs s h)" using assms(1) by (simp add: mutants_ok_def)
  moreover have "object_type (objs s h) = Mutant \<Longrightarrow> I32_MIN + 3 < signal_state (objs s h)"
    using assms(1-3) by (auto simp: mutants_ok_def)
  ultimately show ?thesis using assms(3,4)
    by (auto simp: can_take_def signaled_for_def mutant_ok_def I32_MIN_def split: if_splits)
qed

section \<open>Leaving the wait lists\<close>

definition unlinked_blocks :: "tid \<Rightarrow> nat set \<Rightarrow> ke \<Rightarrow> ke" where
  "unlinked_blocks t K s =
     s\<lparr>objs := (\<lambda>h. (objs s h)\<lparr>wait_list := filter (\<lambda>b. \<not> (fst b = t \<and> snd b \<in> K)) (wait_list (objs s h))\<rparr>),
       threads := (threads s)(t := (threads s t)\<lparr>wait_blocks := (\<lambda>i. if i \<in> K then (wb s t i)\<lparr>wb_active := False\<rparr> else wb s t i)\<rparr>)\<rparr>"

lemma remove1_filter: "distinct xs \<Longrightarrow> remove1 x (filter P xs) = filter (\<lambda>y. P y \<and> y \<noteq> x) xs"
  by (auto simp: distinct_remove1_removeAll removeAll_filter_not_eq intro!: filter_cong)

lemma unlinked_blocks_none: "unlinked_blocks t {} s = s"
  by (simp add: unlinked_blocks_def wb_def)

lemma unlink_block_step:
  assumes b: "blocks_ok s" and i: "i \<notin> K" "wb_active (wb s t i)"
  shows "unlink_block t i (unlinked_blocks t K s) = Some (unlinked_blocks t (insert i K) s)"
proof -
  let ?u = "unlinked_blocks t K s" and ?h = "wb_object (wb s t i)"
  have w: "wb ?u t i = wb s t i" using i(1) by (simp add: wb_def unlinked_blocks_def)
  have "(t, i) \<in> set (wait_list (objs ?u ?h))"
    using i blocks_okD(3) [OF b, of t i ?h] by (simp add: unlinked_blocks_def)
  moreover have "filter (\<lambda>b. \<not> (fst b = t \<and> snd b \<in> insert i K)) (wait_list (objs s h))
      = (if h = ?h then remove1 (t, i) (wait_list (objs ?u ?h)) else wait_list (objs ?u h))" for h
  proof (cases "h = ?h")
    case True
    then show ?thesis unfolding unlinked_blocks_def
      by (auto simp: remove1_filter [OF blocks_okD(1) [OF b]] intro!: filter_cong)
  next
    case False
    then have "(t, i) \<notin> set (wait_list (objs s h))" using blocks_okD(3) [OF b, of t i h] by auto
    then show ?thesis using False by (auto simp: unlinked_blocks_def intro!: filter_cong)
  qed
  ultimately show ?thesis using i w
    unfolding unlink_block_def remove_wait_block_def Let_def
    by (simp add: ke_upd) (auto simp: unlinked_blocks_def fun_eq_iff wb_def)
qed

end
