(* ===== verification/Ke_Wake_Laws.thy ===== *)
theory Ke_Wake_Laws
  imports Ke_Wait_Laws
begin

text \<open>
  Waking threads: the effect of one wake-up, the wait test as a terminating sequence of them that leaves no
  satisfiable waiter, and the signalling operations built on it.
\<close>

section \<open>Leaving a wait\<close>

definition unlinked :: "tid \<Rightarrow> ke \<Rightarrow> ke" where
  "unlinked t s =
     s\<lparr>objs := (\<lambda>h. (objs s h)\<lparr>wait_list := filter (\<lambda>b. fst b \<noteq> t) (wait_list (objs s h)),
                               inserted := inserted (objs s h) \<and> h \<noteq> WaitTimerHdr t\<rparr>),
       threads := (threads s)(t := (threads s t)\<lparr>wait_blocks := (\<lambda>i. (wb s t i)\<lparr>wb_active := False\<rparr>), wait_timed := False\<rparr>),
       timer_list := filter (\<lambda>h. h \<noteq> WaitTimerHdr t) (timer_list s)\<rparr>"

lemma keep_inserted:
  "\<not> (inserted x \<and> b) \<Longrightarrow> x\<lparr>wait_list := w, inserted := inserted x \<and> \<not> b\<rparr> = x\<lparr>wait_list := w\<rparr>" for x :: dispatcher_header
  by (cases x) auto

lemma unlink_prefix:
  assumes "blocks_ok s" "\<And>i. i < n \<Longrightarrow> wb_active (wb s t i)"
  shows "foreach (unlink_block t) [0..<n] s = Some (unlinked_blocks t {..<n} s)"
  using assms(2)
proof (induction n)
  case 0
  then show ?case by (simp add: unlinked_blocks_none)
next
  case (Suc n)
  have "{..<Suc n} = insert n {..<n}" by auto
  then show ?case
    using Suc unlink_block_step [OF assms(1), of n "{..<n}" t] by (simp add: foreach_append)
qed

lemma unlinked_blocks_all:
  assumes b: "blocks_ok s" and K: "\<And>i. wb_active (wb s t i) \<Longrightarrow> i \<in> K"
  shows "unlinked_blocks t K s =
    s\<lparr>objs := (\<lambda>h. (objs s h)\<lparr>wait_list := filter (\<lambda>b. fst b \<noteq> t) (wait_list (objs s h))\<rparr>),
      threads := (threads s)(t := (threads s t)\<lparr>wait_blocks := (\<lambda>i. (wb s t i)\<lparr>wb_active := False\<rparr>)\<rparr>)\<rparr>"
proof -
  have "filter (\<lambda>b. \<not> (fst b = t \<and> snd b \<in> K)) (wait_list (objs s h)) = filter (\<lambda>b. fst b \<noteq> t) (wait_list (objs s h))" for h
  proof (rule filter_cong [OF refl])
    fix b assume "b \<in> set (wait_list (objs s h))"
    then have "fst b = t \<Longrightarrow> snd b \<in> K" using blocks_okD(3) [OF b, of t "snd b" h] K by (cases b) auto
    then show "(\<not> (fst b = t \<and> snd b \<in> K)) = (fst b \<noteq> t)" by blast
  qed
  moreover have "(if i \<in> K then (wb s t i)\<lparr>wb_active := False\<rparr> else wb s t i) = (wb s t i)\<lparr>wb_active := False\<rparr>" for i
    using K [of i] by (cases "wb s t i") auto
  ultimately show ?thesis by (simp add: unlinked_blocks_def)
qed

lemma unlink_thread_waits_ok:
  assumes b: "blocks_ok s" and tm: "timers_ok s" and t: "is_waiting s t"
  shows "unlink_thread_waits t s = Some (unlinked t s)"
proof -
  let ?n = "wait_count (threads s t)"
  have pre: "foreach (unlink_block t) [0..<?n] s = Some (unlinked_blocks t {..<?n} s)"
    by (rule unlink_prefix [OF b]) (use blocks_okD(4) [OF b] t in simp)
  have tl: "remove1 h (timer_list s) = filter (\<lambda>x. x \<noteq> h) (timer_list s)" for h
    using remove1_filter [of "timer_list s" h "\<lambda>_. True"] tm by (simp add: timers_ok_def)
  have wt: "wait_timed (threads (unlinked_blocks t {..<?n} s) t) = wait_timed (threads s t)"
    by (simp add: unlinked_blocks_def)
  show ?thesis
  proof (cases "wait_timed (threads s t)")
    case True
    have n3: "3 \<notin> {..<?n}" using blocks_okD(7) [OF b, of t] by simp
    have a3: "wb_active (wb s t 3)" using True t blocks_okD(4) [OF b] by simp
    let ?m = "unlinked_blocks t (insert 3 {..<?n}) s"
    have step: "unlink_block t 3 (unlinked_blocks t {..<?n} s) = Some ?m"
      by (rule unlink_block_step [OF b n3 a3])
    have m: "?m = s\<lparr>objs := (\<lambda>h. (objs s h)\<lparr>wait_list := filter (\<lambda>b. fst b \<noteq> t) (wait_list (objs s h))\<rparr>),
      threads := (threads s)(t := (threads s t)\<lparr>wait_blocks := (\<lambda>i. (wb s t i)\<lparr>wb_active := False\<rparr>)\<rparr>)\<rparr>"
      by (rule unlinked_blocks_all [OF b]) (use blocks_okD(4) [OF b] in auto)
    have ins: "inserted (objs s h) \<longleftrightarrow> h \<in> set (timer_list s)" for h using tm by (simp add: timers_ok_def)
    show ?thesis
    proof (cases "inserted (objs s (WaitTimerHdr t))")
      case i: True
      let ?u = "upd_thread t (\<lambda>k. k\<lparr>wait_timed := False\<rparr>) (upd_obj (WaitTimerHdr t) (\<lambda>x. x\<lparr>inserted := False\<rparr>)
        (?m\<lparr>timer_list := remove1 (WaitTimerHdr t) (timer_list ?m)\<rparr>))"
      have "unlink_thread_waits t s = Some ?u"
        unfolding unlink_thread_waits_def pre using True wt step i ins
        by (simp add: nk_simps remove_timer_def) (simp add: m)
      also have "?u = unlinked t s"
        by (rule ke.equality) (simp_all add: m unlinked_def ke_upd tl fun_eq_iff)
      finally show ?thesis .
    next
      case i: False
      let ?u = "upd_thread t (\<lambda>k. k\<lparr>wait_timed := False\<rparr>) ?m"
      have "unlink_thread_waits t s = Some ?u"
        unfolding unlink_thread_waits_def pre using True wt step i
        by (simp add: nk_simps) (simp add: m)
      also have "?u = unlinked t s"
        using i ins [of "WaitTimerHdr t"]
        by (intro ke.equality) (auto simp: m unlinked_def ke_upd fun_eq_iff intro!: filter_True [symmetric] keep_inserted [symmetric])
      finally show ?thesis .
    qed
  next
    case False
    have m: "unlinked_blocks t {..<?n} s = s\<lparr>objs := (\<lambda>h. (objs s h)\<lparr>wait_list := filter (\<lambda>b. fst b \<noteq> t) (wait_list (objs s h))\<rparr>),
      threads := (threads s)(t := (threads s t)\<lparr>wait_blocks := (\<lambda>i. (wb s t i)\<lparr>wb_active := False\<rparr>)\<rparr>)\<rparr>"
      by (rule unlinked_blocks_all [OF b]) (use False blocks_okD(4) [OF b] in auto)
    have "\<not> inserted (objs s (WaitTimerHdr t))" "WaitTimerHdr t \<notin> set (timer_list s)"
      using False tm by (auto simp: timers_ok_def)
    then have "unlinked_blocks t {..<?n} s = unlinked t s"
      unfolding m by (intro ke.equality) (auto simp: False unlinked_def fun_eq_iff intro!: filter_True [symmetric] keep_inserted [symmetric])
    then show ?thesis
      unfolding unlink_thread_waits_def pre using False wt by simp
  qed
qed

section \<open>What waking a set of threads changes\<close>

definition wakes :: "tid set \<Rightarrow> ke \<Rightarrow> ke \<Rightarrow> bool" where
  "wakes W s s' \<longleftrightarrow>
     (\<forall>u. u \<notin> W \<longrightarrow> threads s' u = threads s u)
   \<and> (\<forall>u\<in>W. is_waiting s u \<and> kstate (threads s' u) = Ready \<and> \<not> wait_timed (threads s' u)
        \<and> wait_count (threads s' u) = wait_count (threads s u) \<and> (\<forall>i. \<not> wb_active (wb s' u i)))
   \<and> (\<forall>h. wait_list (objs s' h) = filter (\<lambda>b. fst b \<notin> W) (wait_list (objs s h))
        \<and> object_type (objs s' h) = object_type (objs s h) \<and> wait_list_init (objs s' h) = wait_list_init (objs s h)
        \<and> due_tick (objs s' h) = due_tick (objs s h) \<and> timer_dpc (objs s' h) = timer_dpc (objs s h) \<and> limit (objs s' h) = limit (objs s h)
        \<and> (inserted (objs s' h) \<longleftrightarrow> inserted (objs s h) \<and> h \<notin> WaitTimerHdr ` W)
        \<and> (0 < signal_state (objs s' h) \<longrightarrow> 0 < signal_state (objs s h))
        \<and> (sticky (object_type (objs s h)) \<longrightarrow> signal_state (objs s' h) = signal_state (objs s h))
        \<and> (mutant_ok (objs s h) \<longrightarrow> mutant_ok (objs s' h))
        \<and> (\<forall>u. u \<notin> W \<longrightarrow> signaled_for u h s' \<longrightarrow> signaled_for u h s
             \<and> (object_type (objs s h) = Mutant \<longrightarrow> signal_state (objs s' h) = signal_state (objs s h))))
   \<and> (\<forall>u. signal_state (objs s' (WaitTimerHdr u)) = signal_state (objs s (WaitTimerHdr u)))
   \<and> timer_list s' = filter (\<lambda>h. h \<notin> WaitTimerHdr ` W) (timer_list s)
   \<and> prcbs s' = prcbs s \<and> initialized s' = initialized s \<and> tick_count s' = tick_count s
   \<and> earliest_timer_due s' = earliest_timer_due s \<and> dpc_queue s' = dpc_queue s \<and> dpc_inserted s' = dpc_inserted s"

lemma wakesD:
  assumes "wakes W s s'"
  shows "u \<notin> W \<Longrightarrow> threads s' u = threads s u" "u \<in> W \<Longrightarrow> is_waiting s u" "u \<in> W \<Longrightarrow> kstate (threads s' u) = Ready"
    "u \<in> W \<Longrightarrow> \<not> wait_timed (threads s' u)" "u \<in> W \<Longrightarrow> wait_count (threads s' u) = wait_count (threads s u)"
    "u \<in> W \<Longrightarrow> \<not> wb_active (wb s' u i)"
    "wait_list (objs s' h) = filter (\<lambda>b. fst b \<notin> W) (wait_list (objs s h))" "object_type (objs s' h) = object_type (objs s h)"
    "wait_list_init (objs s' h) = wait_list_init (objs s h)" "due_tick (objs s' h) = due_tick (objs s h)"
    "timer_dpc (objs s' h) = timer_dpc (objs s h)" "limit (objs s' h) = limit (objs s h)"
    "inserted (objs s' h) \<longleftrightarrow> inserted (objs s h) \<and> h \<notin> WaitTimerHdr ` W"
    "0 < signal_state (objs s' h) \<Longrightarrow> 0 < signal_state (objs s h)" "mutant_ok (objs s h) \<Longrightarrow> mutant_ok (objs s' h)"
    "u \<notin> W \<Longrightarrow> signaled_for u h s' \<Longrightarrow> signaled_for u h s"
    "u \<notin> W \<Longrightarrow> signaled_for u h s' \<Longrightarrow> object_type (objs s h) = Mutant \<Longrightarrow> signal_state (objs s' h) = signal_state (objs s h)"
    "timer_list s' = filter (\<lambda>h. h \<notin> WaitTimerHdr ` W) (timer_list s)"
    "prcbs s' = prcbs s" "initialized s' = initialized s" "tick_count s' = tick_count s"
    "earliest_timer_due s' = earliest_timer_due s" "dpc_queue s' = dpc_queue s" "dpc_inserted s' = dpc_inserted s"
    "signal_state (objs s' (WaitTimerHdr u)) = signal_state (objs s (WaitTimerHdr u))"
    "sticky (object_type (objs s h)) \<Longrightarrow> signal_state (objs s' h) = signal_state (objs s h)"
  using assms unfolding wakes_def by (elim conjE, simp)+

lemma wakes_none: "wakes {} s s"
  by (simp add: wakes_def)

lemma wakes_trans:
  assumes 1: "wakes W s s'" and 2: "wakes V s' s''"
  shows "wakes (W \<union> V) s s''"
proof -
  note A = wakesD [OF 1] and B = wakesD [OF 2]
  have V: "u \<notin> W" if "u \<in> V" for u using A(3) B(2) that by fastforce
  show ?thesis
    unfolding wakes_def
  proof (intro conjI allI ballI impI)
    fix u assume "u \<notin> W \<union> V" then show "threads s'' u = threads s u" using A(1) B(1) by simp
  next
    fix u i assume u: "u \<in> W \<union> V"
    show "is_waiting s u" using u A(1,2) B(2) by (cases "u \<in> W") (auto simp: V)
    show "kstate (threads s'' u) = Ready" "\<not> wait_timed (threads s'' u)"
      using u A(3,4) B(1,3,4) by (cases "u \<in> V"; simp)+
    show "wait_count (threads s'' u) = wait_count (threads s u)"
      using u A(1,5) B(1,5) V by (cases "u \<in> V") auto
    show "\<not> wb_active (wb s'' u i)" using u A(6) B(1,6) by (cases "u \<in> V") (auto simp: wb_def)
  next
    fix h u assume u: "u \<notin> W \<union> V" "signaled_for u h s''"
    then show "signaled_for u h s" using A(16) B(16) by blast
    assume m: "object_type (objs s h) = Mutant"
    have "signaled_for u h s'" using u B(16) by blast
    then show "signal_state (objs s'' h) = signal_state (objs s h)" using A(8) [of h] A(17) [of u h] B(17) [of u h] u m by simp
  qed (use A B in \<open>auto simp: image_Un intro: filter_cong\<close>)
qed

lemma wakes_blocks_ok:
  assumes w: "wakes W s s'" and b: "blocks_ok s"
  shows "blocks_ok s'"
proof -
  note A = wakesD [OF w] and B = blocks_okD [OF b]
  have wb: "wb s' u i = wb s u i" if "u \<notin> W" for u i using A(1) that by (simp add: wb_def)
  show ?thesis
    unfolding blocks_ok_def
  proof (intro conjI allI impI)
    fix h show "distinct (wait_list (objs s' h))" using A(7) B(1) by simp
    show "wait_list_init (objs s' h) \<or> wait_list (objs s' h) = []" using A(7,9) B(2) [of h] by auto
  next
    fix h t i
    show "(t, i) \<in> set (wait_list (objs s' h)) \<longleftrightarrow> wb_active (wb s' t i) \<and> wb_object (wb s' t i) = h"
      using A(6,7) B(3) wb by (cases "t \<in> W") auto
  next
    fix t i
    show "wb_active (wb s' t i) \<longleftrightarrow> is_waiting s' t \<and> (i < wait_count (threads s' t) \<or> i = 3 \<and> wait_timed (threads s' t))"
      using A(1,3,6) B(4) wb by (cases "t \<in> W") auto
    assume a: "wb_active (wb s' t i)"
    then have "t \<notin> W" using A(6) by blast
    then show "wb_thread (wb s' t i) = t" "wb_object (wb s' t i) = WaitTimerHdr u \<longleftrightarrow> i = 3 \<and> u = t" for u
      using a wb B(5,6) by auto
  next
    fix t
    show "wait_count (threads s' t) \<le> 3" using A(1,5) B(7) by (cases "t \<in> W") auto
    show "wait_timed (threads s' t) \<Longrightarrow> is_waiting s' t" using A(1,4) B(8) by (cases "t \<in> W") auto
    show "is_waiting s' t \<Longrightarrow> t \<noteq> 0" using A(1,3) B(9) by (cases "t \<in> W") auto
  qed
qed

lemma wakes_waits_ok:
  assumes w: "wakes W s s'" and ok: "waits_ok s"
  shows "waits_ok s'"
proof -
  note A = wakesD [OF w]
  have b: "blocks_ok s" and t: "timers_ok s" and m: "mutants_ok s" using ok by (auto simp: waits_ok_def)
  have "timers_ok s'"
    using t A(1,4) unfolding timers_ok_def A(8,10,13,18,22) by auto (metis imageI)+
  moreover have "mutants_ok s'"
    unfolding mutants_ok_def
  proof (intro conjI allI impI)
    fix h show "mutant_ok (objs s' h)" using A(15) m by (simp add: mutants_ok_def)
    fix u assume u: "is_waiting s' u" "object_type (objs s' h) = Mutant" "signaled_for u h s'"
    then have "u \<notin> W" using A(3) by fastforce
    then show "I32_MIN + 3 < signal_state (objs s' h)"
      using u A(1,8,16,17) m by (simp add: mutants_ok_def)
  qed
  ultimately show ?thesis using wakes_blocks_ok [OF w b] by (simp add: waits_ok_def)
qed

lemma wakes_asleep:
  assumes "wakes W s s'" "asleep_but U s"
  shows "asleep_but U s'"
  unfolding asleep_but_def
proof (intro allI impI)
  fix t assume t: "is_waiting s' t" "t \<notin> U"
  then have "t \<notin> W" using wakesD(3) [OF assms(1)] by fastforce
  then show "evaluate_wait t s' = NotYet"
    using wakesD(1,14,16) [OF assms(1)] assms(2) t by (intro evaluate_mono [of t s s']) (auto simp: asleep_but_def)
qed

lemma wakes_armed: "wakes W s s' \<Longrightarrow> armed_but U s \<Longrightarrow> armed_but (U - W) s'"
proof -
  assume w: "wakes W s s'" and a: "armed_but U s"
  show "armed_but (U - W) s'"
    unfolding armed_but_def
  proof (intro allI impI)
    fix t assume t: "wait_timed (threads s' t)" "t \<notin> U - W"
    then have "t \<notin> W" using wakesD(4) [OF w] by blast
    then show "inserted (objs s' (WaitTimerHdr t))"
      using a t wakesD(1) [OF w, of t] by (auto simp: armed_but_def wakesD(13) [OF w])
  qed
qed

lemma wakes_running: "wakes W s s' \<Longrightarrow> running_but E s \<Longrightarrow> running_but E s'"
proof (rule running_but_frame)
  assume w: "wakes W s s'"
  show "(kstate (threads s' t) = Running) = (kstate (threads s t) = Running)" for t
    using wakesD(1-3) [OF w, of t] by (cases "t \<in> W") auto
qed (simp_all add: wakesD(19))

section \<open>One wake-up\<close>

text \<open>Consuming objects keeps the invariants on blocks and timers.\<close>

lemma consumed_ok:
  assumes c: "consumed t H s s'" and b: "blocks_ok s" and tm: "timers_ok s"
  shows "blocks_ok (upd_thread t (\<lambda>k. k\<lparr>wait_status := x\<rparr>) s')" "timers_ok (upd_thread t (\<lambda>k. k\<lparr>wait_status := x\<rparr>) s')"
proof -
  note D = consumedD [OF c]
  let ?s = "upd_thread t (\<lambda>k. k\<lparr>wait_status := x\<rparr>) s'"
  have w: "wb ?s u i = wb s u i" "wait_count (threads ?s u) = wait_count (threads s u)" "wait_timed (threads ?s u) = wait_timed (threads s u)"
    "kstate (threads ?s u) = kstate (threads s u)" for u i
    by (simp_all add: wb_def ke_upd D)
  have o: "objs ?s = objs s'" "timer_list ?s = timer_list s" "earliest_timer_due ?s = earliest_timer_due s"
    by (simp_all add: ke_upd D)
  show "blocks_ok ?s" using b unfolding blocks_ok_def w o D .
  show "timers_ok ?s" using tm unfolding timers_ok_def w o D .
qed

lemma consumed_others:
  assumes c: "consumed t H s s'" and u: "u \<noteq> t" and sg: "signaled_for u h s'"
  shows "signaled_for u h s" and "object_type (objs s h) = Mutant \<Longrightarrow> mutant_ok (objs s h) \<Longrightarrow> signal_state (objs s' h) = signal_state (objs s h)"
proof -
  note D = consumedD [OF c]
  have *: "object_type (objs s h) = Mutant \<Longrightarrow> h \<notin> H"
    using D(20) [of h] u sg by (auto simp: signaled_for_def D(10) split: if_splits)
  show "signaled_for u h s"
  proof (cases "object_type (objs s h) = Mutant")
    case True
    then have "objs s' h = objs s h" using D(18) * by blast
    then show ?thesis using sg by (simp add: signaled_for_def split: if_splits)
  next
    case False
    then show ?thesis using sg D(10,17) by (auto simp: signaled_for_def split: if_splits)
  qed
  show "object_type (objs s h) = Mutant \<Longrightarrow> mutant_ok (objs s h) \<Longrightarrow> signal_state (objs s' h) = signal_state (objs s h)"
    using D(18) * by simp
qed

lemma consumed_mutant_ok:
  assumes "consumed t H s s'" "t \<noteq> 0" "mutant_ok (objs s h)"
  shows "mutant_ok (objs s' h)"
proof (cases "object_type (objs s h) = Mutant \<and> h \<in> H")
  case True
  then show ?thesis using consumedD(10,20) [OF assms(1), of h] assms(2) by (simp add: mutant_ok_def)
next
  case False
  then show ?thesis using consumedD(10,18) [OF assms(1), of h] assms(3) by (cases "h \<in> H") (auto simp: mutant_ok_def)
qed

lemma wake_ok:
  assumes r: "ready_but {} s" and w: "waits_ok s" and t: "is_waiting s t" and c: "c < MAX_CPUS"
  shows "\<exists>s' s1. wake c t s = Some s' \<and> ready_but {} s' \<and> wakes {t} s s' \<and> consumed t (set (taken t (evaluate_wait t s) s)) s s1
    \<and> (\<forall>h. signal_state (objs s' h) = signal_state (objs s1 h) \<and> owner (objs s' h) = owner (objs s1 h))
    \<and> foreach (satisfy_object_for t) (taken t (evaluate_wait t s) s) s = Some s1
    \<and> wait_status (threads s' t) = status_of t (evaluate_wait t s) s"
proof -
  have b: "blocks_ok s" and tm: "timers_ok s" and m: "mutants_ok s" using w by (auto simp: waits_ok_def)
  let ?r = "evaluate_wait t s" and ?hs = "taken t (evaluate_wait t s) s"
  have t0: "t \<noteq> 0" using blocks_okD(9) [OF b t] .
  have "can_take t (length ?hs) (objs s h)" if "h \<in> set ?hs" for h
    using evaluate_taken [OF b that] can_take_signaled [OF m t] length_taken [OF b, of t ?r] by blast
  then obtain s1 where s1: "foreach (satisfy_object_for t) ?hs s = Some s1" "consumed t (set ?hs) s s1"
    using consume_ok by blast
  note D = consumedD [OF s1(2)]
  let ?s2 = "upd_thread t (\<lambda>k. k\<lparr>wait_status := status_of t ?r s\<rparr>) s1"
  let ?s3 = "unlinked t ?s2"
  have w2: "is_waiting ?s2 t" using t by (simp add: ke_upd D)
  have u: "unlink_thread_waits t ?s2 = Some ?s3"
    by (rule unlink_thread_waits_ok [OF consumed_ok [OF s1(2) b tm] w2])
  have nq: "\<not> queued s t" using ready_butD(5) [OF r, of t] t by simp
  have k3: "kstate (threads ?s3 v) = kstate (threads s v)" "slot_of (threads ?s3 v) = slot_of (threads s v)" for v
    by (simp_all add: unlinked_def ke_upd D slot_of_def)
  have bk: "banks ?s3 = banks s" "initialized ?s3 = initialized s" by (simp_all add: unlinked_def ke_upd D)
  have r3: "ready_but {} ?s3"
    by (rule ready_but_frame [OF r bk]) (simp_all add: k3 ready_butD(5) [OF r])
  have nq3: "\<not> queued ?s3 t" using ready_butD(5) [OF r3, of t] t k3 by simp
  have wait3: "is_waiting ?s3 t" using k3 t by simp
  obtain s4 where s4: "ready_thread_locked c t ?s3 = Some s4" "ready_but {} s4"
    "s4 = ?s3\<lparr>threads := (threads ?s3)(t := (threads ?s3 t)\<lparr>kstate := Ready, ready_since := tick_count ?s3\<rparr>),
         banks := (banks ?s3)(c := enq (slot_of (threads ?s3 t)) t (banks ?s3 c))\<rparr>"
    using ready_thread_locked_ok [OF r3 t0 nq3 c] wait3 by auto
  have run: "wake c t s = Some s4"
    unfolding wake_def Let_def apply_consume_eq using s1(1) u s4(1) by simp
  have th: "threads s4 v = (if v = t then (threads s t)\<lparr>kstate := Ready, ready_since := tick_count s,
      wait_blocks := (\<lambda>i. (wb s t i)\<lparr>wb_active := False\<rparr>), wait_timed := False, wait_status := status_of t ?r s\<rparr> else threads s v)" for v
    unfolding s4(3) by (simp add: unlinked_def ke_upd D wb_def)
  have ob: "objs s4 h = (objs s1 h)\<lparr>wait_list := filter (\<lambda>b. fst b \<noteq> t) (wait_list (objs s h)), inserted := inserted (objs s h) \<and> h \<noteq> WaitTimerHdr t\<rparr>" for h
    unfolding s4(3) by (simp add: unlinked_def ke_upd D)
  have rest: "timer_list s4 = filter (\<lambda>h. h \<noteq> WaitTimerHdr t) (timer_list s)" "prcbs s4 = prcbs s" "initialized s4 = initialized s"
    "tick_count s4 = tick_count s" "earliest_timer_due s4 = earliest_timer_due s" "dpc_queue s4 = dpc_queue s" "dpc_inserted s4 = dpc_inserted s"
    unfolding s4(3) by (simp_all add: unlinked_def ke_upd D)
  have sg: "signaled_for v h s4 = signaled_for v h s1" for v h by (simp add: signaled_for_def ob)
  have mk: "mutant_ok (objs s4 h) = mutant_ok (objs s1 h)" for h by (simp add: mutant_ok_def ob)
  have "wakes {t} s s4"
    unfolding wakes_def
  proof (intro conjI allI ballI impI)
    fix v
    have "WaitTimerHdr v \<notin> set ?hs"
      using evaluate_taken [OF b, of "WaitTimerHdr v" t] blocks_okD(4,6,7) [OF b] t by (metis less_le_not_le)
    then show "signal_state (objs s4 (WaitTimerHdr v)) = signal_state (objs s (WaitTimerHdr v))" using D(18) by (simp add: ob)
  next
    fix h v assume "v \<notin> {t}" "signaled_for v h s4"
    then have v: "v \<noteq> t" "signaled_for v h s1" using sg by auto
    show "signaled_for v h s" by (rule consumed_others(1) [OF s1(2) v])
    assume "object_type (objs s h) = Mutant"
    then show "signal_state (objs s4 h) = signal_state (objs s h)"
      using consumed_others(2) [OF s1(2) v] m by (simp add: ob mutants_ok_def)
  next
    fix h assume "mutant_ok (objs s h)"
    then show "mutant_ok (objs s4 h)" unfolding mk by (rule consumed_mutant_ok [OF s1(2) t0])
  next
    fix h assume "0 < signal_state (objs s4 h)"
    then show "0 < signal_state (objs s h)" using D(17) by (simp add: ob)
  qed (use t in \<open>auto simp: th ob rest D wb_def\<close>)
  moreover have "signal_state (objs s4 h) = signal_state (objs s1 h) \<and> owner (objs s4 h) = owner (objs s1 h)" for h
    by (simp add: ob)
  ultimately show ?thesis using run s4(2) s1 th by auto
qed

section \<open>The wait test\<close>

text \<open>The threads waiting on an object.\<close>

definition waiters :: "ke \<Rightarrow> hdr \<Rightarrow> tid set" where
  "waiters s h = fst ` set (wait_list (objs s h))"

lemma find_waiter_eq:
  assumes "blocks_ok s"
  shows "find_waiter h s = find (\<lambda>t. evaluate_wait t s \<noteq> NotYet) (map fst (wait_list (objs s h)))"
proof -
  have "map (\<lambda>(t, i). wb_thread (wb s t i)) (wait_list (objs s h)) = map fst (wait_list (objs s h))"
    by (rule map_cong [OF refl]) (use blocks_okD(3,5) [OF assms] in auto)
  then show ?thesis unfolding find_waiter_def by (rule arg_cong)
qed

lemma waiters_waiting: "blocks_ok s \<Longrightarrow> t \<in> waiters s h \<Longrightarrow> is_waiting s t"
  using blocks_okD(3,4) by (force simp: waiters_def)

lemma wait_test_loop_ok:
  assumes "ready_but {} s" "waits_ok s" "c < MAX_CPUS" "asleep_but (waiters s h) s"
  shows "\<exists>n s' W. wait_test_loop c h k s = Some (k + n, s') \<and> ready_but {} s' \<and> wakes W s s' \<and> asleep_but {} s' \<and> W \<subseteq> waiters s h"
  using assms
proof (induction "length (wait_list (objs s h))" arbitrary: s k rule: less_induct)
  case less
  have b: "blocks_ok s" using less.prems(2) by (simp add: waits_ok_def)
  show ?case
  proof (cases "find_waiter h s")
    case None
    then have "\<forall>t\<in>waiters s h. evaluate_wait t s = NotYet"
      unfolding find_waiter_eq [OF b] by (auto simp: find_None_iff waiters_def)
    then have "asleep_but {} s" using less.prems(4) by (auto simp: asleep_but_def)
    with None less.prems(1) wakes_none show ?thesis
      by (subst wait_test_loop.simps) (auto intro!: exI [of _ 0] exI [of _ "{}"])
  next
    case (Some t)
    then have t: "t \<in> waiters s h" using find_SomeD [OF Some [unfolded find_waiter_eq [OF b]]] by (auto simp: waiters_def)
    obtain s1 where s1: "wake c t s = Some s1" "ready_but {} s1" "wakes {t} s s1"
      using wake_ok [OF less.prems(1,2) waiters_waiting [OF b t] less.prems(3)] by blast
    have wl: "wait_list (objs s1 h) = filter (\<lambda>b. fst b \<noteq> t) (wait_list (objs s h))" using wakesD(7) [OF s1(3)] by simp
    have shorter: "length (wait_list (objs s1 h)) < length (wait_list (objs s h))"
    proof -
      obtain i where "(t, i) \<in> set (wait_list (objs s h))" using t by (auto simp: waiters_def)
      then show ?thesis unfolding wl by (rule length_filter_less) simp
    qed
    have ws: "waiters s1 h = waiters s h - {t}" unfolding waiters_def wl by auto
    have "asleep_but (waiters s h) s1" by (rule wakes_asleep [OF s1(3) less.prems(4)])
    then have "asleep_but (waiters s1 h) s1"
      using wakesD(3) [OF s1(3), of t] by (auto simp: asleep_but_def ws)
    from less.hyps [OF shorter s1(2) wakes_waits_ok [OF s1(3) less.prems(2)] less.prems(3) this, of "k + 1"]
    obtain n s' W where s': "wait_test_loop c h (k + 1) s1 = Some (k + 1 + n, s')" "ready_but {} s'" "wakes W s1 s'" "asleep_but {} s'" "W \<subseteq> waiters s1 h"
      by blast
    have "wait_test_loop c h k s = Some (k + Suc n, s')" using Some s1(1) s'(1) by (subst wait_test_loop.simps) simp
    moreover have "{t} \<union> W \<subseteq> waiters s h" using t s'(5) ws by auto
    ultimately show ?thesis using s'(2,4) wakes_trans [OF s1(3) s'(3)] by blast
  qed
qed

end
