(* ===== verification/Ke_Ops_Laws.thy ===== *)
theory Ke_Ops_Laws
  imports Ke_Wake_Laws
begin

text \<open>
  The dispatcher invariant and that the signalling, timer and clock operations keep it. It says that the ready
  queues, the running threads, the wait lists and the timer list are consistent, that no blocked thread could
  complete its wait (no wake-up is lost), and that every timed wait has its timer armed.
\<close>

section \<open>The invariant\<close>

definition dpcs_ok :: "ke \<Rightarrow> bool" where
  "dpcs_ok s \<longleftrightarrow> distinct (dpc_queue s) \<and> (\<forall>d. d \<in> set (dpc_queue s) \<longleftrightarrow> dpc_inserted s d)"

definition ke_ok :: "ke \<Rightarrow> bool" where
  "ke_ok s \<longleftrightarrow> ready_but {} s \<and> running_but {} s \<and> waits_ok s \<and> asleep_but {} s \<and> armed_but {} s \<and> dpcs_ok s"

lemma ke_okD:
  assumes "ke_ok s"
  shows "ready_but {} s" "running_but {} s" "waits_ok s" "asleep_but {} s" "armed_but {} s" "dpcs_ok s"
    "blocks_ok s" "timers_ok s" "mutants_ok s" "initialized s"
  using assms ready_butD(2) by (auto simp: ke_ok_def waits_ok_def)

lemma cpus_less: "c \<in> cpus s \<Longrightarrow> c < MAX_CPUS"
  by (simp add: cpus_def)

lemma ke_ok_same_waits:
  assumes "ke_ok s" "same_waits s s'" "ready_but {} s'" "running_but {} s'" "dpcs_ok s'"
  shows "ke_ok s'"
  using ke_okD [OF assms(1)] same_waits_ok [OF assms(2)] assms(3-5) by (auto simp: ke_ok_def)

lemma ke_ok_ipis:
  assumes "ke_ok s" "only_ipis s s'" "dpc_queue s' = dpc_queue s" "dpc_inserted s' = dpc_inserted s"
  shows "ke_ok s'"
  using assms ke_okD [OF assms(1)]
  by (intro ke_ok_same_waits [OF assms(1)]) (auto simp: dpcs_ok_def intro: only_ipis_waits only_ipis_ready only_ipis_running)

lemma request_dpcs [simp]:
  "dpc_queue (request_dispatch_interrupt c s) = dpc_queue s" "dpc_inserted (request_dispatch_interrupt c s) = dpc_inserted s"
  "dpc_queue (request_dispatch_ipi c s) = dpc_queue s" "dpc_inserted (request_dispatch_ipi c s) = dpc_inserted s"
  "dpc_queue (nudge c n s) = dpc_queue s" "dpc_inserted (nudge c n s) = dpc_inserted s"
  by (simp_all add: nudge_def request_dispatch_ipi_def request_dispatch_interrupt_def ipi_idle_cpus_def send_ipi_all_but_self_def ke_upd)

lemma ke_ok_nudge: "ke_ok s \<Longrightarrow> ke_ok (nudge c n s)"
  by (rule ke_ok_ipis [OF _ only_ipis_nudge]) simp_all

lemma ke_ok_request: "ke_ok s \<Longrightarrow> ke_ok (request_dispatch_interrupt c s)"
  by (rule ke_ok_ipis [OF _ only_ipis_request]) simp_all

section \<open>Testing the waiters of an object\<close>

lemma ensure_frame [simp]:
  "threads (ensure_wait_list h s) = threads s" "banks (ensure_wait_list h s) = banks s" "prcbs (ensure_wait_list h s) = prcbs s"
  "timer_list (ensure_wait_list h s) = timer_list s" "initialized (ensure_wait_list h s) = initialized s"
  "tick_count (ensure_wait_list h s) = tick_count s" "earliest_timer_due (ensure_wait_list h s) = earliest_timer_due s"
  "dpc_queue (ensure_wait_list h s) = dpc_queue s" "dpc_inserted (ensure_wait_list h s) = dpc_inserted s"
  "object_type (objs (ensure_wait_list h s) g) = object_type (objs s g)" "signal_state (objs (ensure_wait_list h s) g) = signal_state (objs s g)"
  "owner (objs (ensure_wait_list h s) g) = owner (objs s g)" "limit (objs (ensure_wait_list h s) g) = limit (objs s g)"
  "due_tick (objs (ensure_wait_list h s) g) = due_tick (objs s g)" "inserted (objs (ensure_wait_list h s) g) = inserted (objs s g)"
  "timer_dpc (objs (ensure_wait_list h s) g) = timer_dpc (objs s g)" "wb (ensure_wait_list h s) t i = wb s t i"
  "signaled_for t g (ensure_wait_list h s) = signaled_for t g s"
  "wait_list_init (objs (ensure_wait_list h s) g) = (g = h \<or> wait_list_init (objs s g))"
  by (auto simp: ensure_wait_list_def ke_upd wb_def signaled_for_def)

lemma ensure_wait_lists:
  assumes "wait_list_init (objs s h) \<or> wait_list (objs s h) = []"
  shows "wait_list (objs (ensure_wait_list h s) g) = wait_list (objs s g)"
  using assms by (auto simp: ensure_wait_list_def ke_upd)

lemma ensure_evaluate [simp]: "evaluate_wait t (ensure_wait_list h s) = evaluate_wait t s"
  unfolding evaluate_wait_def ensure_frame ..

lemma ensure_ok:
  shows "ready_but X s \<Longrightarrow> ready_but X (ensure_wait_list h s)"
    and "running_but E s \<Longrightarrow> running_but E (ensure_wait_list h s)"
    and "waits_ok s \<Longrightarrow> waits_ok (ensure_wait_list h s)"
    and "asleep_but U s \<Longrightarrow> asleep_but U (ensure_wait_list h s)"
    and "armed_but U s \<Longrightarrow> armed_but U (ensure_wait_list h s)"
    and "waits_ok s \<Longrightarrow> waiters (ensure_wait_list h s) g = waiters s g"
proof -
  show "ready_but X s \<Longrightarrow> ready_but X (ensure_wait_list h s)"
    by (rule ready_but_frame) (auto simp: ready_butD(5))
  show "running_but E s \<Longrightarrow> running_but E (ensure_wait_list h s)"
    by (rule running_but_frame) auto
  show "asleep_but U s \<Longrightarrow> asleep_but U (ensure_wait_list h s)" by (simp add: asleep_but_def)
  show "armed_but U s \<Longrightarrow> armed_but U (ensure_wait_list h s)" by (simp add: armed_but_def)
  have l: "waits_ok s \<Longrightarrow> wait_list (objs (ensure_wait_list h s) g) = wait_list (objs s g)" for g
    by (rule ensure_wait_lists) (auto simp: waits_ok_def dest: blocks_okD(2))
  show "waits_ok s \<Longrightarrow> waiters (ensure_wait_list h s) g = waiters s g" by (simp add: waiters_def l)
  assume w: "waits_ok s"
  have mk: "mutant_ok (objs (ensure_wait_list h s) g) = mutant_ok (objs s g)" for g by (simp add: mutant_ok_def)
  have "blocks_ok (ensure_wait_list h s)"
    using w unfolding waits_ok_def blocks_ok_def l [OF w] by simp
  moreover have "timers_ok (ensure_wait_list h s)" using w by (simp add: waits_ok_def timers_ok_def)
  moreover have "mutants_ok (ensure_wait_list h s)" using w by (simp add: waits_ok_def mutants_ok_def mk)
  ultimately show "waits_ok (ensure_wait_list h s)" by (simp add: waits_ok_def)
qed

text \<open>
  After an object's signal state has been raised only its waiters may be able to complete; the wait test wakes
  those that can and leaves everything else.
\<close>

lemma ki_wait_test_ok:
  assumes r: "ready_but {} s" and u: "running_but {} s" and w: "waits_ok s" and c: "c < MAX_CPUS"
    and a: "asleep_but (waiters s h) s"
  shows "\<exists>n s' W. ki_wait_test c h s = Some (n, s') \<and> ready_but {} s' \<and> running_but {} s' \<and> waits_ok s' \<and> asleep_but {} s'
    \<and> wakes W (ensure_wait_list h s) s' \<and> W \<subseteq> waiters s h"
proof -
  let ?e = "ensure_wait_list h s"
  have "asleep_but (waiters ?e h) ?e" using a ensure_ok(4,6) w by simp
  from wait_test_loop_ok [OF ensure_ok(1) [OF r] ensure_ok(3) [OF w] c this, of 0]
  obtain n s' W where s': "wait_test_loop c h 0 ?e = Some (n, s')" "ready_but {} s'" "wakes W ?e s'" "asleep_but {} s'" "W \<subseteq> waiters s h"
    using ensure_ok(6) [OF w] by auto
  moreover have "running_but {} s'" using wakes_running [OF s'(3) ensure_ok(2) [OF u]] .
  moreover have "waits_ok s'" using wakes_waits_ok [OF s'(3) ensure_ok(3) [OF w]] .
  ultimately show ?thesis by (auto simp: ki_wait_test_def)
qed

lemma signaled_for_same: "objs s' h = objs s h \<Longrightarrow> signaled_for t h s' = signaled_for t h s"
  by (simp only: signaled_for_def)

lemma evaluate_other:
  assumes b: "blocks_ok s" and t: "is_waiting s t" "t \<notin> waiters s h" and th: "threads s' t = threads s t"
    and o: "\<And>g. g \<noteq> h \<Longrightarrow> signal_state (objs s' g) = signal_state (objs s g) \<and> owner (objs s' g) = owner (objs s g) \<and> object_type (objs s' g) = object_type (objs s g)"
  shows "evaluate_wait t s' = evaluate_wait t s"
proof -
  have ne: "wb_object (wb s t i) \<noteq> h" if "i < wait_count (threads s t) \<or> i = 3 \<and> wait_timed (threads s t)" for i
    using that t blocks_okD(3,4) [OF b, of t i] by (force simp: waiters_def)
  have w: "wb s' t i = wb s t i" for i by (simp add: wb_def th)
  have sg: "signaled_for t (wb_object (wb s t i)) s' = signaled_for t (wb_object (wb s t i)) s" if "i < wait_count (threads s t)" for i
    using o [OF ne] that by (simp add: signaled_for_def)
  have "find (\<lambda>i. signaled_for t (wb_object (wb s t i)) s') [0..<wait_count (threads s t)] = find (\<lambda>i. signaled_for t (wb_object (wb s t i)) s) [0..<wait_count (threads s t)]"
    by (rule find_cong [OF refl]) (use sg in auto)
  moreover have "list_all (\<lambda>i. signaled_for t (wb_object (wb s t i)) s') [0..<wait_count (threads s t)] = list_all (\<lambda>i. signaled_for t (wb_object (wb s t i)) s) [0..<wait_count (threads s t)]"
    by (rule list_all_cong [OF refl]) (use sg in auto)
  moreover have "wait_timed (threads s t) \<Longrightarrow> signal_state (objs s' (wb_object (wb s t 3))) = signal_state (objs s (wb_object (wb s t 3)))"
    using o [OF ne] by simp
  ultimately show ?thesis
    unfolding evaluate_wait_def w th Let_def nk_simps by (auto split: wait_type.splits option.splits)
qed

section \<open>Changing the signal state of an object\<close>

lemma signal_change_ok:
  assumes w: "waits_ok s" and m: "object_type (objs s h) = Mutant \<Longrightarrow> v = 1 \<and> ow = 0"
  shows "waits_ok (upd_obj h (\<lambda>x. x\<lparr>signal_state := v, owner := ow\<rparr>) s)"
proof -
  let ?s = "upd_obj h (\<lambda>x. x\<lparr>signal_state := v, owner := ow\<rparr>) s"
  have f: "wait_list (objs ?s g) = wait_list (objs s g)" "wait_list_init (objs ?s g) = wait_list_init (objs s g)"
    "inserted (objs ?s g) = inserted (objs s g)" "due_tick (objs ?s g) = due_tick (objs s g)" "object_type (objs ?s g) = object_type (objs s g)"
    "wb ?s t i = wb s t i" "threads ?s = threads s" "timer_list ?s = timer_list s" "earliest_timer_due ?s = earliest_timer_due s" for g t i
    by (simp_all add: ke_upd wb_def)
  have g: "objs ?s g = (if g = h then (objs s h)\<lparr>signal_state := v, owner := ow\<rparr> else objs s g)" for g by (simp add: ke_upd)
  have "mutants_ok ?s"
    unfolding mutants_ok_def
  proof (intro conjI allI impI)
    fix g show "mutant_ok (objs ?s g)" using w m by (auto simp: g mutant_ok_def waits_ok_def mutants_ok_def)
    fix t assume t: "is_waiting ?s t" "object_type (objs ?s g) = Mutant" "signaled_for t g ?s"
    show "I32_MIN + 3 < signal_state (objs ?s g)"
    proof (cases "g = h")
      case True
      then show ?thesis using m t(2) unfolding g by (simp add: I32_MIN_def)
    next
      case False
      then have "objs ?s g = objs s g" by (simp add: g)
      then show ?thesis using w t signaled_for_same [of ?s g s t] by (auto simp: waits_ok_def mutants_ok_def f(7))
    qed
  qed
  moreover have "blocks_ok ?s \<longleftrightarrow> blocks_ok s" unfolding blocks_ok_def f ..
  moreover have "timers_ok ?s \<longleftrightarrow> timers_ok s" unfolding timers_ok_def f ..
  ultimately show ?thesis using w by (simp add: waits_ok_def)
qed

lemma raise_ok:
  assumes ok: "ke_ok s" and c: "c < MAX_CPUS" and m: "object_type (objs s h) = Mutant \<Longrightarrow> v = 1 \<and> ow = 0"
  shows "\<exists>n s' W. ki_wait_test c h (upd_obj h (\<lambda>x. x\<lparr>signal_state := v, owner := ow\<rparr>) s) = Some (n, s') \<and> ke_ok s'
    \<and> wakes W (ensure_wait_list h (upd_obj h (\<lambda>x. x\<lparr>signal_state := v, owner := ow\<rparr>) s)) s' \<and> W \<subseteq> waiters s h"
proof -
  let ?s = "upd_obj h (\<lambda>x. x\<lparr>signal_state := v, owner := ow\<rparr>) s"
  note K = ke_okD [OF ok]
  have r: "ready_but {} ?s" by (rule ready_but_frame [OF K(1)]) (auto simp: ke_upd ready_butD(5) [OF K(1)])
  have u: "running_but {} ?s" by (rule running_but_frame [OF K(2)]) (auto simp: ke_upd)
  have w: "waits_ok ?s" by (rule signal_change_ok [OF K(3) m])
  have ws: "waiters ?s h = waiters s h" by (simp add: waiters_def ke_upd)
  have a: "asleep_but (waiters ?s h) ?s"
    unfolding asleep_but_def ws
  proof (intro allI impI)
    fix t assume t: "is_waiting ?s t" "t \<notin> waiters s h"
    then have t': "is_waiting s t" by (simp add: ke_upd)
    have "evaluate_wait t ?s = evaluate_wait t s"
      by (rule evaluate_other [OF K(7) t' t(2)]) (simp_all add: ke_upd)
    then show "evaluate_wait t ?s = NotYet" using K(4) t' by (simp add: asleep_but_def)
  qed
  obtain n s' W where s': "ki_wait_test c h ?s = Some (n, s')" "ready_but {} s'" "running_but {} s'" "waits_ok s'" "asleep_but {} s'"
    "wakes W (ensure_wait_list h ?s) s'" "W \<subseteq> waiters ?s h"
    using ki_wait_test_ok [OF r u w c a] by blast
  have "armed_but {} ?s" using K(5) by (auto simp: armed_but_def ke_upd)
  then have "armed_but {} s'" using wakes_armed [OF s'(6) ensure_ok(5)] by fastforce
  moreover have "dpcs_ok s'" using K(6) wakesD(23,24) [OF s'(6)] by (simp add: dpcs_ok_def ke_upd)
  ultimately show ?thesis using s' ws by (auto simp: ke_ok_def)
qed

lemma lower_ok:
  assumes ok: "ke_ok s" and m: "object_type (objs s h) \<noteq> Mutant" and v: "v \<le> 0"
  shows "ke_ok (upd_obj h (\<lambda>x. x\<lparr>signal_state := v\<rparr>) s)"
proof -
  let ?s = "upd_obj h (\<lambda>x. x\<lparr>signal_state := v\<rparr>) s"
  note K = ke_okD [OF ok]
  have e: "?s = upd_obj h (\<lambda>x. x\<lparr>signal_state := v, owner := owner (objs s h)\<rparr>) s" by (simp add: ke_upd)
  have "waits_ok ?s" unfolding e by (rule signal_change_ok [OF K(3)]) (use m in auto)
  moreover have "asleep_but {} ?s"
    unfolding asleep_but_def
  proof (intro allI impI)
    fix t assume "is_waiting ?s t"
    then have "evaluate_wait t s = NotYet" using K(4) by (simp add: asleep_but_def ke_upd)
    then show "evaluate_wait t ?s = NotYet"
      by (rule evaluate_mono) (use v m in \<open>auto simp: ke_upd signaled_for_def split: if_splits\<close>)
  qed
  moreover have "ready_but {} ?s" by (rule ready_but_frame [OF K(1)]) (auto simp: ke_upd ready_butD(5) [OF K(1)])
  moreover have "running_but {} ?s" by (rule running_but_frame [OF K(2)]) (auto simp: ke_upd)
  moreover have "armed_but {} ?s" "dpcs_ok ?s" using K(5,6) by (auto simp: armed_but_def dpcs_ok_def ke_upd)
  ultimately show ?thesis by (simp add: ke_ok_def)
qed

section \<open>Signalling operations\<close>

lemma ki_signal_object_ok:
  assumes "ke_ok s" "c < MAX_CPUS" "object_type (objs s h) \<noteq> Mutant"
  shows "\<exists>s'. ki_signal_object c h s = Some (signal_state (objs s h), s') \<and> ke_ok s'"
proof -
  have e: "upd_obj h (\<lambda>x. x\<lparr>signal_state := 1\<rparr>) s = upd_obj h (\<lambda>x. x\<lparr>signal_state := 1, owner := owner (objs s h)\<rparr>) s" by (simp add: ke_upd)
  from raise_ok [OF assms(1,2), of h 1 "owner (objs s h)"] assms(3) show ?thesis
    unfolding ki_signal_object_def Let_def e by (auto intro: ke_ok_nudge)
qed

lemma ki_reset_object_ok:
  assumes "ke_ok s" "object_type (objs s h) \<noteq> Mutant"
  shows "ke_ok (snd (ki_reset_object h s))"
  using lower_ok [OF assms] by (simp add: ki_reset_object_def)

lemma ki_release_semaphore_ok:
  assumes "ke_ok s" "c < MAX_CPUS" "object_type (objs s h) \<noteq> Mutant"
  shows "\<exists>r s'. ki_release_semaphore c h n s = Some (r, s') \<and> ke_ok s'"
proof -
  have e: "upd_obj h (\<lambda>x. x\<lparr>signal_state := v\<rparr>) s = upd_obj h (\<lambda>x. x\<lparr>signal_state := v, owner := owner (objs s h)\<rparr>) s" for v by (simp add: ke_upd)
  let ?v = "if I32_MIN \<le> signal_state (objs s h) + n \<and> signal_state (objs s h) + n \<le> I32_MAX then signal_state (objs s h) + n else I32_MAX"
  obtain k s' where k: "ki_wait_test c h (upd_obj h (\<lambda>x. x\<lparr>signal_state := ?v, owner := owner (objs s h)\<rparr>) s) = Some (k, s')" "ke_ok s'"
    using raise_ok [OF assms(1,2), of h ?v "owner (objs s h)"] assms(3) by blast
  show ?thesis
  proof (cases "limit (objs s h) < ?v \<or> n \<le> 0")
    case True
    then show ?thesis unfolding ki_release_semaphore_def Let_def using assms(1) by simp
  next
    case False
    then show ?thesis unfolding ki_release_semaphore_def Let_def e using k ke_ok_nudge by (simp only: if_False) simp
  qed
qed

text \<open>Giving up a level of ownership that is not the last wakes nobody.\<close>

lemma inner_release_ok:
  assumes ok: "ke_ok s" and m: "object_type (objs s h) = Mutant" and v: "signal_state (objs s h) + 1 \<le> 0"
  shows "ke_ok (upd_obj h (\<lambda>x. x\<lparr>signal_state := signal_state x + 1\<rparr>) s)"
proof -
  let ?s = "upd_obj h (\<lambda>x. x\<lparr>signal_state := signal_state x + 1\<rparr>) s"
  note K = ke_okD [OF ok]
  have f: "wait_list (objs ?s g) = wait_list (objs s g)" "wait_list_init (objs ?s g) = wait_list_init (objs s g)"
    "inserted (objs ?s g) = inserted (objs s g)" "due_tick (objs ?s g) = due_tick (objs s g)" "object_type (objs ?s g) = object_type (objs s g)"
    "wb ?s t i = wb s t i" "threads ?s = threads s" "timer_list ?s = timer_list s" "earliest_timer_due ?s = earliest_timer_due s"
    "owner (objs ?s g) = owner (objs s g)" "dpc_queue ?s = dpc_queue s" "dpc_inserted ?s = dpc_inserted s" for g t i
    by (simp_all add: ke_upd wb_def)
  have g: "signal_state (objs ?s g) = (if g = h then signal_state (objs s h) + 1 else signal_state (objs s g))" for g by (simp add: ke_upd)
  have sg: "signaled_for t g ?s = signaled_for t g s" for t g
    unfolding signaled_for_def f g using v by simp
  have "blocks_ok ?s \<longleftrightarrow> blocks_ok s" unfolding blocks_ok_def f ..
  moreover have "timers_ok ?s \<longleftrightarrow> timers_ok s" unfolding timers_ok_def f ..
  moreover have "mutants_ok ?s"
    unfolding mutants_ok_def sg
  proof (intro conjI allI impI)
    fix g
    have "mutant_ok (objs s g)" using K(9) by (simp add: mutants_ok_def)
    then show "mutant_ok (objs ?s g)" using v by (auto simp: mutant_ok_def f g)
    fix t assume "is_waiting ?s t" "object_type (objs ?s g) = Mutant" "signaled_for t g s"
    then have "I32_MIN + 3 < signal_state (objs s g)" using K(9) by (simp add: mutants_ok_def f)
    then show "I32_MIN + 3 < signal_state (objs ?s g)" by (cases "g = h") (auto simp: g)
  qed
  ultimately have "waits_ok ?s" using K(7,8) by (simp add: waits_ok_def)
  moreover have "asleep_but {} ?s"
    unfolding asleep_but_def
  proof (intro allI impI)
    fix t assume "is_waiting ?s t"
    then have "evaluate_wait t s = NotYet" using K(4) by (simp add: asleep_but_def f)
    then show "evaluate_wait t ?s = NotYet" by (rule evaluate_mono) (use v in \<open>auto simp: f sg g split: if_splits\<close>)
  qed
  moreover have "ready_but {} ?s" by (rule ready_but_frame [OF K(1)]) (auto simp: ke_upd ready_butD(5) [OF K(1)])
  moreover have "running_but {} ?s" by (rule running_but_frame [OF K(2)]) (auto simp: ke_upd)
  moreover have "armed_but {} ?s" "dpcs_ok ?s" using K(5,6) by (auto simp: armed_but_def dpcs_ok_def f)
  ultimately show ?thesis by (simp add: ke_ok_def)
qed

lemma ki_release_mutant_ok:
  assumes ok: "ke_ok s" and c: "c \<in> cpus s" and m: "object_type (objs s h) = Mutant"
  shows "\<exists>r s'. ki_release_mutant c h s = Some (r, s') \<and> ke_ok s'"
proof (cases "owner (objs s h) = current s c")
  case True
  note K = ke_okD [OF ok]
  have "mutant_ok (objs s h)" using K(9) by (simp add: mutants_ok_def)
  then have v: "signal_state (objs s h) \<le> 0"
    using m True running_butD(1) [OF K(2) c] by (auto simp: mutant_ok_def)
  let ?s = "upd_obj h (\<lambda>x. x\<lparr>signal_state := signal_state x + 1\<rparr>) s"
  show ?thesis
  proof (cases "0 < signal_state (objs s h) + 1")
    case last: True
    then have "signal_state (objs s h) = 0" using v by simp
    then have e: "upd_obj h (\<lambda>x. x\<lparr>owner := 0\<rparr>) ?s = upd_obj h (\<lambda>x. x\<lparr>signal_state := 1, owner := 0\<rparr>) s" by (simp add: ke_upd)
    have sg: "0 < signal_state (objs ?s h)" using last by (simp add: ke_upd)
    obtain k s' where "ki_wait_test c h (upd_obj h (\<lambda>x. x\<lparr>signal_state := 1, owner := 0\<rparr>) s) = Some (k, s')" "ke_ok s'"
      using raise_ok [OF ok cpus_less [OF c], of h 1 0] by blast
    then show ?thesis unfolding ki_release_mutant_def Let_def
      using True v sg e ke_ok_nudge by (simp add: I32_MAX_def)
  next
    case False
    then have sg: "\<not> 0 < signal_state (objs ?s h)" by (simp add: ke_upd)
    show ?thesis unfolding ki_release_mutant_def Let_def
      using True v sg inner_release_ok [OF ok m] False ke_ok_nudge by (simp add: I32_MAX_def)
  qed
qed (use ok in \<open>simp add: ki_release_mutant_def\<close>)

section \<open>Timers\<close>

lemma fold_min_le: "fold (\<lambda>h e. min e (f h)) hs e \<le> e \<and> (\<forall>h\<in>set hs. fold (\<lambda>h e. min e (f h)) hs e \<le> f h)" for e :: u64
proof (induction hs arbitrary: e)
  case (Cons h hs)
  then show ?case by (auto simp del: min_less_iff_conj) (meson min.cobounded1 min.cobounded2 order_trans)+
qed simp

lemma update_earliest_le:
  "h \<in> set (timer_list s) \<Longrightarrow> earliest_timer_due (update_earliest_locked s) \<le> due_tick (objs s h)"
  using fold_min_le [of "\<lambda>h. due_tick (objs s h)" "timer_list s" "- 1"] by (simp add: update_earliest_locked_def)

text \<open>
  A new timer list, with the recomputed deadline hint and with fields of one free-standing timer object changed,
  keeps the invariant when it lists exactly the armed timers.
\<close>

lemma retime_ok:
  assumes ok: "ke_ok s" and h: "h = ObjHdr k" and ty: "object_type (objs s h) = Timer"
    and s': "s' = s\<lparr>objs := (objs s)(h := x), timer_list := l, earliest_timer_due := e\<rparr>"
    and x: "object_type x = Timer" "wait_list x = wait_list (objs s h)" "wait_list_init x \<or> wait_list x = []"
      "0 < signal_state x \<Longrightarrow> 0 < signal_state (objs s h)"
    and l: "distinct l" "\<And>g. g \<in> set l \<longleftrightarrow> inserted (objs s' g)" "\<And>g. g \<in> set l \<Longrightarrow> e \<le> due_tick (objs s' g)"
  shows "ke_ok s'"
proof -
  note K = ke_okD [OF ok]
  have th: "threads s' = threads s" "banks s' = banks s" "prcbs s' = prcbs s" "initialized s' = initialized s"
    "dpc_queue s' = dpc_queue s" "dpc_inserted s' = dpc_inserted s" "timer_list s' = l" "earliest_timer_due s' = e"
    by (simp_all add: s')
  have ob: "objs s' g = (if g = h then x else objs s g)" for g by (simp add: s')
  have wl: "wait_list (objs s' g) = wait_list (objs s g)" and ot: "object_type (objs s' g) = object_type (objs s g)"
    and wi: "wait_list_init (objs s' g) \<or> wait_list (objs s' g) = []"
    and ins: "inserted (objs s' (WaitTimerHdr t)) = inserted (objs s (WaitTimerHdr t))" for g t
    using x ty blocks_okD(2) [OF K(7), of g] by (auto simp: ob h)
  have w: "wb s' t i = wb s t i" for t i by (simp add: wb_def th)
  have sg: "signaled_for t g s' \<Longrightarrow> signaled_for t g s" for t g
    using x(4) ty by (cases "g = h") (auto simp: signaled_for_def ob x(1) split: if_splits)
  have "blocks_ok s'"
    using K(7) wi unfolding blocks_ok_def w wl th by simp
  moreover have "timers_ok s'"
  proof -
    have "object_type (objs s' g) = Timer" if "g \<in> set l" for g
      using that l(2) [of g] K(8) ty by (cases "g = h") (auto simp: ob timers_ok_def x(1))
    then show ?thesis using K(8) l unfolding timers_ok_def th ins by simp
  qed
  moreover have "mutants_ok s'"
    unfolding mutants_ok_def th ot
  proof (intro conjI allI impI)
    fix g
    have "mutant_ok (objs s g)" using K(9) by (simp add: mutants_ok_def)
    then show "mutant_ok (objs s' g)" using x(1) by (simp add: ob mutant_ok_def)
    fix t assume t: "is_waiting s t" "object_type (objs s g) = Mutant" "signaled_for t g s'"
    then have "g \<noteq> h" using ty by auto
    then show "I32_MIN + 3 < signal_state (objs s' g)" using t sg K(9) by (simp add: ob mutants_ok_def)
  qed
  ultimately have "waits_ok s'" by (simp add: waits_ok_def)
  moreover have "asleep_but {} s'"
    unfolding asleep_but_def
  proof (intro allI impI)
    fix t assume "is_waiting s' t"
    then have "evaluate_wait t s = NotYet" using K(4) by (simp add: asleep_but_def th)
    then show "evaluate_wait t s' = NotYet"
      by (rule evaluate_mono) (use sg x(4) in \<open>auto simp: th ob split: if_splits\<close>)
  qed
  moreover have "ready_but {} s'" by (rule ready_but_frame [OF K(1)]) (simp_all add: th ready_butD(5) [OF K(1)])
  moreover have "running_but {} s'" by (rule running_but_frame [OF K(2)]) (simp_all add: th)
  moreover have "armed_but {} s'" "dpcs_ok s'" using K(5,6) by (auto simp: armed_but_def dpcs_ok_def th ins)
  ultimately show ?thesis by (simp add: ke_ok_def)
qed

lemma ke_set_timer_ok:
  assumes ok: "ke_ok s" and h: "h = ObjHdr k" and ty: "object_type (objs s h) = Timer"
  shows "\<exists>s'. ke_set_timer h due dpc s = Some (inserted (objs s h), s') \<and> ke_ok s'"
proof -
  note K = ke_okD [OF ok]
  let ?l = "filter (\<lambda>g. g \<noteq> h) (timer_list s) @ [h]"
  have tl: "remove1 h (timer_list s) = filter (\<lambda>g. g \<noteq> h) (timer_list s)" "inserted (objs s h) \<longleftrightarrow> h \<in> set (timer_list s)"
    using remove1_filter [of "timer_list s" h "\<lambda>_. True"] K(8) by (simp_all add: timers_ok_def)
  let ?m = "(if inserted (objs s h) then s\<lparr>timer_list := remove1 h (timer_list s)\<rparr> else s)"
  have m: "?m = s\<lparr>timer_list := filter (\<lambda>g. g \<noteq> h) (timer_list s)\<rparr>"
  proof (cases "inserted (objs s h)")
    case False
    then have "filter (\<lambda>g. g \<noteq> h) (timer_list s) = timer_list s" using tl(2) by (auto intro!: filter_True)
    with False show ?thesis by simp
  qed (simp add: tl(1))
  let ?x = "(objs (ensure_wait_list h s) h)\<lparr>signal_state := 0, due_tick := due, timer_dpc := dpc, inserted := True\<rparr>"
  let ?u = "s\<lparr>objs := (objs s)(h := ?x), timer_list := ?l\<rparr>"
  have ens: "upd_obj h (\<lambda>x. x\<lparr>signal_state := 0, due_tick := due, timer_dpc := dpc, inserted := True\<rparr>) (ensure_wait_list h ?m)
      = s\<lparr>objs := (objs s)(h := ?x), timer_list := filter (\<lambda>g. g \<noteq> h) (timer_list s)\<rparr>"
    unfolding m by (simp add: ensure_wait_list_def ke_upd)
  have run: "ke_set_timer h due dpc s = Some (inserted (objs s h), update_earliest_locked ?u)"
  proof -
    have rm: "(if inserted (objs s h) then remove_timer h s else Some s) = Some ?m"
      using tl(2) by (simp add: remove_timer_def)
    show ?thesis
      unfolding ke_set_timer_def Let_def rm Option.bind.simps ens insert_timer_def using K(10) by simp
  qed
  have e: "update_earliest_locked ?u = s\<lparr>objs := (objs s)(h := ?x), timer_list := ?l,
      earliest_timer_due := earliest_timer_due (update_earliest_locked ?u)\<rparr>"
    by (simp add: update_earliest_locked_def)
  have "ke_ok (update_earliest_locked ?u)"
  proof (rule retime_ok [OF ok h ty e])
    show "wait_list ?x = wait_list (objs s h)"
      using ensure_wait_lists [of s h h] blocks_okD(2) [OF K(7)] by simp
    show "distinct ?l" using K(8) by (simp add: timers_ok_def)
    show "g \<in> set ?l \<longleftrightarrow> inserted (objs (update_earliest_locked ?u) g)" for g
      using K(8) by (auto simp: timers_ok_def update_earliest_locked_def)
    show "earliest_timer_due (update_earliest_locked ?u) \<le> due_tick (objs (update_earliest_locked ?u) g)" if "g \<in> set ?l" for g
      using update_earliest_le [of g ?u] that by (simp add: update_earliest_locked_def)
  qed (simp_all add: ty)
  with run show ?thesis by blast
qed

lemma ke_cancel_timer_ok:
  assumes ok: "ke_ok s" and h: "h = ObjHdr k" and ty: "object_type (objs s h) = Timer"
  shows "\<exists>s'. ke_cancel_timer h s = Some (inserted (objs s h), s') \<and> ke_ok s'"
proof (cases "inserted (objs s h)")
  case True
  note K = ke_okD [OF ok]
  let ?l = "filter (\<lambda>g. g \<noteq> h) (timer_list s)" and ?x = "(objs s h)\<lparr>inserted := False\<rparr>"
  let ?u = "s\<lparr>timer_list := ?l, objs := (objs s)(h := ?x)\<rparr>"
  have tl: "remove1 h (timer_list s) = ?l" "inserted (objs s g) \<longleftrightarrow> g \<in> set (timer_list s)" for g
    using remove1_filter [of "timer_list s" h "\<lambda>_. True"] K(8) by (simp_all add: timers_ok_def)
  have run: "ke_cancel_timer h s = Some (True, update_earliest_locked ?u)"
    using True tl by (simp add: ke_cancel_timer_def remove_timer_def ke_upd)
  have e: "update_earliest_locked ?u = s\<lparr>objs := (objs s)(h := ?x), timer_list := ?l,
      earliest_timer_due := earliest_timer_due (update_earliest_locked ?u)\<rparr>"
    by (rule ke.equality) (simp_all add: update_earliest_locked_def)
  have "ke_ok (update_earliest_locked ?u)"
  proof (rule retime_ok [OF ok h ty e])
    show "distinct ?l" using K(8) by (simp add: timers_ok_def)
    show "g \<in> set ?l \<longleftrightarrow> inserted (objs (update_earliest_locked ?u) g)" for g
      using tl(2) by (auto simp: update_earliest_locked_def)
    show "earliest_timer_due (update_earliest_locked ?u) \<le> due_tick (objs (update_earliest_locked ?u) g)" if "g \<in> set ?l" for g
      using update_earliest_le [of g ?u] that by (simp add: update_earliest_locked_def)
    show "wait_list_init ?x \<or> wait_list ?x = []" using blocks_okD(2) [OF K(7), of h] by simp
  qed (simp_all add: ty)
  then show ?thesis using run True by (intro exI [of _ "update_earliest_locked ?u"]) simp
qed (use ok in \<open>simp add: ke_cancel_timer_def\<close>)

section \<open>The clock\<close>

lemma ke_ok_tick:
  assumes ok: "ke_ok s"
  shows "ke_ok (s\<lparr>tick_count := n\<rparr>)"
proof (rule ke_ok_same_waits [OF ok])
  note K = ke_okD [OF ok]
  show "ready_but {} (s\<lparr>tick_count := n\<rparr>)" by (rule ready_but_frame [OF K(1)]) (simp_all add: ready_butD(5) [OF K(1)])
  show "running_but {} (s\<lparr>tick_count := n\<rparr>)" by (rule running_but_frame [OF K(2)]) simp_all
  show "dpcs_ok (s\<lparr>tick_count := n\<rparr>)" using K(6) by (simp add: dpcs_ok_def)
qed (simp_all add: same_waits_def)

lemma ke_ok_upd_prcb:
  assumes ok: "ke_ok s" and f: "\<And>p. online (f p) = online p \<and> idle_thread (f p) = idle_thread p \<and> current_thread (f p) = current_thread p"
  shows "ke_ok (upd_prcb c f s)"
  using ok
proof (rule ke_ok_ipis)
  show "only_ipis s (upd_prcb c f s)" using f by (simp add: only_ipis_def ke_upd)
qed (simp_all add: ke_upd)

lemma ke_ok_quantum:
  assumes ok: "ke_ok s"
  shows "ke_ok (upd_thread t (\<lambda>k. k\<lparr>quantum := quantum k - 1\<rparr>) s)"
proof (rule ke_ok_same_waits [OF ok])
  let ?s = "upd_thread t (\<lambda>k. k\<lparr>quantum := quantum k - 1\<rparr>) s"
  note K = ke_okD [OF ok]
  have th: "kstate (threads ?s u) = kstate (threads s u)" "slot_of (threads ?s u) = slot_of (threads s u)" "waitv (threads ?s u) = waitv (threads s u)" for u
    by (simp_all add: ke_upd slot_of_def waitv_def)
  show "same_waits s ?s" by (simp add: same_waits_def th) (simp add: ke_upd)
  show "ready_but {} ?s" by (rule ready_but_frame [OF K(1)]) (simp_all add: th ready_butD(5) [OF K(1)], simp_all add: ke_upd)
  show "running_but {} ?s" by (rule running_but_frame [OF K(2)]) (simp_all add: th, simp_all add: ke_upd)
  show "dpcs_ok ?s" using K(6) by (simp add: dpcs_ok_def ke_upd)
qed

lemma burn_quantum_ok:
  assumes "ke_ok s" "I32_MIN < quantum (threads s (current s c))"
  shows "\<exists>s'. burn_quantum c s = Some s' \<and> ke_ok s'"
  using assms unfolding burn_quantum_def by (auto simp: Let_def intro!: ke_ok_quantum ke_ok_request ke_ok_upd_prcb)

lemma ki_clock_tick_ok:
  assumes ok: "ke_ok s" and t: "unat (tick_count s) + 1 < 2 ^ 64" and q: "I32_MIN < quantum (threads s (current s c))"
  shows "\<exists>s'. ki_clock_tick c s = Some s' \<and> ke_ok s'"
proof -
  let ?a = "if c = 0 then s\<lparr>tick_count := tick_count s + 1\<rparr> else s"
  let ?n = "if c = 0 then tick_count s + 1 else tick_count s"
  have 1: "(if c = 0 then do { now \<leftarrow> checked_add (tick_count s) 1; Some (now, s\<lparr>tick_count := tick_count s + 1\<rparr>) }
      else Some (tick_count s, s)) = Some (?n, ?a)"
    using t by (simp add: checked_add_def)
  have "ke_ok ?a" using ok ke_ok_tick by simp
  moreover have "I32_MIN < quantum (threads ?a (current ?a c))" using q by (cases "c = 0") auto
  ultimately obtain b where "burn_quantum c ?a = Some b" "ke_ok b" using burn_quantum_ok by blast
  then show ?thesis unfolding ki_clock_tick_def 1 using ke_ok_request by simp
qed

end
