(* ===== verification/Ke_Block_Laws.thy ===== *)
theory Ke_Block_Laws
  imports Ke_Ops_Laws
begin

text \<open>
  Blocking: a wait either completes at once, consuming its objects, or links the thread into every object's wait
  list, arms its timeout and gives up the processor. Both outcomes keep the dispatcher invariant.
\<close>

section \<open>Laying out the wait blocks\<close>

definition block_at :: "tid \<Rightarrow> hdr \<Rightarrow> nat \<Rightarrow> kwait_block" where
  "block_at cur obj i = \<lparr>wb_thread = cur, wb_object = obj, wait_key = of_nat i, wb_active = False\<rparr>"

lemma block_at_eq: "w\<lparr>wb_thread := cur, wb_object := obj, wait_key := of_nat i, wb_active := False\<rparr> = block_at cur obj i"
  by (cases w) (simp add: block_at_def)

definition inited :: "hdr set \<Rightarrow> (hdr \<Rightarrow> dispatcher_header) \<Rightarrow> hdr \<Rightarrow> dispatcher_header" where
  "inited H ob h = (ob h)\<lparr>wait_list_init := wait_list_init (ob h) \<or> h \<in> H\<rparr>"

definition lay_blocks :: "tid \<Rightarrow> nat \<Rightarrow> hdr list \<Rightarrow> (nat \<Rightarrow> kwait_block) \<Rightarrow> nat \<Rightarrow> kwait_block" where
  "lay_blocks cur k os b i = (if k \<le> i \<and> i < k + length os then block_at cur (os ! (i - k)) i else b i)"

lemma inited_fields [simp]:
  "object_type (inited H ob h) = object_type (ob h)" "signal_state (inited H ob h) = signal_state (ob h)"
  "wait_list (inited H ob h) = wait_list (ob h)" "limit (inited H ob h) = limit (ob h)" "owner (inited H ob h) = owner (ob h)"
  "due_tick (inited H ob h) = due_tick (ob h)" "inserted (inited H ob h) = inserted (ob h)" "timer_dpc (inited H ob h) = timer_dpc (ob h)"
  "wait_list_init (inited H ob h) = (wait_list_init (ob h) \<or> h \<in> H)"
  by (simp_all add: inited_def)

lemma inited_none: "inited {} ob = ob"
  by (simp add: inited_def fun_eq_iff)

lemma inited_inited: "inited H (inited G ob) = inited (G \<union> H) ob"
  by (simp add: inited_def fun_eq_iff disj_assoc)

lemma ensure_inited:
  "wait_list_init (objs s h) \<or> wait_list (objs s h) = [] \<Longrightarrow> ensure_wait_list h s = s\<lparr>objs := inited {h} (objs s)\<rparr>"
proof -
  assume a: "wait_list_init (objs s h) \<or> wait_list (objs s h) = []"
  show ?thesis
  proof (cases "wait_list_init (objs s h)")
    case True
    have "inited {h} (objs s) g = objs s g" for g
      using True by (cases "g = h") (simp_all add: inited_def)
    then have "inited {h} (objs s) = objs s" by (simp add: fun_eq_iff)
    with True show ?thesis by (simp add: ensure_wait_list_def)
  next
    case False
    then have "(objs s h)\<lparr>wait_list := []\<rparr> = objs s h" using a by (cases "objs s h") simp
    then have "inited {h} (objs s) = (objs s)(h := (objs s h)\<lparr>wait_list := [], wait_list_init := True\<rparr>)"
      by (simp add: inited_def fun_eq_iff)
    with False show ?thesis by (simp add: ensure_wait_list_def upd_obj_def)
  qed
qed

lemma lay_out_ok:
  assumes "\<And>h. wait_list_init (objs s h) \<or> wait_list (objs s h) = []" "k + length os \<le> 4"
  shows "foreach (lay_out_block cur) (enumerate k os) s =
    Some (s\<lparr>objs := inited (set os) (objs s),
            threads := (threads s)(cur := (threads s cur)\<lparr>wait_blocks := lay_blocks cur k os (wait_blocks (threads s cur))\<rparr>)\<rparr>)"
  using assms
proof (induction os arbitrary: k s)
  case Nil
  have "lay_blocks cur k [] b = b" for b by (auto simp: lay_blocks_def fun_eq_iff)
  then show ?case by (simp add: inited_none)
next
  case (Cons o' os)
  let ?s = "s\<lparr>objs := inited {o'} (objs s), threads := (threads s)(cur := (threads s cur)\<lparr>wait_blocks := (wait_blocks (threads s cur))(k := block_at cur o' k)\<rparr>)\<rparr>"
  have one: "lay_out_block cur (k, o') s = Some ?s"
    using Cons.prems by (simp add: lay_out_block_def ensure_inited ke_upd block_at_eq nk_simps)
  have IH: "foreach (lay_out_block cur) (enumerate (Suc k) os) ?s =
    Some (?s\<lparr>objs := inited (set os) (objs ?s),
            threads := (threads ?s)(cur := (threads ?s cur)\<lparr>wait_blocks := lay_blocks cur (Suc k) os (wait_blocks (threads ?s cur))\<rparr>)\<rparr>)"
    by (rule Cons.IH) (use Cons.prems in auto)
  have "lay_blocks cur (Suc k) os (b(k := block_at cur o' k)) = lay_blocks cur k (o' # os) b" for b
  proof
    fix i
    show "lay_blocks cur (Suc k) os (b(k := block_at cur o' k)) i = lay_blocks cur k (o' # os) b i"
      by (cases "i = k"; cases "Suc k \<le> i") (auto simp: lay_blocks_def nth_Cons' Suc_diff_le)
  qed
  then show ?case using one IH by (simp add: inited_inited) (simp add: fun_upd_def)
qed

section \<open>Linking them\<close>

definition linked :: "tid \<Rightarrow> nat \<Rightarrow> ke \<Rightarrow> ke" where
  "linked cur n s =
     s\<lparr>objs := (\<lambda>h. (objs s h)\<lparr>wait_list := wait_list (objs s h) @ map (Pair cur) (filter (\<lambda>i. wb_object (wb s cur i) = h) [0..<n])\<rparr>),
       threads := (threads s)(cur := (threads s cur)\<lparr>wait_blocks := (\<lambda>i. if i < n then (wb s cur i)\<lparr>wb_active := True\<rparr> else wb s cur i)\<rparr>)\<rparr>"

lemma link_blocks_ok:
  assumes "\<And>i. i < n \<Longrightarrow> wait_list_init (objs s (wb_object (wb s cur i)))"
  shows "foreach (link_block cur) [0..<n] s = Some (linked cur n s)"
  using assms
proof (induction n)
  case 0
  show ?case by (simp add: linked_def wb_def)
next
  case (Suc n)
  have w: "wb (linked cur n s) cur n = wb s cur n" by (simp add: linked_def wb_def)
  have "link_block cur n (linked cur n s) = Some (linked cur (Suc n) s)"
    unfolding link_block_def Let_def w using Suc.prems [of n]
    by (simp add: ke_upd) (auto simp: linked_def wb_def fun_eq_iff less_Suc_eq intro!: ke.equality)
  with Suc show ?case by (simp add: foreach_append)
qed

section \<open>A wait that completes at once\<close>

definition laid :: "tid \<Rightarrow> hdr list \<Rightarrow> wait_type \<Rightarrow> ke \<Rightarrow> ke" where
  "laid cur os wt s =
     s\<lparr>objs := inited (set os) (objs s),
       threads := (threads s)(cur := (threads s cur)\<lparr>wait_typ := wt, wait_count := length os, wait_timed := False,
         wait_blocks := lay_blocks cur 0 os (wait_blocks (threads s cur))\<rparr>)\<rparr>"

lemma laid_wb: "wb (laid cur os wt s) t i = (if t = cur \<and> i < length os then block_at cur (os ! i) i else wb s t i)"
  by (simp add: laid_def wb_def lay_blocks_def)

lemma laid_frame [simp]:
  "banks (laid cur os wt s) = banks s" "prcbs (laid cur os wt s) = prcbs s" "timer_list (laid cur os wt s) = timer_list s"
  "initialized (laid cur os wt s) = initialized s" "earliest_timer_due (laid cur os wt s) = earliest_timer_due s"
  "tick_count (laid cur os wt s) = tick_count s" "dpc_queue (laid cur os wt s) = dpc_queue s" "dpc_inserted (laid cur os wt s) = dpc_inserted s"
  "kstate (threads (laid cur os wt s) t) = kstate (threads s t)" "slot_of (threads (laid cur os wt s) t) = slot_of (threads s t)"
  "t \<noteq> cur \<Longrightarrow> threads (laid cur os wt s) t = threads s t"
  "objs (laid cur os wt s) = inited (set os) (objs s)" "signaled_for t h (laid cur os wt s) = signaled_for t h s"
  "wait_count (threads (laid cur os wt s) cur) = length os" "\<not> wait_timed (threads (laid cur os wt s) cur)"
  "wait_typ (threads (laid cur os wt s) cur) = wt"
  by (simp_all add: laid_def slot_of_def signaled_for_def)

lemma laid_ok:
  assumes ok: "ke_ok s" and cur: "\<not> is_waiting s cur" and os: "length os \<le> 3"
  shows "ke_ok (laid cur os wt s)"
proof -
  let ?s = "laid cur os wt s"
  note K = ke_okD [OF ok] and B = blocks_okD [OF ke_okD(7) [OF ok]]
  have act: "wb_active (wb ?s t i) = wb_active (wb s t i)" for t i
    using B(4) [of cur i] cur by (auto simp: laid_wb block_at_def)
  have same: "wb ?s t i = wb s t i" if "wb_active (wb s t i)" for t i
    using that B(4) [of cur i] cur by (auto simp: laid_wb)
  have "blocks_ok ?s"
    unfolding blocks_ok_def
  proof (intro conjI allI impI)
    fix h show "distinct (wait_list (objs ?s h))" using B(1) by simp
    show "wait_list_init (objs ?s h) \<or> wait_list (objs ?s h) = []" using B(2) [of h] by auto
  next
    fix h t i
    show "(t, i) \<in> set (wait_list (objs ?s h)) \<longleftrightarrow> wb_active (wb ?s t i) \<and> wb_object (wb ?s t i) = h"
      using B(3) [of t i h] same [of t i] by (auto simp: act)
  next
    fix t i
    show "wb_active (wb ?s t i) \<longleftrightarrow> is_waiting ?s t \<and> (i < wait_count (threads ?s t) \<or> i = 3 \<and> wait_timed (threads ?s t))"
      unfolding act using B(4) [of t i] cur by (cases "t = cur") auto
    assume "wb_active (wb ?s t i)"
    then have a: "wb_active (wb s t i)" by (simp add: act)
    show "wb_thread (wb ?s t i) = t" "wb_object (wb ?s t i) = WaitTimerHdr u \<longleftrightarrow> i = 3 \<and> u = t" for u
      unfolding same [OF a] using B(5,6) [OF a] by auto
  next
    fix t
    show "wait_count (threads ?s t) \<le> 3" using B(7) [of t] os by (cases "t = cur") auto
    show "is_waiting ?s t" if "wait_timed (threads ?s t)" using that B(8) [of t] by (cases "t = cur") auto
    show "t \<noteq> 0" if "is_waiting ?s t" using that B(9) [of t] by simp
  qed
  moreover have nt: "\<not> wait_timed (threads s cur)" using B(8) cur by blast
  have wt: "wait_timed (threads ?s t) = wait_timed (threads s t)" for t using nt by (cases "t = cur") auto
  have "timers_ok ?s" using K(8) unfolding timers_ok_def wt by simp
  moreover have "mutants_ok ?s" using K(9) by (simp add: mutants_ok_def mutant_ok_def)
  moreover have "asleep_but {} ?s"
    unfolding asleep_but_def
  proof (intro allI impI)
    fix t assume "is_waiting ?s t"
    then have t: "is_waiting s t" "t \<noteq> cur" using cur by auto
    then have "evaluate_wait t s = NotYet" using K(4) by (simp add: asleep_but_def)
    then show "evaluate_wait t ?s = NotYet" by (rule evaluate_mono) (use t in auto)
  qed
  moreover have "ready_but {} ?s" by (rule ready_but_frame [OF K(1)]) (simp_all add: ready_butD(5) [OF K(1)])
  moreover have "running_but {} ?s" by (rule running_but_frame [OF K(2)]) simp_all
  moreover have "armed_but {} ?s" "dpcs_ok ?s" using K(5,6) by (auto simp: armed_but_def dpcs_ok_def wt)
  ultimately show ?thesis by (simp add: ke_ok_def waits_ok_def)
qed

lemma consume_keeps:
  assumes ok: "ke_ok s" and c: "consumed t H s s'" and t: "t \<noteq> 0" "\<not> is_waiting s t"
  shows "ke_ok s'"
proof -
  note K = ke_okD [OF ok] and D = consumedD [OF c]
  have w: "wb s' u i = wb s u i" for u i by (simp add: wb_def D)
  have "blocks_ok s'" using K(7) unfolding blocks_ok_def w D .
  moreover have "timers_ok s'" using K(8) unfolding timers_ok_def D .
  moreover have "mutants_ok s'"
    unfolding mutants_ok_def
  proof (intro conjI allI impI)
    fix h
    have m: "mutant_ok (objs s h)" using K(9) by (simp add: mutants_ok_def)
    then show "mutant_ok (objs s' h)" by (rule consumed_mutant_ok [OF c t(1)])
    fix u assume u: "is_waiting s' u" "object_type (objs s' h) = Mutant" "signaled_for u h s'"
    then have "u \<noteq> t" using t(2) by (auto simp: D)
    then show "I32_MIN + 3 < signal_state (objs s' h)"
      using consumed_others [OF c _ u(3)] K(9) m u(1,2) by (simp add: D mutants_ok_def)
  qed
  moreover have "asleep_but {} s'"
    unfolding asleep_but_def
  proof (intro allI impI)
    fix u assume "is_waiting s' u"
    then have u: "is_waiting s u" "u \<noteq> t" using t(2) by (auto simp: D)
    then have "evaluate_wait u s = NotYet" using K(4) by (simp add: asleep_but_def)
    then show "evaluate_wait u s' = NotYet"
      by (rule evaluate_mono) (use D(17) consumed_others(1) [OF c u(2)] in \<open>auto simp: D(1)\<close>)
  qed
  moreover have "ready_but {} s'" by (rule ready_but_frame [OF K(1)]) (simp_all add: D ready_butD(5) [OF K(1)])
  moreover have "running_but {} s'" by (rule running_but_frame [OF K(2)]) (simp_all add: D)
  moreover have "armed_but {} s'" "dpcs_ok s'" using K(5,6) by (auto simp: armed_but_def dpcs_ok_def D)
  ultimately show ?thesis by (simp add: ke_ok_def waits_ok_def)
qed

section \<open>A wait that blocks\<close>

text \<open>No mutant is within a wait's reach of its recursion limit.\<close>

definition mutant_room :: "ke \<Rightarrow> bool" where
  "mutant_room s \<longleftrightarrow> (\<forall>h. object_type (objs s h) = Mutant \<longrightarrow> I32_MIN + 3 < signal_state (objs s h))"

definition sleeping :: "tid \<Rightarrow> nat \<Rightarrow> ke \<Rightarrow> ke" where
  "sleeping cur n s = upd_thread cur (\<lambda>k. k\<lparr>kstate := Waiting\<rparr>) (linked cur n s)"

lemma sleeping_wb: "wb (sleeping cur n s) t i = (if t = cur \<and> i < n then (wb s cur i)\<lparr>wb_active := True\<rparr> else wb s t i)"
  by (simp add: sleeping_def linked_def wb_def ke_upd)

lemma sleeping_frame [simp]:
  "banks (sleeping cur n s) = banks s" "prcbs (sleeping cur n s) = prcbs s" "timer_list (sleeping cur n s) = timer_list s"
  "initialized (sleeping cur n s) = initialized s" "earliest_timer_due (sleeping cur n s) = earliest_timer_due s"
  "tick_count (sleeping cur n s) = tick_count s"
  "dpc_queue (sleeping cur n s) = dpc_queue s" "dpc_inserted (sleeping cur n s) = dpc_inserted s"
  "kstate (threads (sleeping cur n s) t) = (if t = cur then Waiting else kstate (threads s t))"
  "slot_of (threads (sleeping cur n s) t) = slot_of (threads s t)" "t \<noteq> cur \<Longrightarrow> threads (sleeping cur n s) t = threads s t"
  "wait_count (threads (sleeping cur n s) t) = wait_count (threads s t)" "wait_timed (threads (sleeping cur n s) t) = wait_timed (threads s t)"
  "wait_typ (threads (sleeping cur n s) t) = wait_typ (threads s t)" "signaled_for t h (sleeping cur n s) = signaled_for t h s"
  "object_type (objs (sleeping cur n s) h) = object_type (objs s h)" "signal_state (objs (sleeping cur n s) h) = signal_state (objs s h)"
  "owner (objs (sleeping cur n s) h) = owner (objs s h)" "inserted (objs (sleeping cur n s) h) = inserted (objs s h)"
  "due_tick (objs (sleeping cur n s) h) = due_tick (objs s h)" "wait_list_init (objs (sleeping cur n s) h) = wait_list_init (objs s h)"
  "wait_list (objs (sleeping cur n s) h) = wait_list (objs s h) @ map (Pair cur) (filter (\<lambda>i. wb_object (wb s cur i) = h) [0..<n])"
  by (simp_all add: sleeping_def linked_def ke_upd slot_of_def signaled_for_def)

lemma sleeping_evaluate: "evaluate_wait t (sleeping cur n s) = NotYet \<longleftrightarrow> evaluate_wait t s = NotYet"
  unfolding evaluate_NotYet_iff by (simp add: sleeping_wb split: wait_type.splits) auto

text \<open>What the wait blocks of the calling thread look like before they are linked.\<close>

definition laid_out :: "tid \<Rightarrow> nat \<Rightarrow> ke \<Rightarrow> bool" where
  "laid_out cur n s \<longleftrightarrow> n \<le> 3 \<and> wait_count (threads s cur) = n \<and> (\<forall>i<n. wb_thread (wb s cur i) = cur
     \<and> (\<forall>u. wb_object (wb s cur i) \<noteq> WaitTimerHdr u) \<and> wait_list_init (objs s (wb_object (wb s cur i))))"

lemma sleeping_blocks_ok:
  assumes b: "blocks_ok s" and cur: "\<not> is_waiting s cur" "cur \<noteq> 0" and l: "laid_out cur n s"
  shows "blocks_ok (sleeping cur n s)"
proof -
  let ?s = "sleeping cur n s"
  note B = blocks_okD [OF b]
  have ina: "\<not> wb_active (wb s cur i)" for i using B(4) [of cur i] cur by blast
  have nt: "\<not> wait_timed (threads s cur)" using B(8) cur(1) by blast
  have n: "n \<le> 3" "wait_count (threads s cur) = n" using l by (auto simp: laid_out_def)
  have act: "wb_active (wb ?s t i) \<longleftrightarrow> (if t = cur then i < n else wb_active (wb s t i))" for t i
    using ina by (simp add: sleeping_wb)
  show ?thesis
    unfolding blocks_ok_def
  proof (intro conjI allI impI)
    fix h
    have "(cur, i) \<notin> set (wait_list (objs s h))" for i using B(3) [of cur i h] ina by blast
    then show "distinct (wait_list (objs ?s h))" using B(1) [of h] by (auto simp: distinct_map inj_on_def)
    show "wait_list_init (objs ?s h) \<or> wait_list (objs ?s h) = []"
      using B(2) [of h] l by (auto simp: laid_out_def filter_empty_conv)
  next
    fix h t i
    show "(t, i) \<in> set (wait_list (objs ?s h)) \<longleftrightarrow> wb_active (wb ?s t i) \<and> wb_object (wb ?s t i) = h"
      using B(3) [of t i h] ina [of i] by (cases "t = cur") (auto simp: sleeping_wb)
  next
    fix t i
    show "wb_active (wb ?s t i) \<longleftrightarrow> is_waiting ?s t \<and> (i < wait_count (threads ?s t) \<or> i = 3 \<and> wait_timed (threads ?s t))"
      unfolding act using B(4) [of t i] n nt by (cases "t = cur") auto
    assume a: "wb_active (wb ?s t i)"
    show "wb_thread (wb ?s t i) = t" "wb_object (wb ?s t i) = WaitTimerHdr u \<longleftrightarrow> i = 3 \<and> u = t" for u
      using a B(5,6) [of t i] l n unfolding act by (cases "t = cur"; auto simp: sleeping_wb laid_out_def)+
  next
    fix t
    show "wait_count (threads ?s t) \<le> 3" using B(7) [of t] by simp
    show "is_waiting ?s t" if "wait_timed (threads ?s t)" using that B(8) [of t] by simp
    show "t \<noteq> 0" if "is_waiting ?s t" using that B(9) [of t] cur(2) by (auto split: if_splits)
  qed
qed

lemma sleeping_ok:
  assumes ok: "ke_ok s" and c: "c \<in> cpus s" and cur: "cur = current s c" "cur \<noteq> idle s c"
    and l: "laid_out cur n s" and e: "evaluate_wait cur s = NotYet" and room: "mutant_room s"
  shows "ready_but {} (sleeping cur n s)" "running_but {c} (sleeping cur n s)" "waits_ok (sleeping cur n s)"
    "asleep_but {} (sleeping cur n s)" "armed_but {} (sleeping cur n s)" "dpcs_ok (sleeping cur n s)"
proof -
  let ?s = "sleeping cur n s"
  note K = ke_okD [OF ok]
  have run: "kstate (threads s cur) = Running" "cur \<noteq> 0" using running_butD(1,4) [OF K(2) c] cur by auto
  show "ready_but {} ?s"
    by (rule ready_but_frame [OF K(1)]) (use run in \<open>auto simp: ready_butD(5) [OF K(1)] split: if_splits\<close>)
  have cp: "cpus ?s = cpus s" by (simp add: cpus_def)
  show "running_but {c} ?s"
    unfolding running_but_def cp using K(2) running_butD(3-7) [OF K(2)] c cur unfolding running_but_def
    by simp metis
  have "blocks_ok ?s" by (rule sleeping_blocks_ok [OF K(7) _ run(2) l]) (simp add: run)
  moreover have "timers_ok ?s" using K(8) by (simp add: timers_ok_def)
  moreover have "mutants_ok ?s" using K(9) room by (simp add: mutants_ok_def mutant_ok_def mutant_room_def)
  ultimately show "waits_ok ?s" by (simp add: waits_ok_def)
  show "asleep_but {} ?s" using K(4) e by (auto simp: asleep_but_def sleeping_evaluate split: if_splits)
  show "armed_but {} ?s" "dpcs_ok ?s" using K(5,6) by (auto simp: armed_but_def dpcs_ok_def)
qed

section \<open>Arming the timeout\<close>

definition armed :: "tid \<Rightarrow> u64 \<Rightarrow> ke \<Rightarrow> ke" where
  "armed cur due s =
     s\<lparr>objs := (objs s)(WaitTimerHdr cur := ktimer_new\<lparr>due_tick := due, wait_list := [(cur, 3)], wait_list_init := True, inserted := True\<rparr>),
       timer_list := timer_list s @ [WaitTimerHdr cur],
       threads := (threads s)(cur := (threads s cur)\<lparr>wait_timed := True,
         wait_blocks := (wait_blocks (threads s cur))(3 := (wb s cur 3)\<lparr>wb_thread := cur, wb_object := WaitTimerHdr cur, wb_active := True\<rparr>)\<rparr>)\<rparr>"

lemma arm_timeout_eq:
  assumes "initialized s" "checked_add (tick_count s) (max ticks 1) = Some due"
  shows "arm_timeout cur ticks s = Some (update_earliest_locked (armed cur due s))"
proof -
  let ?h = "WaitTimerHdr cur"
  let ?s3 = "upd_obj ?h (\<lambda>x. x\<lparr>inserted := True\<rparr>) (ensure_wait_list ?h (upd_obj ?h (\<lambda>_. ktimer_new\<lparr>due_tick := due\<rparr>) s))"
  let ?s7 = "upd_thread cur (\<lambda>k. k\<lparr>wait_timed := True\<rparr>) (upd_obj ?h (\<lambda>x. x\<lparr>wait_list := wait_list x @ [(cur, 3)]\<rparr>)
    (upd_block cur 3 (\<lambda>w. w\<lparr>wb_thread := cur, wb_object := ?h, wb_active := True\<rparr>) (?s3\<lparr>timer_list := timer_list ?s3 @ [?h]\<rparr>)))"
  have "initialized ?s3" using assms(1) by (simp add: upd_obj_def)
  then have "arm_timeout cur ticks s = Some (update_earliest_locked ?s7)"
    unfolding arm_timeout_def Let_def insert_timer_def assms(2) by (simp add: nk_simps)
  also have "?s7 = armed cur due s"
    by (rule ke.equality)
       (simp_all add: armed_def ensure_wait_list_def ke_upd ktimer_new_def header_new_def wb_def fun_eq_iff)
  finally show ?thesis .
qed

lemma armed_wb: "wb (armed cur due s) t i =
    (if t = cur \<and> i = 3 then (wb s cur 3)\<lparr>wb_thread := cur, wb_object := WaitTimerHdr cur, wb_active := True\<rparr> else wb s t i)"
  by (simp add: armed_def wb_def)

lemma armed_frame [simp]:
  "banks (armed cur due s) = banks s" "prcbs (armed cur due s) = prcbs s" "initialized (armed cur due s) = initialized s"
  "timer_list (armed cur due s) = timer_list s @ [WaitTimerHdr cur]"
  "dpc_queue (armed cur due s) = dpc_queue s" "dpc_inserted (armed cur due s) = dpc_inserted s"
  "kstate (threads (armed cur due s) t) = kstate (threads s t)" "slot_of (threads (armed cur due s) t) = slot_of (threads s t)"
  "wait_count (threads (armed cur due s) t) = wait_count (threads s t)" "wait_typ (threads (armed cur due s) t) = wait_typ (threads s t)"
  "wait_timed (threads (armed cur due s) t) = (t = cur \<or> wait_timed (threads s t))" "t \<noteq> cur \<Longrightarrow> threads (armed cur due s) t = threads s t"
  "h \<noteq> WaitTimerHdr cur \<Longrightarrow> objs (armed cur due s) h = objs s h"
  by (simp_all add: armed_def slot_of_def)

lemma armed_timer [simp]:
  "object_type (objs (armed cur due s) (WaitTimerHdr cur)) = Timer" "signal_state (objs (armed cur due s) (WaitTimerHdr cur)) = 0"
  "wait_list (objs (armed cur due s) (WaitTimerHdr cur)) = [(cur, 3)]" "wait_list_init (objs (armed cur due s) (WaitTimerHdr cur))"
  "inserted (objs (armed cur due s) (WaitTimerHdr cur))" "due_tick (objs (armed cur due s) (WaitTimerHdr cur)) = due"
  by (simp_all add: armed_def ktimer_new_def header_new_def)

lemma earliest_frame [simp]:
  "banks (update_earliest_locked s) = banks s" "prcbs (update_earliest_locked s) = prcbs s" "initialized (update_earliest_locked s) = initialized s"
  "timer_list (update_earliest_locked s) = timer_list s" "dpc_queue (update_earliest_locked s) = dpc_queue s" "dpc_inserted (update_earliest_locked s) = dpc_inserted s"
  "threads (update_earliest_locked s) = threads s" "objs (update_earliest_locked s) = objs s" "tick_count (update_earliest_locked s) = tick_count s"
  "wb (update_earliest_locked s) t i = wb s t i" "signaled_for t h (update_earliest_locked s) = signaled_for t h s"
  by (simp_all add: update_earliest_locked_def wb_def signaled_for_def)

lemma earliest_evaluate [simp]: "evaluate_wait t (update_earliest_locked s) = evaluate_wait t s"
  unfolding evaluate_wait_def earliest_frame ..

lemma armed_blocks_ok:
  assumes b: "blocks_ok s" and cur: "is_waiting s cur" "\<not> wait_timed (threads s cur)"
  shows "blocks_ok (armed cur due s)"
proof -
  let ?s = "armed cur due s"
  note B = blocks_okD [OF b]
  have i3: "\<not> wb_active (wb s cur 3)" using B(4) [of cur 3] B(7) [of cur] cur by auto
  have empty: "wait_list (objs s (WaitTimerHdr cur)) = []"
  proof -
    have "(t, i) \<notin> set (wait_list (objs s (WaitTimerHdr cur)))" for t i
      using B(3) [of t i "WaitTimerHdr cur"] B(6) [of t i cur] i3 by auto
    then show ?thesis by (cases "wait_list (objs s (WaitTimerHdr cur))") auto
  qed
  show ?thesis
    unfolding blocks_ok_def
  proof (intro conjI allI impI)
    fix h show "distinct (wait_list (objs ?s h))" using B(1) [of h] by (cases "h = WaitTimerHdr cur") auto
    show "wait_list_init (objs ?s h) \<or> wait_list (objs ?s h) = []" using B(2) [of h] by (cases "h = WaitTimerHdr cur") auto
  next
    fix h t i
    show "(t, i) \<in> set (wait_list (objs ?s h)) \<longleftrightarrow> wb_active (wb ?s t i) \<and> wb_object (wb ?s t i) = h"
    proof (cases "h = WaitTimerHdr cur")
      case True
      then show ?thesis using B(3) [of t i h] empty by (auto simp: armed_wb)
    next
      case False
      then show ?thesis using B(3) [of t i h] i3 by (auto simp: armed_wb)
    qed
  next
    fix t i
    show "wb_active (wb ?s t i) \<longleftrightarrow> is_waiting ?s t \<and> (i < wait_count (threads ?s t) \<or> i = 3 \<and> wait_timed (threads ?s t))"
      using B(4) [of t i] cur by (auto simp: armed_wb)
    assume a: "wb_active (wb ?s t i)"
    show "wb_thread (wb ?s t i) = t" "wb_object (wb ?s t i) = WaitTimerHdr u \<longleftrightarrow> i = 3 \<and> u = t" for u
      using a B(5,6) [of t i] by (auto simp: armed_wb split: if_splits)
  next
    fix t
    show "wait_count (threads ?s t) \<le> 3" using B(7) [of t] by simp
    show "is_waiting ?s t" if "wait_timed (threads ?s t)" using that B(8) [of t] cur by auto
    show "t \<noteq> 0" if "is_waiting ?s t" using that B(9) [of t] by simp
  qed
qed

lemma armed_ok:
  assumes w: "waits_ok s" and a: "asleep_but {} s" and arm: "armed_but {} s"
    and cur: "is_waiting s cur" "\<not> wait_timed (threads s cur)"
  shows "waits_ok (update_earliest_locked (armed cur due s))" "asleep_but {} (update_earliest_locked (armed cur due s))"
    "armed_but {} (update_earliest_locked (armed cur due s))"
proof -
  let ?s = "armed cur due s" and ?t = "update_earliest_locked (armed cur due s)"
  have b: "blocks_ok s" and tm: "timers_ok s" and m: "mutants_ok s" using w by (auto simp: waits_ok_def)
  have ni: "\<not> inserted (objs s (WaitTimerHdr cur))" using tm cur(2) by (auto simp: timers_ok_def)
  have ob: "objs ?s h = objs s h" if "h \<noteq> WaitTimerHdr cur" for h using that by simp
  have "blocks_ok ?t"
    using armed_blocks_ok [OF b cur, of due] unfolding blocks_ok_def by simp
  moreover have "timers_ok ?t"
  proof -
    have "distinct (timer_list ?t)" using tm ni by (auto simp: timers_ok_def)
    moreover have "h \<in> set (timer_list ?t) \<longleftrightarrow> inserted (objs ?t h)" for h
      using tm ob [of h] by (cases "h = WaitTimerHdr cur") (auto simp: timers_ok_def)
    moreover have "wait_timed (threads ?t t)" if "inserted (objs ?t (WaitTimerHdr t))" for t
      using tm that by (cases "t = cur") (auto simp: timers_ok_def)
    moreover have "earliest_timer_due ?t \<le> due_tick (objs ?t h) \<and> object_type (objs ?t h) = Timer" if "h \<in> set (timer_list ?t)" for h
      using update_earliest_le [of h ?s] that tm ob [of h] by (cases "h = WaitTimerHdr cur") (auto simp: timers_ok_def)
    ultimately show ?thesis unfolding timers_ok_def by blast
  qed
  moreover have "mutants_ok ?t"
    unfolding mutants_ok_def
  proof (intro conjI allI impI)
    fix h show "mutant_ok (objs ?t h)" using m ob [of h] by (cases "h = WaitTimerHdr cur") (auto simp: mutants_ok_def mutant_ok_def)
    fix t assume t: "is_waiting ?t t" "object_type (objs ?t h) = Mutant" "signaled_for t h ?t"
    then have "h \<noteq> WaitTimerHdr cur" by auto
    then show "I32_MIN + 3 < signal_state (objs ?t h)"
      using t m signaled_for_same [of ?s h s t] by (auto simp: mutants_ok_def)
  qed
  ultimately show "waits_ok ?t" by (simp add: waits_ok_def)
  show "armed_but {} ?t" using arm by (auto simp: armed_but_def) (metis armed_frame(13) armed_timer(5) hdr.inject(3))
  show "asleep_but {} ?t"
    unfolding asleep_but_def
  proof (intro allI impI)
    fix t assume t: "is_waiting ?t t"
    then have n: "evaluate_wait t s = NotYet" using a by (simp add: asleep_but_def)
    have ne: "wb_object (wb s t i) \<noteq> WaitTimerHdr cur" if "i < wait_count (threads s t)" for i
      using that t blocks_okD(4,6,7) [OF b] by (metis armed_frame(7) earliest_frame(7) leD)
    have ne3: "t \<noteq> cur \<Longrightarrow> wait_timed (threads s t) \<Longrightarrow> wb_object (wb s t 3) \<noteq> WaitTimerHdr cur"
      using t blocks_okD(4,6) [OF b] by (metis armed_frame(7) earliest_frame(7))
    have sg: "signaled_for t (wb_object (wb s t i)) ?s = signaled_for t (wb_object (wb s t i)) s" if "i < wait_count (threads s t)" for i
      using signaled_for_same ob [OF ne [OF that]] by blast
    have w': "wb ?s t i = wb s t i" if "i < wait_count (threads s t)" for i
      using that blocks_okD(7) [OF b, of t] by (simp add: armed_wb)
    have "evaluate_wait t ?s = NotYet"
      unfolding evaluate_NotYet_iff
    proof
      show "case wait_typ (threads ?s t) of
            WaitAny \<Rightarrow> \<forall>i<wait_count (threads ?s t). \<not> signaled_for t (wb_object (wb ?s t i)) ?s
          | WaitAll \<Rightarrow> wait_count (threads ?s t) = 0 \<or> (\<exists>i<wait_count (threads ?s t). \<not> signaled_for t (wb_object (wb ?s t i)) ?s)"
        using n w' sg unfolding evaluate_NotYet_iff by (auto split: wait_type.splits)
      show "\<not> (wait_timed (threads ?s t) \<and> 0 < signal_state (objs ?s (wb_object (wb ?s t 3))))"
      proof (cases "t = cur")
        case True
        then show ?thesis by (simp add: armed_wb)
      next
        case False
        then show ?thesis using n ne3 unfolding evaluate_NotYet_iff by (auto simp: armed_wb)
      qed
    qed
    then show "evaluate_wait t ?t = NotYet" by simp
  qed
qed

section \<open>The whole wait\<close>

text \<open>
  The outcome of a wait for the objects \<open>os\<close> by thread \<open>cur\<close>: which of them it takes at once and with which status, or
  \<open>None\<close> when it cannot complete.
\<close>

definition wait_result :: "tid \<Rightarrow> hdr list \<Rightarrow> wait_type \<Rightarrow> ke \<Rightarrow> (hdr list \<times> nt_status) option" where
  "wait_result cur os wt s = (case wt of
     WaitAny \<Rightarrow> (case find (\<lambda>i. signaled_for cur (os ! i) s) [0..<length os] of
       Some i \<Rightarrow> Some ([os ! i], STATUS_WAIT_0 + of_nat i) | None \<Rightarrow> None)
   | WaitAll \<Rightarrow> if os \<noteq> [] \<and> (\<forall>h\<in>set os. signaled_for cur h s) then Some (os, STATUS_WAIT_0) else None)"

lemma laid_objects: "map (\<lambda>i. wb_object (wb (laid cur os wt s) cur i)) [0..<length os] = os"
  by (rule nth_equalityI) (simp_all add: laid_wb block_at_def)

lemma laid_evaluate:
  assumes "length os \<le> 3"
  shows "evaluate_wait cur (laid cur os wt s) = NotYet \<longleftrightarrow> wait_result cur os wt s = None"
    and "wait_result cur os wt s = Some (hs, st) \<Longrightarrow>
      taken cur (evaluate_wait cur (laid cur os wt s)) (laid cur os wt s) = hs
      \<and> status_of cur (evaluate_wait cur (laid cur os wt s)) (laid cur os wt s) = st"
proof -
  let ?s = "laid cur os wt s"
  have f: "find (\<lambda>i. signaled_for cur (wb_object (wb ?s cur i)) ?s) [0..<length os] = find (\<lambda>i. signaled_for cur (os ! i) s) [0..<length os]"
    by (rule find_cong [OF refl]) (simp add: laid_wb block_at_def)
  have l: "list_all (\<lambda>i. signaled_for cur (wb_object (wb ?s cur i)) ?s) [0..<length os] \<longleftrightarrow> (\<forall>h\<in>set os. signaled_for cur h s)"
    by (auto simp: list_all_iff laid_wb block_at_def all_set_conv_all_nth)
  have e: "evaluate_wait cur ?s = (case wt of
      WaitAny \<Rightarrow> (case find (\<lambda>i. signaled_for cur (os ! i) s) [0..<length os] of Some i \<Rightarrow> SatAny i | None \<Rightarrow> NotYet)
    | WaitAll \<Rightarrow> if os \<noteq> [] \<and> (\<forall>h\<in>set os. signaled_for cur h s) then SatAll else NotYet)"
    unfolding evaluate_wait_def Let_def laid_frame(14,16) f l by (auto split: wait_type.splits)
  show "evaluate_wait cur ?s = NotYet \<longleftrightarrow> wait_result cur os wt s = None"
    unfolding e wait_result_def by (auto split: wait_type.splits option.splits)
  assume r: "wait_result cur os wt s = Some (hs, st)"
  show "taken cur (evaluate_wait cur ?s) ?s = hs \<and> status_of cur (evaluate_wait cur ?s) ?s = st"
  proof (cases wt)
    case WaitAll
    then show ?thesis using r unfolding e wait_result_def by (auto simp: taken_def status_of_def laid_objects split: if_splits)
  next
    case WaitAny
    then obtain i where i: "find (\<lambda>i. signaled_for cur (os ! i) s) [0..<length os] = Some i" "hs = [os ! i]" "st = STATUS_WAIT_0 + of_nat i"
      using r by (auto simp: wait_result_def split: option.splits)
    then have "i < length os" using find_SomeD [OF i(1)] by simp
    then show ?thesis using WaitAny i unfolding e by (simp add: taken_def status_of_def laid_wb block_at_def)
  qed
qed

lemma wait_result_signaled: "wait_result cur os wt s = Some (hs, st) \<Longrightarrow> h \<in> set hs \<Longrightarrow> signaled_for cur h s"
  by (auto simp: wait_result_def split: wait_type.splits option.splits if_splits dest: find_SomeD)

lemma wait_result_length: "length os \<le> 3 \<Longrightarrow> wait_result cur os wt s = Some (hs, st) \<Longrightarrow> length hs \<le> 3"
  by (auto simp: wait_result_def split: wait_type.splits option.splits if_splits)

lemma ki_wait_start:
  assumes "ke_ok s" "length os \<le> 3" and cur: "cur = current s c"
  shows "ki_wait_for_objects c os wt to s = (let s = laid cur os wt s; result = evaluate_wait cur s in
     if result \<noteq> NotYet then do { (status, s) \<leftarrow> apply_consume cur result s; Some (Some status, s) }
     else if to = Some 0 then Some (Some STATUS_TIMEOUT, s)
     else do {
       s \<leftarrow> foreach (link_block cur) [0..<wait_count (threads s cur)] s;
       s \<leftarrow> (case to of Some ticks \<Rightarrow> arm_timeout cur ticks s | None \<Rightarrow> Some s);
       let s = upd_thread cur (\<lambda>k. k\<lparr>kstate := Waiting\<rparr>) s;
       s \<leftarrow> switch_away_locked c cur s;
       Some (None, s) })"
proof -
  let ?s = "upd_thread cur (\<lambda>k. k\<lparr>wait_typ := wt, wait_count := length os, wait_timed := False\<rparr>) s"
  have "foreach (lay_out_block cur) (enumerate 0 os) ?s = Some (laid cur os wt s)"
    using lay_out_ok [of ?s 0 os cur] blocks_okD(2) [OF ke_okD(7) [OF assms(1)]] assms(2)
    by (simp add: ke_upd laid_def)
  then show ?thesis
    using assms(2) unfolding ki_wait_for_objects_def cur [symmetric] Let_def by (simp add: nk_simps)
qed

lemma ki_wait_immediate:
  assumes ok: "ke_ok s" and c: "c \<in> cpus s" and os: "length os \<le> 3" and room: "mutant_room s"
    and r: "wait_result (current s c) os wt s = Some (hs, st)"
  shows "\<exists>s'. ki_wait_for_objects c os wt to s = Some (Some st, s') \<and> ke_ok s'
    \<and> consumed (current s c) (set hs) (laid (current s c) os wt s) s'
    \<and> foreach (satisfy_object_for (current s c)) hs (laid (current s c) os wt s) = Some s'"
proof -
  let ?cur = "current s c"
  let ?s = "laid ?cur os wt s"
  note K = ke_okD [OF ok]
  have run: "kstate (threads s ?cur) = Running" "?cur \<noteq> 0" using running_butD(1,4) [OF K(2) c] by auto
  have L: "ke_ok ?s" by (rule laid_ok [OF ok _ os]) (simp add: run)
  note E = laid_evaluate [OF os, of ?cur wt s]
  have "can_take ?cur (length hs) (objs ?s h)" if "h \<in> set hs" for h
  proof -
    have "mutant_ok (objs s h)" using K(9) by (simp add: mutants_ok_def)
    then show ?thesis
      using wait_result_signaled [OF r that] wait_result_length [OF os r] room
      by (auto simp: can_take_def signaled_for_def mutant_ok_def mutant_room_def I32_MIN_def split: if_splits)
  qed
  then obtain s' where s': "foreach (satisfy_object_for ?cur) hs ?s = Some s'" "consumed ?cur (set hs) ?s s'"
    using consume_ok by blast
  have "ke_ok s'" by (rule consume_keeps [OF L s'(2) run(2)]) (simp add: run)
  moreover have "ki_wait_for_objects c os wt to s = Some (Some st, s')"
    unfolding ki_wait_start [OF ok os refl] Let_def apply_consume_eq using E r s'(1) by simp
  ultimately show ?thesis using s' by blast
qed

lemma laid_laid_out:
  assumes "ke_ok s" "length os \<le> 3" "\<And>h u. h \<in> set os \<Longrightarrow> h \<noteq> WaitTimerHdr u"
  shows "laid_out cur (length os) (laid cur os wt s)"
  using assms by (auto simp: laid_out_def laid_wb block_at_def)

lemma ki_wait_blocks:
  assumes ok: "ke_ok s" and c: "c \<in> cpus s" and busy: "current s c \<noteq> idle s c" and os: "length os \<le> 3"
    and objs: "\<And>h u. h \<in> set os \<Longrightarrow> h \<noteq> WaitTimerHdr u" and room: "mutant_room s"
    and r: "wait_result (current s c) os wt s = None" and to: "to \<noteq> Some 0"
    and tick: "\<And>n. to = Some n \<Longrightarrow> unat (tick_count s) + unat (max n 1) < 2 ^ 64"
  shows "\<exists>s'. ki_wait_for_objects c os wt to s = Some (None, s') \<and> ke_ok s' \<and> is_waiting s' (current s c)
    \<and> current s' c \<noteq> current s c \<and> (wait_timed (threads s' (current s c)) \<longleftrightarrow> to \<noteq> None)"
proof -
  let ?cur = "current s c" and ?n = "length os"
  let ?s = "laid ?cur os wt s"
  let ?z = "sleeping ?cur ?n ?s"
  note K = ke_okD [OF ok]
  have run: "kstate (threads s ?cur) = Running" using running_butD(4) [OF K(2) c] by auto
  have L: "ke_ok ?s" by (rule laid_ok [OF ok _ os]) (simp add: run)
  note lo = laid_laid_out [OF ok os objs]
  have e: "evaluate_wait ?cur ?s = NotYet" using laid_evaluate(1) [OF os] r by blast
  have rm: "mutant_room ?s" using room by (simp add: mutant_room_def)
  have cs: "c \<in> cpus ?s" "?cur = current ?s c" "?cur \<noteq> idle ?s c" using c busy by (auto simp: cpus_def)
  note Z = sleeping_ok [OF L cs lo e rm]
  have lk: "foreach (link_block ?cur) [0..<wait_count (threads ?s ?cur)] ?s = Some (linked ?cur ?n ?s)"
    using link_blocks_ok [of ?n ?s ?cur] lo by (simp add: laid_out_def)
  have nt: "\<not> wait_timed (threads ?s ?cur)" by simp
  have "\<exists>z. (do { s \<leftarrow> (case to of Some ticks \<Rightarrow> arm_timeout ?cur ticks (linked ?cur ?n ?s) | None \<Rightarrow> Some (linked ?cur ?n ?s));
         Some (upd_thread ?cur (\<lambda>k. k\<lparr>kstate := Waiting\<rparr>) s) }) = Some z
     \<and> ready_but {} z \<and> running_but {c} z \<and> waits_ok z \<and> asleep_but {} z \<and> armed_but {} z \<and> dpcs_ok z \<and> prcbs z = prcbs s
     \<and> is_waiting z ?cur \<and> (wait_timed (threads z ?cur) \<longleftrightarrow> to \<noteq> None)"
  proof (cases to)
    case None
    then show ?thesis using Z nt by (intro exI [of _ ?z]) (simp add: sleeping_def [symmetric])
  next
    case (Some n)
    have due: "checked_add (tick_count (linked ?cur ?n ?s)) (max n 1) = Some (tick_count s + max n 1)"
      using tick [OF Some] by (simp add: checked_add_def linked_def)
    let ?due = "tick_count s + max n 1"
    let ?t = "update_earliest_locked (armed ?cur ?due ?z)"
    have "initialized (linked ?cur ?n ?s)" using K(10) by (simp add: linked_def)
    then have arm: "arm_timeout ?cur n (linked ?cur ?n ?s) = Some (update_earliest_locked (armed ?cur ?due (linked ?cur ?n ?s)))"
      using due by (rule arm_timeout_eq)
    have comm: "upd_thread ?cur (\<lambda>k. k\<lparr>kstate := Waiting\<rparr>) (update_earliest_locked (armed ?cur ?due (linked ?cur ?n ?s))) = ?t"
      by (rule ke.equality) (simp_all add: sleeping_def armed_def update_earliest_locked_def ke_upd wb_def fun_eq_iff)
    have A: "waits_ok ?t" "asleep_but {} ?t" "armed_but {} ?t"
      using armed_ok [OF Z(3,4,5)] nt by auto
    have "ready_but {} ?t" by (rule ready_but_frame [OF Z(1)]) (simp_all add: ready_butD(5) [OF Z(1)])
    moreover have "running_but {c} ?t" by (rule running_but_frame [OF Z(2)]) simp_all
    moreover have "dpcs_ok ?t" using Z(6) by (simp add: dpcs_ok_def)
    ultimately show ?thesis using Some arm comm A by (intro exI [of _ ?t]) simp
  qed
  then obtain z where z: "(do { s \<leftarrow> (case to of Some ticks \<Rightarrow> arm_timeout ?cur ticks (linked ?cur ?n ?s) | None \<Rightarrow> Some (linked ?cur ?n ?s));
         Some (upd_thread ?cur (\<lambda>k. k\<lparr>kstate := Waiting\<rparr>) s) }) = Some z"
     "ready_but {} z" "running_but {c} z" "waits_ok z" "asleep_but {} z" "armed_but {} z" "dpcs_ok z" "prcbs z = prcbs s"
     "is_waiting z ?cur" "wait_timed (threads z ?cur) \<longleftrightarrow> to \<noteq> None"
    by blast
  have cz: "c \<in> cpus z" "current z c = ?cur" using c z(8) by (auto simp: cpus_def)
  obtain s' where s': "switch_away_locked c ?cur z = Some s'" "ready_but {} s'" "running_but {} s'" "same_waits z s'"
      "cpus s' = cpus z" "dpc_queue s' = dpc_queue z" "dpc_inserted s' = dpc_inserted z"
    using switch_away_ok [OF z(2,3) cz(1)] cz(2) z(9) by auto
  have "ki_wait_for_objects c os wt to s = Some (None, s')"
    unfolding ki_wait_start [OF ok os refl] Let_def using e to lk z(1) s'(1) by (simp add: bind_eq_Some_conv) blast
  moreover have "ke_ok s'" using s' z(4-7) same_waits_ok [OF s'(4)] by (auto simp: ke_ok_def dpcs_ok_def)
  moreover have w: "is_waiting s' ?cur" "wait_timed (threads s' ?cur) \<longleftrightarrow> to \<noteq> None"
    using same_waits_frame(3,4) [OF s'(4)] z(9,10) by auto
  moreover have "current s' c \<noteq> ?cur" using running_butD(4) [OF s'(3), of c] cz(1) s'(5) w(1) by auto
  ultimately show ?thesis by blast
qed

end
