(* ===== verification/Ke_Expire_Laws.thy ===== *)
theory Ke_Expire_Laws
  imports Ke_Block_Laws
begin

text \<open>
  Timer expiry and where it faults, deferred procedure calls, thread start and termination.
\<close>

section \<open>Expiring one timer\<close>

definition expired :: "hdr \<Rightarrow> ke \<Rightarrow> ke" where
  "expired h s = s\<lparr>timer_list := filter (\<lambda>g. g \<noteq> h) (timer_list s), objs := (objs s)(h := (objs s h)\<lparr>inserted := False, signal_state := 1\<rparr>)\<rparr>"

lemma expired_frame [simp]:
  "threads (expired h s) = threads s" "banks (expired h s) = banks s" "prcbs (expired h s) = prcbs s" "initialized (expired h s) = initialized s"
  "earliest_timer_due (expired h s) = earliest_timer_due s" "tick_count (expired h s) = tick_count s"
  "dpc_queue (expired h s) = dpc_queue s" "dpc_inserted (expired h s) = dpc_inserted s" "timer_list (expired h s) = filter (\<lambda>g. g \<noteq> h) (timer_list s)"
  "wait_list (objs (expired h s) g) = wait_list (objs s g)" "wait_list_init (objs (expired h s) g) = wait_list_init (objs s g)"
  "object_type (objs (expired h s) g) = object_type (objs s g)" "owner (objs (expired h s) g) = owner (objs s g)"
  "due_tick (objs (expired h s) g) = due_tick (objs s g)" "timer_dpc (objs (expired h s) g) = timer_dpc (objs s g)"
  "inserted (objs (expired h s) g) = (inserted (objs s g) \<and> g \<noteq> h)" "signal_state (objs (expired h s) g) = (if g = h then 1 else signal_state (objs s g))"
  "wb (expired h s) t i = wb s t i" "waiters (expired h s) g = waiters s g"
  by (simp_all add: expired_def wb_def waiters_def)

lemma expired_ok:
  assumes ok: "ke_ok s" and h: "h \<in> set (timer_list s)"
  shows "ready_but {} (expired h s)" "running_but {} (expired h s)" "waits_ok (expired h s)"
    "asleep_but (waiters s h) (expired h s)" "armed_but {t. h = WaitTimerHdr t} (expired h s)"
proof -
  let ?s = "expired h s"
  note K = ke_okD [OF ok]
  have ty: "object_type (objs s h) = Timer" using K(8) h by (simp add: timers_ok_def)
  show "ready_but {} ?s" by (rule ready_but_frame [OF K(1)]) (simp_all add: ready_butD(5) [OF K(1)])
  show "running_but {} ?s" by (rule running_but_frame [OF K(2)]) simp_all
  have "blocks_ok ?s" using K(7) unfolding blocks_ok_def by simp
  moreover have "timers_ok ?s" using K(8) unfolding timers_ok_def by auto
  moreover have "mutants_ok ?s"
    unfolding mutants_ok_def
  proof (intro conjI allI impI)
    fix g
    have "mutant_ok (objs s g)" using K(9) by (simp add: mutants_ok_def)
    then show "mutant_ok (objs ?s g)" using ty by (auto simp: mutant_ok_def)
    fix t assume t: "is_waiting ?s t" "object_type (objs ?s g) = Mutant" "signaled_for t g ?s"
    then have g: "g \<noteq> h" using ty by auto
    then have "objs ?s g = objs s g" by (simp add: expired_def)
    then show "I32_MIN + 3 < signal_state (objs ?s g)"
      using t g K(9) signaled_for_same [of ?s g s t] by (auto simp: mutants_ok_def)
  qed
  ultimately show "waits_ok ?s" by (simp add: waits_ok_def)
  show "armed_but {t. h = WaitTimerHdr t} ?s" using K(5) by (auto simp: armed_but_def)
  show "asleep_but (waiters s h) ?s"
    unfolding asleep_but_def
  proof (intro allI impI)
    fix t assume t: "is_waiting ?s t" "t \<notin> waiters s h"
    then have t': "is_waiting s t" by simp
    have "evaluate_wait t ?s = evaluate_wait t s" by (rule evaluate_other [OF K(7) t' t(2)]) simp_all
    then show "evaluate_wait t ?s = NotYet" using K(4) t' by (simp add: asleep_but_def)
  qed
qed

lemma expire_one_ok:
  assumes ok: "ke_ok s" and h: "h \<in> set (timer_list s)" and c: "c < MAX_CPUS"
  shows "\<exists>s' W. expire_one c h s = Some s' \<and> ke_ok s' \<and> W \<subseteq> waiters s h \<and> wakes W (ensure_wait_list h (expired h s)) s'"
proof -
  note K = ke_okD [OF ok] and E = expired_ok [OF ok h]
  have "remove1 h (timer_list s) = filter (\<lambda>g. g \<noteq> h) (timer_list s)"
    using remove1_filter [of "timer_list s" h "\<lambda>_. True"] K(8) by (simp add: timers_ok_def)
  then have run: "expire_one c h s = (do { (_, s) \<leftarrow> ki_wait_test c h (expired h s); Some s })"
    using h by (simp add: expire_one_def remove_timer_def ke_upd expired_def)
  obtain n s' W where s': "ki_wait_test c h (expired h s) = Some (n, s')" "ready_but {} s'" "running_but {} s'" "waits_ok s'" "asleep_but {} s'"
    "wakes W (ensure_wait_list h (expired h s)) s'" "W \<subseteq> waiters s h"
    using ki_wait_test_ok [OF E(1,2,3) c, of h] E(4) by auto
  note A = wakesD [OF s'(6)]
  have "armed_but {} s'"
    unfolding armed_but_def
  proof (intro allI impI)
    fix t assume t: "wait_timed (threads s' t)"
    have b: "blocks_ok s'" using s'(4) by (simp add: waits_ok_def)
    show "inserted (objs s' (WaitTimerHdr t))"
    proof (cases "h = WaitTimerHdr t")
      case False
      then show ?thesis using wakes_armed [OF s'(6) ensure_ok(5) [OF E(5)]] t by (auto simp: armed_but_def)
    next
      case True
      have w: "is_waiting s' t" using blocks_okD(8) [OF b t] .
      then have "wb_active (wb s' t 3)" using blocks_okD(4) [OF b, of t 3] t by blast
      then have "wb_object (wb s' t 3) = h" using blocks_okD(6) [OF b, of t 3 t] True by blast
      moreover have "evaluate_wait t s' = NotYet" using s'(5) w by (simp add: asleep_but_def)
      ultimately have "\<not> 0 < signal_state (objs s' h)" using t unfolding evaluate_NotYet_iff by simp
      moreover have "signal_state (objs s' h) = 1" using A(25) [of t] True by simp
      ultimately show ?thesis by simp
    qed
  qed
  moreover have "dpcs_ok s'" using K(6) A(23,24) by (simp add: dpcs_ok_def)
  ultimately show ?thesis using run s' by (auto simp: ke_ok_def)
qed

section \<open>Expiring all due timers\<close>

text \<open>
  The wake-up of a thread cancels its timeout, so when two timers expire in one pass, no thread may be waiting on
  the first while the second is its timeout.
\<close>

definition no_race :: "hdr list \<Rightarrow> ke \<Rightarrow> bool" where
  "no_race hs s \<longleftrightarrow> (\<forall>h\<in>set hs. \<forall>u\<in>waiters s h. WaitTimerHdr u \<in> set hs \<longrightarrow> h = WaitTimerHdr u)"

lemma expire_all_ok:
  assumes "ke_ok s" "c < MAX_CPUS" "distinct hs" "set hs \<subseteq> set (timer_list s)" "no_race hs s"
  shows "\<exists>ds s'. expire_all c hs dpcs s = Some (ds, s') \<and> ke_ok s'
    \<and> (\<forall>h\<in>set hs. \<not> inserted (objs s' h) \<and> signal_state (objs s' h) = 1)
    \<and> (\<forall>h. h \<notin> set hs \<longrightarrow> sticky (object_type (objs s h)) \<longrightarrow> signal_state (objs s' h) = signal_state (objs s h))
    \<and> (\<forall>h. due_tick (objs s' h) = due_tick (objs s h)) \<and> set (timer_list s') \<subseteq> set (timer_list s) - set hs
    \<and> prcbs s' = prcbs s \<and> tick_count s' = tick_count s \<and> (\<forall>t. is_waiting s' t \<longrightarrow> threads s' t = threads s t)"
  using assms
proof (induction hs arbitrary: s dpcs)
  case Nil
  then show ?case by simp
next
  case (Cons h hs)
  have h: "h \<in> set (timer_list s)" using Cons.prems(4) by simp
  obtain s1 W where s1: "expire_one c h s = Some s1" "ke_ok s1" "W \<subseteq> waiters s h" "wakes W (ensure_wait_list h (expired h s)) s1"
    using expire_one_ok [OF Cons.prems(1) h Cons.prems(2)] by blast
  note A = wakesD [OF s1(4)] and K = ke_okD [OF Cons.prems(1)]
  have wl: "wait_list (objs (ensure_wait_list h (expired h s)) g) = wait_list (objs s g)" for g
    using ensure_wait_lists [of "expired h s" h g] blocks_okD(2) [OF K(7), of h] by simp
  have ws: "waiters s1 g \<subseteq> waiters s g" for g unfolding waiters_def A(7) wl by auto
  have tl: "set (timer_list s1) = set (timer_list s) - {h} - WaitTimerHdr ` W" unfolding A(18) by auto
  have "set hs \<subseteq> set (timer_list s1)"
  proof
    fix g assume g: "g \<in> set hs"
    have "g \<notin> WaitTimerHdr ` W"
    proof
      assume "g \<in> WaitTimerHdr ` W"
      then obtain u where "u \<in> waiters s h" "g = WaitTimerHdr u" using s1(3) by blast
      then have "h = g" using Cons.prems(5) g by (auto simp: no_race_def)
      then show False using Cons.prems(3) g by simp
    qed
    then show "g \<in> set (timer_list s1)" using g Cons.prems(3,4) unfolding tl by auto
  qed
  moreover have "no_race hs s1"
    unfolding no_race_def using Cons.prems(5) ws unfolding no_race_def by (meson list.set_intros(2) subsetD)
  ultimately obtain ds s' where s': "expire_all c hs (if timer_dpc (objs s1 h) \<noteq> 0 \<and> length dpcs < 16 then dpcs @ [timer_dpc (objs s1 h)] else dpcs) s1 = Some (ds, s')"
    "ke_ok s'" "\<forall>g\<in>set hs. \<not> inserted (objs s' g) \<and> signal_state (objs s' g) = 1"
    "\<forall>g. g \<notin> set hs \<longrightarrow> sticky (object_type (objs s1 g)) \<longrightarrow> signal_state (objs s' g) = signal_state (objs s1 g)"
    "\<forall>g. due_tick (objs s' g) = due_tick (objs s1 g)" "set (timer_list s') \<subseteq> set (timer_list s1) - set hs"
    "prcbs s' = prcbs s1" "tick_count s' = tick_count s1" "\<forall>t. is_waiting s' t \<longrightarrow> threads s' t = threads s1 t"
    using Cons.IH [OF s1(2) Cons.prems(2)] Cons.prems(3) by (metis distinct.simps(2))
  have st: "sticky (object_type (objs s g)) \<Longrightarrow> signal_state (objs s1 g) = (if g = h then 1 else signal_state (objs s g))" for g
    using A(26) [of g] by simp
  have ty: "object_type (objs s1 g) = object_type (objs s g)" for g using A(8) by simp
  have hty: "object_type (objs s h) = Timer" using K(8) h by (simp add: timers_ok_def)
  have "h \<notin> set hs" using Cons.prems(3) by simp
  then have "signal_state (objs s' h) = 1" using s'(4) st [of h] ty hty by simp
  moreover have "\<not> inserted (objs s' h)"
    using s'(6) tl ke_okD(8) [OF s'(2)] by (auto simp: timers_ok_def)
  moreover have "expire_all c (h # hs) dpcs s = Some (ds, s')" using s1(1) s'(1) by (simp add: Let_def)
  moreover have "signal_state (objs s' g) = signal_state (objs s g)" if "g \<notin> set (h # hs)" "sticky (object_type (objs s g))" for g
    using s'(4) st that ty by simp
  moreover have "due_tick (objs s' g) = due_tick (objs s g)" for g using s'(5) A(10) by simp
  moreover have "prcbs s' = prcbs s" "tick_count s' = tick_count s" using s'(7,8) A(19,21) by simp_all
  moreover have "threads s' t = threads s t" if "is_waiting s' t" for t
  proof -
    have e: "threads s' t = threads s1 t" using s'(9) that by blast
    then have "t \<notin> W" using A(3) [of t] that by auto
    then show ?thesis using e A(1) [of t] by simp
  qed
  ultimately show ?case using s'(2,3,6) tl by auto
qed

section \<open>Deferred procedure calls\<close>

lemma ke_insert_queue_dpc_ok:
  assumes ok: "ke_ok s"
  shows "ke_ok (snd (ke_insert_queue_dpc c d s))"
proof (cases "dpc_inserted s d")
  case False
  let ?s = "s\<lparr>dpc_inserted := (dpc_inserted s)(d := True), dpc_queue := dpc_queue s @ [d]\<rparr>"
  note K = ke_okD [OF ok]
  have "ke_ok ?s"
  proof (rule ke_ok_same_waits [OF ok])
    show "ready_but {} ?s" by (rule ready_but_frame [OF K(1)]) (simp_all add: ready_butD(5) [OF K(1)])
    show "running_but {} ?s" by (rule running_but_frame [OF K(2)]) simp_all
    show "dpcs_ok ?s" using K(6) False by (auto simp: dpcs_ok_def)
  qed (simp add: same_waits_def)
  with False show ?thesis by (simp add: ke_insert_queue_dpc_def ke_ok_request)
qed (use ok in \<open>simp add: ke_insert_queue_dpc_def\<close>)

lemma queue_dpcs_ok: "ke_ok s \<Longrightarrow> ke_ok (fold (\<lambda>d s. snd (ke_insert_queue_dpc c d s)) ds s)"
  by (induction ds arbitrary: s) (auto intro: ke_insert_queue_dpc_ok)

lemma insert_dpc_frame [simp]:
  "objs (snd (ke_insert_queue_dpc c d s)) = objs s" "timer_list (snd (ke_insert_queue_dpc c d s)) = timer_list s"
  "cpus (snd (ke_insert_queue_dpc c d s)) = cpus s" "current (snd (ke_insert_queue_dpc c d s)) e = current s e"
  "threads (snd (ke_insert_queue_dpc c d s)) = threads s"
  by (auto simp: ke_insert_queue_dpc_def request_dispatch_interrupt_def ke_upd cpus_def split: if_splits)

lemma queue_dpcs_frame:
  "objs (fold (\<lambda>d s. snd (ke_insert_queue_dpc c d s)) ds s) = objs s"
  "timer_list (fold (\<lambda>d s. snd (ke_insert_queue_dpc c d s)) ds s) = timer_list s"
  "cpus (fold (\<lambda>d s. snd (ke_insert_queue_dpc c d s)) ds s) = cpus s"
  "threads (fold (\<lambda>d s. snd (ke_insert_queue_dpc c d s)) ds s) = threads s"
  by (induction ds arbitrary: s) simp_all

lemma ke_ok_earliest: "ke_ok s \<Longrightarrow> ke_ok (update_earliest_locked s)"
proof -
  assume ok: "ke_ok s"
  let ?s = "update_earliest_locked s"
  note K = ke_okD [OF ok]
  have "timers_ok ?s" using K(8) update_earliest_le [of _ s] by (auto simp: timers_ok_def)
  moreover have "blocks_ok ?s" "mutants_ok ?s" using K(7,9) by (auto simp: blocks_ok_def mutants_ok_def)
  moreover have "asleep_but {} ?s" "armed_but {} ?s" "dpcs_ok ?s" using K(4-6) by (auto simp: asleep_but_def armed_but_def dpcs_ok_def)
  moreover have "ready_but {} ?s" by (rule ready_but_frame [OF K(1)]) (simp_all add: ready_butD(5) [OF K(1)])
  moreover have "running_but {} ?s" by (rule running_but_frame [OF K(2)]) simp_all
  ultimately show ?thesis by (simp add: ke_ok_def waits_ok_def)
qed

text \<open>
  A pass of the expiry routine takes the first sixteen due timers off the list and signals them, and no others.
\<close>

lemma due_timers_list: "timers_ok s \<Longrightarrow> distinct (due_timers now s) \<and> set (due_timers now s) \<subseteq> set (timer_list s)"
  by (auto simp: due_timers_def timers_ok_def dest: in_set_takeD)

lemma ki_expire_timers_ok:
  assumes ok: "ke_ok s" and c: "c < MAX_CPUS" and nr: "no_race (due_timers (tick_count s) s) s"
  shows "\<exists>s'. ki_expire_timers c s = Some s' \<and> ke_ok s' \<and> cpus s' = cpus s
    \<and> (\<forall>h. object_type (objs s h) = Timer \<longrightarrow> signal_state (objs s' h) = (if h \<in> set (due_timers (tick_count s) s) then 1 else signal_state (objs s h)))
    \<and> (\<forall>h\<in>set (due_timers (tick_count s) s). \<not> inserted (objs s' h))
    \<and> (\<forall>t. is_waiting s' t \<longrightarrow> threads s' t = threads s t)"
proof (cases "earliest_timer_due s > tick_count s")
  case True
  have "due_timers (tick_count s) s = []"
    using True ke_okD(8) [OF ok] by (force simp: due_timers_def filter_empty_conv timers_ok_def)
  with True ok show ?thesis by (simp add: ki_expire_timers_def)
next
  case False
  let ?hs = "due_timers (tick_count s) s"
  note D = due_timers_list [OF ke_okD(8) [OF ok], of "tick_count s"]
  obtain ds s' where s': "expire_all c ?hs [] s = Some (ds, s')" "ke_ok s'"
    "\<forall>h\<in>set ?hs. \<not> inserted (objs s' h) \<and> signal_state (objs s' h) = 1"
    "\<forall>h. h \<notin> set ?hs \<longrightarrow> sticky (object_type (objs s h)) \<longrightarrow> signal_state (objs s' h) = signal_state (objs s h)"
    "prcbs s' = prcbs s" "\<forall>t. is_waiting s' t \<longrightarrow> threads s' t = threads s t"
    using expire_all_ok [OF ok c _ _ nr, of "[]"] D by blast
  have run: "ki_expire_timers c s = Some (fold (\<lambda>d s. snd (ke_insert_queue_dpc c d s)) ds (update_earliest_locked s'))"
    using False s'(1) by (simp add: ki_expire_timers_def)
  have "ke_ok (fold (\<lambda>d s. snd (ke_insert_queue_dpc c d s)) ds (update_earliest_locked s'))"
    using queue_dpcs_ok ke_ok_earliest s'(2) by blast
  moreover have "cpus (update_earliest_locked s') = cpus s" using s'(5) by (simp add: cpus_def)
  ultimately show ?thesis unfolding run using s'(3,4,6) by (auto simp: queue_dpcs_frame)
qed

text \<open>
  Where the two timers do race, the pass unlinks the timeout a second time: an entry that is on no list.
\<close>

lemma expire_one_unlisted: "h \<notin> set (timer_list s) \<Longrightarrow> expire_one c h s = None"
  by (simp add: expire_one_def remove_timer_def)

lemma expire_all_unlisted:
  assumes "ke_ok s" "c < MAX_CPUS" "h \<in> set hs" "h \<notin> set (timer_list s)"
  shows "expire_all c hs dpcs s = None"
  using assms
proof (induction hs arbitrary: s dpcs)
  case (Cons g hs)
  show ?case
  proof (cases "g \<in> set (timer_list s)")
    case True
    obtain s1 W where s1: "expire_one c g s = Some s1" "ke_ok s1" "wakes W (ensure_wait_list g (expired g s)) s1"
      using expire_one_ok [OF Cons.prems(1) True Cons.prems(2)] by blast
    have "h \<notin> set (timer_list s1)" using wakesD(18) [OF s1(3)] Cons.prems(4) by simp
    moreover have "h \<in> set hs" using Cons.prems(3,4) True by auto
    ultimately show ?thesis using Cons.IH [OF s1(2) Cons.prems(2)] s1(1) by (simp add: Let_def)
  qed (simp add: expire_one_unlisted)
qed simp

lemma expire_wakes:
  assumes ok: "ke_ok s" and c: "c < MAX_CPUS" and h: "h \<in> set (timer_list s)"
    and t: "t \<in> waiters s h" "wait_typ (threads s t) = WaitAny \<or> wait_count (threads s t) = 1" "h \<noteq> WaitTimerHdr t"
  shows "\<exists>s'. expire_one c h s = Some s' \<and> ke_ok s' \<and> WaitTimerHdr t \<notin> set (timer_list s')"
proof -
  obtain s' W where s': "expire_one c h s = Some s'" "ke_ok s'" "W \<subseteq> waiters s h" "wakes W (ensure_wait_list h (expired h s)) s'"
    using expire_one_ok [OF ok h c] by blast
  note A = wakesD [OF s'(4)] and K = ke_okD [OF ok] and K' = ke_okD [OF s'(2)]
  obtain i where i: "wb_active (wb s t i)" "wb_object (wb s t i) = h"
    using t(1) blocks_okD(3) [OF K(7)] by (auto simp: waiters_def)
  have ic: "i < wait_count (threads s t)" using i t(3) blocks_okD(4,5) [OF K(7), of t i] K(7) unfolding blocks_ok_def by metis
  have hty: "object_type (objs s h) = Timer" using K(8) h by (simp add: timers_ok_def)
  have sg: "0 < signal_state (objs s' h)" using A(26) [of h] hty by (simp add: expired_def)
  have "\<not> is_waiting s' t"
  proof
    assume w: "is_waiting s' t"
    then have th: "threads s' t = threads s t" using A(1,3) [of t] by (cases "t \<in> W") (auto simp: expired_def)
    have "evaluate_wait t s' = NotYet" using K'(4) w by (simp add: asleep_but_def)
    moreover have "signaled_for t (wb_object (wb s' t i)) s'" using i(2) sg th by (simp add: wb_def signaled_for_def)
    ultimately show False using t(2) ic th unfolding evaluate_NotYet_iff by (auto split: wait_type.splits)
  qed
  moreover have "is_waiting s' t" if "WaitTimerHdr t \<in> set (timer_list s')"
    using K'(7,8) that by (auto simp: timers_ok_def blocks_ok_def)
  ultimately show ?thesis using s'(1,2) by blast
qed

lemma ki_expire_timers_race:
  assumes ok: "ke_ok s" and c: "c < MAX_CPUS" and due: "due_timers (tick_count s) s = h # hs"
    and t: "t \<in> waiters s h" "wait_typ (threads s t) = WaitAny \<or> wait_count (threads s t) = 1" "WaitTimerHdr t \<in> set hs"
  shows "ki_expire_timers c s = None"
proof -
  note D = due_timers_list [OF ke_okD(8) [OF ok], of "tick_count s"]
  have h: "h \<in> set (timer_list s)" "h \<noteq> WaitTimerHdr t" using D due t(3) by auto
  have "h \<in> set (due_timers (tick_count s) s)" using due by simp
  then have "due_tick (objs s h) \<le> tick_count s" by (auto simp: due_timers_def dest: in_set_takeD)
  then have now: "\<not> tick_count s < earliest_timer_due s"
    using ke_okD(8) [OF ok] h(1) by (auto simp: timers_ok_def not_less intro: order_trans)
  obtain s' where s': "expire_one c h s = Some s'" "ke_ok s'" "WaitTimerHdr t \<notin> set (timer_list s')"
    using expire_wakes [OF ok c h(1) t(1,2) h(2)] by blast
  show ?thesis
    using s'(1) expire_all_unlisted [OF s'(2) c t(3) s'(3)] now due by (simp add: ki_expire_timers_def Let_def)
qed

text \<open>
  A DPC routine is code the dispatcher calls; what it may do is part of the contract of the drain: it keeps the
  dispatcher invariant, leaves the processors online, and returns without queueing further calls.
\<close>

definition routine_ok :: "dpc_routine \<Rightarrow> bool" where
  "routine_ok f \<longleftrightarrow> (\<forall>c d s. c \<in> cpus s \<longrightarrow> ke_ok s \<longrightarrow>
     (\<exists>s'. f c d s = Some s' \<and> ke_ok s' \<and> dpc_queue s' = dpc_queue s \<and> cpus s' = cpus s))"

lemma ki_retire_dpcs_ok:
  assumes "routine_ok f" "ke_ok s" "c \<in> cpus s"
  shows "\<exists>s'. ki_retire_dpcs f c s = Some s' \<and> ke_ok s' \<and> dpc_queue s' = [] \<and> cpus s' = cpus s"
  using assms(2,3)
proof (induction "dpc_queue s" arbitrary: s)
  case Nil
  then show ?case by (subst ki_retire_dpcs.simps) auto
next
  case (Cons d ds)
  note q = Cons.hyps(2) [symmetric]
  let ?s = "s\<lparr>dpc_queue := ds, dpc_inserted := (dpc_inserted s)(d := False)\<rparr>"
  note K = ke_okD [OF Cons.prems(1)]
  have "ke_ok ?s"
  proof (rule ke_ok_same_waits [OF Cons.prems(1)])
    show "ready_but {} ?s" by (rule ready_but_frame [OF K(1)]) (simp_all add: ready_butD(5) [OF K(1)])
    show "running_but {} ?s" by (rule running_but_frame [OF K(2)]) simp_all
    show "dpcs_ok ?s" using K(6) q by (auto simp: dpcs_ok_def)
  qed (simp add: same_waits_def)
  moreover have "c \<in> cpus ?s" using Cons.prems(2) by (simp add: cpus_def)
  ultimately obtain s1 where s1: "f c d ?s = Some s1" "ke_ok s1" "dpc_queue s1 = ds" "cpus s1 = cpus s"
    using assms(1) unfolding routine_ok_def by (fastforce simp: cpus_def)
  obtain s' where "ki_retire_dpcs f c s1 = Some s'" "ke_ok s'" "dpc_queue s' = []" "cpus s' = cpus s1"
    using Cons.hyps(1) [OF s1(3) [symmetric] s1(2)] s1(4) Cons.prems(2) by auto
  then show ?case using q s1 by (subst ki_retire_dpcs.simps) simp
qed

section \<open>Starting and ending threads\<close>

lemma ki_ready_thread_ok:
  assumes ok: "ke_ok s" and c: "c < MAX_CPUS" and t: "t \<noteq> 0" "kstate (threads s t) = Initialized"
  shows "\<exists>s'. ki_ready_thread c t s = Some s' \<and> ke_ok s'"
proof -
  note K = ke_okD [OF ok]
  have nq: "\<not> queued s t" using ready_butD(5) [OF K(1), of t] t by simp
  obtain s1 where s1: "ready_thread_locked c t s = Some s1" "ready_but {} s1"
    "s1 = s\<lparr>threads := (threads s)(t := (threads s t)\<lparr>kstate := Ready, ready_since := tick_count s\<rparr>),
         banks := (banks s)(c := enq (slot_of (threads s t)) t (banks s c))\<rparr>"
    using ready_thread_locked_ok [OF K(1) t(1) nq c] t(2) by auto
  have "running_but {} s1" by (rule running_but_frame [OF K(2)]) (use t in \<open>auto simp: s1(3)\<close>)
  moreover have "same_waits s s1" using t by (simp add: same_waits_def s1(3) waitv_def)
  moreover have "dpcs_ok s1" using K(6) by (simp add: dpcs_ok_def s1(3))
  ultimately have "ke_ok s1" using ke_ok_same_waits [OF ok _ s1(2)] by blast
  then have "ke_ok (request_dispatch_ipi c s1)" by (rule ke_ok_ipis [OF _ only_ipis_request_ipi]) simp_all
  then show ?thesis using s1(1) by (simp add: ki_ready_thread_def)
qed

lemma picks_queued: "picks s c t d p \<Longrightarrow> queued s t"
  unfolding queued_def placed_def picks_def by (metis list.set_intros(1))

lemma ki_terminate_ok:
  assumes ok: "ke_ok s" and c: "c \<in> cpus s" and busy: "current s c \<noteq> idle s c"
    and ty: "object_type (objs s (ThreadHdr (current s c))) = Thread"
  shows "\<exists>s'. ki_terminate_current_thread c s = Some s' \<and> ke_ok s' \<and> kstate (threads s' (current s c)) = Terminated
    \<and> signal_state (objs s' (ThreadHdr (current s c))) = 1 \<and> cpus s' = cpus s"
proof -
  let ?cur = "current s c" and ?h = "ThreadHdr (current s c)"
  note K = ke_okD [OF ok]
  have run: "kstate (threads s ?cur) = Running" using running_butD(4) [OF K(2) c] by auto
  have e: "upd_obj ?h (\<lambda>x. x\<lparr>signal_state := 1\<rparr>) s = upd_obj ?h (\<lambda>x. x\<lparr>signal_state := 1, owner := owner (objs s ?h)\<rparr>) s" by (simp add: ke_upd)
  let ?e = "ensure_wait_list ?h (upd_obj ?h (\<lambda>x. x\<lparr>signal_state := 1, owner := owner (objs s ?h)\<rparr>) s)"
  obtain n s1 W where s1: "ki_wait_test c ?h (upd_obj ?h (\<lambda>x. x\<lparr>signal_state := 1\<rparr>) s) = Some (n, s1)" "ke_ok s1"
    "wakes W ?e s1" "W \<subseteq> waiters s ?h"
    unfolding e using raise_ok [OF ok cpus_less [OF c], of ?h 1 "owner (objs s ?h)"] ty by auto
  note A = wakesD [OF s1(3)] and K1 = ke_okD [OF s1(2)]
  have nw: "?cur \<notin> W" using s1(4) waiters_waiting [OF K(7)] run by fastforce
  have run1: "kstate (threads s1 ?cur) = Running" using A(1) [OF nw] run by (simp add: ke_upd)
  have pr: "prcbs s1 = prcbs s" using A(19) by (simp add: ke_upd)
  have sg: "signal_state (objs s1 ?h) = 1" using A(26) [of ?h] ty by (simp add: ke_upd)
  let ?s2 = "upd_thread ?cur (\<lambda>k. k\<lparr>kstate := Terminated\<rparr>) s1"
  have r2: "ready_but {} ?s2"
    by (rule ready_but_frame [OF K1(1)]) (use run1 in \<open>auto simp: ke_upd ready_butD(5) [OF K1(1)] slot_of_def split: if_splits\<close>)
  have cp: "cpus ?s2 = cpus s" "cpus s1 = cpus s" "prcbs ?s2 = prcbs s1" using pr by (auto simp: cpus_def ke_upd)
  have u2: "running_but {c} ?s2"
    unfolding running_but_def using K1(2) running_butD(3-7) [OF K1(2)] c busy pr cp unfolding running_but_def
    by (simp add: ke_upd) metis
  have w2: "same_waits s1 ?s2" using run1 by (simp add: same_waits_def ke_upd waitv_def)
  have c2: "c \<in> cpus ?s2" "current ?s2 c = ?cur" using c cp pr by auto
  obtain s' where s': "switch_away_locked c ?cur ?s2 = Some s'" "ready_but {} s'" "running_but {} s'" "same_waits ?s2 s'"
      "cpus s' = cpus ?s2" "dpc_queue s' = dpc_queue ?s2" "dpc_inserted s' = dpc_inserted ?s2" "chosen ?s2 c (current s' c)"
      "\<And>u. u \<noteq> current s' c \<Longrightarrow> threads s' u = threads ?s2 u"
    using switch_away_ok [OF r2 u2 c2(1)] c2(2) by (auto simp: ke_upd)
  have "ke_ok s'"
    using ke_ok_same_waits [OF s1(2) same_waits_trans [OF w2 s'(4)] s'(2,3)] s'(6,7) K1(6) by (simp add: dpcs_ok_def ke_upd)
  moreover have "ki_terminate_current_thread c s = Some s'"
    using s1(1) s'(1) by (simp add: ki_terminate_current_thread_def Let_def)
  moreover have "signal_state (objs s' ?h) = 1" using s'(4) sg by (simp add: same_waits_def ke_upd)
  moreover have "current s' c \<noteq> ?cur"
  proof
    assume "current s' c = ?cur"
    then have "kstate (threads s' ?cur) = Running" using running_butD(4) [OF s'(3)] c2 s'(5) by fastforce
    moreover have "queued ?s2 ?cur \<or> ?cur = idle ?s2 c"
      using s'(8) \<open>current s' c = ?cur\<close> by (auto simp: chosen_def dest: picks_queued)
    moreover have "\<not> queued ?s2 ?cur" using ready_butD(5) [OF r2, of ?cur] by (simp add: ke_upd)
    ultimately show False using busy cp(3) pr by simp
  qed
  then have "kstate (threads s' ?cur) = Terminated" using s'(9) by (simp add: ke_upd)
  ultimately show ?thesis using s'(5) cp by auto
qed

end
