(* ===== verification/Ke_Apc_Laws.thy ===== *)
theory Ke_Apc_Laws
  imports Ke_Apc Ke_Expire_Laws
begin

text \<open>
  Kernel APCs: the queues hold exactly the inserted APCs, each once and on the thread it was prepared for, and a
  delivery runs the pending APCs of the current thread in the order in which they were queued, each once, and leaves
  none.
\<close>

definition apcs_ok :: "ke \<Rightarrow> bool" where
  "apcs_ok s \<longleftrightarrow> (\<forall>t. distinct (kapc_queue s t))
     \<and> (\<forall>t a. a \<in> set (kapc_queue s t) \<longleftrightarrow> kapc_inserted (kapcs s a) \<and> kapc_thread (kapcs s a) = t)"

lemma ke_ok_apc_fields:
  assumes "ke_ok s"
  shows "ke_ok (s\<lparr>kapcs := k, kapc_queue := q, delivering := d\<rparr>)"
proof (rule ke_ok_same_waits [OF assms])
  let ?s = "s\<lparr>kapcs := k, kapc_queue := q, delivering := d\<rparr>"
  note K = ke_okD [OF assms]
  show "ready_but {} ?s" by (rule ready_but_frame [OF K(1)]) (simp_all add: ready_butD(5) [OF K(1)])
  show "running_but {} ?s" by (rule running_but_frame [OF K(2)]) simp_all
  show "dpcs_ok ?s" using K(6) by (simp add: dpcs_ok_def)
qed (simp add: same_waits_def)

lemma ke_ok_apc [intro]:
  assumes "ke_ok s"
  shows "ke_ok (upd_apc a f s)" "ke_ok (s\<lparr>kapc_queue := q\<rparr>)" "ke_ok (s\<lparr>delivering := d\<rparr>)"
  using ke_ok_apc_fields [OF assms, where k = "(kapcs s)(a := f (kapcs s a))" and q = "kapc_queue s" and d = "delivering s"]
    ke_ok_apc_fields [OF assms, where k = "kapcs s" and q = q and d = "delivering s"]
    ke_ok_apc_fields [OF assms, where k = "kapcs s" and q = "kapc_queue s" and d = d]
  by (simp_all add: upd_apc_def)

lemma upd_apc_frame [simp]:
  "prcbs (upd_apc a f s) = prcbs s" "kapc_queue (upd_apc a f s) = kapc_queue s" "cpus (upd_apc a f s) = cpus s"
  "delivering (upd_apc a f s) = delivering s"
  by (simp_all add: upd_apc_def cpus_def)

section \<open>Queueing\<close>

lemma ke_insert_queue_apc_ok:
  assumes "ke_ok s" "apcs_ok s"
  shows "ke_ok (snd (ke_insert_queue_apc a t s))" "apcs_ok (snd (ke_insert_queue_apc a t s))"
    and "fst (ke_insert_queue_apc a t s) \<longleftrightarrow> t \<noteq> 0 \<and> kapc_thread (kapcs s a) = t \<and> a \<notin> set (kapc_queue s t)"
    and "kapc_queue (snd (ke_insert_queue_apc a t s)) t = kapc_queue s t @ (if fst (ke_insert_queue_apc a t s) then [a] else [])"
proof -
  show "ke_ok (snd (ke_insert_queue_apc a t s))" using assms(1) by (auto simp: ke_insert_queue_apc_def)
  show "apcs_ok (snd (ke_insert_queue_apc a t s))"
    using assms(2) by (auto simp: ke_insert_queue_apc_def apcs_ok_def upd_apc_def)
  show "fst (ke_insert_queue_apc a t s) \<longleftrightarrow> t \<noteq> 0 \<and> kapc_thread (kapcs s a) = t \<and> a \<notin> set (kapc_queue s t)"
    using assms(2) by (auto simp: ke_insert_queue_apc_def apcs_ok_def)
  show "kapc_queue (snd (ke_insert_queue_apc a t s)) t = kapc_queue s t @ (if fst (ke_insert_queue_apc a t s) then [a] else [])"
    by (simp add: ke_insert_queue_apc_def)
qed

section \<open>Delivery\<close>

text \<open>
  The contract of the callbacks: they return to the thread they were called in, leave the dispatcher's invariant and
  queue no further APC for that thread.
\<close>

definition apc_calls_ok :: "callbacks \<Rightarrow> bool" where
  "apc_calls_ok f \<longleftrightarrow> (\<forall>c call s. (\<forall>d. call \<noteq> DpcCall d) \<longrightarrow> c \<in> cpus s \<longrightarrow> ke_ok s \<longrightarrow>
     (\<exists>s'. f c call s = Some s' \<and> ke_ok s' \<and> cpus s' = cpus s \<and> current s' c = current s c
        \<and> kapc_queue s' (current s c) = kapc_queue s (current s c)))"

lemma apc_callD:
  assumes "apc_calls_ok f" "\<And>d. call \<noteq> DpcCall d" "c \<in> cpus s" "ke_ok s"
  shows "\<exists>s'. f c call s = Some s' \<and> ke_ok s' \<and> cpus s' = cpus s \<and> current s' c = current s c
    \<and> kapc_queue s' (current s c) = kapc_queue s (current s c)"
  using assms unfolding apc_calls_ok_def by blast

lemma deliver_one_ok:
  assumes f: "apc_calls_ok f" and c: "c \<in> cpus s" and ok: "ke_ok s"
  shows "\<exists>s'. deliver_one f c a s = Some s' \<and> ke_ok s' \<and> cpus s' = cpus s \<and> current s' c = current s c
    \<and> kapc_queue s' (current s c) = kapc_queue s (current s c)"
proof -
  let ?s = "upd_apc a (\<lambda>k. k\<lparr>kapc_inserted := False\<rparr>) s"
  have 0: "ke_ok ?s" "c \<in> cpus ?s" using ok c by auto
  obtain s1 where s1: "(if kernel_routine (kapcs ?s a) \<noteq> 0 then f c (ApcKernelCall (kernel_routine (kapcs ?s a)) a) ?s else Some ?s) = Some s1"
    "ke_ok s1" "cpus s1 = cpus s" "current s1 c = current s c" "kapc_queue s1 (current s c) = kapc_queue s (current s c)"
    using apc_callD [OF f _ 0(2,1), of "ApcKernelCall (kernel_routine (kapcs ?s a)) a"] 0 by (cases "kernel_routine (kapcs ?s a) = 0") auto
  have c1: "c \<in> cpus s1" using c s1(3) by simp
  let ?call = "ApcNormalCall (normal_routine (kapcs s1 a)) (normal_context (kapcs s1 a)) (apc_arg1 (kapcs s1 a)) (apc_arg2 (kapcs s1 a))"
  obtain s2 where s2: "(if normal_routine (kapcs s1 a) \<noteq> 0 then f c ?call s1 else Some s1) = Some s2"
    "ke_ok s2" "cpus s2 = cpus s" "current s2 c = current s c" "kapc_queue s2 (current s c) = kapc_queue s (current s c)"
    using apc_callD [OF f _ c1 s1(2), of ?call] s1 by (cases "normal_routine (kapcs s1 a) = 0") auto
  show ?thesis using s1(1) s2 by (simp add: deliver_one_def Let_def)
qed

lemma deliver_loop_ok:
  assumes "apc_calls_ok f" "c \<in> cpus s" "ke_ok s"
  shows "\<exists>s'. deliver_loop f c s = Some s' \<and> ke_ok s' \<and> cpus s' = cpus s \<and> current s' c = current s c
    \<and> kapc_queue s' (current s c) = []
    \<and> foreach (\<lambda>a s. deliver_one f c a (s\<lparr>kapc_queue := (kapc_queue s)(current s c := tl (kapc_queue s (current s c)))\<rparr>))
        (kapc_queue s (current s c)) s = Some s'"
  using assms(2,3)
proof (induction "kapc_queue s (current s c)" arbitrary: s)
  case Nil
  then show ?case by (subst deliver_loop.simps) simp
next
  case (Cons a as)
  let ?s = "s\<lparr>kapc_queue := (kapc_queue s)(current s c := as)\<rparr>"
  have 0: "ke_ok ?s" "c \<in> cpus ?s" using Cons.prems by (auto simp: cpus_def)
  obtain s1 where s1: "deliver_one f c a ?s = Some s1" "ke_ok s1" "cpus s1 = cpus s" "current s1 c = current s c" "kapc_queue s1 (current s c) = as"
    using deliver_one_ok [OF assms(1) 0(2,1), of a] by (auto simp: cpus_def)
  have "as = kapc_queue s1 (current s1 c)" "c \<in> cpus s1" using s1(3-5) Cons.prems(1) by auto
  from Cons.hyps(1) [OF this s1(2)] s1(1,3-5) Cons.hyps(2) [symmetric] show ?case by (subst deliver_loop.simps) auto
qed

lemma ki_deliver_apcs_ok:
  assumes "apc_calls_ok f" "c \<in> cpus s" "ke_ok s"
  shows "\<exists>s'. ki_deliver_apcs f c s = Some s' \<and> ke_ok s' \<and> (\<not> delivering s c \<longrightarrow> kapc_queue s' (current s' c) = [])"
proof (cases "delivering s c")
  case False
  let ?s = "s\<lparr>delivering := (delivering s)(c := True)\<rparr>"
  have "c \<in> cpus ?s" "ke_ok ?s" using assms(2,3) by (auto simp: cpus_def)
  from deliver_loop_ok [OF assms(1) this] show ?thesis
    using False cpus_less [OF assms(2)] by (auto simp: ki_deliver_apcs_def)
qed (use assms(3) in \<open>auto simp: ki_deliver_apcs_def\<close>)

lemma ki_resume_ok:
  assumes "apc_calls_ok f" "c \<in> cpus s" "ke_ok s"
  shows "\<exists>s'. ki_wait_resume f c s = Some (wait_status (threads s (current s c)), s') \<and> ke_ok s'"
    and "\<exists>s'. ki_dispatch_resume f c s = Some s' \<and> ke_ok s'"
  using ki_deliver_apcs_ok [OF assms] by (auto simp: ki_wait_resume_def ki_dispatch_resume_def)

end
