(* ===== verification/Ke_History.thy ===== *)
theory Ke_History
  imports Ke_Apc_Laws
begin

text \<open>
  The dispatcher as a state machine: the operations its callers and the interrupt vectors perform, when each may be
  called, and the states they reach from boot. Every operation that may be called returns, and keeps the invariant.
\<close>

section \<open>Guarded machines\<close>

inductive reachable :: "('o \<Rightarrow> 's \<Rightarrow> 's option) \<Rightarrow> ('o \<Rightarrow> 's \<Rightarrow> bool) \<Rightarrow> 's \<Rightarrow> 's \<Rightarrow> bool"
  for step :: "'o \<Rightarrow> 's \<Rightarrow> 's option" and guard :: "'o \<Rightarrow> 's \<Rightarrow> bool" and start :: 's where
  start: "reachable step guard start start"
| step: "reachable step guard start s \<Longrightarrow> guard op s \<Longrightarrow> step op s = Some s' \<Longrightarrow> reachable step guard start s'"

inductive_cases reachableE: "reachable step guard start s"

locale guarded_machine =
  fixes step :: "'o \<Rightarrow> 's \<Rightarrow> 's option" and guard :: "'o \<Rightarrow> 's \<Rightarrow> bool" and inv_of :: "'s \<Rightarrow> bool"
  assumes progress: "inv_of s \<Longrightarrow> guard op s \<Longrightarrow> \<exists>s'. step op s = Some s' \<and> inv_of s'"
begin

lemma reachable_inv:
  assumes "reachable step guard start s" "inv_of start"
  shows "inv_of s"
  using assms
proof (induction rule: reachable.induct)
  case (step s op s')
  then show ?case using progress [of s op] by auto
qed

lemma reachable_progress:
  assumes "reachable step guard start s" "inv_of start" "guard op s"
  shows "\<exists>s'. step op s = Some s' \<and> reachable step guard start s'"
  using progress [OF reachable_inv [OF assms(1,2)] assms(3)] assms(1,3) by (auto intro: reachable.step)

end

section \<open>The operations\<close>

datatype ke_op =
    OpApStart cpu tid
  | OpReady cpu tid
  | OpWait cpu "hdr list" wait_type "u64 option"
  | OpSignal cpu hdr
  | OpReset hdr
  | OpReleaseSemaphore cpu hdr int
  | OpReleaseMutant cpu hdr
  | OpSetTimer hdr u64 nat
  | OpCancelTimer hdr
  | OpQueueDpc cpu nat
  | OpClock cpu
  | OpDispatch cpu
  | OpTerminate cpu
  | OpQueueApc nat tid
  | OpResume cpu

fun ke_step :: "callbacks \<Rightarrow> ke_op \<Rightarrow> ke \<Rightarrow> ke option" where
  "ke_step f (OpApStart c t) s = Some (ap_startup c t s)"
| "ke_step f (OpReady c t) s = ki_ready_thread c t s"
| "ke_step f (OpWait c os wt to) s = map_option snd (ki_wait_for_objects c os wt to s)"
| "ke_step f (OpSignal c h) s = map_option snd (ki_signal_object c h s)"
| "ke_step f (OpReset h) s = Some (snd (ki_reset_object h s))"
| "ke_step f (OpReleaseSemaphore c h n) s = map_option snd (ki_release_semaphore c h n s)"
| "ke_step f (OpReleaseMutant c h) s = map_option snd (ki_release_mutant c h s)"
| "ke_step f (OpSetTimer h due dpc) s = map_option snd (ke_set_timer h due dpc s)"
| "ke_step f (OpCancelTimer h) s = map_option snd (ke_cancel_timer h s)"
| "ke_step f (OpQueueDpc c d) s = Some (snd (ke_insert_queue_dpc c d s))"
| "ke_step f (OpClock c) s = ki_clock_tick c s"
| "ke_step f (OpDispatch c) s = ki_dispatch_interrupt (\<lambda>c d. f c (DpcCall d)) c s"
| "ke_step f (OpTerminate c) s = ki_terminate_current_thread c s"
| "ke_step f (OpQueueApc a t) s = Some (snd (ke_insert_queue_apc a t s))"
| "ke_step f (OpResume c) s = map_option snd (ki_wait_resume f c s)"

text \<open>
  When an operation may be called: its processor is online and its object is of the kind the operation is for; only a
  thread other than the idle thread blocks or ends; and the counters it adds to or takes from do not overflow. A
  dispatch interrupt needs well-behaved DPC routines and that no two timers race in its expiry pass; a thread that
  resumes delivers its APCs, whose routines must be well behaved. \<open>OpResume\<close> is both the end of a blocking wait and
  the end of the dispatch interrupt, which differ only in the status the former returns.
\<close>

definition race_free :: "dpc_routine \<Rightarrow> cpu \<Rightarrow> ke \<Rightarrow> bool" where
  "race_free f c s \<longleftrightarrow> (\<forall>s1. ki_retire_dpcs f c s = Some s1 \<longrightarrow> no_race (due_timers (tick_count s1) s1) s1)"

fun ke_guard :: "callbacks \<Rightarrow> ke_op \<Rightarrow> ke \<Rightarrow> bool" where
  "ke_guard f (OpApStart c t) s \<longleftrightarrow> c < MAX_CPUS \<and> c \<notin> cpus s \<and> t \<noteq> 0 \<and> kstate (threads s t) = Initialized"
| "ke_guard f (OpReady c t) s \<longleftrightarrow> c \<in> cpus s \<and> t \<noteq> 0 \<and> kstate (threads s t) = Initialized"
| "ke_guard f (OpWait c os wt to) s \<longleftrightarrow> c \<in> cpus s \<and> current s c \<noteq> idle s c \<and> length os \<le> 3
     \<and> (\<forall>h\<in>set os. \<forall>u. h \<noteq> WaitTimerHdr u) \<and> mutant_room s
     \<and> (\<forall>n. to = Some n \<longrightarrow> unat (tick_count s) + unat (max n 1) < 2 ^ 64)"
| "ke_guard f (OpSignal c h) s \<longleftrightarrow> c \<in> cpus s \<and> object_type (objs s h) \<noteq> Mutant"
| "ke_guard f (OpReset h) s \<longleftrightarrow> object_type (objs s h) \<noteq> Mutant"
| "ke_guard f (OpReleaseSemaphore c h n) s \<longleftrightarrow> c \<in> cpus s \<and> object_type (objs s h) = Semaphore"
| "ke_guard f (OpReleaseMutant c h) s \<longleftrightarrow> c \<in> cpus s \<and> object_type (objs s h) = Mutant"
| "ke_guard f (OpSetTimer h due dpc) s \<longleftrightarrow> (\<exists>k. h = ObjHdr k) \<and> object_type (objs s h) = Timer"
| "ke_guard f (OpCancelTimer h) s \<longleftrightarrow> (\<exists>k. h = ObjHdr k) \<and> object_type (objs s h) = Timer"
| "ke_guard f (OpQueueDpc c d) s \<longleftrightarrow> c \<in> cpus s"
| "ke_guard f (OpClock c) s \<longleftrightarrow> unat (tick_count s) + 1 < 2 ^ 64 \<and> I32_MIN < quantum (threads s (current s c))"
| "ke_guard f (OpDispatch c) s \<longleftrightarrow> c \<in> cpus s \<and> routine_ok (\<lambda>c d. f c (DpcCall d)) \<and> race_free (\<lambda>c d. f c (DpcCall d)) c s"
| "ke_guard f (OpTerminate c) s \<longleftrightarrow> c \<in> cpus s \<and> current s c \<noteq> idle s c \<and> object_type (objs s (ThreadHdr (current s c))) = Thread"
| "ke_guard f (OpQueueApc a t) s \<longleftrightarrow> True"
| "ke_guard f (OpResume c) s \<longleftrightarrow> c \<in> cpus s \<and> apc_calls_ok f"

section \<open>Every operation keeps the invariant\<close>

lemma ki_dispatch_interrupt_ok:
  assumes ok: "ke_ok s" and c: "c \<in> cpus s" and f: "routine_ok f" and rf: "race_free f c s"
  shows "\<exists>s'. ki_dispatch_interrupt f c s = Some s' \<and> ke_ok s' \<and> cpus s' = cpus s"
proof -
  obtain s1 where s1: "ki_retire_dpcs f c s = Some s1" "ke_ok s1" "cpus s1 = cpus s"
    using ki_retire_dpcs_ok [OF f ok c] by blast
  have nr: "no_race (due_timers (tick_count s1) s1) s1" using rf s1(1) by (simp add: race_free_def)
  obtain s2 where s2: "ki_expire_timers c s1 = Some s2" "ke_ok s2" "cpus s2 = cpus s"
    using ki_expire_timers_ok [OF s1(2) cpus_less [OF c] nr] s1(3) by auto
  let ?s3 = "upd_prcb c (\<lambda>p. p\<lparr>quantum_end := False\<rparr>) s2"
  have ok3: "ke_ok ?s3" by (rule ke_ok_upd_prcb [OF s2(2)]) simp
  have cp3: "cpus ?s3 = cpus s" using s2(3) by (auto simp: cpus_def ke_upd)
  obtain s4 where s4: "starvation_scan ?s3 = Some s4" "ready_but {} s4" "running_but {} s4" "same_waits ?s3 s4"
    "prcbs s4 = prcbs ?s3" "dpc_queue s4 = dpc_queue ?s3" "dpc_inserted s4 = dpc_inserted ?s3"
    using starvation_scan_ok [OF ke_okD(1,2) [OF ok3]] by blast
  have ok4: "ke_ok s4" using ke_ok_same_waits [OF ok3 s4(4,2,3)] ke_okD(6) [OF ok3] s4(6,7) by (simp add: dpcs_ok_def)
  have cp4: "cpus s4 = cpus s" using s4(5) cp3 by (simp add: cpus_def)
  obtain s5 where s5: "reschedule c (quantum_end (prcbs s2 c)) s4 = Some s5" "ready_but {} s5" "running_but {} s5" "same_waits s4 s5"
    "cpus s5 = cpus s4" "dpc_queue s5 = dpc_queue s4" "dpc_inserted s5 = dpc_inserted s4"
    using reschedule_ok [OF s4(2,3), of c "quantum_end (prcbs s2 c)"] c cp4 by blast
  have "ke_ok s5" using ke_ok_same_waits [OF ok4 s5(4,2,3)] ke_okD(6) [OF ok4] s5(6,7) by (simp add: dpcs_ok_def)
  moreover have "ki_dispatch_interrupt f c s = Some s5"
    unfolding ki_dispatch_interrupt_def Let_def using s1(1) ke_okD(10) [OF s1(2)] s2(1) s4(1) s5(1) by simp
  ultimately show ?thesis using s5(5) cp4 by blast
qed

lemma ap_startup_ok:
  assumes ok: "ke_ok s" and c: "c < MAX_CPUS" "c \<notin> cpus s" and t: "t \<noteq> 0" "kstate (threads s t) = Initialized"
  shows "ke_ok (ap_startup c t s)"
proof (rule ke_ok_same_waits [OF ok])
  let ?s = "ap_startup c t s"
  note K = ke_okD [OF ok]
  have th: "threads ?s u = (if u = t then (threads s t)\<lparr>kstate := Running\<rparr> else threads s u)" for u
    by (simp add: ap_startup_def ki_initialize_ap_def ke_upd)
  have fr: "banks ?s = banks s" "initialized ?s = initialized s" "objs ?s = objs s" "timer_list ?s = timer_list s"
    "earliest_timer_due ?s = earliest_timer_due s" "dpc_queue ?s = dpc_queue s" "dpc_inserted ?s = dpc_inserted s"
    by (simp_all add: ap_startup_def ki_initialize_ap_def ke_upd)
  have pr: "online (prcbs ?s d) = (d = c \<or> online (prcbs s d))" "current ?s d = (if d = c then t else current s d)"
    "idle ?s d = (if d = c then t else idle s d)" for d
    by (simp_all add: ap_startup_def ki_initialize_ap_def ke_upd)
  show "same_waits s ?s" using t by (simp add: same_waits_def fr th waitv_def)
  show "dpcs_ok ?s" using K(6) by (simp add: dpcs_ok_def fr)
  show "ready_but {} ?s"
    by (rule ready_but_frame [OF K(1) fr(1,2)]) (use t in \<open>auto simp: th ready_butD(5) [OF K(1)] slot_of_def split: if_splits\<close>)
  have cp: "cpus ?s = insert c (cpus s)" using c by (auto simp: cpus_def pr)
  have nt: "current s d \<noteq> t" "idle s d \<noteq> t" if "d \<in> cpus s" for d
    using running_butD(3,4) [OF K(2) that] t by auto
  show "running_but {} ?s"
    unfolding running_but_def cp
  proof (intro conjI ballI allI impI)
    fix d e assume "d \<in> insert c (cpus s)" "e \<in> insert c (cpus s)"
      and "current ?s d = current ?s e \<or> idle ?s d = idle ?s e \<or> current ?s d = idle ?s e"
    then show "d = e" using nt running_butD(5-7) [OF K(2)] c(2) unfolding pr by (auto split: if_splits)
  next
    fix u assume "kstate (threads ?s u) = Running"
    then have "u = t \<or> kstate (threads s u) = Running" by (auto simp: th split: if_splits)
    then show "\<exists>d\<in>insert c (cpus s). u = current ?s d \<or> u = idle ?s d"
    proof
      assume "kstate (threads s u) = Running"
      then obtain d where "d \<in> cpus s" "u = current s d \<or> u = idle s d" using K(2) by (auto simp: running_but_def)
      then show ?thesis using c(2) by (intro bexI [of _ d]) (auto simp: pr)
    qed (auto simp: pr)
  qed (use nt running_butD(1-4) [OF K(2)] t in \<open>auto simp: pr th\<close>)
qed

lemma ke_step_ok:
  assumes "ke_ok s" "ke_guard f op s"
  shows "\<exists>s'. ke_step f op s = Some s' \<and> ke_ok s'"
proof (cases op)
  case (OpWait c os wt to)
  have g: "c \<in> cpus s" "current s c \<noteq> idle s c" "length os \<le> 3" "\<And>h u. h \<in> set os \<Longrightarrow> h \<noteq> WaitTimerHdr u" "mutant_room s"
    "\<And>n. to = Some n \<Longrightarrow> unat (tick_count s) + unat (max n 1) < 2 ^ 64" using assms(2) OpWait by auto
  show ?thesis
  proof (cases "wait_result (current s c) os wt s")
    case (Some r)
    obtain hs st where r: "r = (hs, st)" by (cases r)
    then show ?thesis using ki_wait_immediate [OF assms(1) g(1,3,5), of wt hs st to] Some OpWait by auto
  next
    case None
    show ?thesis
    proof (cases "to = Some 0")
      case True
      have "kstate (threads s (current s c)) = Running" using running_butD(4) [OF ke_okD(2) [OF assms(1)] g(1)] by simp
      then have "ke_ok (laid (current s c) os wt s)" by (intro laid_ok [OF assms(1) _ g(3)]) simp
      then show ?thesis
        using OpWait True None laid_evaluate(1) [OF g(3), of "current s c" wt s] by (simp add: ki_wait_start [OF assms(1) g(3) refl] Let_def)
    next
      case False
      show ?thesis using ki_wait_blocks [OF assms(1) g(1-5) None False g(6)] OpWait by auto
    qed
  qed
next
  case (OpReady c t)
  then show ?thesis using assms ki_ready_thread_ok cpus_less by auto
next
  case (OpSignal c h)
  then show ?thesis using assms ki_signal_object_ok cpus_less by fastforce
next
  case (OpReleaseSemaphore c h n)
  then show ?thesis using assms ki_release_semaphore_ok [of s c h n] cpus_less by fastforce
next
  case (OpReleaseMutant c h)
  then show ?thesis using assms ki_release_mutant_ok [of s c h] by fastforce
next
  case (OpSetTimer h due dpc)
  then show ?thesis using assms ke_set_timer_ok [OF assms(1), of h _ due dpc] by fastforce
next
  case (OpCancelTimer h)
  then show ?thesis using assms ke_cancel_timer_ok [OF assms(1), of h] by fastforce
next
  case (OpDispatch c)
  then show ?thesis using assms ki_dispatch_interrupt_ok [OF assms(1), of c "\<lambda>c d. f c (DpcCall d)"] by auto
next
  case (OpResume c)
  then show ?thesis using assms ki_resume_ok(1) [of f c s] by auto
next
  case (OpTerminate c)
  then show ?thesis using assms ki_terminate_ok by fastforce
qed (use assms in \<open>auto intro: ap_startup_ok ki_reset_object_ok ke_insert_queue_dpc_ok ki_clock_tick_ok simp: ke_insert_queue_apc_def\<close>)

interpretation dispatcher: guarded_machine "ke_step f" "ke_guard f" ke_ok for f
  by unfold_locales (rule ke_step_ok)

end
