(* ===== verification/Ke_Fifo_Laws.thy ===== *)
theory Ke_Fifo_Laws
  imports Ke_Ops_Laws
begin

text \<open>
  Who is woken: for an object whose waiters wait for it alone, the wait test wakes them in the order in which they
  began to wait, as many as the object's signal state serves, and leaves the rest of the count.
\<close>

definition lone_waiters :: "ke \<Rightarrow> hdr \<Rightarrow> tid list \<Rightarrow> bool" where
  "lone_waiters s h ts \<longleftrightarrow> wait_list (objs s h) = map (\<lambda>t. (t, 0)) ts
     \<and> (\<forall>t\<in>set ts. wait_count (threads s t) = 1 \<and> \<not> (wait_timed (threads s t) \<and> 0 < signal_state (objs s (WaitTimerHdr t))))"

fun served :: "dispatcher_object_type \<Rightarrow> int \<Rightarrow> nat \<Rightarrow> nat" where
  "served Semaphore v n = min (nat v) n"
| "served SynchronizationEvent v n = (if v > 0 then min 1 n else 0)"
| "served Mutant v n = (if v > 0 then min 1 n else 0)"
| "served _ v n = (if v > 0 then n else 0)"

fun left_over :: "dispatcher_object_type \<Rightarrow> int \<Rightarrow> nat \<Rightarrow> int" where
  "left_over Semaphore v k = v - int k"
| "left_over SynchronizationEvent v k = (if k = 0 then v else 0)"
| "left_over Mutant v k = v - int k"
| "left_over _ v k = v"

lemma served_nil [simp]: "served ty v 0 = 0" "left_over ty v 0 = v"
  by (cases ty; simp)+

lemma served_unsignalled [simp]: "v \<le> 0 \<Longrightarrow> served ty v n = 0"
  by (cases ty) simp_all

lemma served_step:
  "0 < v \<Longrightarrow> (ty = Mutant \<Longrightarrow> v = 1) \<Longrightarrow> served ty v (Suc n) = Suc (served ty (left_over ty v 1) n)"
  "0 < v \<Longrightarrow> (ty = Mutant \<Longrightarrow> v = 1) \<Longrightarrow> left_over ty (left_over ty v 1) (served ty (left_over ty v 1) n) = left_over ty v (served ty v (Suc n))"
  by (cases ty; auto simp: min_def nat_diff_distrib)+

lemma lone_waiter_blocks:
  assumes b: "blocks_ok s" and l: "lone_waiters s h ts" and t: "t \<in> set ts"
  shows "is_waiting s t" "wb_object (wb s t 0) = h" "evaluate_wait t s \<noteq> NotYet \<longleftrightarrow> signaled_for t h s"
    "signaled_for t h s \<Longrightarrow> taken t (evaluate_wait t s) s = [h]"
proof -
  have "(t, 0) \<in> set (wait_list (objs s h))" using l t by (auto simp: lone_waiters_def)
  then have a: "wb_active (wb s t 0)" "wb_object (wb s t 0) = h" using blocks_okD(3) [OF b] by auto
  then show w: "is_waiting s t" "wb_object (wb s t 0) = h" using blocks_okD(4) [OF b] by auto
  have c1: "wait_count (threads s t) = 1" and nt: "\<not> (wait_timed (threads s t) \<and> 0 < signal_state (objs s (WaitTimerHdr t)))"
    using l t by (auto simp: lone_waiters_def)
  have "wait_timed (threads s t) \<Longrightarrow> wb_object (wb s t 3) = WaitTimerHdr t"
    using blocks_okD(4,6) [OF b] w(1) by (metis (full_types))
  then show "evaluate_wait t s \<noteq> NotYet \<longleftrightarrow> signaled_for t h s"
    using c1 nt a(2) unfolding evaluate_NotYet_iff by (auto split: wait_type.splits)
  show "taken t (evaluate_wait t s) s = [h]" if "signaled_for t h s"
    using that c1 a(2) by (cases "wait_typ (threads s t)") (simp_all add: evaluate_wait_def Let_def taken_def)
qed

lemma satisfy_left_over:
  assumes "satisfy_object_for t h s = Some s'" "0 < signal_state (objs s h)"
  shows "signal_state (objs s' h) = left_over (object_type (objs s h)) (signal_state (objs s h)) 1"
    and "object_type (objs s h) = Mutant \<Longrightarrow> owner (objs s' h) = t"
  using assms by (cases "object_type (objs s h)"; auto simp: satisfy_object_for_def ke_upd split: if_splits)+

lemma wait_test_fifo:
  assumes "ready_but {} s" "waits_ok s" "c < MAX_CPUS" "lone_waiters s h ts"
    and "object_type (objs s h) = Mutant \<Longrightarrow> signal_state (objs s h) \<le> 1 \<and> owner (objs s h) \<notin> set ts"
  defines "k \<equiv> served (object_type (objs s h)) (signal_state (objs s h)) (length ts)"
  shows "\<exists>s'. wait_test_loop c h m s = Some (m + k, s') \<and> lone_waiters s' h (drop k ts)
    \<and> (\<forall>t\<in>set (take k ts). kstate (threads s' t) = Ready) \<and> (\<forall>t\<in>set (drop k ts). is_waiting s' t)
    \<and> (\<forall>t. t \<notin> set ts \<longrightarrow> threads s' t = threads s t)
    \<and> signal_state (objs s' h) = left_over (object_type (objs s h)) (signal_state (objs s h)) k
    \<and> (object_type (objs s h) = Mutant \<longrightarrow> owner (objs s' h) = (if k = 0 then owner (objs s h) else hd ts))"
  using assms(1-5) unfolding k_def
proof (induction ts arbitrary: s m)
  case Nil
  then have "find_waiter h s = None" by (simp add: find_waiter_def lone_waiters_def)
  with Nil show ?case by (subst wait_test_loop.simps) simp
next
  case (Cons t ts)
  let ?ty = "object_type (objs s h)" and ?v = "signal_state (objs s h)"
  have b: "blocks_ok s" using Cons.prems(2) by (simp add: waits_ok_def)
  note L = lone_waiter_blocks [OF b Cons.prems(4)]
  have wl: "wait_list (objs s h) = (t, 0) # map (\<lambda>t. (t, 0)) ts" using Cons.prems(4) by (simp add: lone_waiters_def)
  show ?case
  proof (cases "0 < ?v")
    case False
    have "\<not> signaled_for u h s" if "u \<in> set (t # ts)" for u
      using False Cons.prems(5) that by (auto simp: signaled_for_def)
    then have "find_waiter h s = None"
      using L(3) by (auto simp: find_waiter_eq [OF b] find_None_iff wl)
    moreover have "served ?ty ?v (length (t # ts)) = 0" using False by simp
    ultimately show ?thesis using False Cons.prems(4) L(1)
      by (subst wait_test_loop.simps) (simp only: option.case, simp)
  next
    case True
    then have sg: "signaled_for t h s" by (simp add: signaled_for_def)
    have find: "find_waiter h s = Some t" using L(3) [of t] sg by (simp add: find_waiter_eq [OF b] wl)
    obtain s1 s0 where s1: "wake c t s = Some s1" "ready_but {} s1" "wakes {t} s s1" "foreach (satisfy_object_for t) [h] s = Some s0"
      "\<And>g. signal_state (objs s1 g) = signal_state (objs s0 g) \<and> owner (objs s1 g) = owner (objs s0 g)"
      using wake_ok [OF Cons.prems(1,2) L(1) [of t] Cons.prems(3)] L(4) [of t] sg by auto
    note A = wakesD [OF s1(3)]
    have s0: "satisfy_object_for t h s = Some s0" using s1(4) by (simp split: bind_splits)
    have v1: "signal_state (objs s1 h) = left_over ?ty ?v 1" and o1: "?ty = Mutant \<Longrightarrow> owner (objs s1 h) = t"
      using satisfy_left_over [OF s0 True] s1(5) by auto
    have dist: "t \<notin> set ts" using blocks_okD(1) [OF b, of h] wl by auto
    have m1: "?ty = Mutant \<Longrightarrow> ?v = 1" using Cons.prems(5) True by auto
    have "lone_waiters s1 h ts"
      unfolding lone_waiters_def
    proof (intro conjI ballI)
      show "wait_list (objs s1 h) = map (\<lambda>t. (t, 0)) ts"
        unfolding A(7) wl using dist by (auto simp: filter_map o_def intro!: filter_True arg_cong [where f = "map _"])
      fix u assume u: "u \<in> set ts"
      then have "threads s1 u = threads s u" using A(1) [of u] dist by (cases "u = t") auto
      then show "wait_count (threads s1 u) = 1" "\<not> (wait_timed (threads s1 u) \<and> 0 < signal_state (objs s1 (WaitTimerHdr u)))"
        using Cons.prems(4) u A(25) by (auto simp: lone_waiters_def)
    qed
    moreover have "object_type (objs s1 h) = Mutant \<Longrightarrow> signal_state (objs s1 h) \<le> 1 \<and> owner (objs s1 h) \<notin> set ts"
      using v1 o1 m1 dist by (simp add: A(8))
    ultimately obtain s' where s': "wait_test_loop c h (m + 1) s1 = Some (m + 1 + served ?ty (left_over ?ty ?v 1) (length ts), s')"
      "lone_waiters s' h (drop (served ?ty (left_over ?ty ?v 1) (length ts)) ts)"
      "\<forall>t\<in>set (take (served ?ty (left_over ?ty ?v 1) (length ts)) ts). kstate (threads s' t) = Ready"
      "\<forall>t\<in>set (drop (served ?ty (left_over ?ty ?v 1) (length ts)) ts). is_waiting s' t"
      "\<forall>t. t \<notin> set ts \<longrightarrow> threads s' t = threads s1 t"
      "signal_state (objs s' h) = left_over ?ty (left_over ?ty ?v 1) (served ?ty (left_over ?ty ?v 1) (length ts))"
      "?ty = Mutant \<longrightarrow> owner (objs s' h) = (if served ?ty (left_over ?ty ?v 1) (length ts) = 0 then owner (objs s1 h) else hd ts)"
      using Cons.IH [OF s1(2) wakes_waits_ok [OF s1(3) Cons.prems(2)] Cons.prems(3), of "m + 1"] by (auto simp: A(8) v1)
    have k: "served ?ty ?v (length (t # ts)) = Suc (served ?ty (left_over ?ty ?v 1) (length ts))"
      using served_step(1) [OF True, of ?ty "length ts"] m1 by simp
    have mut0: "?ty = Mutant \<Longrightarrow> served ?ty (left_over ?ty ?v 1) (length ts) = 0" using m1 by simp
    have "wait_test_loop c h m s = Some (m + Suc (served ?ty (left_over ?ty ?v 1) (length ts)), s')"
      using find s1(1) s'(1) by (subst wait_test_loop.simps) simp
    moreover have "kstate (threads s' t) = Ready" using s'(5) dist A(3) [of t] by simp
    moreover have "\<forall>u. u \<notin> set (t # ts) \<longrightarrow> threads s' u = threads s u" using s'(5) A(1) by auto
    ultimately show ?thesis
      unfolding k using s'(2-4,6,7) served_step(2) [OF True, of ?ty "length ts"] m1 o1 mut0 by (simp add: k [simplified])
  qed
qed

text \<open>Of the threads \<open>ts\<close> that waited for \<open>h\<close>, the first \<open>k\<close> are ready, the others still wait in order, and no other thread changed.\<close>

definition handed_out :: "ke \<Rightarrow> hdr \<Rightarrow> tid list \<Rightarrow> nat \<Rightarrow> ke \<Rightarrow> bool" where
  "handed_out s h ts k s' \<longleftrightarrow> (\<forall>t\<in>set (take k ts). kstate (threads s' t) = Ready) \<and> (\<forall>t\<in>set (drop k ts). is_waiting s' t)
     \<and> wait_list (objs s' h) = map (\<lambda>t. (t, 0)) (drop k ts) \<and> (\<forall>t. t \<notin> set ts \<longrightarrow> threads s' t = threads s t)"

lemma handed_out_nudge: "handed_out s h ts k s' \<Longrightarrow> handed_out s h ts k (nudge c n s') \<and> objs (nudge c n s') = objs s'"
  using only_ipis_nudge [of s' c n] by (simp add: handed_out_def only_ipis_def)

lemma lone_waiters_raise:
  assumes b: "blocks_ok s" and l: "lone_waiters s h ts"
  shows "lone_waiters (ensure_wait_list h (upd_obj h (\<lambda>x. x\<lparr>signal_state := v, owner := ow\<rparr>) s)) h ts"
  unfolding lone_waiters_def
proof (intro conjI ballI)
  let ?u = "upd_obj h (\<lambda>x. x\<lparr>signal_state := v, owner := ow\<rparr>) s"
  show "wait_list (objs (ensure_wait_list h ?u) h) = map (\<lambda>t. (t, 0)) ts"
    using ensure_wait_lists [of ?u h h] blocks_okD(2) [OF b, of h] l by (simp add: lone_waiters_def ke_upd)
  fix t assume t: "t \<in> set ts"
  have "(t, 0) \<in> set (wait_list (objs s h))" using l t by (auto simp: lone_waiters_def)
  then have "h \<noteq> WaitTimerHdr t" using b unfolding blocks_ok_def by (metis zero_neq_numeral)
  then show "wait_count (threads (ensure_wait_list h ?u) t) = 1"
    "\<not> (wait_timed (threads (ensure_wait_list h ?u) t) \<and> 0 < signal_state (objs (ensure_wait_list h ?u) (WaitTimerHdr t)))"
    using l t by (auto simp: lone_waiters_def ke_upd)
qed

lemma raise_fifo:
  assumes ok: "ke_ok s" and c: "c < MAX_CPUS" and l: "lone_waiters s h ts"
    and m: "object_type (objs s h) = Mutant \<Longrightarrow> v = 1 \<and> ow = 0"
  defines "k \<equiv> served (object_type (objs s h)) v (length ts)"
  shows "\<exists>s'. ki_wait_test c h (upd_obj h (\<lambda>x. x\<lparr>signal_state := v, owner := ow\<rparr>) s) = Some (k, s') \<and> ke_ok s' \<and> handed_out s h ts k s'
    \<and> signal_state (objs s' h) = left_over (object_type (objs s h)) v k
    \<and> (object_type (objs s h) = Mutant \<longrightarrow> owner (objs s' h) = (if k = 0 then ow else hd ts))"
proof -
  let ?u = "upd_obj h (\<lambda>x. x\<lparr>signal_state := v, owner := ow\<rparr>) s"
  let ?e = "ensure_wait_list h ?u"
  note K = ke_okD [OF ok]
  obtain n s' W where s': "ki_wait_test c h ?u = Some (n, s')" "ke_ok s'" using raise_ok [OF ok c m, of h] by blast
  have r: "ready_but {} ?e"
    by (intro ensure_ok(1) ready_but_frame [OF K(1)]) (auto simp: ke_upd ready_butD(5) [OF K(1)])
  have w: "waits_ok ?e" by (rule ensure_ok(3) [OF signal_change_ok [OF K(3) m]])
  have e: "object_type (objs ?e h) = object_type (objs s h)" "signal_state (objs ?e h) = v" "owner (objs ?e h) = ow" "threads ?e = threads s"
    by (simp_all add: ke_upd)
  have nz: "0 \<notin> set ts"
  proof
    assume "0 \<in> set ts"
    then have "is_waiting s 0" using lone_waiter_blocks(1) [OF K(7) l] by blast
    then show False using blocks_okD(9) [OF K(7)] by blast
  qed
  have "\<exists>z. wait_test_loop c h 0 ?e = Some (k, z) \<and> lone_waiters z h (drop k ts)
    \<and> (\<forall>t\<in>set (take k ts). kstate (threads z t) = Ready) \<and> (\<forall>t\<in>set (drop k ts). is_waiting z t)
    \<and> (\<forall>t. t \<notin> set ts \<longrightarrow> threads z t = threads s t)
    \<and> signal_state (objs z h) = left_over (object_type (objs s h)) v k
    \<and> (object_type (objs s h) = Mutant \<longrightarrow> owner (objs z h) = (if k = 0 then ow else hd ts))"
    using wait_test_fifo [OF r w c lone_waiters_raise [OF K(7) l], of 0] m nz unfolding e k_def [symmetric] by simp
  then show ?thesis using s' by (auto simp: ki_wait_test_def handed_out_def lone_waiters_def)
qed

end
