(* ===== verification/Ke_Properties.thy ===== *)
theory Ke_Properties
  imports Ke_History Ke_Fifo_Laws
begin

text \<open>
  The properties of the dispatcher: its states from boot on, and what rescheduling, waiting, signalling, releasing,
  starvation relief and timer expiry do in them.
\<close>

section \<open>Boot\<close>

text \<open>
  The state \<open>ki_initialize\<close> finds: only the boot processor is online, nothing is queued, and every thread and
  dispatcher object is as its constructor made it.
\<close>

definition fresh_thread :: "kthread \<Rightarrow> bool" where
  "fresh_thread k \<longleftrightarrow> kstate k = Initialized \<and> wait_count k = 0 \<and> \<not> wait_timed k \<and> (\<forall>i. \<not> wb_active (wait_blocks k i))"

definition fresh_obj :: "dispatcher_header \<Rightarrow> bool" where
  "fresh_obj x \<longleftrightarrow> wait_list x = [] \<and> \<not> inserted x \<and> mutant_ok x"

definition fresh_ke :: "ke \<Rightarrow> bool" where
  "fresh_ke s \<longleftrightarrow> cpus s = {0} \<and> (\<forall>c. banks s c = \<lparr>queues = (\<lambda>_. []), summary = 0, bank_count = 0\<rparr>)
     \<and> (\<forall>t. fresh_thread (threads s t)) \<and> (\<forall>h. fresh_obj (objs s h)) \<and> dpc_queue s = [] \<and> (\<forall>d. \<not> dpc_inserted s d)"

lemma kthread_new_fresh: "kthread_new base sz pri = Some k \<Longrightarrow> fresh_thread k"
  by (auto simp: kthread_new_def fresh_thread_def kwait_block_new_def split: bind_splits)

lemma objects_fresh:
  "ty \<noteq> Mutant \<Longrightarrow> fresh_obj (kevent_new ty b)" "fresh_obj (ksemaphore_new n l)" "fresh_obj kmutant_new" "fresh_obj ktimer_new"
  by (auto simp: fresh_obj_def mutant_ok_def kevent_new_def ksemaphore_new_def kmutant_new_def ktimer_new_def header_new_def)

lemma boot_ok:
  assumes "fresh_ke s" "boot \<noteq> 0"
  shows "ke_ok (ki_initialize 0 boot s)"
proof -
  let ?s = "ki_initialize 0 boot s"
  have cp: "cpus s = {0}" and bk: "banks s c = \<lparr>queues = (\<lambda>_. []), summary = 0, bank_count = 0\<rparr>"
    and th: "fresh_thread (threads s t)" and ob: "fresh_obj (objs s h)" for c t h
    using assms(1) by (auto simp: fresh_ke_def)
  have T: "threads ?s t = (if t = boot then (threads s t)\<lparr>kstate := Running\<rparr> else threads s t)" for t
    by (simp add: ki_initialize_def ke_upd)
  have O: "objs ?s = objs s" "timer_list ?s = []" "initialized ?s" "dpc_queue ?s = dpc_queue s" "dpc_inserted ?s = dpc_inserted s"
    "banks ?s c = banks s c" for c
    by (simp_all add: ki_initialize_def ke_upd bk)
  have C: "cpus ?s = {0}" "current ?s 0 = boot" "idle ?s 0 = boot"
    using cp by (auto simp: ki_initialize_def ke_upd cpus_def)
  have nq: "\<not> queued ?s t" "\<not> placed ?s t c p" for t c p by (simp_all add: queued_def placed_def O bk)
  have st: "kstate (threads ?s t) \<noteq> Ready" "\<not> is_waiting ?s t" "\<not> wait_timed (threads ?s t)" "wait_count (threads ?s t) = 0" "\<not> wb_active (wb ?s t i)" for t i
    using th [of t] by (auto simp: T fresh_thread_def wb_def)
  have "ready_but {} ?s" by (simp add: ready_but_def queues_ok_def nq st O bk bank_ok_def)
  moreover have "running_but {} ?s"
    using assms(2) C th by (auto simp: running_but_def T fresh_thread_def)
  moreover have "blocks_ok ?s" using ob by (simp add: blocks_ok_def st O fresh_obj_def)
  moreover have "timers_ok ?s" using ob by (simp add: timers_ok_def O fresh_obj_def)
  moreover have "mutants_ok ?s" using ob by (simp add: mutants_ok_def O st fresh_obj_def)
  ultimately show ?thesis using assms(1) by (simp add: ke_ok_def waits_ok_def asleep_but_def armed_but_def dpcs_ok_def st O fresh_ke_def)
qed

section \<open>Sample states\<close>

text \<open>A running boot thread, and the threads \<open>ts\<close> waiting for the object \<open>ObjHdr 0\<close>, which is otherwise \<open>x\<close>.\<close>

definition sample_thread :: kthread where
  "sample_thread = \<lparr>kstate = Initialized, stack_top = 4096, priority = 8, base_priority = 8, boosted = False,
     ready_since = 0, quantum = DEFAULT_QUANTUM, wait_blocks = (\<lambda>_. kwait_block_new), wait_typ = WaitAny,
     wait_count = 0, wait_timed = False, wait_status = STATUS_SUCCESS, cr3 = 0, gs_base = 0\<rparr>"

definition sample_prcb :: kprcb where
  "sample_prcb = \<lparr>idle_thread = 0, current_thread = 0, quantum_end = False, halting = False, online = False,
     dispatch_pending = False, rsp0 = 0, syscall_stack = 0, loaded_cr3 = 0, active_cr3 = 0, kernel_gs_base = 0\<rparr>"

definition sample_static :: "(hdr \<Rightarrow> dispatcher_header) \<Rightarrow> ke" where
  "sample_static ob = \<lparr>threads = (\<lambda>_. sample_thread), objs = ob,
     banks = (\<lambda>_. \<lparr>queues = (\<lambda>_. []), summary = 0, bank_count = 0\<rparr>),
     prcbs = (\<lambda>c. sample_prcb\<lparr>online := c = 0\<rparr>), timer_list = [], initialized = False, tick_count = 0,
     earliest_timer_due = - 1, starve_last_scan = 0, steals = 0, online_count = 1, idle_ipis = 0,
     kernel_address_space = 0, dpc_queue = [], dpc_inserted = (\<lambda>_. False), kapcs = (\<lambda>_. kapc_new), kapc_queue = (\<lambda>_. []), delivering = (\<lambda>_. False)\<rparr>"

definition sample_waiting :: "dispatcher_header \<Rightarrow> tid list \<Rightarrow> ke" where
  "sample_waiting x ts = (sample_static (\<lambda>h. if h = ObjHdr 0 then x\<lparr>wait_list := map (\<lambda>t. (t, 0)) ts, wait_list_init := True\<rparr> else header_new Timer 0))
     \<lparr>threads := (\<lambda>t. if t \<in> set ts then sample_thread\<lparr>kstate := Waiting, wait_count := 1,
          wait_blocks := (\<lambda>i. if i = 0 then \<lparr>wb_thread = t, wb_object = ObjHdr 0, wait_key = 0, wb_active = True\<rparr> else kwait_block_new)\<rparr>
        else if t = 1 then sample_thread\<lparr>kstate := Running\<rparr> else sample_thread),
      prcbs := (\<lambda>c. sample_prcb\<lparr>online := c = 0, idle_thread := 1, current_thread := 1\<rparr>), initialized := True\<rparr>"

lemma sample_fresh: "(\<And>h. fresh_obj (ob h)) \<Longrightarrow> fresh_ke (sample_static ob)"
  by (auto simp: fresh_ke_def sample_static_def cpus_def fresh_thread_def sample_thread_def kwait_block_new_def MAX_CPUS_def)

lemma sample_waiting_lone: "lone_waiters (sample_waiting x ts) (ObjHdr 0) ts"
  by (simp add: lone_waiters_def sample_waiting_def sample_static_def sample_thread_def)

lemma sample_waiting_simps:
  "cpus (sample_waiting x ts) = {0}" "current (sample_waiting x ts) c = 1"
  "objs (sample_waiting x ts) (ObjHdr 0) = x\<lparr>wait_list := map (\<lambda>t. (t, 0)) ts, wait_list_init := True\<rparr>"
  by (auto simp: sample_waiting_def sample_static_def cpus_def MAX_CPUS_def sample_prcb_def)

lemma sample_waiting_ok:
  assumes ts: "distinct ts" "0 \<notin> set ts" "1 \<notin> set ts" and x: "signal_state x = 0" "\<not> inserted x"
    "object_type x = Mutant \<Longrightarrow> owner x \<noteq> 0 \<and> owner x \<notin> set ts"
  shows "ke_ok (sample_waiting x ts)"
proof -
  let ?s = "sample_waiting x ts"
  have th: "kstate (threads ?s t) = (if t \<in> set ts then Waiting else if t = 1 then Running else Initialized)"
    "wait_count (threads ?s t) = (if t \<in> set ts then 1 else 0)" "\<not> wait_timed (threads ?s t)"
    "wb_active (wb ?s t i) = (t \<in> set ts \<and> i = 0)" "t \<in> set ts \<Longrightarrow> wb_object (wb ?s t 0) = ObjHdr 0 \<and> wb_thread (wb ?s t 0) = t" for t i
    using ts by (auto simp: sample_waiting_def sample_thread_def wb_def kwait_block_new_def)
  have ob: "objs ?s h = (if h = ObjHdr 0 then x\<lparr>wait_list := map (\<lambda>t. (t, 0)) ts, wait_list_init := True\<rparr> else header_new Timer 0)" for h
    by (simp add: sample_waiting_def sample_static_def)
  have bk: "banks ?s c = \<lparr>queues = (\<lambda>_. []), summary = 0, bank_count = 0\<rparr>" "initialized ?s" "timer_list ?s = []" "dpc_queue ?s = []" "\<not> dpc_inserted ?s d" for c d
    by (simp_all add: sample_waiting_def sample_static_def)
  have cp: "cpus ?s = {0}" "current ?s 0 = 1" "idle ?s 0 = 1"
    by (auto simp: sample_waiting_def sample_static_def cpus_def MAX_CPUS_def sample_prcb_def)
  have sg: "\<not> signaled_for t (ObjHdr 0) ?s" if "t \<in> set ts" for t
    using x that by (auto simp: signaled_for_def ob)
  have "ready_but {} ?s" by (simp add: ready_but_def queues_ok_def queued_def placed_def bk bank_ok_def th)
  moreover have "running_but {} ?s" using ts by (auto simp: running_but_def cp th split: if_splits)
  moreover have "blocks_ok ?s"
    unfolding blocks_ok_def
  proof (intro conjI allI impI)
    show "wb_thread (wb ?s t i) = t" if "wb_active (wb ?s t i)" for t i using that th(4,5) by auto
    show "wb_object (wb ?s t i) = WaitTimerHdr u \<longleftrightarrow> i = 3 \<and> u = t" if "wb_active (wb ?s t i)" for t i u using that th(4,5) by auto
    show "(t, i) \<in> set (wait_list (objs ?s h)) \<longleftrightarrow> wb_active (wb ?s t i) \<and> wb_object (wb ?s t i) = h" for h t i
      using th(4) [of t i] th(5) [of t] by (auto simp: ob header_new_def)
    show "distinct (wait_list (objs ?s h))" for h using ts(1) by (auto simp: ob header_new_def distinct_map inj_on_def)
  qed (use ts in \<open>auto simp: ob th header_new_def intro: gr0I split: if_splits\<close>)
  moreover have "timers_ok ?s" using x by (simp add: timers_ok_def bk ob header_new_def)
  moreover have "mutants_ok ?s" using x by (auto simp: mutants_ok_def mutant_ok_def ob header_new_def I32_MIN_def)
  moreover have "asleep_but {} ?s"
    unfolding asleep_but_def evaluate_NotYet_iff using sg th by (auto split: wait_type.splits)
  ultimately show ?thesis by (simp add: ke_ok_def waits_ok_def armed_but_def dpcs_ok_def th bk)
qed

text \<open>A history in which a second thread is made ready and dispatched.\<close>

definition sample_boot :: ke where
  "sample_boot = ki_initialize 0 1 (sample_static (\<lambda>_. ktimer_new))"

definition sample_run :: "ke option" where
  "sample_run = do { s \<leftarrow> ki_ready_thread 0 2 sample_boot; ki_dispatch_interrupt (\<lambda>c d s. Some s) 0 s }"

lemma sample_run_ok:
  "map_option (\<lambda>s. (current s 0, idle s 0, tick_count s, online (prcbs s 0))) sample_run = Some (2, 1, 0, True)"
  by code_simp

lemma sample_runD:
  assumes "sample_run = Some s"
  shows "current s 0 = 2 \<and> idle s 0 = 1 \<and> tick_count s = 0 \<and> online (prcbs s 0)"
  using sample_run_ok [unfolded assms] by simp

lemma sample_boot_ok: "ke_ok sample_boot"
  unfolding sample_boot_def by (rule boot_ok [OF sample_fresh]) (simp_all add: objects_fresh)

lemma quiet_dispatch:
  assumes ok: "ke_ok s" and c: "c \<in> cpus s" and q: "dpc_queue s = []" "timer_list s = []" "tick_count s < earliest_timer_due s"
    and run: "ki_dispatch_interrupt f c s = Some s'"
  shows "objs s' = objs s"
proof -
  let ?s = "upd_prcb c (\<lambda>p. p\<lparr>quantum_end := False\<rparr>) s"
  have k: "ke_ok ?s" by (rule ke_ok_upd_prcb [OF ok]) simp
  obtain s1 where s1: "starvation_scan ?s = Some s1" "ready_but {} s1" "running_but {} s1" "same_waits ?s s1" "prcbs s1 = prcbs ?s"
    using starvation_scan_ok [OF ke_okD(1,2) [OF k]] by blast
  have "c \<in> cpus s1" using c s1(5) by (auto simp: cpus_def ke_upd)
  then obtain s2 where s2: "reschedule c (quantum_end (prcbs s c)) s1 = Some s2" "same_waits s1 s2"
    using reschedule_ok [OF s1(2,3)] by blast
  have "ki_dispatch_interrupt f c s = Some s2"
    using q s1(1) s2(1) ke_okD(10) [OF ok] by (simp add: ki_dispatch_interrupt_def ki_retire_dpcs.simps ki_expire_timers_def)
  then show ?thesis using run s1(4) s2(2) by (simp add: same_waits_def ke_upd)
qed

abbreviation no_calls :: callbacks where
  "no_calls \<equiv> \<lambda>c d s. Some s"

lemma sample_reached:
  "\<exists>s. sample_run = Some s \<and> reachable (ke_step no_calls) (ke_guard no_calls) sample_boot s \<and> (\<forall>h. object_type (objs s h) = Timer \<and> signal_state (objs s h) = 0)"
proof -
  have g1: "ke_guard no_calls (OpReady 0 2) sample_boot"
    by (simp add: sample_boot_def ki_initialize_def sample_static_def sample_thread_def ke_upd cpus_def MAX_CPUS_def)
  obtain s1 where s1: "ki_ready_thread 0 2 sample_boot = Some s1" "ke_ok s1" using dispatcher.progress [OF sample_boot_ok g1] by auto
  have r1: "reachable (ke_step no_calls) (ke_guard no_calls) sample_boot s1"
    using reachable.step [where step = "ke_step no_calls" and guard = "ke_guard no_calls", OF reachable.start g1] s1(1) by simp
  have B: "timer_list sample_boot = []" "dpc_queue sample_boot = []" "tick_count sample_boot = 0" "earliest_timer_due sample_boot = - 1" "cpus sample_boot = {0}"
    by (auto simp: sample_boot_def ki_initialize_def sample_static_def ke_upd cpus_def MAX_CPUS_def)
  obtain z where z: "ready_thread_locked 0 2 sample_boot = Some z" "s1 = request_dispatch_ipi 0 z"
    using s1(1) by (auto simp: ki_ready_thread_def split: bind_splits)
  have "require (initialized sample_boot) = Some ()" using ke_okD(10) [OF sample_boot_ok] by simp
  then obtain th bk where "z = sample_boot\<lparr>threads := th, banks := bk\<rparr>"
    using z(1) by (simp add: ready_thread_locked_def upd_thread_def upd_bank_def Let_def) blast
  then have "objs z = objs sample_boot" "timer_list z = []" "dpc_queue z = []" "tick_count z = 0" "earliest_timer_due z = - 1" "cpus z = {0}"
    using B by (simp_all add: cpus_def)
  then have q: "objs s1 = objs sample_boot" "timer_list s1 = []" "dpc_queue s1 = []" "tick_count s1 = 0" "earliest_timer_due s1 = - 1" "0 \<in> cpus s1"
    using only_ipis_request_ipi [of z 0] unfolding z(2)
    by (simp_all add: only_ipis_def cpus_def request_dispatch_ipi_def request_dispatch_interrupt_def ipi_idle_cpus_def send_ipi_all_but_self_def ke_upd)
  have g2: "ke_guard no_calls (OpDispatch 0) s1"
    using q by (simp add: routine_ok_def race_free_def no_race_def due_timers_def ki_retire_dpcs.simps)
  obtain s where s: "ki_dispatch_interrupt (\<lambda>c d. no_calls c (DpcCall d)) 0 s1 = Some s" using dispatcher.progress [OF s1(2) g2] by auto
  have "reachable (ke_step no_calls) (ke_guard no_calls) sample_boot s"
    using reachable.step [where step = "ke_step no_calls" and guard = "ke_guard no_calls", OF r1 g2] s by simp
  moreover have "objs s = objs sample_boot" using quiet_dispatch [OF s1(2) q(6,3,2) _ s] q by (simp add: word_gt_0)
  ultimately show ?thesis using s s1(1)
    by (simp add: sample_run_def sample_boot_def ki_initialize_def sample_static_def ke_upd ktimer_new_def header_new_def)
qed

lemma sample_wait_guard:
  assumes "sample_run = Some s" "\<forall>h. object_type (objs s h) = Timer \<and> signal_state (objs s h) = 0"
  shows "ke_guard no_calls (OpWait 0 [ObjHdr 0] WaitAny (Some 5)) s"
  using sample_runD [OF assms(1)] assms(2) by (simp add: cpus_def mutant_room_def MAX_CPUS_def max_def)

section \<open>The dispatcher from boot on\<close>



lemma clock_tick_requests:
  assumes "ki_clock_tick c s = Some s'" "earliest_timer_due s \<le> tick_count s'"
  shows "dispatch_pending (prcbs s' c)"
  using assms
  by (auto simp: ki_clock_tick_def burn_quantum_def request_dispatch_interrupt_def ke_upd Let_def checked_add_def
      split: bind_splits if_splits)



section \<open>Rescheduling\<close>

text \<open>
  C7. The dispatch interrupt's rescheduling decision: an idle processor runs the first thread of the best queue
  it has, or steals the best one from another bank, or stays idle when none is queued; a thread at the end of its
  quantum goes to the tail of its queue with a fresh quantum before the choice; a thread with quantum left is
  preempted only when a better thread is queued somewhere. Other processors keep their threads. The choice prefers
  the processor's own bank whatever is queued elsewhere, so a thread that finds its own bank empty keeps running
  even when a thread of higher priority waits in another bank.
\<close>

theorem reschedule_correct:
  assumes "ke_ok s" "c \<in> cpus s"
  shows "\<exists>s'. reschedule c q s = Some s' \<and> ke_ok s' \<and> outcome s c q (current s' c) \<and> (\<forall>d. d \<noteq> c \<longrightarrow> current s' d = current s d)
    \<and> (current s c \<noteq> idle s c \<and> (\<forall>p. queues (banks s c) p = []) \<longrightarrow> current s' c = current s c)"
proof -
  note K = ke_okD [OF assms(1)]
  obtain s' where s': "reschedule c q s = Some s'" "ready_but {} s'" "running_but {} s'" "same_waits s s'"
    "outcome s c q (current s' c)" "\<forall>d. d \<noteq> c \<longrightarrow> current s' d = current s d" "dpc_queue s' = dpc_queue s" "dpc_inserted s' = dpc_inserted s"
    using reschedule_ok [OF K(1,2) assms(2)] by blast
  have "ke_ok s'" by (rule ke_ok_same_waits [OF assms(1) s'(4,2,3)]) (use K(6) s'(7,8) in \<open>simp add: dpcs_ok_def\<close>)
  moreover have "current s' c = current s c" if "current s c \<noteq> idle s c" "\<forall>p. queues (banks s c) p = []"
    using reschedule_keeps_local [OF K(1,2) assms(2) that(1), of q] that(2) s'(1) by auto
  ultimately show ?thesis using s' by blast
qed

theorem reschedule_correct_witness:
  "\<exists>s s'. kstate (threads s 2) = Ready \<and> current s 0 = 1 \<and> reschedule 0 False s = Some s' \<and> outcome s 0 False (current s' 0)"
proof -
  obtain s where s: "ki_ready_thread 0 2 sample_boot = Some s" "ke_ok s"
    using ki_ready_thread_ok [OF sample_boot_ok, of 0 2] by (auto simp: sample_boot_def ki_initialize_def sample_static_def sample_thread_def ke_upd MAX_CPUS_def)
  have "map_option (\<lambda>s. (kstate (threads s 2), current s 0, online (prcbs s 0))) (ki_ready_thread 0 2 sample_boot) = Some (Ready, 1, True)"
    by code_simp
  then have f: "kstate (threads s 2) = Ready" "current s 0 = 1" "0 \<in> cpus s" using s(1) by (auto simp: cpus_def MAX_CPUS_def)
  from reschedule_correct [OF s(2) f(3), of False] f show ?thesis by blast
qed

section \<open>Waiting\<close>

text \<open>
  C6. A wait on up to three objects: when the objects satisfy it (one of them for a wait for any, all of them for a
  wait for all) it returns at once, having consumed exactly those, with the index of the first signalled object in
  its status; otherwise a zero timeout returns the timeout status; otherwise the calling thread blocks, another
  thread runs on its processor, and it has a timer exactly when a timeout was given.
\<close>

theorem wait_correct:
  assumes "ke_ok s" "ke_guard f (OpWait c os wt to) s"
  shows "case wait_result (current s c) os wt s of
      Some (hs, st) \<Rightarrow> \<exists>s'. ki_wait_for_objects c os wt to s = Some (Some st, s') \<and> ke_ok s'
        \<and> foreach (satisfy_object_for (current s c)) hs (laid (current s c) os wt s) = Some s'
    | None \<Rightarrow> if to = Some 0 then \<exists>s'. ki_wait_for_objects c os wt to s = Some (Some STATUS_TIMEOUT, s') \<and> ke_ok s'
        else \<exists>s'. ki_wait_for_objects c os wt to s = Some (None, s') \<and> ke_ok s' \<and> is_waiting s' (current s c)
          \<and> current s' c \<noteq> current s c \<and> (wait_timed (threads s' (current s c)) \<longleftrightarrow> to \<noteq> None)"
proof -
  have g: "c \<in> cpus s" "current s c \<noteq> idle s c" "length os \<le> 3" "\<And>h u. h \<in> set os \<Longrightarrow> h \<noteq> WaitTimerHdr u" "mutant_room s"
    "\<And>n. to = Some n \<Longrightarrow> unat (tick_count s) + unat (max n 1) < 2 ^ 64" using assms(2) by auto
  have "kstate (threads s (current s c)) = Running" using running_butD(4) [OF ke_okD(2) [OF assms(1)] g(1)] by simp
  then have z: "to = Some 0 \<Longrightarrow> wait_result (current s c) os wt s = None
      \<Longrightarrow> \<exists>s'. ki_wait_for_objects c os wt to s = Some (Some STATUS_TIMEOUT, s') \<and> ke_ok s'"
    using laid_ok [OF assms(1) _ g(3)] laid_evaluate(1) [OF g(3), of "current s c" wt s] by (simp add: ki_wait_start [OF assms(1) g(3) refl] Let_def)
  show ?thesis
  proof (cases "wait_result (current s c) os wt s")
    case None
    then show ?thesis using ki_wait_blocks [OF assms(1) g(1-5) None _ g(6)] z by (cases "to = Some 0") simp_all
  next
    case (Some r)
    obtain hs st where "r = (hs, st)" by (cases r)
    with Some show ?thesis using ki_wait_immediate [OF assms(1) g(1,3,5), of wt hs st to] by auto
  qed
qed

theorem wait_correct_witness:
  "\<exists>s s'. current s 0 = 2 \<and> ki_wait_for_objects 0 [ObjHdr 0] WaitAny (Some 5) s = Some (None, s') \<and> is_waiting s' 2 \<and> current s' 0 \<noteq> 2"
proof -
  obtain s where s: "sample_run = Some s" "reachable (ke_step no_calls) (ke_guard no_calls) sample_boot s"
      "\<forall>h. object_type (objs s h) = Timer \<and> signal_state (objs s h) = 0"
    using sample_reached by blast
  have ok: "ke_ok s" using dispatcher.reachable_inv [OF s(2) sample_boot_ok] .
  have r: "wait_result (current s 0) [ObjHdr 0] WaitAny s = None"
    using s(3) by (simp add: wait_result_def signaled_for_def)
  from wait_correct [OF ok sample_wait_guard [OF s(1,3)]] r sample_runD [OF s(1)] show ?thesis by auto
qed

section \<open>Signalling and releasing\<close>

text \<open>
  C39. Signalling an event wakes the threads that wait for it alone in the order in which they came: all of them for
  a notification event, which stays signalled, and the first one for a synchronization event, which is signalled
  afterwards only if nobody waited. The previous signal state is returned.
\<close>

theorem signal_object_fifo:
  assumes "ke_ok s" "c < MAX_CPUS" "lone_waiters s h ts"
    and "object_type (objs s h) \<in> {NotificationEvent, SynchronizationEvent}"
  shows "\<exists>s'. ki_signal_object c h s = Some (signal_state (objs s h), s') \<and> ke_ok s'
    \<and> (if object_type (objs s h) = NotificationEvent then handed_out s h ts (length ts) s' \<and> signal_state (objs s' h) = 1
       else handed_out s h ts (min 1 (length ts)) s' \<and> signal_state (objs s' h) = (if ts = [] then 1 else 0))"
proof -
  have e: "upd_obj h (\<lambda>x. x\<lparr>signal_state := 1\<rparr>) s = upd_obj h (\<lambda>x. x\<lparr>signal_state := 1, owner := owner (objs s h)\<rparr>) s" by (simp add: ke_upd)
  let ?k = "served (object_type (objs s h)) 1 (length ts)"
  obtain s' where s': "ki_wait_test c h (upd_obj h (\<lambda>x. x\<lparr>signal_state := 1\<rparr>) s) = Some (?k, s')" "ke_ok s'" "handed_out s h ts ?k s'"
    "signal_state (objs s' h) = left_over (object_type (objs s h)) 1 ?k"
    unfolding e using raise_fifo [OF assms(1-3), of 1 "owner (objs s h)"] assms(4) by auto
  have "ki_signal_object c h s = Some (signal_state (objs s h), nudge c ?k s')" using s'(1) by (simp add: ki_signal_object_def)
  then show ?thesis using ke_ok_nudge [OF s'(2)] handed_out_nudge [OF s'(3)] s'(4) assms(4) by (auto simp: min_def split: if_splits)
qed

theorem signal_object_fifo_witness:
  "\<exists>s'. ki_signal_object 0 (ObjHdr 0) (sample_waiting (kevent_new SynchronizationEvent False) [5, 3, 4]) = Some (0, s')
     \<and> kstate (threads s' 5) = Ready \<and> wait_list (objs s' (ObjHdr 0)) = [(3, 0), (4, 0)] \<and> signal_state (objs s' (ObjHdr 0)) = 0"
proof -
  let ?s = "sample_waiting (kevent_new SynchronizationEvent False) [5, 3, 4]"
  have "ke_ok ?s" by (rule sample_waiting_ok) (simp_all add: kevent_new_def header_new_def)
  from signal_object_fifo [OF this _ sample_waiting_lone, of 0] show ?thesis
    by (auto simp: sample_waiting_simps kevent_new_def header_new_def MAX_CPUS_def handed_out_def)
qed





section \<open>Starvation relief\<close>



section \<open>Timer expiry\<close>


text \<open>Thread 2 waits for the timer \<open>ObjHdr 0\<close>, which is due at \<open>d\<close>, and for at most until tick 1, which is now.\<close>

definition sample_due :: "u64 \<Rightarrow> ke" where
  "sample_due d = (sample_static (\<lambda>h. if h = ObjHdr 0 then ktimer_new\<lparr>due_tick := d, inserted := True, wait_list := [(2, 0)], wait_list_init := True\<rparr>
        else if h = WaitTimerHdr 2 then ktimer_new\<lparr>due_tick := 1, inserted := True, wait_list := [(2, 3)], wait_list_init := True\<rparr>
        else ktimer_new))
     \<lparr>threads := (\<lambda>t. if t = 2 then sample_thread\<lparr>kstate := Waiting, wait_count := 1, wait_timed := True,
          wait_blocks := (\<lambda>i. if i = 0 then \<lparr>wb_thread = 2, wb_object = ObjHdr 0, wait_key = 0, wb_active = True\<rparr>
            else if i = 3 then \<lparr>wb_thread = 2, wb_object = WaitTimerHdr 2, wait_key = 0, wb_active = True\<rparr> else kwait_block_new)\<rparr>
        else if t = 1 then sample_thread\<lparr>kstate := Running\<rparr> else sample_thread),
      prcbs := (\<lambda>c. sample_prcb\<lparr>online := c = 0, idle_thread := 1, current_thread := 1\<rparr>), initialized := True,
      timer_list := [ObjHdr 0, WaitTimerHdr 2], tick_count := 1, earliest_timer_due := 1\<rparr>"

lemma sample_due_simps:
  "due_timers (tick_count (sample_due 1)) (sample_due 1) = [ObjHdr 0, WaitTimerHdr 2]"
  "due_timers (tick_count (sample_due 9)) (sample_due 9) = [WaitTimerHdr 2]"
  "waiters (sample_due d) (ObjHdr 0) = {2}" "waiters (sample_due d) (WaitTimerHdr 2) = {2}"
  "is_waiting (sample_due d) 2" "wait_count (threads (sample_due d) 2) = 1"
  by (simp_all add: sample_due_def sample_static_def due_timers_def waiters_def word_le_nat_alt)

lemma sample_due_ok:
  assumes "1 \<le> d"
  shows "ke_ok (sample_due d)"
proof -
  let ?s = "sample_due d"
  have th: "kstate (threads ?s t) = (if t = 2 then Waiting else if t = 1 then Running else Initialized)"
    "wait_count (threads ?s t) = (if t = 2 then 1 else 0)" "wait_timed (threads ?s t) = (t = 2)"
    "wb_active (wb ?s t i) = (t = 2 \<and> (i = 0 \<or> i = 3))" "wb_object (wb ?s 2 0) = ObjHdr 0" "wb_object (wb ?s 2 3) = WaitTimerHdr 2"
    "wb_thread (wb ?s 2 0) = 2" "wb_thread (wb ?s 2 3) = 2" "wait_typ (threads ?s t) = WaitAny" for t i
    by (auto simp: sample_due_def sample_thread_def wb_def kwait_block_new_def)
  have ob: "wait_list (objs ?s h) = (if h = ObjHdr 0 then [(2, 0)] else if h = WaitTimerHdr 2 then [(2, 3)] else [])"
    "inserted (objs ?s h) = (h = ObjHdr 0 \<or> h = WaitTimerHdr 2)" "object_type (objs ?s h) = Timer" "signal_state (objs ?s h) = 0"
    "wait_list_init (objs ?s h) \<or> wait_list (objs ?s h) = []"
    "due_tick (objs ?s h) = (if h = ObjHdr 0 then d else if h = WaitTimerHdr 2 then 1 else 0)" for h
    by (auto simp: sample_due_def sample_static_def ktimer_new_def header_new_def)
  have bk: "banks ?s c = \<lparr>queues = (\<lambda>_. []), summary = 0, bank_count = 0\<rparr>" "initialized ?s" "timer_list ?s = [ObjHdr 0, WaitTimerHdr 2]"
    "dpc_queue ?s = []" "\<not> dpc_inserted ?s e" "earliest_timer_due ?s = 1" for c e
    by (simp_all add: sample_due_def sample_static_def)
  have cp: "cpus ?s = {0}" "current ?s 0 = 1" "idle ?s 0 = 1"
    by (auto simp: sample_due_def sample_static_def cpus_def MAX_CPUS_def sample_prcb_def)
  have "ready_but {} ?s" by (simp add: ready_but_def queues_ok_def queued_def placed_def bk bank_ok_def th)
  moreover have "running_but {} ?s" by (auto simp: running_but_def cp th split: if_splits)
  moreover have "blocks_ok ?s"
    unfolding blocks_ok_def
  proof (intro conjI allI impI)
    show "(t, i) \<in> set (wait_list (objs ?s h)) \<longleftrightarrow> wb_active (wb ?s t i) \<and> wb_object (wb ?s t i) = h" for h t i
      using th(4-6) by (auto simp: ob split: if_splits)
    show "wb_thread (wb ?s t i) = t" if "wb_active (wb ?s t i)" for t i using that th(4,7,8) by auto
    show "wb_object (wb ?s t i) = WaitTimerHdr u \<longleftrightarrow> i = 3 \<and> u = t" if "wb_active (wb ?s t i)" for t i u using that th(4-6) by auto
    show "wait_list_init (objs ?s h) \<or> wait_list (objs ?s h) = []" for h by (rule ob(5))
  qed (auto simp: ob(1) th split: if_splits)
  moreover have "timers_ok ?s" using assms by (auto simp: timers_ok_def bk ob th)
  moreover have "mutants_ok ?s" by (simp add: mutants_ok_def mutant_ok_def ob)
  moreover have "asleep_but {} ?s" unfolding asleep_but_def evaluate_NotYet_iff by (simp add: signaled_for_def ob th)
  ultimately show ?thesis by (simp add: ke_ok_def waits_ok_def armed_but_def dpcs_ok_def th bk ob)
qed


text \<open>
  C40. When a thread waits on a timer that is due in the same pass as the thread's own timeout, and the timer comes
  first on the list, the pass faults: waking the thread has already taken its timeout off the timer list, and the
  pass, which collected the due timers beforehand, unlinks it a second time.
\<close>

theorem expire_race_faults:
  assumes "ke_ok s" "c < MAX_CPUS" "due_timers (tick_count s) s = h # hs" "t \<in> waiters s h" "WaitTimerHdr t \<in> set hs"
    and "wait_typ (threads s t) = WaitAny \<or> wait_count (threads s t) = 1"
  shows "ki_expire_timers c s = None"
  by (rule ki_expire_timers_race [OF assms(1-4,6,5)])

theorem expire_race_faults_witness: "ki_expire_timers 0 (sample_due 1) = None"
  by (rule expire_race_faults [where t = 2, OF sample_due_ok _ sample_due_simps(1)]) (simp_all add: sample_due_simps MAX_CPUS_def)

end
