(* ===== verification/Rtl_List.thy ===== *)
theory Rtl_List
  imports Nk_Prelude
begin

text \<open>
  \<open>LIST_ENTRY\<close> (\<^verbatim>\<open>kernel/src/rtl/list.rs\<close>): the intrusive circular doubly-linked list, modelled over an
  explicit heap of entries so that aliasing is visible. An address is a 64-bit word; 0 is null and an
  address outside the heap's domain is not a live entry, so that reading or writing through either is a
  fault (\<^term>\<open>None\<close>). \<open>dll h q xs\<close> says that \<open>q\<close> heads a well-formed circular list of the entries \<open>xs\<close>.
  Every operation is shown to implement its sequence operation on \<open>xs\<close> and to leave lists on disjoint
  cells alone; the executive's components, which only use the list through these operations, are
  modelled over the sequences.
\<close>

section \<open>The heap and the operations\<close>

record list_entry =
  flink :: u64
  blink :: u64

type_synonym entry_heap = "u64 \<rightharpoonup> list_entry"

definition entry_new :: list_entry where
  "entry_new = \<lparr>flink = 0, blink = 0\<rparr>"

definition deref :: "entry_heap \<Rightarrow> u64 \<Rightarrow> list_entry option" where
  "deref h p = (if p = 0 then None else h p)"

definition set_flink :: "entry_heap \<Rightarrow> u64 \<Rightarrow> u64 \<Rightarrow> entry_heap option" where
  "set_flink h p v = do { e \<leftarrow> deref h p; Some (h(p \<mapsto> e\<lparr>flink := v\<rparr>)) }"

definition set_blink :: "entry_heap \<Rightarrow> u64 \<Rightarrow> u64 \<Rightarrow> entry_heap option" where
  "set_blink h p v = do { e \<leftarrow> deref h p; Some (h(p \<mapsto> e\<lparr>blink := v\<rparr>)) }"

definition init :: "entry_heap \<Rightarrow> u64 \<Rightarrow> entry_heap option" where
  "init h me = do {
     h \<leftarrow> set_flink h me me;
     set_blink h me me
   }"

definition is_empty :: "entry_heap \<Rightarrow> u64 \<Rightarrow> bool option" where
  "is_empty h me = do { e \<leftarrow> deref h me; Some (flink e = me) }"

definition insert_tail :: "entry_heap \<Rightarrow> u64 \<Rightarrow> u64 \<Rightarrow> entry_heap option" where
  "insert_tail h head entry = do {
     self \<leftarrow> deref h head;
     let old_tail = blink self;
     h \<leftarrow> set_flink h entry head;
     h \<leftarrow> set_blink h entry old_tail;
     h \<leftarrow> set_flink h old_tail entry;
     set_blink h head entry
   }"

definition insert_head :: "entry_heap \<Rightarrow> u64 \<Rightarrow> u64 \<Rightarrow> entry_heap option" where
  "insert_head h head entry = do {
     self \<leftarrow> deref h head;
     let old_first = flink self;
     h \<leftarrow> set_flink h entry old_first;
     h \<leftarrow> set_blink h entry head;
     h \<leftarrow> set_blink h old_first entry;
     set_flink h head entry
   }"

definition remove_entry :: "entry_heap \<Rightarrow> u64 \<Rightarrow> entry_heap option" where
  "remove_entry h entry = do {
     e \<leftarrow> deref h entry;
     let fl = flink e;
     let bl = blink e;
     h \<leftarrow> set_flink h bl fl;
     h \<leftarrow> set_blink h fl bl;
     h \<leftarrow> set_flink h entry 0;
     set_blink h entry 0
   }"

definition remove_head :: "entry_heap \<Rightarrow> u64 \<Rightarrow> (u64 option \<times> entry_heap) option" where
  "remove_head h head = do {
     empty \<leftarrow> is_empty h head;
     if empty then Some (None, h)
     else do {
       self \<leftarrow> deref h head;
       let entry = flink self;
       h' \<leftarrow> remove_entry h entry;
       Some (Some entry, h')
     }
   }"

text \<open>
  The walk of \<open>for_each\<close>, with a callback that does not touch the list: the entries it visits, in order.
  On a corrupted list the walk may fault or run forever; both are \<^term>\<open>None\<close>.
\<close>

partial_function (option) for_each_loop :: "entry_heap \<Rightarrow> u64 \<Rightarrow> u64 \<Rightarrow> u64 list option" where
  "for_each_loop h head cur =
     (if cur = head then Some []
      else do {
        e \<leftarrow> deref h cur;
        rest \<leftarrow> for_each_loop h head (flink e);
        Some (cur # rest)
      })"

definition for_each :: "entry_heap \<Rightarrow> u64 \<Rightarrow> u64 list option" where
  "for_each h head = do { self \<leftarrow> deref h head; for_each_loop h head (flink self) }"

section \<open>Well-formed lists\<close>

text \<open>The links of a heap as two pointer functions, and the linkage of consecutive cells.\<close>

definition nx :: "entry_heap \<Rightarrow> u64 \<Rightarrow> u64" where
  "nx h p = flink (the (h p))"

definition pv :: "entry_heap \<Rightarrow> u64 \<Rightarrow> u64" where
  "pv h p = blink (the (h p))"

definition linked :: "(u64 \<Rightarrow> u64) \<Rightarrow> (u64 \<Rightarrow> u64) \<Rightarrow> u64 list \<Rightarrow> bool" where
  "linked f b = successively (\<lambda>p q. f p = q \<and> b q = p)"

definition live_cell :: "entry_heap \<Rightarrow> u64 \<Rightarrow> bool" where
  "live_cell h p \<longleftrightarrow> p \<noteq> 0 \<and> p \<in> dom h"

definition dll :: "entry_heap \<Rightarrow> u64 \<Rightarrow> u64 list \<Rightarrow> bool" where
  "dll h q xs \<longleftrightarrow> distinct (q # xs) \<and> (\<forall>p \<in> set (q # xs). live_cell h p) \<and>
     linked (nx h) (pv h) (q # xs @ [q])"

lemma linked_append:
  "linked f b (xs @ ys) \<longleftrightarrow> linked f b xs \<and> linked f b ys \<and>
     (xs = [] \<or> ys = [] \<or> f (last xs) = hd ys \<and> b (hd ys) = last xs)"
  by (simp add: linked_def successively_append_iff)

lemma linked_single [simp]: "linked f b [x]"
  by (simp add: linked_def)

lemma set_tl_snoc: "u \<in> set (tl (ys @ [q])) \<Longrightarrow> u \<in> set ys \<or> u = q"
  by (cases ys) auto

lemma linked_frame:
  "linked f b zs \<Longrightarrow> \<forall>u \<in> set (butlast zs). f' u = f u \<Longrightarrow> \<forall>u \<in> set (tl zs). b' u = b u \<Longrightarrow> linked f' b' zs"
  unfolding linked_def
proof (induction zs rule: induct_list012)
  case (3 x y zs)
  then show ?case by (cases zs) auto
qed auto

lemma deref_live: "live_cell h p \<Longrightarrow> \<exists>e. deref h p = Some e \<and> h p = Some e"
  by (auto simp: live_cell_def deref_def)

lemma deref_nx_pv: "live_cell h p \<Longrightarrow> deref h p = Some \<lparr>flink = nx h p, blink = pv h p\<rparr>"
  by (auto simp: live_cell_def deref_def nx_def pv_def)

lemma set_flink_live:
  assumes "live_cell h p"
  obtains h' where "set_flink h p v = Some h'" "nx h' = (nx h)(p := v)" "pv h' = pv h" "live_cell h' = live_cell h"
proof -
  from deref_live [OF assms] obtain e where "deref h p = Some e" "h p = Some e" by blast
  then show thesis
    by (intro that [of "h(p \<mapsto> e\<lparr>flink := v\<rparr>)"]) (auto simp: set_flink_def nx_def pv_def live_cell_def fun_eq_iff)
qed

lemma set_blink_live:
  assumes "live_cell h p"
  obtains h' where "set_blink h p v = Some h'" "pv h' = (pv h)(p := v)" "nx h' = nx h" "live_cell h' = live_cell h"
proof -
  from deref_live [OF assms] obtain e where "deref h p = Some e" "h p = Some e" by blast
  then show thesis
    by (intro that [of "h(p \<mapsto> e\<lparr>blink := v\<rparr>)"]) (auto simp: set_blink_def nx_def pv_def live_cell_def fun_eq_iff)
qed

text \<open>
  Splicing a cell into and out of a ring. Both are stated on the pointer functions, with the ring cut
  at the place of the change: \<open>q # xs\<close> before it and \<open>ys @ [q]\<close> after it.
\<close>

lemma linked_cut_frame:
  assumes "distinct (q # xs @ ys)" "e \<notin> set (q # xs @ ys)"
    and "\<forall>u. u \<noteq> e \<longrightarrow> u \<noteq> last (q # xs) \<longrightarrow> f' u = f u" "\<forall>u. u \<noteq> e \<longrightarrow> u \<noteq> hd (ys @ [q]) \<longrightarrow> b' u = b u"
  shows "linked f b (q # xs) \<Longrightarrow> linked f' b' (q # xs)" "linked f b (ys @ [q]) \<Longrightarrow> linked f' b' (ys @ [q])"
proof -
  assume l: "linked f b (q # xs)"
  show "linked f' b' (q # xs)"
  proof (rule linked_frame [OF l]; rule ballI)
    fix u assume "u \<in> set (butlast (q # xs))"
    moreover have "distinct (butlast (q # xs) @ [last (q # xs)])"
      using assms(1) by (subst append_butlast_last_id) simp_all
    ultimately have "u \<noteq> last (q # xs)" "u \<noteq> e" using assms(2) by (auto dest: in_set_butlastD split: if_splits)
    with assms(3) show "f' u = f u" by blast
  next
    fix u assume "u \<in> set (tl (q # xs))"
    then have "u \<noteq> hd (ys @ [q])" "u \<noteq> e" using assms(1,2) by (cases ys; auto)+
    with assms(4) show "b' u = b u" by blast
  qed
next
  assume l: "linked f b (ys @ [q])"
  show "linked f' b' (ys @ [q])"
  proof (rule linked_frame [OF l]; rule ballI)
    fix u assume "u \<in> set (butlast (ys @ [q]))"
    then have "u \<noteq> last (q # xs)" "u \<noteq> e" using assms(1,2) by (cases xs rule: rev_cases; auto)+
    with assms(3) show "f' u = f u" by blast
  next
    fix u assume "u \<in> set (tl (ys @ [q]))"
    then have "u \<noteq> hd (ys @ [q])" "u \<noteq> e" using assms(1,2) by (cases ys; auto)+
    with assms(4) show "b' u = b u" by blast
  qed
qed

lemma linked_splice_in:
  assumes "linked f b (q # (xs @ ys) @ [q])" "distinct (q # xs @ ys)" "e \<notin> set (q # xs @ ys)"
    and "f' e = hd (ys @ [q])" "f' (last (q # xs)) = e" "b' e = last (q # xs)" "b' (hd (ys @ [q])) = e"
    and "\<forall>u. u \<noteq> e \<longrightarrow> u \<noteq> last (q # xs) \<longrightarrow> f' u = f u" "\<forall>u. u \<noteq> e \<longrightarrow> u \<noteq> hd (ys @ [q]) \<longrightarrow> b' u = b u"
  shows "linked f' b' (q # (xs @ e # ys) @ [q])"
proof -
  from assms(1) have l: "linked f b (q # xs)" "linked f b (ys @ [q])"
    using linked_append [of f b "q # xs" "ys @ [q]"] by simp_all
  note 1 = linked_cut_frame(1) [OF assms(2,3,8,9) l(1)] and 2 = linked_cut_frame(2) [OF assms(2,3,8,9) l(2)]
  have "linked f' b' ([e] @ (ys @ [q]))"
    using 2 assms(4,7) unfolding linked_append [of f' b' "[e]"] by simp
  with 1 have "linked f' b' ((q # xs) @ ([e] @ (ys @ [q])))"
    unfolding linked_append [of f' b' "q # xs"] using assms(5,6) by simp
  then show ?thesis by simp
qed

lemma linked_neighbours:
  assumes "linked f b (q # (xs @ e # ys) @ [q])"
  shows "f e = hd (ys @ [q])" "b e = last (q # xs)"
  using assms linked_append [of f b "q # xs" "[e] @ (ys @ [q])"] linked_append [of f b "[e]" "ys @ [q]"]
  by simp_all

lemma linked_splice_out:
  assumes "linked f b (q # (xs @ e # ys) @ [q])" "distinct (q # xs @ e # ys)"
    and "f' (last (q # xs)) = hd (ys @ [q])" "b' (hd (ys @ [q])) = last (q # xs)"
    and "\<forall>u. u \<noteq> e \<longrightarrow> u \<noteq> last (q # xs) \<longrightarrow> f' u = f u" "\<forall>u. u \<noteq> e \<longrightarrow> u \<noteq> hd (ys @ [q]) \<longrightarrow> b' u = b u"
  shows "linked f' b' (q # (xs @ ys) @ [q])"
proof -
  from assms(1) have l: "linked f b (q # xs)" "linked f b (ys @ [q])"
    using linked_append [of f b "q # xs" "[e] @ (ys @ [q])"] linked_append [of f b "[e]" "ys @ [q]"] by simp_all
  have d: "distinct (q # xs @ ys)" "e \<notin> set (q # xs @ ys)" using assms(2) by auto
  have "linked f' b' ((q # xs) @ (ys @ [q]))"
    unfolding linked_append [of f' b' "q # xs"]
    using assms(3,4) linked_cut_frame(1) [OF d assms(5,6) l(1)] linked_cut_frame(2) [OF d assms(5,6) l(2)] by simp
  then show ?thesis by simp
qed

section \<open>The operations on sequences\<close>

text \<open>A cell that is not part of a ring can change freely.\<close>

lemma dll_frame:
  assumes "dll h q xs" "live_cell h' = live_cell h"
    and "\<forall>u \<in> set (q # xs). nx h' u = nx h u \<and> pv h' u = pv h u"
  shows "dll h' q xs"
proof -
  have "linked (nx h') (pv h') (q # xs @ [q])"
    by (rule linked_frame) (use assms in \<open>auto simp: dll_def dest: in_set_butlastD split: if_splits\<close>)
  with assms show ?thesis by (simp add: dll_def)
qed

definition untouched :: "entry_heap \<Rightarrow> entry_heap \<Rightarrow> u64 set \<Rightarrow> bool" where
  "untouched h h' A \<longleftrightarrow> (\<forall>r zs. dll h r zs \<longrightarrow> set (r # zs) \<inter> A = {} \<longrightarrow> dll h' r zs)"

lemma untouchedI:
  assumes "live_cell h' = live_cell h" "\<forall>u. u \<notin> A \<longrightarrow> nx h' u = nx h u \<and> pv h' u = pv h u"
  shows "untouched h h' A"
  unfolding untouched_def by (intro allI impI; rule dll_frame [OF _ assms(1)]) (use assms(2) in auto)

lemma init_dll:
  assumes "live_cell h q"
  obtains h' where "init h q = Some h'" "dll h' q []" "live_cell h' = live_cell h" "untouched h h' {q}"
proof -
  obtain h1 where h1: "set_flink h q q = Some h1" "nx h1 = (nx h)(q := q)" "pv h1 = pv h" "live_cell h1 = live_cell h"
    by (rule set_flink_live [OF assms])
  obtain h2 where h2: "set_blink h1 q q = Some h2" "pv h2 = (pv h1)(q := q)" "nx h2 = nx h1" "live_cell h2 = live_cell h1"
    by (rule set_blink_live [of h1 "q" "q"]) (use h1 assms in auto)
  show ?thesis
  proof (rule that)
    show "init h q = Some h2" using h1 h2 by (simp add: init_def)
    show "dll h2 q []" using h1 h2 assms by (simp add: dll_def linked_def)
    show "live_cell h2 = live_cell h" using h1 h2 by simp
    show "untouched h h2 {q}" by (rule untouchedI) (use h1 h2 in auto)
  qed
qed

lemma is_empty_dll: "dll h q xs \<Longrightarrow> is_empty h q = Some (xs = [])"
  by (cases xs) (auto simp: dll_def is_empty_def deref_nx_pv linked_def)

lemma dll_ends:
  assumes "dll h q xs"
  shows "pv h q = last (q # xs)" "nx h q = hd (xs @ [q])"
proof -
  from assms have l: "linked (nx h) (pv h) (q # xs @ [q])" by (simp add: dll_def)
  then show "pv h q = last (q # xs)"
    using linked_append [of "nx h" "pv h" "q # xs" "[q]"] by simp
  show "nx h q = hd (xs @ [q])"
    using l linked_append [of "nx h" "pv h" "[q]" "xs @ [q]"] by simp
qed

lemma insert_tail_dll:
  assumes "dll h q xs" "live_cell h e" "e \<notin> set (q # xs)"
  obtains h' where "insert_tail h q e = Some h'" "dll h' q (xs @ [e])" "live_cell h' = live_cell h"
    "untouched h h' (insert e (set (q # xs)))"
proof -
  let ?p = "last (q # xs)"
  have p: "?p \<in> set (q # xs)" by (rule last_in_set) simp
  from assms have live: "live_cell h q" "live_cell h ?p" "distinct (q # xs)" "linked (nx h) (pv h) (q # xs @ [q])"
    using p by (auto simp: dll_def)
  from assms(3) p have ne: "e \<noteq> q" "e \<noteq> ?p" by auto
  obtain h1 where h1: "set_flink h e q = Some h1" "nx h1 = (nx h)(e := q)" "pv h1 = pv h" "live_cell h1 = live_cell h"
    by (rule set_flink_live [OF assms(2)])
  obtain h2 where h2: "set_blink h1 e ?p = Some h2" "pv h2 = (pv h1)(e := ?p)" "nx h2 = nx h1" "live_cell h2 = live_cell h1"
    by (rule set_blink_live [of h1 "e" "?p"]) (use h1 assms in auto)
  obtain h3 where h3: "set_flink h2 ?p e = Some h3" "nx h3 = (nx h2)(?p := e)" "pv h3 = pv h2" "live_cell h3 = live_cell h2"
    by (rule set_flink_live [of h2 "?p" "e"]) (use h1 h2 live in auto)
  obtain h4 where h4: "set_blink h3 q e = Some h4" "pv h4 = (pv h3)(q := e)" "nx h4 = nx h3" "live_cell h4 = live_cell h3"
    by (rule set_blink_live [of h3 "q" "e"]) (use h1 h2 h3 live in auto)
  have ls: "nx h4 = (nx h)(e := q, ?p := e)" "pv h4 = (pv h)(e := ?p, q := e)" "live_cell h4 = live_cell h"
    using h1 h2 h3 h4 by simp_all
  show ?thesis
  proof (rule that)
    show "insert_tail h q e = Some h4"
      using h1 h2 h3 h4 live(1) dll_ends(1) [OF assms(1)] by (simp add: insert_tail_def deref_nx_pv Let_def)
    have "linked (nx h4) (pv h4) (q # (xs @ e # []) @ [q])"
      by (rule linked_splice_in [where f = "nx h" and b = "pv h"]) (use live assms ne in \<open>auto simp: ls\<close>)
    then show "dll h4 q (xs @ [e])"
      using assms by (auto simp: dll_def ls(3))
    show "untouched h h4 (insert e (set (q # xs)))"
      by (rule untouchedI) (use p in \<open>auto simp: ls\<close>)
  qed (simp add: ls)
qed

lemma insert_head_dll:
  assumes "dll h q xs" "live_cell h e" "e \<notin> set (q # xs)"
  obtains h' where "insert_head h q e = Some h'" "dll h' q (e # xs)" "live_cell h' = live_cell h"
    "untouched h h' (insert e (set (q # xs)))"
proof -
  let ?n = "hd (xs @ [q])"
  have n: "?n \<in> set (q # xs)" by (cases xs) auto
  from assms have live: "live_cell h q" "live_cell h ?n" "distinct (q # xs)" "linked (nx h) (pv h) (q # xs @ [q])"
    using n by (auto simp: dll_def)
  from assms(3) n have ne: "e \<noteq> q" "e \<noteq> ?n" by auto
  obtain h1 where h1: "set_flink h e ?n = Some h1" "nx h1 = (nx h)(e := ?n)" "pv h1 = pv h" "live_cell h1 = live_cell h"
    by (rule set_flink_live [OF assms(2)])
  obtain h2 where h2: "set_blink h1 e q = Some h2" "pv h2 = (pv h1)(e := q)" "nx h2 = nx h1" "live_cell h2 = live_cell h1"
    by (rule set_blink_live [of h1 e q]) (use h1 assms in auto)
  obtain h3 where h3: "set_blink h2 ?n e = Some h3" "pv h3 = (pv h2)(?n := e)" "nx h3 = nx h2" "live_cell h3 = live_cell h2"
    by (rule set_blink_live [of h2 "?n" e]) (use h1 h2 live in auto)
  obtain h4 where h4: "set_flink h3 q e = Some h4" "nx h4 = (nx h3)(q := e)" "pv h4 = pv h3" "live_cell h4 = live_cell h3"
    by (rule set_flink_live [of h3 q e]) (use h1 h2 h3 live in auto)
  have ls: "nx h4 = (nx h)(e := ?n, q := e)" "pv h4 = (pv h)(e := q, ?n := e)" "live_cell h4 = live_cell h"
    using h1 h2 h3 h4 by simp_all
  show ?thesis
  proof (rule that)
    show "insert_head h q e = Some h4"
      using h1 h2 h3 h4 live(1) dll_ends(2) [OF assms(1)] by (simp add: insert_head_def deref_nx_pv Let_def)
    have "linked (nx h4) (pv h4) (q # ([] @ e # xs) @ [q])"
      by (rule linked_splice_in [where f = "nx h" and b = "pv h"]) (use live assms ne in \<open>auto simp: ls\<close>)
    then show "dll h4 q (e # xs)"
      using assms by (auto simp: dll_def ls(3))
    show "untouched h h4 (insert e (set (q # xs)))"
      by (rule untouchedI) (use n in \<open>auto simp: ls\<close>)
  qed (simp add: ls)
qed

lemma remove_entry_dll:
  assumes "dll h q (xs @ e # ys)"
  obtains h' where "remove_entry h e = Some h'" "dll h' q (xs @ ys)" "live_cell h' = live_cell h"
    "untouched h h' (set (q # xs @ e # ys))" "deref h' e = Some entry_new"
proof -
  let ?p = "last (q # xs)" and ?n = "hd (ys @ [q])"
  have mem: "?p \<in> set (q # xs)" "?n \<in> set (q # ys)" by (rule last_in_set) (simp, cases ys, auto)
  from assms have live: "live_cell h q" "live_cell h e" "live_cell h ?p" "live_cell h ?n"
      "distinct (q # xs @ e # ys)" "linked (nx h) (pv h) (q # (xs @ e # ys) @ [q])"
    using mem by (auto simp: dll_def)
  note nb = linked_neighbours [OF live(6)]
  from live(5) mem have ne: "e \<noteq> ?p" "e \<noteq> ?n" by auto
  obtain h1 where h1: "set_flink h ?p ?n = Some h1" "nx h1 = (nx h)(?p := ?n)" "pv h1 = pv h" "live_cell h1 = live_cell h"
    by (rule set_flink_live [OF live(3)])
  obtain h2 where h2: "set_blink h1 ?n ?p = Some h2" "pv h2 = (pv h1)(?n := ?p)" "nx h2 = nx h1" "live_cell h2 = live_cell h1"
    by (rule set_blink_live [of h1 "?n" "?p"]) (use h1 live in auto)
  obtain h3 where h3: "set_flink h2 e 0 = Some h3" "nx h3 = (nx h2)(e := 0)" "pv h3 = pv h2" "live_cell h3 = live_cell h2"
    by (rule set_flink_live [of h2 e 0]) (use h1 h2 live in auto)
  obtain h4 where h4: "set_blink h3 e 0 = Some h4" "pv h4 = (pv h3)(e := 0)" "nx h4 = nx h3" "live_cell h4 = live_cell h3"
    by (rule set_blink_live [of h3 e 0]) (use h1 h2 h3 live in auto)
  have ls: "nx h4 = (nx h)(?p := ?n, e := 0)" "pv h4 = (pv h)(?n := ?p, e := 0)" "live_cell h4 = live_cell h"
    using h1 h2 h3 h4 by simp_all
  show ?thesis
  proof (rule that)
    show "remove_entry h e = Some h4"
      using h1 h2 h3 h4 live(2) nb by (simp add: remove_entry_def deref_nx_pv Let_def)
    have "linked (nx h4) (pv h4) (q # (xs @ ys) @ [q])"
      by (rule linked_splice_out [OF live(6,5)]) (use ne in \<open>auto simp: ls\<close>)
    then show "dll h4 q (xs @ ys)"
      using assms by (auto simp: dll_def ls(3))
    show "untouched h h4 (set (q # xs @ e # ys))"
      by (rule untouchedI) (use mem in \<open>auto simp: ls\<close>)
    show "deref h4 e = Some entry_new"
      using live(2) by (simp add: deref_nx_pv ls entry_new_def)
  qed (simp add: ls)
qed

text \<open>The poison makes a second removal of the same entry fault.\<close>

lemma remove_entry_poisoned: "deref h e = Some entry_new \<Longrightarrow> remove_entry h e = None"
  by (simp add: remove_entry_def entry_new_def set_flink_def deref_def)

lemma remove_head_nil: "dll h q [] \<Longrightarrow> remove_head h q = Some (None, h)"
  by (simp add: remove_head_def is_empty_dll)

lemma remove_head_cons:
  assumes "dll h q (x # xs)"
  obtains h' where "remove_head h q = Some (Some x, h')" "dll h' q xs" "live_cell h' = live_cell h"
    "untouched h h' (set (q # x # xs))"
proof -
  from assms have "dll h q ([] @ x # xs)" by simp
  then obtain h' where "remove_entry h x = Some h'" "dll h' q ([] @ xs)" "live_cell h' = live_cell h"
    "untouched h h' (set (q # [] @ x # xs))" by (rule remove_entry_dll)
  moreover have "live_cell h q" using assms by (simp add: dll_def)
  ultimately show ?thesis
    using dll_ends(2) [OF assms] is_empty_dll [OF assms] that
    by (simp add: remove_head_def deref_nx_pv)
qed

lemma for_each_loop_suffix:
  assumes "linked (nx h) (pv h) (ys @ [q])" "q \<notin> set ys" "\<forall>p \<in> set ys. live_cell h p"
  shows "for_each_loop h q (hd (ys @ [q])) = Some ys"
  using assms
proof (induction ys)
  case Nil
  show ?case by (subst for_each_loop.simps) simp
next
  case (Cons y ys)
  then have "linked (nx h) (pv h) (ys @ [q])" "nx h y = hd (ys @ [q])"
    using linked_append [of "nx h" "pv h" "[y]" "ys @ [q]"] by simp_all
  with Cons show ?case
    by (subst for_each_loop.simps) (auto simp: deref_nx_pv)
qed

lemma for_each_dll:
  assumes "dll h q xs"
  shows "for_each h q = Some xs"
proof -
  have "linked (nx h) (pv h) (xs @ [q])" "live_cell h q"
    using assms linked_append [of "nx h" "pv h" "[q]" "xs @ [q]"] by (simp_all add: dll_def)
  with for_each_loop_suffix [of h xs q] assms dll_ends(2) [OF assms] show ?thesis
    by (simp add: for_each_def deref_nx_pv dll_def)
qed

section \<open>The queue contract\<close>

text \<open>
  What the executive relies on: a queue head and entries, of which at most one queue holds each. A
  producer appends at the tail (or pushes at the head), the consumer pops at the head, and anyone may unlink.
\<close>

fun push_all :: "('h \<Rightarrow> 'a \<Rightarrow> 'a \<Rightarrow> 'h option) \<Rightarrow> 'h \<Rightarrow> 'a \<Rightarrow> 'a list \<Rightarrow> 'h option" where
  "push_all push h q [] = Some h"
| "push_all push h q (e # es) = do { h' \<leftarrow> push h q e; push_all push h' q es }"

fun pop_many :: "('h \<Rightarrow> 'a \<Rightarrow> ('a option \<times> 'h) option) \<Rightarrow> 'h \<Rightarrow> 'a \<Rightarrow> nat \<Rightarrow> ('a list \<times> 'h) option" where
  "pop_many pop h q 0 = Some ([], h)"
| "pop_many pop h q (Suc n) = do {
     (r, h') \<leftarrow> pop h q;
     (case r of
        None \<Rightarrow> Some ([], h')
      | Some x \<Rightarrow> do { (xs, h'') \<leftarrow> pop_many pop h' q n; Some (x # xs, h'') })
   }"

locale linked_queue =
  fixes repr :: "'h \<Rightarrow> 'a \<Rightarrow> 'a list \<Rightarrow> bool"
    and cell :: "'h \<Rightarrow> 'a \<Rightarrow> bool"
    and push_tail push_head :: "'h \<Rightarrow> 'a \<Rightarrow> 'a \<Rightarrow> 'h option"
    and pop :: "'h \<Rightarrow> 'a \<Rightarrow> ('a option \<times> 'h) option"
  assumes push_tail_law: "repr h q xs \<Longrightarrow> cell h e \<Longrightarrow> e \<notin> set (q # xs) \<Longrightarrow>
      \<exists>h'. push_tail h q e = Some h' \<and> repr h' q (xs @ [e]) \<and> cell h' = cell h"
    and push_head_law: "repr h q xs \<Longrightarrow> cell h e \<Longrightarrow> e \<notin> set (q # xs) \<Longrightarrow>
      \<exists>h'. push_head h q e = Some h' \<and> repr h' q (e # xs) \<and> cell h' = cell h"
    and pop_nil_law: "repr h q [] \<Longrightarrow> pop h q = Some (None, h)"
    and pop_cons_law: "repr h q (x # xs) \<Longrightarrow> \<exists>h'. pop h q = Some (Some x, h') \<and> repr h' q xs \<and> cell h' = cell h"
begin

lemma push_all_tail:
  assumes "repr h q xs" "distinct es" "\<forall>e \<in> set es. cell h e" "set es \<inter> set (q # xs) = {}"
  shows "\<exists>h'. push_all push_tail h q es = Some h' \<and> repr h' q (xs @ es) \<and> cell h' = cell h"
  using assms
proof (induction es arbitrary: h xs)
  case (Cons e es)
  then obtain h' where h': "push_tail h q e = Some h'" "repr h' q (xs @ [e])" "cell h' = cell h"
    using push_tail_law [of h q xs e] by auto
  have "\<exists>h''. push_all push_tail h' q es = Some h'' \<and> repr h'' q ((xs @ [e]) @ es) \<and> cell h'' = cell h'"
    by (rule Cons.IH) (use Cons.prems h' in auto)
  with h' show ?case by auto
qed simp

lemma push_all_head:
  assumes "repr h q xs" "distinct es" "\<forall>e \<in> set es. cell h e" "set es \<inter> set (q # xs) = {}"
  shows "\<exists>h'. push_all push_head h q es = Some h' \<and> repr h' q (rev es @ xs) \<and> cell h' = cell h"
  using assms
proof (induction es arbitrary: h xs)
  case (Cons e es)
  then obtain h' where h': "push_head h q e = Some h'" "repr h' q (e # xs)" "cell h' = cell h"
    using push_head_law [of h q xs e] by auto
  have "\<exists>h''. push_all push_head h' q es = Some h'' \<and> repr h'' q (rev es @ (e # xs)) \<and> cell h'' = cell h'"
    by (rule Cons.IH) (use Cons.prems h' in auto)
  with h' show ?case by auto
qed simp

lemma pop_prefix:
  assumes "repr h q (xs @ ys)"
  shows "\<exists>h'. pop_many pop h q (length xs) = Some (xs, h') \<and> repr h' q ys \<and> cell h' = cell h"
  using assms
proof (induction xs arbitrary: h)
  case (Cons x xs)
  then obtain h' where "pop h q = Some (Some x, h')" "repr h' q (xs @ ys)" "cell h' = cell h"
    using pop_cons_law [of h q x "xs @ ys"] by auto
  with Cons.IH [of h'] show ?case by auto
qed simp

lemma fifo:
  assumes "repr h q xs" "distinct es" "\<forall>e \<in> set es. cell h e" "set es \<inter> set (q # xs) = {}"
  shows "\<exists>h1 h2. push_all push_tail h q es = Some h1 \<and>
     pop_many pop h1 q (length (xs @ es)) = Some (xs @ es, h2) \<and> pop h2 q = Some (None, h2)"
proof -
  from push_all_tail [OF assms] obtain h1 where h1: "push_all push_tail h q es = Some h1" "repr h1 q ((xs @ es) @ [])"
    by auto
  from pop_prefix [OF h1(2)] obtain h2 where "pop_many pop h1 q (length (xs @ es)) = Some (xs @ es, h2)" "repr h2 q []"
    by blast
  with h1 pop_nil_law show ?thesis by blast
qed

end

interpretation list_entries: linked_queue dll live_cell insert_tail insert_head remove_head
proof unfold_locales
  show "\<exists>h'. insert_tail h q e = Some h' \<and> dll h' q (xs @ [e]) \<and> live_cell h' = live_cell h"
    if "dll h q xs" "live_cell h e" "e \<notin> set (q # xs)" for h q xs e
    by (rule insert_tail_dll [OF that]) blast
  show "\<exists>h'. insert_head h q e = Some h' \<and> dll h' q (e # xs) \<and> live_cell h' = live_cell h"
    if "dll h q xs" "live_cell h e" "e \<notin> set (q # xs)" for h q xs e
    by (rule insert_head_dll [OF that]) blast
  show "remove_head h q = Some (None, h)" if "dll h q []" for h q
    using that by (rule remove_head_nil)
  show "\<exists>h'. remove_head h q = Some (Some x, h') \<and> dll h' q xs \<and> live_cell h' = live_cell h"
    if "dll h q (x # xs)" for h q x xs
    by (rule remove_head_cons [OF that]) blast
qed

section \<open>Properties\<close>

text \<open>
  On a well-formed list, \<open>InsertTailList\<close> and \<open>InsertHeadList\<close> of a live entry that is not on it never
  fault and implement appending and prepending; the walk then visits exactly the new sequence, and every
  list whose cells are disjoint from this one's is unchanged.
\<close>

theorem list_insert_correct:
  assumes "dll h q xs" "live_cell h e" "e \<notin> set (q # xs)"
  shows "\<exists>ht hh. insert_tail h q e = Some ht \<and> dll ht q (xs @ [e]) \<and> for_each ht q = Some (xs @ [e]) \<and>
     insert_head h q e = Some hh \<and> dll hh q (e # xs) \<and> for_each hh q = Some (e # xs) \<and>
     (\<forall>r zs. dll h r zs \<longrightarrow> set (r # zs) \<inter> insert e (set (q # xs)) = {} \<longrightarrow> dll ht r zs \<and> dll hh r zs)"
proof -
  obtain ht where ht: "insert_tail h q e = Some ht" "dll ht q (xs @ [e])" "untouched h ht (insert e (set (q # xs)))"
    by (rule insert_tail_dll [OF assms])
  obtain hh where hh: "insert_head h q e = Some hh" "dll hh q (e # xs)" "untouched h hh (insert e (set (q # xs)))"
    by (rule insert_head_dll [OF assms])
  have f: "for_each ht q = Some (xs @ [e])" "for_each hh q = Some (e # xs)"
    using ht(2) hh(2) by (auto intro: for_each_dll)
  show ?thesis
    by (rule exI [of _ ht], rule exI [of _ hh]) (use ht hh f in \<open>simp add: untouched_def\<close>)
qed

definition two_cells :: entry_heap where
  "two_cells = [1 \<mapsto> \<lparr>flink = 2, blink = 2\<rparr>, 2 \<mapsto> \<lparr>flink = 1, blink = 1\<rparr>, 3 \<mapsto> entry_new]"

lemma two_cells_dll: "dll two_cells 1 [2]" "live_cell two_cells 3"
  by (auto simp: two_cells_def dll_def live_cell_def linked_def nx_def pv_def)

theorem list_insert_witness:
  "dll two_cells 1 [2] \<and> live_cell two_cells 3 \<and> (\<exists>ht. insert_tail two_cells 1 3 = Some ht \<and> dll ht 1 [2, 3])"
  using list_insert_correct [OF two_cells_dll] two_cells_dll by auto



text \<open>
  Entries queued at the tail come out of \<open>RemoveHeadList\<close> in first-in first-out order, after the entries
  that were already there, and the list is then empty.
\<close>

theorem list_fifo:
  assumes "dll h q xs" "distinct es" "\<forall>e \<in> set es. live_cell h e" "set es \<inter> set (q # xs) = {}"
  shows "\<exists>h1 h2. push_all insert_tail h q es = Some h1 \<and>
     pop_many remove_head h1 q (length (xs @ es)) = Some (xs @ es, h2) \<and> remove_head h2 q = Some (None, h2)"
  by (rule list_entries.fifo [OF assms])

theorem list_fifo_witness:
  "dll two_cells 1 [2] \<and> (\<exists>h1 h2. push_all insert_tail two_cells 1 [3] = Some h1 \<and>
     pop_many remove_head h1 1 2 = Some ([2, 3], h2) \<and> remove_head h2 1 = Some (None, h2))"
  using list_fifo [of two_cells 1 "[2]" "[3]"] two_cells_dll by (simp add: numeral_2_eq_2)

end
