(* ===== verification/Rtl_String.thy ===== *)
theory Rtl_String
  imports Nk_Prelude
begin

text \<open>
  \<open>UNICODE_STRING\<close> (\<^verbatim>\<open>kernel/src/rtl/string.rs\<close>): the counted UTF-16 string. A null buffer is \<^term>\<open>None\<close>; a
  non-null one is the list of code units it points at. \<open>Length\<close> and \<open>MaximumLength\<close> are 16-bit byte counts,
  so the conversion from a unit count wraps, as the source's \<open>as u16\<close> does.
\<close>

record unicode_string =
  us_length :: u16
  maximum_length :: u16
  buffer :: "u16 list option"

definition empty_string :: unicode_string where
  "empty_string = \<lparr>us_length = 0, maximum_length = 0, buffer = None\<rparr>"

definition from_units :: "u16 list \<Rightarrow> unicode_string" where
  "from_units units = \<lparr>us_length = of_nat (length units * 2), maximum_length = of_nat (length units * 2), buffer = Some units\<rparr>"

definition char_len :: "unicode_string \<Rightarrow> nat" where
  "char_len s = unat (us_length s div 2)"

text \<open>The raw slice is only defined when the buffer covers it.\<close>

definition as_units :: "unicode_string \<Rightarrow> u16 list option" where
  "as_units s = (case buffer s of
      None \<Rightarrow> Some []
    | Some units \<Rightarrow> if us_length s = 0 then Some [] else do {
        require (char_len s \<le> length units);
        Some (take (char_len s) units)
      })"

definition ascii_lower16 :: "u16 \<Rightarrow> u16" where
  "ascii_lower16 x = (if 0x41 \<le> x \<and> x \<le> 0x5A then x + 32 else x)"

definition eq_ignore_ascii_case :: "unicode_string \<Rightarrow> unicode_string \<Rightarrow> bool option" where
  "eq_ignore_ascii_case s t = do {
     a \<leftarrow> as_units s;
     b \<leftarrow> as_units t;
     Some (length a = length b \<and> list_all (\<lambda>(x, y). ascii_lower16 x = ascii_lower16 y) (zip a b))
   }"

text \<open>
  \<open>char::decode_utf16\<close>, the standard library's decoder that \<open>Display\<close> uses: a scalar value, or an error for
  an unpaired surrogate, after which decoding resumes at the next unit.
\<close>

definition is_surrogate :: "u16 \<Rightarrow> bool" where
  "is_surrogate u \<longleftrightarrow> 0xD800 \<le> u \<and> u \<le> 0xDFFF"

fun decode_utf16 :: "u16 list \<Rightarrow> nat option list" where
  "decode_utf16 [] = []"
| "decode_utf16 [u] = [if is_surrogate u then None else Some (unat u)]"
| "decode_utf16 (u # v # us) =
     (if \<not> is_surrogate u then Some (unat u) # decode_utf16 (v # us)
      else if u \<ge> 0xDC00 then None # decode_utf16 (v # us)
      else if v < 0xDC00 \<or> v > 0xDFFF then None # decode_utf16 (v # us)
      else Some ((unat u - 0xD800) * 0x400 + (unat v - 0xDC00) + 0x10000) # decode_utf16 us)"

definition display :: "unicode_string \<Rightarrow> nat list option" where
  "display s = do {
     units \<leftarrow> as_units s;
     Some (map (\<lambda>c. case c of Some x \<Rightarrow> x | None \<Rightarrow> 0xFFFD) (decode_utf16 units))
   }"

text \<open>The \<open>w!\<close> literal macro: a non-ASCII byte fails the build, which is \<^term>\<open>None\<close> here.\<close>

definition w_literal :: "u8 list \<Rightarrow> u16 list option" where
  "w_literal bytes = (if \<forall>b \<in> set bytes. b < 0x80 then Some (map ucast bytes) else None)"

section \<open>Lengths\<close>

lemma char_len_from_units: "char_len (from_units us) = length us mod 32768"
proof -
  have "unat (of_nat (length us * 2) :: u16) = length us * 2 mod 65536"
    by (simp only: unat_of_nat) simp
  also have "\<dots> = (length us mod 32768) * 2"
    using mult_mod_left [of "length us" 32768 2] by simp
  finally show ?thesis
    by (simp add: char_len_def from_units_def unat_div)
qed

lemma as_units_from_units: "as_units (from_units us) = Some (take (length us mod 32768) us)"
proof -
  have b: "buffer (from_units us) = Some us" by (simp add: from_units_def)
  have "char_len (from_units us) = 0" if "us_length (from_units us) = 0"
    using that by (simp add: char_len_def)
  then have "us_length (from_units us) = 0 \<Longrightarrow> length us mod 32768 = 0"
    by (simp only: char_len_from_units)
  then show ?thesis
    by (auto simp: as_units_def b char_len_from_units)
qed

lemma list_all_zip_map: "length a = length b \<Longrightarrow> list_all (\<lambda>(x, y). f x = f y) (zip a b) \<longleftrightarrow> map f a = map f b"
  by (induction a b rule: list_induct2) auto

lemma eq_ignore_ascii_case_lower:
  "as_units s = Some a \<Longrightarrow> as_units t = Some b \<Longrightarrow>
     eq_ignore_ascii_case s t = Some (map ascii_lower16 a = map ascii_lower16 b)"
  using list_all_zip_map [of a b ascii_lower16] map_eq_imp_length_eq [of ascii_lower16 a ascii_lower16 b]
  by (auto simp: eq_ignore_ascii_case_def)

section \<open>Decoding\<close>

lemma decode_utf16_no_surrogate: "\<forall>u \<in> set us. \<not> is_surrogate u \<Longrightarrow> decode_utf16 us = map (Some \<circ> unat) us"
  by (induction us rule: decode_utf16.induct) auto

lemma ascii_not_surrogate: "b < 0x80 \<Longrightarrow> \<not> is_surrogate (ucast b)" for b :: u8
  by (simp add: is_surrogate_def word_le_nat_alt word_less_nat_alt unat_ucast_up)


lemma w_literal_display:
  assumes "w_literal bs = Some us" "length bs < 32768"
  shows "display (from_units us) = Some (map unat bs)"
proof -
  from assms(1) have us: "us = map ucast bs" and ascii: "\<forall>b \<in> set bs. b < 0x80"
    by (auto simp: w_literal_def split: if_splits)
  then have "\<forall>u \<in> set us. \<not> is_surrogate u" by (auto simp: ascii_not_surrogate)
  then have "decode_utf16 us = map (Some \<circ> unat) us" by (rule decode_utf16_no_surrogate)
  moreover have "unat (ucast b :: u16) = unat b" for b :: u8
    by (simp add: unat_ucast_up)
  ultimately show ?thesis
    using assms(2) us by (simp add: display_def as_units_from_units)
qed

text \<open>A well-formed surrogate pair is displayed as its supplementary character, not as the replacement character.\<close>

lemma display_pair:
  assumes "0xD800 \<le> u" "u < 0xDC00" "0xDC00 \<le> v" "v \<le> 0xDFFF"
  shows "display (from_units [u, v]) = Some [(unat u - 0xD800) * 0x400 + (unat v - 0xDC00) + 0x10000]"
proof -
  have "is_surrogate u" "\<not> 0xDC00 \<le> u" "\<not> (v < 0xDC00 \<or> v > 0xDFFF)"
    using assms by (auto simp: is_surrogate_def)
  then show ?thesis by (simp add: display_def as_units_from_units)
qed

section \<open>Properties\<close>

text \<open>
  \<open>RtlEqualUnicodeString\<close> on wrapped literals never reads outside a buffer and is equality up to ASCII
  case of the unit sequences the strings keep: all of the units, up to the wrap of the 16-bit byte count at
  32768 units.
\<close>

theorem eq_ignore_ascii_case_correct:
  "eq_ignore_ascii_case (from_units a) (from_units b) =
     Some (map ascii_lower16 (take (length a mod 32768) a) = map ascii_lower16 (take (length b mod 32768) b))"
  by (rule eq_ignore_ascii_case_lower [OF as_units_from_units as_units_from_units])

text \<open>
  A \<open>w!\<close> literal is accepted exactly when all of its bytes are ASCII, and a string wrapped around it
  displays as the bytes it was written with.
\<close>

lemma w_literal_roundtrip:
  assumes "length bs < 32768"
  shows "case w_literal bs of
      None \<Rightarrow> \<exists>b \<in> set bs. 0x80 \<le> b
    | Some us \<Rightarrow> (\<forall>b \<in> set bs. b < 0x80) \<and> display (from_units us) = Some (map unat bs)"
  using w_literal_display [of bs "map ucast bs"] assms by (auto simp: w_literal_def not_less)

end
