(* ===== verification/Alloc_Contract.thy ===== *)
theory Alloc_Contract
  imports Nk_Prelude
begin

text \<open>
  The contract of an allocator of runs of numbered units: page frames, pagefile slots, bits of a
  bitmap. A provider gives the set of units in use, its capacity, an invariant and two operations;
  the laws say what an allocation and a release do to the set. The client lemmas are proved once
  here, over arbitrary histories of allocations and releases; each provider's theory interprets the
  locale on its own operations.
\<close>

datatype alloc_event = Alloc nat nat | Release nat nat

text \<open>
  A history of successful calls, and the runs that are live after it: allocated and not yet
  released. A release is legal when the run is live. The live runs of a legal history never
  overlap, and together they are what the history added to the used set.
\<close>

inductive alloc_run :: "(nat \<Rightarrow> 's \<Rightarrow> (nat option \<times> 's) option) \<Rightarrow> (nat \<Rightarrow> nat \<Rightarrow> 's \<Rightarrow> 's option) \<Rightarrow>
    's \<Rightarrow> (nat \<times> nat) list \<Rightarrow> alloc_event list \<Rightarrow> 's \<Rightarrow> (nat \<times> nat) list \<Rightarrow> bool" for alloc release where
  run_nil: "alloc_run alloc release s live [] s live"
| run_alloc: "alloc n s = Some (Some i, s') \<Longrightarrow> alloc_run alloc release s' ((i, n) # live) es t live' \<Longrightarrow>
     alloc_run alloc release s live (Alloc n i # es) t live'"
| run_release: "(i, n) \<in> set live \<Longrightarrow> release i n s = Some s' \<Longrightarrow> alloc_run alloc release s' (remove1 (i, n) live) es t live' \<Longrightarrow>
     alloc_run alloc release s live (Release i n # es) t live'"

definition runs_union :: "(nat \<times> nat) list \<Rightarrow> nat set" where
  "runs_union rs = (\<Union>(i, n) \<in> set rs. {i..<i + n})"

fun disjoint_runs :: "(nat \<times> nat) list \<Rightarrow> bool" where
  "disjoint_runs [] = True"
| "disjoint_runs ((i, n) # rs) = (0 < n \<and> {i..<i + n} \<inter> runs_union rs = {} \<and> disjoint_runs rs)"

lemma runs_union_simps [simp]:
  "runs_union [] = {}" "runs_union ((i, n) # rs) = {i..<i + n} \<union> runs_union rs"
  by (auto simp: runs_union_def)

definition units_of :: "nat \<times> nat \<Rightarrow> nat set" where
  "units_of r = {fst r..<fst r + snd r}"

lemma units_of_subset: "r \<in> set rs \<Longrightarrow> units_of r \<subseteq> runs_union rs"
  by (force simp: units_of_def runs_union_def)

lemma disjoint_runs_pairwise:
  "disjoint_runs rs \<Longrightarrow> a < b \<Longrightarrow> b < length rs \<Longrightarrow> units_of (rs ! a) \<inter> units_of (rs ! b) = {}"
proof (induction rs arbitrary: a b)
  case Nil
  then show ?case by simp
next
  case (Cons q rs)
  obtain b' where b': "b = Suc b'" using Cons.prems(2) by (cases b) auto
  show ?case
  proof (cases a)
    case 0
    have "units_of (rs ! b') \<subseteq> runs_union rs"
      using Cons.prems(3) b' by (intro units_of_subset nth_mem) simp
    moreover have "units_of q \<inter> runs_union rs = {}"
      using Cons.prems(1) by (cases q) (simp add: units_of_def)
    ultimately show ?thesis using 0 b' by auto
  next
    case (Suc a')
    have "disjoint_runs rs" using Cons.prems(1) by (cases q) simp
    then show ?thesis
      using Cons.IH [of a' b'] Cons.prems(2,3) by (simp add: Suc b')
  qed
qed

lemma disjoint_runs_remove1:
  "disjoint_runs rs \<Longrightarrow> r \<in> set rs \<Longrightarrow>
     disjoint_runs (remove1 r rs) \<and> 0 < snd r \<and>
     runs_union (remove1 r rs) = runs_union rs - {fst r..<fst r + snd r} \<and> {fst r..<fst r + snd r} \<subseteq> runs_union rs"
proof (induction rs)
  case Nil
  then show ?case by simp
next
  case (Cons q rs)
  obtain i n where q: "q = (i, n)" by (cases q)
  have qn: "0 < n" "{i..<i + n} \<inter> runs_union rs = {}" "disjoint_runs rs"
    using Cons.prems(1) by (simp_all add: q)
  show ?case
  proof (cases "r = q")
    case True
    with qn show ?thesis by (auto simp: q)
  next
    case False
    with Cons.prems(2) have "r \<in> set rs" by simp
    from Cons.IH [OF qn(3) this] qn False show ?thesis
      by (auto simp: q)
  qed
qed

lemma card_runs_union: "disjoint_runs rs \<Longrightarrow> card (runs_union rs) = sum_list (map snd rs)"
proof (induction rs)
  case (Cons r rs)
  moreover have "finite (runs_union rs)" by (auto simp: runs_union_def)
  ultimately show ?case by (cases r) (simp add: card_Un_disjoint)
qed simp

locale run_allocator =
  fixes invar :: "'s \<Rightarrow> bool"
    and used :: "'s \<Rightarrow> nat set"
    and cap :: "'s \<Rightarrow> nat"
    and alloc :: "nat \<Rightarrow> 's \<Rightarrow> (nat option \<times> 's) option"
    and release :: "nat \<Rightarrow> nat \<Rightarrow> 's \<Rightarrow> 's option"
  assumes used_bounded: "invar s \<Longrightarrow> used s \<subseteq> {..<cap s}"
    and alloc_total: "invar s \<Longrightarrow> alloc n s \<noteq> None"
    and alloc_found: "invar s \<Longrightarrow> alloc n s = Some (Some i, s') \<Longrightarrow>
       0 < n \<and> i + n \<le> cap s \<and> {i..<i + n} \<inter> used s = {} \<and>
       used s' = used s \<union> {i..<i + n} \<and> cap s' = cap s \<and> invar s'"
    and alloc_full: "invar s \<Longrightarrow> alloc n s = Some (None, s') \<Longrightarrow>
       used s' = used s \<and> cap s' = cap s \<and> invar s' \<and>
       (n = 0 \<or> (\<forall>i. i + n \<le> cap s \<longrightarrow> {i..<i + n} \<inter> used s \<noteq> {}))"
    and release_used: "invar s \<Longrightarrow> {i..<i + n} \<subseteq> used s \<Longrightarrow> 0 < n \<Longrightarrow>
       \<exists>s'. release i n s = Some s' \<and> used s' = used s - {i..<i + n} \<and> cap s' = cap s \<and> invar s'"
begin

text \<open>A run that is released can be allocated again: an allocation of that size then succeeds.\<close>

lemma release_then_alloc:
  assumes "invar s" "{i..<i + n} \<subseteq> used s" "0 < n"
  obtains s' where "release i n s = Some s'" "\<exists>j s''. alloc n s' = Some (Some j, s'')"
proof -
  from release_used [OF assms] obtain s' where
    s': "release i n s = Some s'" "used s' = used s - {i..<i + n}" "cap s' = cap s" "invar s'"
    by blast
  from assms(2,3) have "i + n - 1 \<in> used s" by auto
  with used_bounded [OF assms(1)] assms(3) have "i + n \<le> cap s'"
    using s'(3) by (auto simp: subset_iff)
  moreover have "{i..<i + n} \<inter> used s' = {}" using s'(2) by auto
  ultimately obtain j s'' where "alloc n s' = Some (Some j, s'')"
    using alloc_full [OF s'(4), of n] alloc_total [OF s'(4), of n] assms(3)
    by (metis bot_nat_0.not_eq_extremum not_None_eq surj_pair)
  with s'(1) that show ?thesis by blast
qed

text \<open>Two allocations in a row never overlap.\<close>

lemma alloc_alloc_disjoint:
  assumes "invar s" "alloc n s = Some (Some i, s')" "alloc m s' = Some (Some j, s'')"
  shows "{i..<i + n} \<inter> {j..<j + m} = {}"
  using alloc_found [OF assms(1,2)] alloc_found [of s' m j s''] assms(3) by blast

lemma run_live_disjoint:
  assumes "alloc_run alloc release s live es t live'" "invar s" "disjoint_runs live" "runs_union live \<subseteq> used s"
  shows "invar t \<and> cap t = cap s \<and> disjoint_runs live' \<and> runs_union live' \<subseteq> used t \<and>
    used t - runs_union live' = used s - runs_union live"
  using assms
proof (induction rule: alloc_run.induct)
  case (run_nil s live)
  then show ?case by simp
next
  case (run_alloc n s i s' live es t live')
  from alloc_found [OF run_alloc.prems(1) run_alloc.hyps(1)] have
    f: "0 < n" "{i..<i + n} \<inter> used s = {}" "used s' = used s \<union> {i..<i + n}" "cap s' = cap s" "invar s'"
    by blast+
  have "disjoint_runs ((i, n) # live)" "runs_union ((i, n) # live) \<subseteq> used s'"
    using f run_alloc.prems by auto
  from run_alloc.IH [OF f(5) this] f run_alloc.prems show ?case by auto
next
  case (run_release i n live s s' es t live')
  from disjoint_runs_remove1 [OF run_release.prems(2) run_release.hyps(1)] have
    d: "disjoint_runs (remove1 (i, n) live)" "0 < n"
      "runs_union (remove1 (i, n) live) = runs_union live - {i..<i + n}" "{i..<i + n} \<subseteq> runs_union live"
    by simp_all
  from run_release.prems d have "{i..<i + n} \<subseteq> used s" by blast
  from release_used [OF run_release.prems(1) this d(2)] run_release.hyps(2) have
    f: "used s' = used s - {i..<i + n}" "cap s' = cap s" "invar s'" by auto
  have "runs_union (remove1 (i, n) live) \<subseteq> used s'"
    using d f run_release.prems by blast
  from run_release.IH [OF f(3) d(1) this] f d run_release.prems show ?case by auto
qed

end

section \<open>Allocators of single units\<close>

text \<open>
  The same contract for an allocator that hands out one unit at a time. An allocator of runs is one, with
  runs of length 1.
\<close>

locale unit_allocator =
  fixes uinvar :: "'s \<Rightarrow> bool"
    and uused :: "'s \<Rightarrow> nat set"
    and ucap :: "'s \<Rightarrow> nat"
    and take_unit :: "'s \<Rightarrow> (nat option \<times> 's) option"
    and give_unit :: "nat \<Rightarrow> 's \<Rightarrow> 's option"
  assumes uused_bounded: "uinvar s \<Longrightarrow> uused s \<subseteq> {..<ucap s}"
    and take_total: "uinvar s \<Longrightarrow> take_unit s \<noteq> None"
    and take_found: "uinvar s \<Longrightarrow> take_unit s = Some (Some i, s') \<Longrightarrow>
       i < ucap s \<and> i \<notin> uused s \<and> uused s' = insert i (uused s) \<and> ucap s' = ucap s \<and> uinvar s'"
    and take_full: "uinvar s \<Longrightarrow> take_unit s = Some (None, s') \<Longrightarrow>
       uused s' = uused s \<and> ucap s' = ucap s \<and> uinvar s' \<and> uused s = {..<ucap s}"
    and give_used: "uinvar s \<Longrightarrow> i \<in> uused s \<Longrightarrow>
       \<exists>s'. give_unit i s = Some s' \<and> uused s' = uused s - {i} \<and> ucap s' = ucap s \<and> uinvar s'"
begin

text \<open>Taking a unit and giving it back restores the used set, and a unit given back can be taken.\<close>

lemma take_give_used:
  assumes "uinvar s" "take_unit s = Some (Some i, s')"
  shows "\<exists>s''. give_unit i s' = Some s'' \<and> uused s'' = uused s \<and> uinvar s''"
proof -
  from take_found [OF assms] have t: "i \<notin> uused s" "uused s' = insert i (uused s)" "uinvar s'" by auto
  then show ?thesis using give_used [of s' i] by fastforce
qed

lemma give_then_take:
  assumes "uinvar s" "i \<in> uused s"
  shows "\<exists>s' j s''. give_unit i s = Some s' \<and> take_unit s' = Some (Some j, s'') \<and> j \<notin> uused s - {i}"
proof -
  from give_used [OF assms] obtain s' where s': "give_unit i s = Some s'" "uused s' = uused s - {i}" "ucap s' = ucap s" "uinvar s'"
    by blast
  have "i < ucap s'" using uused_bounded [OF assms(1)] assms(2) s'(3) by auto
  then have "uused s' \<noteq> {..<ucap s'}" using s'(2) by blast
  with take_total [OF s'(4)] take_full [OF s'(4)] obtain j s'' where "take_unit s' = Some (Some j, s'')"
    by (metis not_None_eq surj_pair)
  with take_found [OF s'(4) this] s' show ?thesis by auto
qed

end

sublocale run_allocator \<subseteq> units: unit_allocator invar used cap "alloc 1" "\<lambda>i. release i 1"
proof unfold_locales
  show "used s \<subseteq> {..<cap s}" if "invar s" for s
    using that by (rule used_bounded)
  show "alloc 1 s \<noteq> None" if "invar s" for s
    using that by (rule alloc_total)
  show "i < cap s \<and> i \<notin> used s \<and> used s' = insert i (used s) \<and> cap s' = cap s \<and> invar s'"
    if "invar s" "alloc 1 s = Some (Some i, s')" for s i s'
    using alloc_found [OF that] by auto
  show "used s' = used s \<and> cap s' = cap s \<and> invar s' \<and> used s = {..<cap s}"
    if "invar s" "alloc 1 s = Some (None, s')" for s s'
  proof -
    from alloc_full [OF that] have f: "used s' = used s" "cap s' = cap s" "invar s'"
      "\<forall>i. i + 1 \<le> cap s \<longrightarrow> {i..<i + 1} \<inter> used s \<noteq> {}" by auto
    have "{i..<i + 1} = {i}" for i :: nat by auto
    with f(4) have "{..<cap s} \<subseteq> used s" by auto
    with used_bounded [OF that(1)] f show ?thesis by auto
  qed
  show "\<exists>s'. release i 1 s = Some s' \<and> used s' = used s - {i} \<and> cap s' = cap s \<and> invar s'"
    if "invar s" "i \<in> used s" for s i
    using release_used [OF that(1), of i 1] that(2) by auto
qed

end
