(* ===== verification/Rtl_Bitmap.thy ===== *)
theory Rtl_Bitmap
  imports Nk_Prelude Alloc_Contract
begin

text \<open>
  \<open>RTL_BITMAP\<close> (\<^verbatim>\<open>kernel/src/rtl/bitmap.rs\<close>): a run-finding bitmap over 64-bit words. The words and the
  number of valid bits are kept as the source keeps them; \<open>bit_at\<close> reads bit \<open>i\<close> of word \<open>i / 64\<close>
  and \<open>bits_used\<close> is the set of in-use indices, the abstraction the allocators built on the
  bitmap reason about. Bit positions are natural numbers: a slice of words is far too short for
  \<open>usize\<close> index arithmetic to overflow.
\<close>

section \<open>The bitmap and its operations\<close>

record rtl_bitmap =
  words :: "u64 list"
  size_in_bits :: nat

definition bitmap_new :: "u64 list \<Rightarrow> nat \<Rightarrow> rtl_bitmap option" where
  "bitmap_new ws nbits = do {
     require (nbits \<le> length ws * 64);
     let tail_bits = nbits mod 64;
     let full_words = nbits div 64;
     ws1 \<leftarrow> (if tail_bits \<noteq> 0 then do {
               w \<leftarrow> idx ws full_words;
               upd ws full_words (w OR push_bit tail_bits (NOT 0)) }
             else Some ws);
     let first = full_words + (if tail_bits \<noteq> 0 then 1 else 0);
     require (first \<le> length ws1);
     Some \<lparr>words = take first ws1 @ map (\<lambda>_. NOT 0) (drop first ws1), size_in_bits = nbits\<rparr>
   }"

fun set_bits_loop :: "u64 list \<Rightarrow> nat \<Rightarrow> nat \<Rightarrow> u64 list option" where
  "set_bits_loop ws i 0 = Some ws"
| "set_bits_loop ws i (Suc n) = do {
     w \<leftarrow> idx ws (i div 64);
     ws' \<leftarrow> upd ws (i div 64) (w OR push_bit (i mod 64) 1);
     set_bits_loop ws' (Suc i) n
   }"

definition set_bits :: "rtl_bitmap \<Rightarrow> nat \<Rightarrow> nat \<Rightarrow> rtl_bitmap option" where
  "set_bits bm start count = do {
     require (start + count \<le> size_in_bits bm);
     ws \<leftarrow> set_bits_loop (words bm) start count;
     Some (bm\<lparr>words := ws\<rparr>)
   }"

fun clear_bits_loop :: "u64 list \<Rightarrow> nat \<Rightarrow> nat \<Rightarrow> u64 list option" where
  "clear_bits_loop ws i 0 = Some ws"
| "clear_bits_loop ws i (Suc n) = do {
     w \<leftarrow> idx ws (i div 64);
     ws' \<leftarrow> upd ws (i div 64) (w AND NOT (push_bit (i mod 64) 1));
     clear_bits_loop ws' (Suc i) n
   }"

definition clear_bits :: "rtl_bitmap \<Rightarrow> nat \<Rightarrow> nat \<Rightarrow> rtl_bitmap option" where
  "clear_bits bm start count = do {
     require (start + count \<le> size_in_bits bm);
     ws \<leftarrow> clear_bits_loop (words bm) start count;
     Some (bm\<lparr>words := ws\<rparr>)
   }"

definition test_bit :: "rtl_bitmap \<Rightarrow> nat \<Rightarrow> bool option" where
  "test_bit bm i = do {
     require (i < size_in_bits bm);
     w \<leftarrow> idx (words bm) (i div 64);
     Some (w AND push_bit (i mod 64) 1 \<noteq> 0)
   }"

definition count_ones :: "u64 \<Rightarrow> nat" where
  "count_ones w = length (filter (bit w) [0..<64])"

definition count_set :: "rtl_bitmap \<Rightarrow> nat option" where
  "count_set bm = do {
     padding \<leftarrow> sub_nat (length (words bm) * 64) (size_in_bits bm);
     sub_nat (sum_list (map count_ones (words bm))) padding
   }"

text \<open>
  The scan of \<open>find_run_from\<close>: the loop state is the position, the start of the current run of clear
  bits and its length. The outer option is a panic, the inner one the function's own result.
\<close>

function find_run_loop :: "rtl_bitmap \<Rightarrow> nat \<Rightarrow> nat \<Rightarrow> nat \<Rightarrow> nat \<Rightarrow> nat \<Rightarrow> nat option option" where
  "find_run_loop bm to count i run_start run_len =
     (if i < to then do {
        skip \<leftarrow> (if run_len = 0 \<and> i mod 64 = 0 \<and> i + 64 \<le> to
                 then map_option (\<lambda>w. w = NOT 0) (idx (words bm) (i div 64))
                 else Some False);
        if skip then find_run_loop bm to count (i + 64) (i + 64) run_len
        else do {
          used \<leftarrow> test_bit bm i;
          if used then find_run_loop bm to count (i + 1) (i + 1) 0
          else if run_len + 1 = count then Some (Some run_start)
          else find_run_loop bm to count (i + 1) run_start (run_len + 1)
        }
      } else Some None)"
  by pat_completeness auto
termination
  by (relation "measure (\<lambda>(bm, to, count, i, rs, rl). to - i)") auto

declare find_run_loop.simps [simp del]

definition find_run_from :: "rtl_bitmap \<Rightarrow> nat \<Rightarrow> nat \<Rightarrow> nat \<Rightarrow> nat option option" where
  "find_run_from bm from to count = find_run_loop bm (min to (size_in_bits bm)) count from from 0"

definition find_clear_bits_and_set :: "rtl_bitmap \<Rightarrow> nat \<Rightarrow> nat \<Rightarrow> (nat option \<times> rtl_bitmap) option" where
  "find_clear_bits_and_set bm count hint0 =
     (if count = 0 \<or> count > size_in_bits bm then Some (None, bm)
      else do {
        let hint = (if hint0 \<ge> size_in_bits bm then 0 else hint0);
        r1 \<leftarrow> find_run_from bm hint (size_in_bits bm) count;
        r \<leftarrow> (case r1 of
               Some s \<Rightarrow> Some (Some s)
             | None \<Rightarrow> find_run_from bm 0 (hint + min count (size_in_bits bm)) count);
        (case r of
           None \<Rightarrow> Some (None, bm)
         | Some start \<Rightarrow> do {
             bm' \<leftarrow> set_bits bm start count;
             Some (Some start, bm')
           })
      })"

section \<open>Abstraction and invariant\<close>

definition bit_at :: "u64 list \<Rightarrow> nat \<Rightarrow> bool" where
  "bit_at ws i \<longleftrightarrow> bit (ws ! (i div 64)) (i mod 64)"

definition bits_used :: "rtl_bitmap \<Rightarrow> nat set" where
  "bits_used bm = {i. i < size_in_bits bm \<and> bit_at (words bm) i}"

definition bitmap_wf :: "rtl_bitmap \<Rightarrow> bool" where
  "bitmap_wf bm \<longleftrightarrow> size_in_bits bm \<le> length (words bm) * 64 \<and>
     (\<forall>i. size_in_bits bm \<le> i \<longrightarrow> i < length (words bm) * 64 \<longrightarrow> bit_at (words bm) i)"

definition clear_run :: "rtl_bitmap \<Rightarrow> nat \<Rightarrow> nat \<Rightarrow> bool" where
  "clear_run bm s n \<longleftrightarrow> (\<forall>j. s \<le> j \<longrightarrow> j < s + n \<longrightarrow> \<not> bit_at (words bm) j)"

lemma index_word_less: "i < n * 64 \<Longrightarrow> i div 64 < n" for i n :: nat
  by (simp add: div_less_iff_less_mult)

lemma div_mod_eq_dest: "i mod 64 = j mod 64 \<Longrightarrow> i div 64 = j div 64 \<Longrightarrow> i = j" for i j :: nat
  by (metis mult_div_mod_eq)

lemma bit_at_set:
  assumes "i < length ws * 64"
  shows "bit_at (ws[i div 64 := (ws ! (i div 64)) OR push_bit (i mod 64) 1]) j \<longleftrightarrow> bit_at ws j \<or> j = i"
proof (cases "j div 64 = i div 64")
  case True
  with assms show ?thesis
    by (auto simp: bit_at_def index_word_less bit_set_one dest: div_mod_eq_dest)
next
  case False
  then show ?thesis by (auto simp: bit_at_def)
qed

lemma bit_at_clear:
  assumes "i < length ws * 64"
  shows "bit_at (ws[i div 64 := (ws ! (i div 64)) AND NOT (push_bit (i mod 64) 1)]) j \<longleftrightarrow> bit_at ws j \<and> j \<noteq> i"
proof (cases "j div 64 = i div 64")
  case True
  with assms show ?thesis
    by (auto simp: bit_at_def index_word_less bit_clear_one dest: div_mod_eq_dest)
next
  case False
  then show ?thesis by (auto simp: bit_at_def)
qed

lemma set_bits_loop_spec:
  "i + n \<le> length ws * 64 \<Longrightarrow>
     \<exists>ws'. set_bits_loop ws i n = Some ws' \<and> length ws' = length ws \<and>
       (\<forall>j. bit_at ws' j \<longleftrightarrow> bit_at ws j \<or> (i \<le> j \<and> j < i + n))"
proof (induction n arbitrary: ws i)
  case 0
  then show ?case by auto
next
  case (Suc n)
  let ?ws = "ws[i div 64 := (ws ! (i div 64)) OR push_bit (i mod 64) 1]"
  from Suc.prems have i: "i < length ws * 64" by simp
  from Suc.prems have "Suc i + n \<le> length ?ws * 64" by simp
  from Suc.IH [OF this] obtain ws' where
    ws': "set_bits_loop ?ws (Suc i) n = Some ws'" "length ws' = length ws"
      "\<And>j. bit_at ws' j \<longleftrightarrow> bit_at ?ws j \<or> (Suc i \<le> j \<and> j < Suc i + n)"
    by auto
  from i have "set_bits_loop ws i (Suc n) = Some ws'"
    using ws'(1) by (simp add: index_word_less)
  moreover have "bit_at ws' j \<longleftrightarrow> bit_at ws j \<or> (i \<le> j \<and> j < i + Suc n)" for j
    unfolding ws'(3) bit_at_set [OF i] by auto
  ultimately show ?case using ws'(2) by blast
qed

lemma clear_bits_loop_spec:
  "i + n \<le> length ws * 64 \<Longrightarrow>
     \<exists>ws'. clear_bits_loop ws i n = Some ws' \<and> length ws' = length ws \<and>
       (\<forall>j. bit_at ws' j \<longleftrightarrow> bit_at ws j \<and> \<not> (i \<le> j \<and> j < i + n))"
proof (induction n arbitrary: ws i)
  case 0
  then show ?case by auto
next
  case (Suc n)
  let ?ws = "ws[i div 64 := (ws ! (i div 64)) AND NOT (push_bit (i mod 64) 1)]"
  from Suc.prems have i: "i < length ws * 64" by simp
  from Suc.prems have "Suc i + n \<le> length ?ws * 64" by simp
  from Suc.IH [OF this] obtain ws' where
    ws': "clear_bits_loop ?ws (Suc i) n = Some ws'" "length ws' = length ws"
      "\<And>j. bit_at ws' j \<longleftrightarrow> bit_at ?ws j \<and> \<not> (Suc i \<le> j \<and> j < Suc i + n)"
    by auto
  from i have "clear_bits_loop ws i (Suc n) = Some ws'"
    using ws'(1) by (simp add: index_word_less)
  moreover have "bit_at ws' j \<longleftrightarrow> bit_at ws j \<and> \<not> (i \<le> j \<and> j < i + Suc n)" for j
    unfolding ws'(3) bit_at_clear [OF i] by auto
  ultimately show ?case using ws'(2) by blast
qed


lemma bitmap_wf_length: "bitmap_wf bm \<Longrightarrow> size_in_bits bm \<le> length (words bm) * 64"
  by (simp add: bitmap_wf_def)

lemma bits_used_bounded: "bits_used bm \<subseteq> {..<size_in_bits bm}"
  by (auto simp: bits_used_def)

lemma finite_bits_used [simp]: "finite (bits_used bm)"
  using bits_used_bounded finite_subset by blast

lemma test_bit_wf:
  assumes "bitmap_wf bm" "i < size_in_bits bm"
  shows "test_bit bm i = Some (bit_at (words bm) i)"
proof -
  from assms have "i div 64 < length (words bm)"
    by (auto intro!: index_word_less dest: bitmap_wf_length)
  with assms(2) show ?thesis
    by (auto simp: test_bit_def bit_at_def and_one_bit_eq_0 dest: bit_imp_le_length)
qed

lemma set_bits_spec:
  assumes wf: "bitmap_wf bm" and rng: "start + count \<le> size_in_bits bm"
  obtains bm' where "set_bits bm start count = Some bm'" "bitmap_wf bm'"
    "size_in_bits bm' = size_in_bits bm" "bits_used bm' = bits_used bm \<union> {start..<start + count}"
proof -
  from wf rng have "start + count \<le> length (words bm) * 64"
    by (auto dest: bitmap_wf_length)
  from set_bits_loop_spec [OF this] obtain ws where
    ws: "set_bits_loop (words bm) start count = Some ws" "length ws = length (words bm)"
      "\<And>j. bit_at ws j \<longleftrightarrow> bit_at (words bm) j \<or> (start \<le> j \<and> j < start + count)"
    by auto
  show ?thesis
  proof (rule that)
    show "set_bits bm start count = Some (bm\<lparr>words := ws\<rparr>)"
      using rng ws(1) by (simp add: set_bits_def)
    show "bitmap_wf (bm\<lparr>words := ws\<rparr>)"
      using wf by (simp add: bitmap_wf_def ws(2,3))
    show "bits_used (bm\<lparr>words := ws\<rparr>) = bits_used bm \<union> {start..<start + count}"
      using rng by (auto simp: bits_used_def ws(3))
  qed simp
qed

lemma clear_bits_spec:
  assumes wf: "bitmap_wf bm" and rng: "start + count \<le> size_in_bits bm"
  obtains bm' where "clear_bits bm start count = Some bm'" "bitmap_wf bm'"
    "size_in_bits bm' = size_in_bits bm" "bits_used bm' = bits_used bm - {start..<start + count}"
proof -
  from wf rng have "start + count \<le> length (words bm) * 64"
    by (auto dest: bitmap_wf_length)
  from clear_bits_loop_spec [OF this] obtain ws where
    ws: "clear_bits_loop (words bm) start count = Some ws" "length ws = length (words bm)"
      "\<And>j. bit_at ws j \<longleftrightarrow> bit_at (words bm) j \<and> \<not> (start \<le> j \<and> j < start + count)"
    by auto
  show ?thesis
  proof (rule that)
    show "clear_bits bm start count = Some (bm\<lparr>words := ws\<rparr>)"
      using rng ws(1) by (simp add: clear_bits_def)
    show "bitmap_wf (bm\<lparr>words := ws\<rparr>)"
      using wf rng by (auto simp: bitmap_wf_def ws(2,3))
    show "bits_used (bm\<lparr>words := ws\<rparr>) = bits_used bm - {start..<start + count}"
      using rng by (auto simp: bits_used_def ws(3))
  qed simp
qed

section \<open>The scan for a run of clear bits\<close>

lemma full_word_set:
  assumes "ws ! (i div 64) = NOT 0" "i mod 64 = 0" "i \<le> j" "j < i + 64"
  shows "bit_at ws j"
proof -
  from assms(2) obtain q where "i = 64 * q" by fastforce
  with assms(3,4) have "j div 64 = i div 64" by (auto intro!: div_nat_eqI)
  with assms(1) show ?thesis by (simp add: bit_at_def)
qed

lemma no_run_over_used:
  "bit_at (words bm) i \<Longrightarrow> s \<le> i \<Longrightarrow> i < s + n \<Longrightarrow> \<not> clear_run bm s n"
  by (auto simp: clear_run_def)

text \<open>
  The loop returns the first run that starts at or after the current run, if there is one. The
  bits from \<open>run_start\<close> up to the position are clear and the run is still too short.
\<close>

definition first_run :: "rtl_bitmap \<Rightarrow> nat \<Rightarrow> nat \<Rightarrow> nat \<Rightarrow> nat option \<Rightarrow> bool" where
  "first_run bm from to n r \<longleftrightarrow>
     (case r of
        Some s \<Rightarrow> from \<le> s \<and> s + n \<le> to \<and> clear_run bm s n \<and> (\<forall>s'. from \<le> s' \<longrightarrow> s' < s \<longrightarrow> \<not> clear_run bm s' n)
      | None \<Rightarrow> \<forall>s. from \<le> s \<longrightarrow> s + n \<le> to \<longrightarrow> \<not> clear_run bm s n)"

lemma first_run_later:
  assumes "first_run bm from' to n r" "from \<le> from'"
    and "\<And>s. from \<le> s \<Longrightarrow> s < from' \<Longrightarrow> \<not> clear_run bm s n"
  shows "first_run bm from to n r"
  using assms by (auto simp: first_run_def split: option.splits) (meson not_le)+

lemma find_run_loop_spec:
  assumes "bitmap_wf bm" "to \<le> size_in_bits bm" "rs + rl = i" "rl < n"
    and "\<And>j. rs \<le> j \<Longrightarrow> j < i \<Longrightarrow> \<not> bit_at (words bm) j"
  shows "\<exists>r. find_run_loop bm to n i rs rl = Some r \<and> first_run bm rs to n r"
  using assms
proof (induction bm to n i rs rl rule: find_run_loop.induct)
  case (1 bm to n i rs rl)
  note unf = find_run_loop.simps [of bm to n i rs rl]
  show ?case
  proof (cases "i < to")
    case False
    with "1.prems" have "first_run bm rs to n None"
      by (auto simp: first_run_def)
    with False show ?thesis by (simp add: unf)
  next
    case True
    then have inb: "i div 64 < length (words bm)" "i < size_in_bits bm"
      using "1.prems"(1,2) by (auto intro!: index_word_less dest: bitmap_wf_length)
    have tb: "test_bit bm i = Some (bit_at (words bm) i)"
      using "1.prems"(1) inb(2) by (rule test_bit_wf)
    define skip where "skip \<longleftrightarrow> rl = 0 \<and> i mod 64 = 0 \<and> i + 64 \<le> to \<and> words bm ! (i div 64) = NOT 0"
    consider (skip) skip | (used) "\<not> skip" "bit_at (words bm) i"
      | (found) "\<not> skip" "\<not> bit_at (words bm) i" "rl + 1 = n"
      | (more) "\<not> skip" "\<not> bit_at (words bm) i" "rl + 1 \<noteq> n"
      by blast
    then show ?thesis
    proof cases
      case skip
      then have step: "find_run_loop bm to n i rs rl = find_run_loop bm to n (i + 64) (i + 64) rl"
        using True inb by (subst unf) (simp add: skip_def)
      have "\<exists>r. find_run_loop bm to n (i + 64) (i + 64) rl = Some r \<and> first_run bm (i + 64) to n r"
        using skip True inb "1.prems" by (intro "1.IH"(1)) (auto simp: skip_def)
      then obtain r where r: "find_run_loop bm to n i rs rl = Some r" "first_run bm (i + 64) to n r"
        unfolding step by blast
      have "first_run bm rs to n r"
      proof (rule first_run_later [OF r(2)])
        show "rs \<le> i + 64" using "1.prems"(3) by simp
        fix s assume s: "rs \<le> s" "s < i + 64"
        with skip "1.prems"(3) have "bit_at (words bm) s"
          by (intro full_word_set [of _ i]) (auto simp: skip_def)
        with "1.prems"(4) show "\<not> clear_run bm s n"
          by (intro no_run_over_used) auto
      qed
      with r(1) show ?thesis by blast
    next
      case used
      then have step: "find_run_loop bm to n i rs rl = find_run_loop bm to n (i + 1) (i + 1) 0"
        using True inb tb by (subst unf) (auto simp: skip_def)
      have "\<exists>r. find_run_loop bm to n (i + 1) (i + 1) 0 = Some r \<and> first_run bm (i + 1) to n r"
        using used True inb tb "1.prems" by (intro "1.IH"(2)) (auto simp: skip_def)
      then obtain r where r: "find_run_loop bm to n i rs rl = Some r" "first_run bm (i + 1) to n r"
        unfolding step by blast
      have "first_run bm rs to n r"
      proof (rule first_run_later [OF r(2)])
        show "rs \<le> i + 1" using "1.prems"(3) by simp
        fix s assume "rs \<le> s" "s < i + 1"
        with used(2) "1.prems"(3,4) show "\<not> clear_run bm s n"
          by (intro no_run_over_used [of _ i]) auto
      qed
      with r(1) show ?thesis by blast
    next
      case found
      then have step: "find_run_loop bm to n i rs rl = Some (Some rs)"
        using True inb tb by (subst unf) (auto simp: skip_def)
      have "clear_run bm rs n"
        using found(2,3) "1.prems"(3,5) by (auto simp: clear_run_def less_Suc_eq)
      then have "first_run bm rs to n (Some rs)"
        using found(3) True "1.prems"(3) by (auto simp: first_run_def)
      with step show ?thesis by simp
    next
      case more
      then have step: "find_run_loop bm to n i rs rl = find_run_loop bm to n (i + 1) rs (rl + 1)"
        using True inb tb by (subst unf) (auto simp: skip_def)
      show ?thesis
        unfolding step
        using more True inb tb "1.prems" by (intro "1.IH"(3)) (auto simp: skip_def less_Suc_eq)
    qed
  qed
qed

lemma find_run_from_spec:
  assumes "bitmap_wf bm" "0 < n"
  shows "\<exists>r. find_run_from bm from to n = Some r \<and> first_run bm from (min to (size_in_bits bm)) n r"
  unfolding find_run_from_def
  by (rule find_run_loop_spec) (use assms in auto)


lemma clear_run_used:
  "s + n \<le> size_in_bits bm \<Longrightarrow> clear_run bm s n \<longleftrightarrow> {s..<s + n} \<inter> bits_used bm = {}"
  by (auto simp: clear_run_def bits_used_def)

lemma find_clear_bits_and_set_spec:
  assumes wf: "bitmap_wf bm"
  obtains r bm' where "find_clear_bits_and_set bm n hint = Some (r, bm')"
    and "case r of
           None \<Rightarrow> bm' = bm \<and> (n = 0 \<or> (\<forall>s. s + n \<le> size_in_bits bm \<longrightarrow> \<not> clear_run bm s n))
         | Some s \<Rightarrow> 0 < n \<and> s + n \<le> size_in_bits bm \<and> clear_run bm s n \<and> set_bits bm s n = Some bm' \<and>
             (hint < size_in_bits bm \<longrightarrow>
                (if s < hint then \<forall>s'. hint \<le> s' \<longrightarrow> s' + n \<le> size_in_bits bm \<longrightarrow> \<not> clear_run bm s' n
                 else \<forall>s'. hint \<le> s' \<longrightarrow> s' < s \<longrightarrow> \<not> clear_run bm s' n))"
proof (cases "n = 0 \<or> n > size_in_bits bm")
  case True
  then show ?thesis
    by (intro that [of None bm]) (auto simp: find_clear_bits_and_set_def)
next
  case False
  let ?hint = "if hint \<ge> size_in_bits bm then 0 else hint"
  let ?S = "size_in_bits bm"
  from False have n: "0 < n" "n \<le> ?S" by auto
  obtain r1 where r1: "find_run_from bm ?hint ?S n = Some r1" "first_run bm ?hint ?S n r1"
    using find_run_from_spec [OF wf n(1), of ?hint ?S] by auto
  obtain r2 where r2: "find_run_from bm 0 (?hint + min n ?S) n = Some r2" "first_run bm 0 (min (?hint + n) ?S) n r2"
    using find_run_from_spec [OF wf n(1), of 0 "?hint + min n ?S"] n(2) by (auto simp: min_absorb1)
  show ?thesis
  proof (cases r1)
    case (Some s)
    with r1(2) have s: "?hint \<le> s" "s + n \<le> ?S" "clear_run bm s n" "\<forall>s'. ?hint \<le> s' \<longrightarrow> s' < s \<longrightarrow> \<not> clear_run bm s' n"
      by (simp_all add: first_run_def)
    obtain bm' where "set_bits bm s n = Some bm'" using set_bits_spec [OF wf s(2)] by blast
    with Some s n r1(1) show ?thesis
      by (intro that [of "Some s" bm']) (auto simp: find_clear_bits_and_set_def split: if_splits)
  next
    case None
    have later: "\<not> clear_run bm s' n" if "?hint \<le> s'" "s' + n \<le> ?S" for s'
      using r1(2) None that by (simp add: first_run_def)
    show ?thesis
    proof (cases r2)
      case None2: (Some s)
      with r2(2) have s: "s + n \<le> min (?hint + n) ?S" "clear_run bm s n"
        by (auto simp: first_run_def)
      then have s1: "s + n \<le> ?S" by simp
      obtain bm' where "set_bits bm s n = Some bm'" using set_bits_spec [OF wf s1] by blast
      moreover have "s < ?hint" using later [of s] s s1 by (meson not_le)
      ultimately show ?thesis
        using None None2 s s1 n r1(1) r2(1) later
        by (intro that [of "Some s" bm']) (auto simp: find_clear_bits_and_set_def split: if_splits)
    next
      case None2: None
      have "\<not> clear_run bm s n" if "s + n \<le> ?S" for s
      proof (cases "?hint \<le> s")
        case True
        with later that show ?thesis by blast
      next
        case False
        with r2(2) None2 that show ?thesis by (simp add: first_run_def)
      qed
      with None None2 n r1(1) r2(1) show ?thesis
        by (intro that [of None bm]) (auto simp: find_clear_bits_and_set_def Let_def split: if_splits)
    qed
  qed
qed

lemma find_clear_total:
  assumes "bitmap_wf bm"
  shows "find_clear_bits_and_set bm n hint \<noteq> None"
proof -
  obtain r bm' where "find_clear_bits_and_set bm n hint = Some (r, bm')"
    by (rule find_clear_bits_and_set_spec [OF assms])
  then show ?thesis by simp
qed

lemma find_clear_Some:
  assumes wf: "bitmap_wf bm" and f: "find_clear_bits_and_set bm n hint = Some (Some i, bm')"
  shows "0 < n \<and> i + n \<le> size_in_bits bm \<and> {i..<i + n} \<inter> bits_used bm = {} \<and>
    bits_used bm' = bits_used bm \<union> {i..<i + n} \<and> size_in_bits bm' = size_in_bits bm \<and> bitmap_wf bm'"
proof -
  have i: "0 < n" "i + n \<le> size_in_bits bm" "clear_run bm i n" "set_bits bm i n = Some bm'"
    by (rule find_clear_bits_and_set_spec [OF wf, of n hint]; use f in auto)+
  obtain bm'' where "set_bits bm i n = Some bm''" "bitmap_wf bm''"
    "size_in_bits bm'' = size_in_bits bm" "bits_used bm'' = bits_used bm \<union> {i..<i + n}"
    by (rule set_bits_spec [OF wf i(2)])
  with i show ?thesis by (simp add: clear_run_used)
qed

lemma find_clear_None:
  assumes wf: "bitmap_wf bm" and f: "find_clear_bits_and_set bm n hint = Some (None, bm')"
  shows "bm' = bm \<and> (n = 0 \<or> (\<forall>i. i + n \<le> size_in_bits bm \<longrightarrow> {i..<i + n} \<inter> bits_used bm \<noteq> {}))"
proof -
  have "bm' = bm \<and> (n = 0 \<or> (\<forall>i. i + n \<le> size_in_bits bm \<longrightarrow> \<not> clear_run bm i n))"
    by (rule find_clear_bits_and_set_spec [OF wf, of n hint]) (use f in auto)
  then show ?thesis by (auto simp: clear_run_used)
qed

lemma clear_bits_used:
  assumes wf: "bitmap_wf bm" and sub: "{i..<i + n} \<subseteq> bits_used bm" and n: "0 < n"
  shows "\<exists>bm'. clear_bits bm i n = Some bm' \<and> bits_used bm' = bits_used bm - {i..<i + n} \<and>
    size_in_bits bm' = size_in_bits bm \<and> bitmap_wf bm'"
proof -
  from sub n have "i + n - 1 \<in> bits_used bm" by auto
  with n have "i + n \<le> size_in_bits bm" by (auto simp: bits_used_def)
  then obtain bm' where "clear_bits bm i n = Some bm'" "bitmap_wf bm'"
    "size_in_bits bm' = size_in_bits bm" "bits_used bm' = bits_used bm - {i..<i + n}"
    by (rule clear_bits_spec [OF wf])
  then show ?thesis by blast
qed

section \<open>Initialisation and population count\<close>

lemma word_ceil_aux: "b < 64 \<Longrightarrow> a + (if b \<noteq> 0 then 1 else 0) \<le> q \<longleftrightarrow> 64 * a + b \<le> q * 64" for a b q :: nat
  by (cases "b = 0") auto

lemma word_ceil_le_iff: "n div 64 + (if n mod 64 \<noteq> 0 then 1 else 0) \<le> q \<longleftrightarrow> n \<le> q * 64" for n q :: nat
  using word_ceil_aux [of "n mod 64" "n div 64" q] by (simp only: mult_div_mod_eq mod_less_divisor zero_less_numeral)

lemma bitmap_new_spec:
  assumes "n \<le> length ws * 64"
  obtains bm where "bitmap_new ws n = Some bm" "bitmap_wf bm" "size_in_bits bm = n"
    "bits_used bm = {i. i < n \<and> bit_at ws i}"
proof -
  let ?first = "n div 64 + (if n mod 64 \<noteq> 0 then 1 else 0)"
  let ?ws = "if n mod 64 \<noteq> 0 then ws[n div 64 := ws ! (n div 64) OR push_bit (n mod 64) (NOT 0)] else ws"
  let ?out = "take ?first ?ws @ map (\<lambda>_. NOT 0) (drop ?first ?ws)"
  have fl: "?first \<le> length ws"
    using assms by (simp only: word_ceil_le_iff)
  then have fw: "n mod 64 \<noteq> 0 \<Longrightarrow> n div 64 < length ws"
    by simp
  have len: "length ?out = length ws" using fl by auto
  have new: "bitmap_new ws n = Some \<lparr>words = ?out, size_in_bits = n\<rparr>"
    using assms fl fw by (cases "n mod 64 = 0") (auto simp: bitmap_new_def Let_def)
  have three: "a < b \<or> a = b \<and> c \<noteq> 0 \<or> b + (if c \<noteq> 0 then 1 else 0) \<le> a" for a b c :: nat
    by auto
  have bits: "bit_at ?out i \<longleftrightarrow> bit_at ws i \<or> n \<le> i" if "i < length ws * 64" for i
  proof -
    from that have iw: "i div 64 < length ws" by (rule index_word_less)
    consider (low) "i div 64 < n div 64" | (tail) "i div 64 = n div 64" "n mod 64 \<noteq> 0" | (high) "?first \<le> i div 64"
      using three [of "i div 64" "n div 64" "n mod 64"] by blast
    then show ?thesis
    proof cases
      case low
      then have "i < n" by (metis div_le_mono leD leI)
      with low iw fl show ?thesis by (auto simp: bit_at_def nth_append)
    next
      case tail
      have "n \<le> i \<longleftrightarrow> n mod 64 \<le> i mod 64"
        using tail(1) by (metis add_le_cancel_left mult_div_mod_eq)
      with tail iw fw show ?thesis
        by (auto simp: bit_at_def nth_append bit_or_iff bit_not_iff bit_mask_iff)
    next
      case high
      then have "n \<le> i div 64 * 64" by (simp only: word_ceil_le_iff)
      then have "n \<le> i" by (metis div_times_less_eq_dividend le_trans)
      with high iw show ?thesis by (auto simp: bit_at_def nth_append)
    qed
  qed
  show ?thesis
  proof (rule that [OF new])
    show "bitmap_wf \<lparr>words = ?out, size_in_bits = n\<rparr>"
      using assms bits len unfolding bitmap_wf_def by simp
    show "bits_used \<lparr>words = ?out, size_in_bits = n\<rparr> = {i. i < n \<and> bit_at ws i}"
      using assms bits unfolding bits_used_def by auto
  qed simp
qed


lemma count_ones_card: "count_ones w = card {i. i < 64 \<and> bit w i}"
proof -
  have "count_ones w = card (set (filter (bit w) [0..<64]))"
    unfolding count_ones_def by (intro distinct_card [symmetric] distinct_filter distinct_upt)
  also have "set (filter (bit w) [0..<64]) = {i. i < 64 \<and> bit w i}" by auto
  finally show ?thesis .
qed

lemma bit_at_Cons: "bit_at (w # ws) i \<longleftrightarrow> (if i < 64 then bit w i else bit_at ws (i - 64))"
proof (cases "i < 64")
  case False
  then obtain k where "i = 64 + k" using le_Suc_ex not_le by blast
  moreover have "(64 + k) div 64 = Suc (k div 64)"
    by (simp add: div_add_self1)
  ultimately show ?thesis by (simp add: bit_at_def)
qed (simp add: bit_at_def)

lemma sum_count_ones: "sum_list (map count_ones ws) = card {i. i < length ws * 64 \<and> bit_at ws i}"
proof (induction ws)
  case Nil
  then show ?case by simp
next
  case (Cons w ws)
  let ?A = "{i. i < 64 \<and> bit w i}" and ?B = "{i. i < length ws * 64 \<and> bit_at ws i}"
  have "{i. i < length (w # ws) * 64 \<and> bit_at (w # ws) i} = ?A \<union> (\<lambda>k. 64 + k) ` ?B"
  proof (rule set_eqI)
    fix i
    show "i \<in> {i. i < length (w # ws) * 64 \<and> bit_at (w # ws) i} \<longleftrightarrow> i \<in> ?A \<union> (\<lambda>k. 64 + k) ` ?B"
    proof (cases "i < 64")
      case False
      then obtain k where "i = 64 + k" using le_Suc_ex not_le by blast
      then show ?thesis by (auto simp: bit_at_Cons)
    qed (auto simp: bit_at_Cons)
  qed
  moreover have "?A \<inter> (\<lambda>k. 64 + k) ` ?B = {}" by auto
  moreover have "card ((\<lambda>k. 64 + k) ` ?B) = card ?B"
    by (rule card_image) simp
  ultimately show ?case
    using Cons.IH by (simp add: count_ones_card [of w] card_Un_disjoint)
qed

lemma count_set_spec:
  assumes "bitmap_wf bm"
  shows "count_set bm = Some (card (bits_used bm))"
proof -
  let ?L = "length (words bm) * 64"
  let ?all = "{i. i < ?L \<and> bit_at (words bm) i}"
  from assms have le: "size_in_bits bm \<le> ?L" by (rule bitmap_wf_length)
  have "?all = bits_used bm \<union> {size_in_bits bm..<?L}"
    using assms le by (auto simp: bitmap_wf_def bits_used_def)
  moreover have "bits_used bm \<inter> {size_in_bits bm..<?L} = {}"
    by (auto simp: bits_used_def)
  ultimately have "card ?all = card (bits_used bm) + (?L - size_in_bits bm)"
    by (simp add: card_Un_disjoint)
  with le show ?thesis by (simp add: count_set_def sum_count_ones)
qed

section \<open>The bitmap as a run allocator\<close>

text \<open>
  The bitmap with its hint fixed to 0 provides the allocation contract: \<open>RtlFindClearBitsAndSet\<close> as
  the allocation and \<open>RtlClearBits\<close> as the release.
\<close>

interpretation bitmap: run_allocator bitmap_wf bits_used size_in_bits
  "\<lambda>n bm. find_clear_bits_and_set bm n 0" "\<lambda>i n bm. clear_bits bm i n"
proof unfold_locales
  show "bits_used s \<subseteq> {..<size_in_bits s}" for s by (rule bits_used_bounded)
  show "find_clear_bits_and_set s n 0 \<noteq> None" if "bitmap_wf s" for s n
    using that by (rule find_clear_total)
qed (auto dest: find_clear_Some find_clear_None clear_bits_used)

section \<open>Properties\<close>

text \<open>
  C2. \<open>RtlFindClearBitsAndSet\<close> never panics on a well-formed bitmap and is exact: it answers \<open>None\<close>, leaving
  the bitmap alone, only for a request of no bits or when no run of that many clear bits exists anywhere;
  otherwise it marks a run that was clear and nothing else, and the run is the lowest one at or above the
  hint, or one below the hint when there is none above it.
\<close>

theorem find_clear_bits_and_set_correct:
  assumes "bitmap_wf bm"
  shows "\<exists>r bm'. find_clear_bits_and_set bm n hint = Some (r, bm') \<and> bitmap_wf bm' \<and> size_in_bits bm' = size_in_bits bm \<and>
    (case r of
       None \<Rightarrow> bm' = bm \<and> (n = 0 \<or> (\<forall>s. s + n \<le> size_in_bits bm \<longrightarrow> {s..<s + n} \<inter> bits_used bm \<noteq> {}))
     | Some s \<Rightarrow> 0 < n \<and> s + n \<le> size_in_bits bm \<and> {s..<s + n} \<inter> bits_used bm = {} \<and>
         bits_used bm' = bits_used bm \<union> {s..<s + n} \<and>
         (hint < size_in_bits bm \<longrightarrow>
            (if s < hint then \<forall>s'. hint \<le> s' \<longrightarrow> s' + n \<le> size_in_bits bm \<longrightarrow> {s'..<s' + n} \<inter> bits_used bm \<noteq> {}
             else \<forall>s'. hint \<le> s' \<longrightarrow> s' < s \<longrightarrow> {s'..<s' + n} \<inter> bits_used bm \<noteq> {})))"
proof (rule find_clear_bits_and_set_spec [OF assms, of n hint])
  fix r bm'
  assume f: "find_clear_bits_and_set bm n hint = Some (r, bm')"
    and post: "case r of
           None \<Rightarrow> bm' = bm \<and> (n = 0 \<or> (\<forall>s. s + n \<le> size_in_bits bm \<longrightarrow> \<not> clear_run bm s n))
         | Some s \<Rightarrow> 0 < n \<and> s + n \<le> size_in_bits bm \<and> clear_run bm s n \<and> set_bits bm s n = Some bm' \<and>
             (hint < size_in_bits bm \<longrightarrow>
                (if s < hint then \<forall>s'. hint \<le> s' \<longrightarrow> s' + n \<le> size_in_bits bm \<longrightarrow> \<not> clear_run bm s' n
                 else \<forall>s'. hint \<le> s' \<longrightarrow> s' < s \<longrightarrow> \<not> clear_run bm s' n))"
  show ?thesis
  proof (cases r)
    case None
    with f find_clear_None [OF assms, of n hint bm'] assms show ?thesis by auto
  next
    case (Some s)
    with f have "find_clear_bits_and_set bm n hint = Some (Some s, bm')" by simp
    from find_clear_Some [OF assms this] post f Some show ?thesis
      by (intro exI [of _ r] exI [of _ bm']) (auto simp: clear_run_used)
  qed
qed

theorem find_clear_bits_and_set_witness:
  "bitmap_wf \<lparr>words = [0x0F, - 1], size_in_bits = 64\<rparr> \<and>
   (\<exists>r bm'. find_clear_bits_and_set \<lparr>words = [0x0F, - 1], size_in_bits = 64\<rparr> 3 62 = Some (r, bm') \<and> r = Some 4 \<and> bitmap_wf bm')"
proof -
  let ?bm = "\<lparr>words = [0x0F, - 1], size_in_bits = 64\<rparr>"
  have wf: "bitmap_wf ?bm"
    by (auto simp: bitmap_wf_def bit_at_def nth_Cons' div_eq_0_iff intro!: bit_minus_one_word)
  have "map_option fst (find_clear_bits_and_set ?bm 3 62) = Some (Some 4)" by code_simp
  with find_clear_bits_and_set_correct [OF wf, of 3 62] wf show ?thesis by auto
qed

text \<open>
  \<open>RtlInitializeBitMap\<close> asserts that the storage holds the bits and otherwise builds a well-formed map:
  the caller's valid bits are kept, every bit of the storage beyond the valid ones is permanently set, and
  \<open>RtlNumberOfSetBits\<close> counts exactly the valid bits in use.
\<close>

theorem bitmap_new_correct:
  "(length ws * 64 < n \<longrightarrow> bitmap_new ws n = None) \<and>
   (n \<le> length ws * 64 \<longrightarrow>
      (\<exists>bm. bitmap_new ws n = Some bm \<and> bitmap_wf bm \<and> size_in_bits bm = n \<and>
         bits_used bm = {i. i < n \<and> bit_at ws i} \<and> count_set bm = Some (card {i. i < n \<and> bit_at ws i})))"
proof (intro conjI impI)
  assume "n \<le> length ws * 64"
  then obtain bm where "bitmap_new ws n = Some bm" "bitmap_wf bm" "size_in_bits bm = n"
    "bits_used bm = {i. i < n \<and> bit_at ws i}" by (rule bitmap_new_spec)
  with count_set_spec [of bm] show "\<exists>bm. bitmap_new ws n = Some bm \<and> bitmap_wf bm \<and> size_in_bits bm = n \<and>
         bits_used bm = {i. i < n \<and> bit_at ws i} \<and> count_set bm = Some (card {i. i < n \<and> bit_at ws i})"
    by auto
qed (simp add: bitmap_new_def)

theorem bitmap_new_witness:
  "(10::nat) \<le> length [6 :: u64] * 64 \<and> (\<exists>bm. bitmap_new [6] 10 = Some bm \<and> bitmap_wf bm \<and> count_set bm = Some 2)"
proof -
  have "Option.bind (bitmap_new [6] 10) count_set = Some 2" by code_simp
  with bitmap_new_correct [of "[6]" 10] show ?thesis by auto
qed

text \<open>
  Over any history of allocations and releases that starts on a well-formed bitmap and releases only
  live runs, the runs live at the end are pairwise disjoint and inside the map, every bit in use belongs to
  a live run or was in use at the start, and the population count has grown by exactly the live bits.
\<close>

theorem bitmap_history_disjoint:
  assumes "bitmap_wf s"
    and "alloc_run (\<lambda>n bm. find_clear_bits_and_set bm n 0) (\<lambda>i n bm. clear_bits bm i n) s [] es t live"
  shows "bitmap_wf t \<and> disjoint_runs live \<and> runs_union live \<subseteq> bits_used t \<and>
    bits_used t - runs_union live = bits_used s \<and>
    (\<exists>c. count_set s = Some c \<and> count_set t = Some (c + sum_list (map snd live)))"
proof -
  from bitmap.run_live_disjoint [OF assms(2,1)] have r: "bitmap_wf t" "disjoint_runs live"
    "runs_union live \<subseteq> bits_used t" "bits_used t - runs_union live = bits_used s" by auto
  have "card (bits_used t) = card (bits_used s) + card (runs_union live)"
    using r(3,4) by (metis card_Diff_subset card_mono finite_bits_used finite_subset le_add_diff_inverse2)
  with r count_set_spec assms(1) show ?thesis by (simp add: card_runs_union)
qed

theorem bitmap_history_witness:
  "\<exists>t. alloc_run (\<lambda>n bm. find_clear_bits_and_set bm n 0) (\<lambda>i n bm. clear_bits bm i n)
     \<lparr>words = [0], size_in_bits = 64\<rparr> [] [Alloc 3 0, Alloc 2 3, Release 0 3] t [(3, 2)] \<and>
     bitmap_wf t \<and> disjoint_runs [(3, 2)]"
proof -
  let ?bm = "\<lparr>words = [0], size_in_bits = 64\<rparr>"
  let ?t = "\<lparr>words = [24], size_in_bits = 64\<rparr>"
  have wf: "bitmap_wf ?bm" by (auto simp: bitmap_wf_def)
  have "find_clear_bits_and_set ?bm 3 0 = Some (Some 0, \<lparr>words = [7], size_in_bits = 64\<rparr>)"
    "find_clear_bits_and_set \<lparr>words = [7], size_in_bits = 64\<rparr> 2 0 = Some (Some 3, \<lparr>words = [31], size_in_bits = 64\<rparr>)"
    "clear_bits \<lparr>words = [31], size_in_bits = 64\<rparr> 0 3 = Some ?t" by code_simp+
  then have "alloc_run (\<lambda>n bm. find_clear_bits_and_set bm n 0) (\<lambda>i n bm. clear_bits bm i n)
     ?bm [] [Alloc 3 0, Alloc 2 3, Release 0 3] ?t [(3, 2)]"
    by (auto intro!: run_alloc run_release run_nil)
  with bitmap_history_disjoint [OF wf this] show ?thesis by blast
qed

end
