(* ===== verification/Mm_Phys.thy ===== *)
theory Mm_Phys
  imports Rtl_Bitmap
begin

text \<open>
  The physical page allocator (\<^verbatim>\<open>kernel/src/mm/phys.rs\<close>). The PFN database is the bitmap, the allocation
  cursor and the two counters; physical memory is kept beside it as qwords by frame and index, because
  an allocation zero-fills its frames. Physical addresses and frame numbers are natural numbers: physical
  memory is far below the 64-bit limit. The boot memory map is the loader's; its regions are page-aligned.

  \<open>mm_allocate_contiguous_pages\<close>, which first tries this allocator and then asks the pager for frames, is in
  the theory of the pager.
\<close>

section \<open>The database and its operations\<close>

definition PAGE_SIZE :: nat where "PAGE_SIZE = 4096"

record pfn_database =
  pfn_bitmap :: "rtl_bitmap option"
  pfn_hint :: nat
  total_pages :: nat
  free_pages :: nat

type_synonym ram = "nat \<Rightarrow> nat \<Rightarrow> u64"

record phys_state =
  phys_offset :: nat
  pfn_db :: pfn_database
  ram :: ram

definition pfn_of :: "nat \<Rightarrow> nat" where "pfn_of pa = pa div PAGE_SIZE"

definition from_pfn :: "nat \<Rightarrow> nat" where "from_pfn pfn = pfn * PAGE_SIZE"

text \<open>
  The window through which all of physical memory is addressed. Its base is set once, by \<open>phys_init\<close>;
  the accesses themselves are to \<open>ram\<close>, so only the assertion on the base matters.
\<close>

definition phys_to_virt :: "'a phys_state_scheme \<Rightarrow> nat \<Rightarrow> nat option" where
  "phys_to_virt st pa = do { require (phys_offset st \<noteq> 0); Some (phys_offset st + pa) }"

text \<open>Zero-filling whole frames.\<close>

definition zero_frames :: "ram \<Rightarrow> nat \<Rightarrow> nat \<Rightarrow> ram" where
  "zero_frames m first n = (\<lambda>p. if first \<le> p \<and> p < first + n then (\<lambda>_. 0) else m p)"

text \<open>The boot memory map: the loader's region kinds other than usable memory are all alike here.\<close>

datatype region_kind = Usable | OtherKind

record mem_region =
  r_start :: nat
  r_end :: nat
  r_kind :: region_kind

definition TRAMPOLINE_PAGE :: nat where "TRAMPOLINE_PAGE = 0x8000"

fun scan_regions :: "mem_region list \<Rightarrow> nat \<Rightarrow> (nat \<times> nat) option \<Rightarrow> (nat \<times> (nat \<times> nat) option) option" where
  "scan_regions [] max_pfn largest = Some (max_pfn, largest)"
| "scan_regions (r # rs) max_pfn largest =
     (if r_kind r = Usable then do {
        let max_pfn = max max_pfn (pfn_of (r_end r));
        old \<leftarrow> (case largest of None \<Rightarrow> Some 0 | Some (s, e) \<Rightarrow> sub_nat e s);
        new \<leftarrow> sub_nat (r_end r) (r_start r);
        scan_regions rs max_pfn (if old < new then Some (r_start r, r_end r) else largest)
      } else scan_regions rs max_pfn largest)"

fun clear_regions :: "mem_region list \<Rightarrow> rtl_bitmap \<Rightarrow> nat \<Rightarrow> (rtl_bitmap \<times> nat) option" where
  "clear_regions [] bm tot = Some (bm, tot)"
| "clear_regions (r # rs) bm tot =
     (if r_kind r = Usable then do {
        let first = pfn_of (r_start r);
        bytes \<leftarrow> sub_nat (r_end r) (r_start r);
        let count = pfn_of bytes;
        bm \<leftarrow> clear_bits bm first count;
        clear_regions rs bm (tot + count)
      } else clear_regions rs bm tot)"

fun reserve_frames :: "nat list \<Rightarrow> rtl_bitmap \<Rightarrow> nat \<Rightarrow> (rtl_bitmap \<times> nat) option" where
  "reserve_frames [] bm tot = Some (bm, tot)"
| "reserve_frames (pfn # pfns) bm tot = do {
     used \<leftarrow> test_bit bm pfn;
     if used then reserve_frames pfns bm tot
     else do {
       bm \<leftarrow> set_bits bm pfn 1;
       tot \<leftarrow> sub_nat tot 1;
       reserve_frames pfns bm tot
     }
   }"

definition phys_init :: "mem_region list \<Rightarrow> nat \<Rightarrow> 'a phys_state_scheme \<Rightarrow> 'a phys_state_scheme option" where
  "phys_init regions offset st0 = do {
     let st = st0\<lparr>phys_offset := offset\<rparr>;
     (max_pfn, largest) \<leftarrow> scan_regions regions 0 None;
     (home_start, home_end) \<leftarrow> largest;
     let bits = max_pfn;
     let nwords = (bits + 63) div 64;
     let carve_bytes = (nwords * 8 + PAGE_SIZE - 1) div PAGE_SIZE * PAGE_SIZE;
     require (home_start + carve_bytes \<le> home_end);
     va \<leftarrow> phys_to_virt st home_start;
     let storage = replicate nwords 0;
     bm \<leftarrow> bitmap_new storage bits;
     bm \<leftarrow> set_bits bm 0 bits;
     (bm, tot) \<leftarrow> clear_regions regions bm 0;
     let carve_pages = pfn_of carve_bytes;
     bm \<leftarrow> set_bits bm (pfn_of home_start) carve_pages;
     (bm, tot) \<leftarrow> reserve_frames [0, pfn_of TRAMPOLINE_PAGE] bm tot;
     free \<leftarrow> sub_nat tot carve_pages;
     Some (st\<lparr>pfn_db := (pfn_db st)\<lparr>pfn_bitmap := Some bm, total_pages := tot, free_pages := free\<rparr>,
              ram := zero_frames (ram st) (pfn_of home_start) carve_pages\<rparr>)
   }"

definition try_alloc :: "nat \<Rightarrow> 'a phys_state_scheme \<Rightarrow> (nat option \<times> 'a phys_state_scheme) option" where
  "try_alloc count st =
     (case pfn_bitmap (pfn_db st) of
        None \<Rightarrow> Some (None, st)
      | Some bm \<Rightarrow> do {
          (r, bm') \<leftarrow> find_clear_bits_and_set bm count (pfn_hint (pfn_db st));
          (case r of
             None \<Rightarrow> Some (None, st)
           | Some first \<Rightarrow> do {
               free \<leftarrow> sub_nat (free_pages (pfn_db st)) count;
               va \<leftarrow> phys_to_virt st (from_pfn first);
               Some (Some (from_pfn first),
                 st\<lparr>pfn_db := (pfn_db st)\<lparr>pfn_bitmap := Some bm', pfn_hint := first + count, free_pages := free\<rparr>,
                    ram := zero_frames (ram st) first count\<rparr>)
             })
        })"

fun all_set :: "rtl_bitmap \<Rightarrow> nat \<Rightarrow> nat \<Rightarrow> bool option" where
  "all_set bm i 0 = Some True"
| "all_set bm i (Suc n) = do { b \<leftarrow> test_bit bm i; if b then all_set bm (Suc i) n else Some False }"

definition mm_free_contiguous_pages :: "nat \<Rightarrow> nat \<Rightarrow> 'a phys_state_scheme \<Rightarrow> 'a phys_state_scheme option" where
  "mm_free_contiguous_pages pa count st =
     (case pfn_bitmap (pfn_db st) of
        None \<Rightarrow> Some st
      | Some bm \<Rightarrow> do {
          let first = pfn_of pa;
          ok \<leftarrow> all_set bm first count;
          require ok;
          bm' \<leftarrow> clear_bits bm first count;
          Some (st\<lparr>pfn_db := (pfn_db st)\<lparr>pfn_bitmap := Some bm', pfn_hint := min (pfn_hint (pfn_db st)) first,
                                        free_pages := free_pages (pfn_db st) + count\<rparr>\<rparr>)
        })"

definition mm_free_page_count :: "'a phys_state_scheme \<Rightarrow> nat" where
  "mm_free_page_count st = free_pages (pfn_db st)"

section \<open>Invariant\<close>

definition frames_used :: "'a phys_state_scheme \<Rightarrow> nat set" where
  "frames_used st = (case pfn_bitmap (pfn_db st) of None \<Rightarrow> {} | Some bm \<Rightarrow> bits_used bm)"

definition frame_count :: "'a phys_state_scheme \<Rightarrow> nat" where
  "frame_count st = (case pfn_bitmap (pfn_db st) of None \<Rightarrow> 0 | Some bm \<Rightarrow> size_in_bits bm)"

text \<open>
  Once initialised, the window is set, the bitmap is well-formed, and the free counter is the number of
  clear bits.
\<close>

definition phys_wf :: "'a phys_state_scheme \<Rightarrow> bool" where
  "phys_wf st \<longleftrightarrow> phys_offset st \<noteq> 0 \<and>
     (\<exists>bm. pfn_bitmap (pfn_db st) = Some bm \<and> bitmap_wf bm \<and>
           free_pages (pfn_db st) = size_in_bits bm - card (bits_used bm))"

lemma phys_wfE:
  assumes "phys_wf st"
  obtains bm where "pfn_bitmap (pfn_db st) = Some bm" "bitmap_wf bm" "phys_offset st \<noteq> 0"
    "free_pages (pfn_db st) + card (frames_used st) = frame_count st"
    "frames_used st = bits_used bm" "frame_count st = size_in_bits bm"
proof -
  from assms obtain bm where "pfn_bitmap (pfn_db st) = Some bm" "bitmap_wf bm" "phys_offset st \<noteq> 0"
    "free_pages (pfn_db st) = size_in_bits bm - card (bits_used bm)" by (auto simp: phys_wf_def)
  moreover have "card (bits_used bm) \<le> size_in_bits bm"
    using card_mono [OF _ bits_used_bounded [of bm]] by simp
  ultimately show thesis
    by (intro that [of bm]) (auto simp: frames_used_def frame_count_def)
qed

lemma phys_wfI:
  assumes "pfn_bitmap (pfn_db st) = Some bm" "bitmap_wf bm" "phys_offset st \<noteq> 0"
    "free_pages (pfn_db st) + card (bits_used bm) = size_in_bits bm"
  shows "phys_wf st"
  using assms by (auto simp: phys_wf_def)

lemma all_set_spec:
  assumes "bitmap_wf bm" "i + n \<le> size_in_bits bm"
  shows "all_set bm i n = Some ({i..<i + n} \<subseteq> bits_used bm)"
  using assms
proof (induction n arbitrary: i)
  case (Suc n)
  then have t: "test_bit bm i = Some (i \<in> bits_used bm)"
    by (simp add: test_bit_wf bits_used_def)
  have "{i..<i + Suc n} = insert i {Suc i..<Suc i + n}" by auto
  with Suc t show ?case by auto
qed simp


lemma all_set_bound: "all_set bm i n = Some True \<Longrightarrow> 0 < n \<Longrightarrow> i + n \<le> size_in_bits bm"
proof (induction n arbitrary: i)
  case (Suc n)
  then have "i < size_in_bits bm" "all_set bm (Suc i) n = Some True"
    by (auto simp: test_bit_def panic_elims split: if_splits)
  with Suc.IH [of "Suc i"] show ?case by (cases n) auto
qed simp

lemma card_run_bound:
  fixes U :: "nat set"
  assumes "U \<subseteq> {..<c}" "i + n \<le> c" "{i..<i + n} \<inter> U = {}"
  shows "card (U \<union> {i..<i + n}) = card U + n" "card U + n \<le> c"
proof -
  have fin: "finite U" using assms(1) finite_subset by blast
  show c: "card (U \<union> {i..<i + n}) = card U + n"
    using fin assms(3) by (subst card_Un_disjoint) auto
  have "U \<union> {i..<i + n} \<subseteq> {..<c}" using assms(1,2) by auto
  from card_mono [OF _ this] c show "card U + n \<le> c" by simp
qed

section \<open>Allocation and release\<close>

lemma pfn_of_from_pfn [simp]: "pfn_of (from_pfn i) = i"
  by (simp add: pfn_of_def from_pfn_def PAGE_SIZE_def)

lemma try_alloc_spec:
  assumes "phys_wf st"
  obtains r st' where "try_alloc n st = Some (r, st')" and
    "case r of
       None \<Rightarrow> st' = st \<and> (n = 0 \<or> (\<forall>i. i + n \<le> frame_count st \<longrightarrow> {i..<i + n} \<inter> frames_used st \<noteq> {}))
     | Some pa \<Rightarrow> (\<exists>i. pa = from_pfn i \<and> 0 < n \<and> i + n \<le> frame_count st \<and> {i..<i + n} \<inter> frames_used st = {} \<and>
         frames_used st' = frames_used st \<union> {i..<i + n} \<and> frame_count st' = frame_count st \<and> phys_wf st' \<and>
         free_pages (pfn_db st') + n = free_pages (pfn_db st) \<and> ram st' = zero_frames (ram st) i n)"
proof -
  from assms obtain bm where bm: "pfn_bitmap (pfn_db st) = Some bm" "bitmap_wf bm" "phys_offset st \<noteq> 0"
    "free_pages (pfn_db st) + card (frames_used st) = frame_count st"
    "frames_used st = bits_used bm" "frame_count st = size_in_bits bm" by (rule phys_wfE)
  obtain r bm' where f: "find_clear_bits_and_set bm n (pfn_hint (pfn_db st)) = Some (r, bm')"
    using find_clear_total [OF bm(2)] by fastforce
  show ?thesis
  proof (cases r)
    case None
    with bm f find_clear_None [OF bm(2), of n "pfn_hint (pfn_db st)" bm'] show ?thesis
      by (intro that [of None st]) (auto simp: try_alloc_def)
  next
    case (Some i)
    with f find_clear_Some [OF bm(2)] have i: "0 < n" "i + n \<le> size_in_bits bm" "{i..<i + n} \<inter> bits_used bm = {}"
      "bits_used bm' = bits_used bm \<union> {i..<i + n}" "size_in_bits bm' = size_in_bits bm" "bitmap_wf bm'" by blast+
    note cd = card_run_bound [OF bits_used_bounded i(2,3)]
    let ?db = "(pfn_db st)\<lparr>pfn_bitmap := Some bm', pfn_hint := i + n, free_pages := free_pages (pfn_db st) - n\<rparr>"
    let ?st = "st\<lparr>pfn_db := ?db, ram := zero_frames (ram st) i n\<rparr>"
    from bm cd have le: "n \<le> free_pages (pfn_db st)" by simp
    have "phys_wf ?st" by (rule phys_wfI [of _ bm']) (use bm i cd le in auto)
    with bm f Some i le show ?thesis
      by (intro that [of "Some (from_pfn i)" ?st])
        (auto simp: try_alloc_def phys_to_virt_def frames_used_def frame_count_def)
  qed
qed

lemma mm_free_spec:
  assumes "phys_wf st" "{i..<i + n} \<subseteq> frames_used st" "0 < n"
  obtains st' where "mm_free_contiguous_pages (from_pfn i) n st = Some st'"
    "frames_used st' = frames_used st - {i..<i + n}" "frame_count st' = frame_count st" "phys_wf st'"
    "free_pages (pfn_db st') = free_pages (pfn_db st) + n" "ram st' = ram st"
proof -
  from assms(1) obtain bm where bm: "pfn_bitmap (pfn_db st) = Some bm" "bitmap_wf bm" "phys_offset st \<noteq> 0"
    "free_pages (pfn_db st) + card (frames_used st) = frame_count st"
    "frames_used st = bits_used bm" "frame_count st = size_in_bits bm" by (rule phys_wfE)
  from assms(2) bm(5) have sub: "{i..<i + n} \<subseteq> bits_used bm" by simp
  from clear_bits_used [OF bm(2) sub assms(3)] obtain bm' where
    bm': "clear_bits bm i n = Some bm'" "bits_used bm' = bits_used bm - {i..<i + n}"
      "size_in_bits bm' = size_in_bits bm" "bitmap_wf bm'" by blast
  have "i + n - 1 \<in> bits_used bm" using sub assms(3) by auto
  then have "i + n \<le> size_in_bits bm" using assms(3) by (auto simp: bits_used_def)
  then have all: "all_set bm i n = Some True" using all_set_spec [OF bm(2)] sub by simp
  have "card (bits_used bm') + n = card (bits_used bm)"
    using sub by (simp add: bm'(2) card_Diff_subset) (metis card_atLeastLessThan card_mono diff_add_inverse finite_bits_used le_add_diff_inverse2)
  with bm bm' have c: "free_pages (pfn_db st) + n + card (bits_used bm') = size_in_bits bm'" by simp
  let ?st = "st\<lparr>pfn_db := (pfn_db st)\<lparr>pfn_bitmap := Some bm', pfn_hint := min (pfn_hint (pfn_db st)) i,
                                        free_pages := free_pages (pfn_db st) + n\<rparr>\<rparr>"
  show ?thesis
  proof (rule that [of ?st])
    show "phys_wf ?st" by (rule phys_wfI [of _ bm']) (use bm bm' c in simp_all)
    show "mm_free_contiguous_pages (from_pfn i) n st = Some ?st"
      by (simp add: mm_free_contiguous_pages_def bm(1) all bm'(1))
    show "frames_used ?st = frames_used st - {i..<i + n}" "frame_count ?st = frame_count st"
      by (simp_all add: frames_used_def frame_count_def bm(1) bm'(2,3))
  qed simp_all
qed

text \<open>Freeing a run that is not entirely allocated is a bugcheck.\<close>

lemma mm_free_not_allocated:
  assumes "phys_wf st" "0 < n" "\<not> {pfn_of pa..<pfn_of pa + n} \<subseteq> frames_used st"
  shows "mm_free_contiguous_pages pa n st = None"
proof -
  from assms(1) obtain bm where bm: "pfn_bitmap (pfn_db st) = Some bm" "bitmap_wf bm" "frames_used st = bits_used bm"
    by (rule phys_wfE)
  have "all_set bm (pfn_of pa) n \<noteq> Some True"
    using all_set_spec [OF bm(2)] all_set_bound assms(2,3) bm(3) by fastforce
  with bm(1) show ?thesis
    by (cases "all_set bm (pfn_of pa) n") (auto simp: mm_free_contiguous_pages_def)
qed

section \<open>The database as a run allocator\<close>

text \<open>The allocator's interface in frame numbers, and the allocation contract on it.\<close>

definition frame_alloc :: "nat \<Rightarrow> 'a phys_state_scheme \<Rightarrow> (nat option \<times> 'a phys_state_scheme) option" where
  "frame_alloc n st = map_option (\<lambda>(r, st'). (map_option pfn_of r, st')) (try_alloc n st)"

definition frame_release :: "nat \<Rightarrow> nat \<Rightarrow> 'a phys_state_scheme \<Rightarrow> 'a phys_state_scheme option" where
  "frame_release i n st = mm_free_contiguous_pages (from_pfn i) n st"

lemma frame_alloc_spec:
  assumes "phys_wf st"
  obtains r st' where "frame_alloc n st = Some (r, st')" and
    "case r of
       None \<Rightarrow> st' = st \<and> (n = 0 \<or> (\<forall>i. i + n \<le> frame_count st \<longrightarrow> {i..<i + n} \<inter> frames_used st \<noteq> {}))
     | Some i \<Rightarrow> 0 < n \<and> i + n \<le> frame_count st \<and> {i..<i + n} \<inter> frames_used st = {} \<and>
         frames_used st' = frames_used st \<union> {i..<i + n} \<and> frame_count st' = frame_count st \<and> phys_wf st'"
proof (rule try_alloc_spec [OF assms, of n])
  fix r st'
  assume a: "try_alloc n st = Some (r, st')" and
    post: "case r of
       None \<Rightarrow> st' = st \<and> (n = 0 \<or> (\<forall>i. i + n \<le> frame_count st \<longrightarrow> {i..<i + n} \<inter> frames_used st \<noteq> {}))
     | Some pa \<Rightarrow> (\<exists>i. pa = from_pfn i \<and> 0 < n \<and> i + n \<le> frame_count st \<and> {i..<i + n} \<inter> frames_used st = {} \<and>
         frames_used st' = frames_used st \<union> {i..<i + n} \<and> frame_count st' = frame_count st \<and> phys_wf st' \<and>
         free_pages (pfn_db st') + n = free_pages (pfn_db st) \<and> ram st' = zero_frames (ram st) i n)"
  have "frame_alloc n st = Some (map_option pfn_of r, st')" using a by (simp add: frame_alloc_def)
  then show thesis
    by (rule that) (use post in \<open>auto split: option.splits\<close>)
qed

interpretation frames: run_allocator phys_wf frames_used frame_count frame_alloc frame_release
proof unfold_locales
  show "frames_used st \<subseteq> {..<frame_count st}" if "phys_wf st" for st :: "'a phys_state_scheme"
    by (rule phys_wfE [OF that]) (use bits_used_bounded in auto)
  show "frame_alloc n st \<noteq> None" if "phys_wf st" for n and st :: "'a phys_state_scheme"
    by (rule frame_alloc_spec [OF that, of n]) simp
  show "0 < n \<and> i + n \<le> frame_count st \<and> {i..<i + n} \<inter> frames_used st = {} \<and>
       frames_used st' = frames_used st \<union> {i..<i + n} \<and> frame_count st' = frame_count st \<and> phys_wf st'"
    if "phys_wf st" "frame_alloc n st = Some (Some i, st')" for n i and st st' :: "'a phys_state_scheme"
    by (rule frame_alloc_spec [OF that(1), of n]) (use that(2) in simp)
  show "frames_used st' = frames_used st \<and> frame_count st' = frame_count st \<and> phys_wf st' \<and>
       (n = 0 \<or> (\<forall>i. i + n \<le> frame_count st \<longrightarrow> {i..<i + n} \<inter> frames_used st \<noteq> {}))"
    if "phys_wf st" "frame_alloc n st = Some (None, st')" for n and st st' :: "'a phys_state_scheme"
    by (rule frame_alloc_spec [OF that(1), of n]) (use that in simp)
  show "\<exists>st'. frame_release i n st = Some st' \<and> frames_used st' = frames_used st - {i..<i + n} \<and>
       frame_count st' = frame_count st \<and> phys_wf st'"
    if "phys_wf st" "{i..<i + n} \<subseteq> frames_used st" "0 < n" for i n and st :: "'a phys_state_scheme"
    by (rule mm_free_spec [OF that]) (auto simp: frame_release_def)
qed

section \<open>Initialisation\<close>

text \<open>The frames the memory map offers.\<close>

definition region_frames :: "mem_region \<Rightarrow> nat set" where
  "region_frames r = (if r_kind r = Usable then {pfn_of (r_start r)..<pfn_of (r_end r)} else {})"

definition region_ok :: "mem_region \<Rightarrow> bool" where
  "region_ok r \<longleftrightarrow> PAGE_SIZE dvd r_start r \<and> PAGE_SIZE dvd r_end r \<and> r_start r \<le> r_end r"

definition usable_frames :: "mem_region list \<Rightarrow> nat set" where
  "usable_frames rs = (\<Union>r \<in> set rs. region_frames r)"

fun regions_disjoint :: "mem_region list \<Rightarrow> bool" where
  "regions_disjoint [] = True"
| "regions_disjoint (r # rs) = (region_frames r \<inter> usable_frames rs = {} \<and> regions_disjoint rs)"

lemma usable_frames_simps [simp]:
  "usable_frames [] = {}" "usable_frames (r # rs) = region_frames r \<union> usable_frames rs"
  by (auto simp: usable_frames_def)

lemma finite_usable_frames [simp]: "finite (usable_frames rs)"
  by (induction rs) (auto simp: region_frames_def)

lemma region_page_count:
  assumes "region_ok r"
  shows "pfn_of (r_start r) + pfn_of (r_end r - r_start r) = pfn_of (r_end r)"
proof -
  from assms obtain a b where "r_start r = 4096 * a" "r_end r = 4096 * b"
    by (auto simp: region_ok_def PAGE_SIZE_def dvd_def)
  moreover from this assms have "a \<le> b" by (simp add: region_ok_def)
  ultimately show ?thesis
    by (simp add: pfn_of_def PAGE_SIZE_def flip: diff_mult_distrib2)
qed

lemma scan_regions_spec:
  assumes "\<forall>r \<in> set rs. region_ok r" "scan_regions rs mp lg = Some (mp', lg')"
  shows "mp \<le> mp'" "\<And>r. r \<in> set rs \<Longrightarrow> r_kind r = Usable \<Longrightarrow> pfn_of (r_end r) \<le> mp'"
    "lg' = lg \<or> (\<exists>r \<in> set rs. r_kind r = Usable \<and> lg' = Some (r_start r, r_end r))"
proof -
  have "mp \<le> mp' \<and> (\<forall>r \<in> set rs. r_kind r = Usable \<longrightarrow> pfn_of (r_end r) \<le> mp') \<and>
    (lg' = lg \<or> (\<exists>r \<in> set rs. r_kind r = Usable \<and> lg' = Some (r_start r, r_end r)))"
    using assms
  proof (induction rs arbitrary: mp lg)
    case (Cons r rs)
    show ?case
    proof (cases "r_kind r = Usable")
      case True
      with Cons.prems(2) obtain lg1 where lg1: "scan_regions rs (max mp (pfn_of (r_end r))) lg1 = Some (mp', lg')"
        "lg1 = lg \<or> lg1 = Some (r_start r, r_end r)"
        by (auto simp: Let_def panic_elims split: option.splits if_splits prod.splits)
      have "max mp (pfn_of (r_end r)) \<le> mp' \<and> (\<forall>r \<in> set rs. r_kind r = Usable \<longrightarrow> pfn_of (r_end r) \<le> mp') \<and>
        (lg' = lg1 \<or> (\<exists>r \<in> set rs. r_kind r = Usable \<and> lg' = Some (r_start r, r_end r)))"
        by (rule Cons.IH) (use Cons.prems lg1 in auto)
      with True lg1(2) show ?thesis by auto
    next
      case False
      have "mp \<le> mp' \<and> (\<forall>r \<in> set rs. r_kind r = Usable \<longrightarrow> pfn_of (r_end r) \<le> mp') \<and>
        (lg' = lg \<or> (\<exists>r \<in> set rs. r_kind r = Usable \<and> lg' = Some (r_start r, r_end r)))"
        by (rule Cons.IH) (use Cons.prems False in auto)
      with False show ?thesis by auto
    qed
  qed auto
  then show "mp \<le> mp'" "\<And>r. r \<in> set rs \<Longrightarrow> r_kind r = Usable \<Longrightarrow> pfn_of (r_end r) \<le> mp'"
    "lg' = lg \<or> (\<exists>r \<in> set rs. r_kind r = Usable \<and> lg' = Some (r_start r, r_end r))" by auto
qed

lemma clear_regions_spec:
  assumes "bitmap_wf bm" "\<forall>r \<in> set rs. region_ok r" "\<forall>r \<in> set rs. r_kind r = Usable \<longrightarrow> pfn_of (r_end r) \<le> size_in_bits bm"
    "regions_disjoint rs"
  shows "\<exists>bm'. clear_regions rs bm tot = Some (bm', tot + card (usable_frames rs)) \<and> bitmap_wf bm' \<and>
    size_in_bits bm' = size_in_bits bm \<and> bits_used bm' = bits_used bm - usable_frames rs"
  using assms
proof (induction rs arbitrary: bm tot)
  case (Cons r rs)
  show ?case
  proof (cases "r_kind r = Usable")
    case True
    let ?n = "pfn_of (r_end r - r_start r)"
    have len: "pfn_of (r_start r) + ?n = pfn_of (r_end r)" "r_start r \<le> r_end r"
      using Cons.prems(2) region_page_count [of r] by (auto simp: region_ok_def)
    have fr: "region_frames r = {pfn_of (r_start r)..<pfn_of (r_start r) + ?n}"
      using True len by (simp add: region_frames_def)
    have le: "pfn_of (r_start r) + ?n \<le> size_in_bits bm" using Cons.prems(3) True len by auto
    obtain bm1 where bm1: "clear_bits bm (pfn_of (r_start r)) ?n = Some bm1" "bitmap_wf bm1"
      "size_in_bits bm1 = size_in_bits bm" "bits_used bm1 = bits_used bm - {pfn_of (r_start r)..<pfn_of (r_start r) + ?n}"
      by (rule clear_bits_spec [OF Cons.prems(1) le])
    have "\<exists>bm'. clear_regions rs bm1 (tot + ?n) = Some (bm', tot + ?n + card (usable_frames rs)) \<and> bitmap_wf bm' \<and>
      size_in_bits bm' = size_in_bits bm1 \<and> bits_used bm' = bits_used bm1 - usable_frames rs"
      by (rule Cons.IH) (use Cons.prems bm1 in auto)
    moreover have "card (usable_frames (r # rs)) = ?n + card (usable_frames rs)"
      using Cons.prems(4) by (simp add: card_Un_disjoint fr)
    ultimately show ?thesis
      using True len(2) bm1 by (auto simp: Let_def fr add.assoc)
  next
    case False
    then have "region_frames r = {}" by (simp add: region_frames_def)
    with Cons False show ?thesis by simp
  qed
qed simp

lemma reserve_frames_spec:
  assumes "bitmap_wf bm" "\<forall>p \<in> set ps. p < size_in_bits bm" "card (set ps - bits_used bm) \<le> tot"
  shows "\<exists>bm'. reserve_frames ps bm tot = Some (bm', tot - card (set ps - bits_used bm)) \<and> bitmap_wf bm' \<and>
    size_in_bits bm' = size_in_bits bm \<and> bits_used bm' = bits_used bm \<union> set ps"
  using assms
proof (induction ps arbitrary: bm tot)
  case (Cons p ps)
  then have t: "test_bit bm p = Some (p \<in> bits_used bm)"
    by (simp add: test_bit_wf bits_used_def)
  show ?case
  proof (cases "p \<in> bits_used bm")
    case True
    then have "set (p # ps) - bits_used bm = set ps - bits_used bm" "bits_used bm \<union> set (p # ps) = bits_used bm \<union> set ps"
      by auto
    with Cons.IH [of bm tot] Cons.prems t True show ?thesis by simp
  next
    case False
    have le: "p + 1 \<le> size_in_bits bm" using Cons.prems(2) by auto
    obtain bm1 where bm1: "set_bits bm p 1 = Some bm1" "bitmap_wf bm1" "size_in_bits bm1 = size_in_bits bm"
      "bits_used bm1 = bits_used bm \<union> {p..<p + 1}"
      by (rule set_bits_spec [OF Cons.prems(1) le])
    have e: "set (p # ps) - bits_used bm = insert p (set ps - bits_used bm1)" using bm1(4) False by auto
    have c: "card (set (p # ps) - bits_used bm) = Suc (card (set ps - bits_used bm1))"
      unfolding e using bm1(4) by simp
    have "\<exists>bm'. reserve_frames ps bm1 (tot - 1) = Some (bm', tot - 1 - card (set ps - bits_used bm1)) \<and> bitmap_wf bm' \<and>
      size_in_bits bm' = size_in_bits bm1 \<and> bits_used bm' = bits_used bm1 \<union> set ps"
      by (rule Cons.IH) (use Cons.prems bm1 c in auto)
    with t False bm1 c Cons.prems(3) show ?thesis by auto
  qed
qed simp

definition carve_pages_for :: "nat \<Rightarrow> nat" where
  "carve_pages_for bits = ((bits + 63) div 64 * 8 + 4095) div 4096"

lemma bitmap_new_clear:
  obtains bm where "bitmap_new (replicate ((n + 63) div 64) 0) n = Some bm" "bitmap_wf bm" "size_in_bits bm = n"
proof -
  have "n \<le> (n + 63) div 64 * 64"
    using div_mult_mod_eq [of "n + 63" 64] mod_less_divisor [of 64 "n + 63"] by linarith
  then have "n \<le> length (replicate ((n + 63) div 64) (0 :: u64)) * 64" by simp
  from bitmap_new_spec [OF this] show ?thesis using that by blast
qed

lemma free_frame_count:
  assumes "finite U" "C \<subseteq> U"
  shows "card (U - C - R) + card (R \<inter> (U - C)) + card C = card U"
proof -
  have "U = (U - C - R) \<union> (R \<inter> (U - C)) \<union> C" using assms(2) by auto
  moreover have "card ((U - C - R) \<union> (R \<inter> (U - C)) \<union> C) = card (U - C - R) + card (R \<inter> (U - C)) + card C"
    using assms finite_subset [OF assms(2)] by (subst card_Un_disjoint; auto)+
  ultimately show ?thesis by simp
qed

lemma phys_init_spec:
  assumes ok: "\<forall>r \<in> set rs. region_ok r" and dj: "regions_disjoint rs" and off: "off \<noteq> 0"
    and scan: "scan_regions rs 0 None = Some (max_pfn, Some (hs, he))"
    and big: "8 < max_pfn" and fits: "hs + carve_pages_for max_pfn * PAGE_SIZE \<le> he"
  obtains st' where "phys_init rs off st = Some st'" "phys_wf st'" "frame_count st' = max_pfn"
    "{..<max_pfn} - frames_used st' =
       usable_frames rs - {pfn_of hs..<pfn_of hs + carve_pages_for max_pfn} - {0, pfn_of TRAMPOLINE_PAGE}"
proof -
  let ?cp = "carve_pages_for max_pfn"
  let ?U = "usable_frames rs" and ?C = "{pfn_of hs..<pfn_of hs + ?cp}" and ?R = "{0, pfn_of TRAMPOLINE_PAGE}"
  from scan_regions_spec [OF ok scan] obtain r where r: "r \<in> set rs" "r_kind r = Usable" "r_start r = hs" "r_end r = he"
    and ends: "\<forall>r \<in> set rs. r_kind r = Usable \<longrightarrow> pfn_of (r_end r) \<le> max_pfn" by auto
  obtain a b where ab: "hs = 4096 * a" "he = 4096 * b"
    using ok r by (auto simp: region_ok_def PAGE_SIZE_def dvd_def)
  with fits have "pfn_of hs + ?cp \<le> pfn_of he" by (simp add: pfn_of_def PAGE_SIZE_def)
  then have C: "?C \<subseteq> ?U" "pfn_of hs + ?cp \<le> max_pfn"
    using r ends by (auto simp: usable_frames_def region_frames_def)
  have U: "?U \<subseteq> {..<max_pfn}" using ends by (fastforce simp: usable_frames_def region_frames_def split: if_splits)
  have R: "?R \<subseteq> {..<max_pfn}" using big by (simp add: TRAMPOLINE_PAGE_def pfn_of_def PAGE_SIZE_def)
  obtain bm0 where bm0: "bitmap_new (replicate ((max_pfn + 63) div 64) 0) max_pfn = Some bm0" "bitmap_wf bm0"
    "size_in_bits bm0 = max_pfn" by (rule bitmap_new_clear)
  then have "0 + max_pfn \<le> size_in_bits bm0" by simp
  then obtain bm1 where bm1: "set_bits bm0 0 max_pfn = Some bm1" "bitmap_wf bm1" "size_in_bits bm1 = max_pfn"
    "bits_used bm1 = bits_used bm0 \<union> {0..<0 + max_pfn}" using bm0(3) by (metis set_bits_spec [OF bm0(2)])
  have used1: "bits_used bm1 = {..<max_pfn}" using bm1(3,4) bits_used_bounded [of bm1] by auto
  from clear_regions_spec [OF bm1(2) ok _ dj, of 0] ends bm1(3) used1 obtain bm2 where
    bm2: "clear_regions rs bm1 0 = Some (bm2, card ?U)" "bitmap_wf bm2" "size_in_bits bm2 = max_pfn"
      "bits_used bm2 = {..<max_pfn} - ?U" by auto
  from C(2) bm2(3) have "pfn_of hs + ?cp \<le> size_in_bits bm2" by simp
  then obtain bm3 where bm3: "set_bits bm2 (pfn_of hs) ?cp = Some bm3" "bitmap_wf bm3" "size_in_bits bm3 = max_pfn"
    "bits_used bm3 = bits_used bm2 \<union> ?C" using bm2(3) by (metis set_bits_spec [OF bm2(2)])
  have new: "?R - bits_used bm3 = ?R \<inter> (?U - ?C)" using R bm3(4) bm2(4) by auto
  define N where "N = card (?R \<inter> (?U - ?C))"
  have count: "card (?U - ?C - ?R) + N + ?cp = card ?U"
    using free_frame_count [OF finite_usable_frames C(1), of ?R] by (simp only: N_def card_atLeastLessThan diff_add_inverse)
  have newc: "card (?R - bits_used bm3) = N" by (simp only: new N_def)
  have "\<forall>p \<in> set [0, pfn_of TRAMPOLINE_PAGE]. p < size_in_bits bm3" using R bm3(3) by auto
  from reserve_frames_spec [OF bm3(2) this, of "card ?U"] newc count bm3(3) obtain bm4 where
    bm4: "reserve_frames [0, pfn_of TRAMPOLINE_PAGE] bm3 (card ?U) = Some (bm4, card ?U - N)"
      "bitmap_wf bm4" "size_in_bits bm4 = max_pfn" "bits_used bm4 = bits_used bm3 \<union> ?R" by auto
  let ?free = "card ?U - N - ?cp"
  let ?st = "st\<lparr>phys_offset := off, pfn_db := (pfn_db st)\<lparr>pfn_bitmap := Some bm4,
      total_pages := card ?U - N, free_pages := ?free\<rparr>, ram := zero_frames (ram st) (pfn_of hs) ?cp\<rparr>"
  have F: "{..<max_pfn} - bits_used bm4 = ?U - ?C - ?R" using bm4(4) bm3(4) bm2(4) U R by auto
  show thesis
  proof (rule that [of ?st])
    have carve: "((bits + 63) div 64 * 8 + PAGE_SIZE - 1) div PAGE_SIZE * PAGE_SIZE = from_pfn (carve_pages_for bits)" for bits
      by (simp add: carve_pages_for_def PAGE_SIZE_def from_pfn_def)
    have le: "?cp \<le> card ?U - N" using count by simp
    have "hs + from_pfn ?cp \<le> he" using fits by (simp add: from_pfn_def)
    then show "phys_init rs off st = Some ?st"
      unfolding phys_init_def Let_def carve
      by (simp add: scan bm0(1) bm1(1) bm2(1) bm3(1) bm4(1) le off phys_to_virt_def del: reserve_frames.simps)
    have "card (bits_used bm4) + card ({..<max_pfn} - bits_used bm4) = max_pfn"
      using bits_used_bounded [of bm4] bm4(3)
      by (metis card_Diff_subset card_lessThan card_mono finite_bits_used finite_lessThan le_add_diff_inverse)
    then have "?free + card (bits_used bm4) = max_pfn" using count unfolding F by simp
    then show "phys_wf ?st" by (intro phys_wfI [of _ bm4]) (use bm4 off in simp_all)
    show "frame_count ?st = max_pfn" using bm4(3) by (simp add: frame_count_def)
    show "{..<max_pfn} - frames_used ?st = ?U - ?C - ?R" using F by (simp add: frames_used_def)
  qed
qed

section \<open>Properties\<close>

text \<open>
  Physical initialisation over a page-aligned memory map with disjoint usable regions, of more than eight
  frames and with room for the bitmap, never panics: the frames it leaves allocatable are exactly the usable
  ones outside the bitmap's carve-out, frame 0 and the start-up trampoline, and the free counter is their number.
\<close>

theorem phys_init_correct:
  assumes "\<forall>r \<in> set rs. region_ok r" "regions_disjoint rs" "off \<noteq> 0"
    and "scan_regions rs 0 None = Some (max_pfn, Some (hs, he))"
    and "8 < max_pfn" "hs + carve_pages_for max_pfn * PAGE_SIZE \<le> he"
  shows "\<exists>st'. phys_init rs off st = Some st' \<and> phys_wf st' \<and> frame_count st' = max_pfn \<and>
    {..<max_pfn} - frames_used st' =
       usable_frames rs - {pfn_of hs..<pfn_of hs + carve_pages_for max_pfn} - {0, pfn_of TRAMPOLINE_PAGE} \<and>
    mm_free_page_count st' = card ({..<max_pfn} - frames_used st')"
proof (rule phys_init_spec [OF assms, of st])
  fix st'
  assume i: "phys_init rs off st = Some st'" "phys_wf st'" "frame_count st' = max_pfn"
    "{..<max_pfn} - frames_used st' =
       usable_frames rs - {pfn_of hs..<pfn_of hs + carve_pages_for max_pfn} - {0, pfn_of TRAMPOLINE_PAGE}"
  have "frames_used st' \<subseteq> {..<max_pfn}" using frames.used_bounded [OF i(2)] i(3) by simp
  moreover have "free_pages (pfn_db st') + card (frames_used st') = max_pfn"
    by (rule phys_wfE [OF i(2)]) (use i(3) in simp)
  ultimately have "mm_free_page_count st' = card ({..<max_pfn} - frames_used st')"
    by (simp add: mm_free_page_count_def card_Diff_subset finite_subset)
  with i show ?thesis by blast
qed

definition empty_phys :: phys_state where
  "empty_phys = \<lparr>phys_offset = 0, pfn_db = \<lparr>pfn_bitmap = None, pfn_hint = 0, total_pages = 0, free_pages = 0\<rparr>, ram = (\<lambda>_ _. 0)\<rparr>"

definition small_map :: "mem_region list" where
  "small_map = [\<lparr>r_start = 0, r_end = 0x3000, r_kind = Usable\<rparr>, \<lparr>r_start = 0x3000, r_end = 0x4000, r_kind = OtherKind\<rparr>,
                \<lparr>r_start = 0x4000, r_end = 0x10000, r_kind = Usable\<rparr>]"

lemma small_map_ok:
  "\<forall>r \<in> set small_map. region_ok r" "regions_disjoint small_map"
  "scan_regions small_map 0 None = Some (16, Some (0x4000, 0x10000))"
  "0x4000 + carve_pages_for 16 * PAGE_SIZE \<le> 0x10000"
  by (auto simp: small_map_def region_ok_def PAGE_SIZE_def region_frames_def pfn_of_def carve_pages_for_def)

theorem phys_init_witness:
  "\<exists>st'. phys_init small_map 1 empty_phys = Some st' \<and> phys_wf st' \<and> frame_count st' = 16"
  using phys_init_correct [OF small_map_ok(1,2) _ small_map_ok(3) _ small_map_ok(4), of 1 empty_phys] by auto

text \<open>
  A contiguous allocation on a consistent database never panics: it fails, changing nothing, only when no
  run of that many free frames exists; otherwise it returns a page-aligned run of frames that were all free,
  takes exactly those, zero-fills exactly those, and lowers the free counter by their number.
\<close>

theorem try_alloc_correct:
  assumes "phys_wf st"
  shows "\<exists>r st'. try_alloc n st = Some (r, st') \<and> phys_wf st' \<and>
    (case r of
       None \<Rightarrow> st' = st \<and> (n = 0 \<or> (\<forall>i. i + n \<le> frame_count st \<longrightarrow> {i..<i + n} \<inter> frames_used st \<noteq> {}))
     | Some pa \<Rightarrow> (\<exists>i. pa = from_pfn i \<and> i + n \<le> frame_count st \<and> {i..<i + n} \<inter> frames_used st = {} \<and>
         frames_used st' = frames_used st \<union> {i..<i + n} \<and>
         mm_free_page_count st' + n = mm_free_page_count st \<and>
         (\<forall>p k. ram st' p k = (if p \<in> {i..<i + n} then 0 else ram st p k))))"
proof (rule try_alloc_spec [OF assms, of n])
  fix r st'
  assume a: "try_alloc n st = Some (r, st')" and
    post: "case r of
       None \<Rightarrow> st' = st \<and> (n = 0 \<or> (\<forall>i. i + n \<le> frame_count st \<longrightarrow> {i..<i + n} \<inter> frames_used st \<noteq> {}))
     | Some pa \<Rightarrow> (\<exists>i. pa = from_pfn i \<and> 0 < n \<and> i + n \<le> frame_count st \<and> {i..<i + n} \<inter> frames_used st = {} \<and>
         frames_used st' = frames_used st \<union> {i..<i + n} \<and> frame_count st' = frame_count st \<and> phys_wf st' \<and>
         free_pages (pfn_db st') + n = free_pages (pfn_db st) \<and> ram st' = zero_frames (ram st) i n)"
  show ?thesis
    by (intro exI [of _ r] exI [of _ st'])
      (use a post assms in \<open>auto simp: mm_free_page_count_def zero_frames_def split: option.splits\<close>)
qed

definition tiny_phys :: phys_state where
  "tiny_phys = \<lparr>phys_offset = 1, pfn_db = \<lparr>pfn_bitmap = Some \<lparr>words = [1], size_in_bits = 64\<rparr>, pfn_hint = 0, total_pages = 64, free_pages = 63\<rparr>,
                ram = (\<lambda>_ _. 7)\<rparr>"

lemma tiny_phys_wf: "phys_wf tiny_phys"
proof -
  have "i = 0" if "i < 64" "bit (1 :: u64) (i mod 64)" for i :: nat
    using that by (simp add: bit_1_iff)
  then have "bits_used \<lparr>words = [1], size_in_bits = 64\<rparr> = {0}"
    by (auto simp: bits_used_def bit_at_def)
  then show ?thesis by (auto simp: phys_wf_def tiny_phys_def bitmap_wf_def)
qed

theorem try_alloc_witness:
  "phys_wf tiny_phys \<and> (\<exists>r st'. try_alloc 2 tiny_phys = Some (r, st') \<and> phys_wf st')"
  using try_alloc_correct [OF tiny_phys_wf, of 2] tiny_phys_wf by blast

text \<open>
  C14. Over any history of allocations and releases of live runs the frames handed out and not yet returned are
  pairwise disjoint, and the free counter is always the initial one less the frames that are live; returning a
  run of which some frame is not allocated is a bugcheck.
\<close>

theorem frames_history:
  assumes "phys_wf s" "alloc_run frame_alloc frame_release s [] es t live"
  shows "phys_wf t \<and> disjoint_runs live \<and> frames_used t = frames_used s \<union> runs_union live \<and>
    mm_free_page_count t + sum_list (map snd live) = mm_free_page_count s \<and>
    (0 < n \<longrightarrow> \<not> {i..<i + n} \<subseteq> frames_used t \<longrightarrow> frame_release i n t = None)"
proof -
  from frames.run_live_disjoint [OF assms(2,1)] have r: "phys_wf t" "frame_count t = frame_count s" "disjoint_runs live"
    "runs_union live \<subseteq> frames_used t" "frames_used t - runs_union live = frames_used s" by auto
  have "finite (frames_used t)" using frames.used_bounded [OF r(1)] finite_subset by blast
  then have "card (frames_used t) = card (frames_used s) + sum_list (map snd live)"
    using r(3-5) card_runs_union [OF r(3)]
    by (metis card_Diff_subset card_mono finite_subset le_add_diff_inverse2)
  moreover have "free_pages (pfn_db s) + card (frames_used s) = frame_count s"
    by (rule phys_wfE [OF assms(1)])
  moreover have "free_pages (pfn_db t) + card (frames_used t) = frame_count t"
    by (rule phys_wfE [OF r(1)])
  ultimately have "free_pages (pfn_db t) + sum_list (map snd live) = free_pages (pfn_db s)" using r(2) by simp
  moreover have "frame_release i n t = None" if "0 < n" "\<not> {i..<i + n} \<subseteq> frames_used t"
    unfolding frame_release_def by (rule mm_free_not_allocated) (use that r(1) in simp_all)
  ultimately show ?thesis using r by (auto simp: mm_free_page_count_def)
qed

theorem frames_history_witness:
  "phys_wf tiny_phys \<and> (\<exists>t. alloc_run frame_alloc frame_release tiny_phys [] [Alloc 2 1] t [(1, 2)] \<and> phys_wf t \<and>
     mm_free_page_count t = 61)"
proof -
  have a: "map_option fst (frame_alloc 2 tiny_phys) = Some (Some 1)" by code_simp
  then obtain t where "frame_alloc 2 tiny_phys = Some (Some 1, t)" by auto
  then have "alloc_run frame_alloc frame_release tiny_phys [] [Alloc 2 1] t [(1, 2)]" by (auto intro!: run_alloc run_nil)
  with frames_history [OF tiny_phys_wf this] tiny_phys_wf show ?thesis
    by (auto simp: mm_free_page_count_def tiny_phys_def)
qed

end
