(* ===== verification/Mm_Walk.thy ===== *)
theory Mm_Walk
  imports Mm_Phys Rtl_Status
begin

text \<open>
  Reading and editing the page tables (\<^verbatim>\<open>kernel/src/mm/virt.rs\<close>, read side and single-page operations), and
  the memory manager's state. Page tables live in \<open>ram\<close>, reached through the physical window, as in the
  source. Table addresses are page-aligned: they are allocator results, \<open>CR3\<close>, or entries cut by \<open>ADDR_MASK\<close>.

  The translation look-aside buffer is not part of the state, so the local and remote invalidations that
  follow a change of a live entry have no effect in the model. The block device answers to the pager are
  part of the state: what each request will answer is an arbitrary schedule.
\<close>

section \<open>The memory manager's state\<close>

record vad =
  vad_start :: u64
  vad_end :: u64
  vad_writable :: bool
  vad_executable :: bool

record space_vads =
  sv_pml4 :: u64
  sv_vads :: "vad list"

record blk_device =
  blk_present :: bool
  blk_sectors :: "nat \<Rightarrow> nat \<Rightarrow> u64"
  blk_answers :: "nat \<Rightarrow> bool"
  blk_requests :: nat

record mm_state = phys_state +
  cr3 :: u64
  kernel_pml4 :: u64
  geom :: "nat \<times> nat"
  slot_map :: "u64 list"
  slot_hint :: nat
  registry :: "(u64 \<times> u64) list"
  paged_out :: "(u64 \<times> u64 \<times> nat) list"
  last_slot :: "nat option"
  blk :: blk_device
  vads :: "space_vads list"

section \<open>Entries\<close>

definition ENTRY_PRESENT :: u64 where "ENTRY_PRESENT = push_bit 0 1"
definition ENTRY_RW :: u64 where "ENTRY_RW = push_bit 1 1"
definition ENTRY_USER :: u64 where "ENTRY_USER = push_bit 2 1"
definition ENTRY_LARGE :: u64 where "ENTRY_LARGE = push_bit 7 1"
definition ENTRY_NX :: u64 where "ENTRY_NX = push_bit 63 1"
definition ADDR_MASK :: u64 where "ADDR_MASK = 0x000FFFFFFFFFF000"
definition FLAG_MASK :: u64 where "FLAG_MASK = NOT ADDR_MASK"

definition pt_index :: "u64 \<Rightarrow> nat \<Rightarrow> nat" where
  "pt_index va sh = unat (drop_bit sh va AND 0x1FF)"

text \<open>Entry \<open>i\<close> of the table at physical \<open>t\<close>: as a pure read of memory, and as the code's accesses.\<close>

definition frame_of :: "u64 \<Rightarrow> nat" where
  "frame_of t = pfn_of (unat t)"

definition ent :: "ram \<Rightarrow> u64 \<Rightarrow> nat \<Rightarrow> u64" where
  "ent m t i = m (frame_of t) i"

definition set_ent :: "ram \<Rightarrow> u64 \<Rightarrow> nat \<Rightarrow> u64 \<Rightarrow> ram" where
  "set_ent m t i v = m(frame_of t := (m (frame_of t))(i := v))"

definition entry :: "'a mm_state_scheme \<Rightarrow> u64 \<Rightarrow> nat \<Rightarrow> u64 option" where
  "entry st t i = do { va \<leftarrow> phys_to_virt st (unat t); Some (ent (ram st) t i) }"

definition write_entry :: "'a mm_state_scheme \<Rightarrow> u64 \<Rightarrow> nat \<Rightarrow> u64 \<Rightarrow> 'a mm_state_scheme option" where
  "write_entry st t i v = do { va \<leftarrow> phys_to_virt st (unat t); Some (st\<lparr>ram := set_ent (ram st) t i v\<rparr>) }"

abbreviation present :: "u64 \<Rightarrow> bool" where
  "present e \<equiv> e AND ENTRY_PRESENT \<noteq> 0"

abbreviation large :: "u64 \<Rightarrow> bool" where
  "large e \<equiv> e AND ENTRY_LARGE \<noteq> 0"

definition current_pml4 :: "'a mm_state_scheme \<Rightarrow> u64" where
  "current_pml4 st = cr3 st AND ADDR_MASK"

section \<open>Walks\<close>

definition page_present_and_user :: "'a mm_state_scheme \<Rightarrow> u64 \<Rightarrow> bool option" where
  "page_present_and_user st va = do {
     let ok = (\<lambda>e. present e \<and> e AND ENTRY_USER \<noteq> 0);
     pml4e \<leftarrow> entry st (current_pml4 st) (pt_index va 39);
     if \<not> ok pml4e then Some False else do {
     pdpte \<leftarrow> entry st (pml4e AND ADDR_MASK) (pt_index va 30);
     if \<not> ok pdpte then Some False
     else if large pdpte then Some True else do {
     pde \<leftarrow> entry st (pdpte AND ADDR_MASK) (pt_index va 21);
     if \<not> ok pde then Some False
     else if large pde then Some True else do {
     pte \<leftarrow> entry st (pde AND ADDR_MASK) (pt_index va 12);
     Some (ok pte) }}}}"

definition mm_get_physical_address :: "'a mm_state_scheme \<Rightarrow> u64 \<Rightarrow> u64 option option" where
  "mm_get_physical_address st va = do {
     pml4e \<leftarrow> entry st (current_pml4 st) (pt_index va 39);
     if \<not> present pml4e then Some None else do {
     pdpte \<leftarrow> entry st (pml4e AND ADDR_MASK) (pt_index va 30);
     if \<not> present pdpte then Some None
     else if large pdpte then Some (Some ((pdpte AND ADDR_MASK AND NOT 0x3FFFFFFF) OR (va AND 0x3FFFFFFF))) else do {
     pde \<leftarrow> entry st (pdpte AND ADDR_MASK) (pt_index va 21);
     if \<not> present pde then Some None
     else if large pde then Some (Some ((pde AND ADDR_MASK AND NOT 0x1FFFFF) OR (va AND 0x1FFFFF))) else do {
     pte \<leftarrow> entry st (pde AND ADDR_MASK) (pt_index va 12);
     if \<not> present pte then Some None
     else Some (Some ((pte AND ADDR_MASK) OR (va AND 0xFFF))) }}}}"

text \<open>
  The walk to a leaf entry, shared by the single-page operations: the table and index of the entry. The
  source writes it out in \<open>leaf_pte\<close>, \<open>mm_debug_pte_in\<close> and \<open>mm_unmap_user_page_in\<close>.
\<close>

definition leaf_pte_in :: "'a mm_state_scheme \<Rightarrow> u64 \<Rightarrow> u64 \<Rightarrow> (u64 \<times> nat) option option" where
  "leaf_pte_in st pml4 va = do {
     p4 \<leftarrow> entry st pml4 (pt_index va 39);
     if \<not> present p4 then Some None else do {
     p3 \<leftarrow> entry st (p4 AND ADDR_MASK) (pt_index va 30);
     if \<not> present p3 \<or> large p3 then Some None else do {
     p2 \<leftarrow> entry st (p3 AND ADDR_MASK) (pt_index va 21);
     if \<not> present p2 \<or> large p2 then Some None
     else Some (Some (p2 AND ADDR_MASK, pt_index va 12)) }}}"

definition leaf_pte :: "'a mm_state_scheme \<Rightarrow> u64 \<Rightarrow> (u64 \<times> nat) option option" where
  "leaf_pte st va = leaf_pte_in st (current_pml4 st) va"

definition mm_unmap_user_page_in :: "u64 \<Rightarrow> u64 \<Rightarrow> 'a mm_state_scheme \<Rightarrow> (u64 option \<times> 'a mm_state_scheme) option" where
  "mm_unmap_user_page_in pml4 va st = do {
     l \<leftarrow> leaf_pte_in st pml4 va;
     (case l of
        None \<Rightarrow> Some (None, st)
      | Some (t, i) \<Rightarrow> do {
          pte \<leftarrow> entry st t i;
          if \<not> present pte then Some (None, st)
          else do {
            st \<leftarrow> write_entry st t i 0;
            Some (Some (pte AND ADDR_MASK), st)
          }
        })
   }"

definition mm_unmap_user_page :: "u64 \<Rightarrow> 'a mm_state_scheme \<Rightarrow> (u64 option \<times> 'a mm_state_scheme) option" where
  "mm_unmap_user_page va st = mm_unmap_user_page_in (current_pml4 st) va st"

definition mm_protect_user_page :: "u64 \<Rightarrow> bool \<Rightarrow> bool \<Rightarrow> 'a mm_state_scheme \<Rightarrow> 'a mm_state_scheme option" where
  "mm_protect_user_page va writable executable st = do {
     l \<leftarrow> leaf_pte st va;
     (case l of
        None \<Rightarrow> Some st
      | Some (t, i) \<Rightarrow> do {
          pte \<leftarrow> entry st t i;
          if \<not> present pte then Some st
          else write_entry st t i
            ((pte AND NOT ENTRY_RW AND NOT ENTRY_NX) OR (if writable then ENTRY_RW else 0)
              OR (if executable then 0 else ENTRY_NX))
        })
   }"

definition mm_debug_pte :: "'a mm_state_scheme \<Rightarrow> u64 \<Rightarrow> u64 option option" where
  "mm_debug_pte st va = do {
     l \<leftarrow> leaf_pte st va;
     (case l of
        None \<Rightarrow> Some None
      | Some (t, i) \<Rightarrow> do {
          pte \<leftarrow> entry st t i;
          Some (if \<not> present pte then None else Some pte)
        })
   }"

definition mm_debug_pte_in :: "'a mm_state_scheme \<Rightarrow> u64 \<Rightarrow> u64 \<Rightarrow> u64 option option" where
  "mm_debug_pte_in st pml4 va = do {
     l \<leftarrow> leaf_pte_in st pml4 va;
     (case l of
        None \<Rightarrow> Some None
      | Some (t, i) \<Rightarrow> map_option Some (entry st t i))
   }"

section \<open>The translation as a function of memory\<close>

text \<open>
  The level-by-level walk that \<open>mm_get_physical_address\<close> unrolls, from a table of level \<open>n\<close>: 3 for a PML4, 0
  for a page table. At levels 1 and 2 an entry may be a large leaf.
\<close>

fun walk :: "ram \<Rightarrow> u64 \<Rightarrow> nat \<Rightarrow> u64 \<Rightarrow> u64 option" where
  "walk m t 0 va =
     (let e = ent m t (pt_index va 12) in
      if present e then Some ((e AND ADDR_MASK) OR (va AND mask 12)) else None)"
| "walk m t (Suc n) va =
     (let e = ent m t (pt_index va (12 + 9 * Suc n)) in
      if \<not> present e then None
      else if large e \<and> n < 2 then Some ((e AND ADDR_MASK AND NOT (mask (12 + 9 * Suc n))) OR (va AND mask (12 + 9 * Suc n)))
      else walk m (e AND ADDR_MASK) n va)"

text \<open>The child tables of a table, the frames of all tables below it, and that they form a tree.\<close>

definition child_at :: "ram \<Rightarrow> u64 \<Rightarrow> nat \<Rightarrow> nat \<Rightarrow> bool" where
  "child_at m t n i \<longleftrightarrow> i < 512 \<and> present (ent m t i) \<and> \<not> (large (ent m t i) \<and> n < 2)"

definition child :: "ram \<Rightarrow> u64 \<Rightarrow> nat \<Rightarrow> u64" where
  "child m t i = ent m t i AND ADDR_MASK"

fun tables :: "ram \<Rightarrow> u64 \<Rightarrow> nat \<Rightarrow> nat set" where
  "tables m t 0 = {frame_of t}"
| "tables m t (Suc n) = insert (frame_of t) (\<Union>i \<in> {i. child_at m t n i}. tables m (child m t i) n)"

fun pt_tree :: "ram \<Rightarrow> u64 \<Rightarrow> nat \<Rightarrow> bool" where
  "pt_tree m t 0 \<longleftrightarrow> True"
| "pt_tree m t (Suc n) \<longleftrightarrow>
     (\<forall>i. child_at m t n i \<longrightarrow> pt_tree m (child m t i) n \<and> frame_of t \<notin> tables m (child m t i) n) \<and>
     (\<forall>i j. child_at m t n i \<longrightarrow> child_at m t n j \<longrightarrow> i \<noteq> j \<longrightarrow>
        tables m (child m t i) n \<inter> tables m (child m t j) n = {})"

fun leaf_at :: "ram \<Rightarrow> u64 \<Rightarrow> nat \<Rightarrow> u64 \<Rightarrow> (u64 \<times> nat) option" where
  "leaf_at m t 0 va = Some (t, pt_index va 12)"
| "leaf_at m t (Suc n) va =
     (let i = pt_index va (12 + 9 * Suc n) in if child_at m t n i then leaf_at m (child m t i) n va else None)"

text \<open>Two addresses that every level of the walk treats alike.\<close>

fun same_page :: "nat \<Rightarrow> u64 \<Rightarrow> u64 \<Rightarrow> bool" where
  "same_page 0 va va' \<longleftrightarrow> pt_index va 12 = pt_index va' 12"
| "same_page (Suc n) va va' \<longleftrightarrow> pt_index va (12 + 9 * Suc n) = pt_index va' (12 + 9 * Suc n) \<and> same_page n va va'"

lemma pt_index_less [simp]: "pt_index va sh < 512"
proof -
  have "drop_bit sh va AND 0x1FF = take_bit 9 (drop_bit sh va)"
    by (simp add: take_bit_eq_mask mask_eq_exp_minus_1)
  then have "pt_index va sh = take_bit 9 (unat (drop_bit sh va))"
    by (simp add: pt_index_def unsigned_take_bit_eq)
  then show ?thesis by (simp add: take_bit_nat_less_exp [of 9, simplified])
qed

lemma ent_set_ent:
  "ent (set_ent m t i v) u j = (if frame_of u = frame_of t \<and> j = i then v else ent m u j)"
  by (simp add: ent_def set_ent_def)

lemma set_ent_other: "p \<noteq> frame_of t \<Longrightarrow> set_ent m t i v p = m p"
  by (simp add: set_ent_def)

lemma frame_in_tables [simp]: "frame_of t \<in> tables m t n"
  by (cases n) auto

text \<open>A walk depends only on the tables it can reach.\<close>

lemma child_agree:
  assumes "m' (frame_of t) = m (frame_of t)"
  shows "child_at m' t n = child_at m t n" "child m' t = child m t"
  using assms by (simp_all add: fun_eq_iff child_at_def child_def ent_def)

lemma tables_frame:
  assumes "\<forall>p \<in> tables m t n. m' p = m p"
  shows "tables m' t n = tables m t n"
  using assms
proof (induction n arbitrary: t)
  case (Suc n)
  then have r: "m' (frame_of t) = m (frame_of t)" by simp
  have "tables m' (child m t i) n = tables m (child m t i) n" if "child_at m t n i" for i
    by (rule Suc.IH) (use Suc.prems that in auto)
  then show ?case by (auto simp: child_agree [of m' t m, OF r])
qed simp

lemma pt_tree_frame:
  assumes "\<forall>p \<in> tables m t n. m' p = m p"
  shows "pt_tree m' t n = pt_tree m t n"
  using assms
proof (induction n arbitrary: t)
  case (Suc n)
  then have r: "m' (frame_of t) = m (frame_of t)" by simp
  have sub: "\<forall>p \<in> tables m (child m t i) n. m' p = m p" if "child_at m t n i" for i
    using Suc.prems that by auto
  have c: "pt_tree m' (child m t i) n = pt_tree m (child m t i) n" "tables m' (child m t i) n = tables m (child m t i) n"
    if "child_at m t n i" for i
    using Suc.IH [OF sub [OF that]] tables_frame [OF sub [OF that]] by simp_all
  show ?case by (simp add: child_agree [of m' t m, OF r] c)
qed simp

lemma walk_frame:
  assumes "\<forall>p \<in> tables m t n. m' p = m p"
  shows "walk m' t n va = walk m t n va"
  using assms
proof (induction n arbitrary: t)
  case 0
  then have "ent m' t i = ent m t i" for i by (simp add: ent_def)
  then show ?case by simp
next
  case (Suc n)
  then have r: "ent m' t i = ent m t i" for i by (simp add: ent_def)
  let ?i = "pt_index va (12 + 9 * Suc n)"
  have "walk m' (child m t ?i) n va = walk m (child m t ?i) n va" if "child_at m t n ?i"
    by (rule Suc.IH) (use Suc.prems that in auto)
  then show ?case by (auto simp: r child_at_def child_def Let_def)
qed

lemma leaf_frame:
  assumes "\<forall>p \<in> tables m t n. m' p = m p"
  shows "leaf_at m' t n va = leaf_at m t n va"
  using assms
proof (induction n arbitrary: t)
  case (Suc n)
  then have r: "m' (frame_of t) = m (frame_of t)" by simp
  let ?i = "pt_index va (12 + 9 * Suc n)"
  have "leaf_at m' (child m t ?i) n va = leaf_at m (child m t ?i) n va" if "child_at m t n ?i"
    by (rule Suc.IH) (use Suc.prems that in auto)
  then show ?case by (auto simp: child_agree [of m' t m, OF r] Let_def)
qed simp


text \<open>The frame a 4 KiB leaf maps, if the walk reaches a present one.\<close>

definition page_of :: "ram \<Rightarrow> u64 \<Rightarrow> nat \<Rightarrow> u64 \<Rightarrow> u64 option" where
  "page_of m t n va =
     (case leaf_at m t n va of
        Some (u, i) \<Rightarrow> if present (ent m u i) then Some (ent m u i AND ADDR_MASK) else None
      | None \<Rightarrow> None)"

lemma page_of_child:
  "page_of m t (Suc n) va =
     (let i = pt_index va (12 + 9 * Suc n) in if child_at m t n i then page_of m (child m t i) n va else None)"
  by (simp add: page_of_def Let_def)

lemma page_of_frame:
  assumes "\<forall>p \<in> tables m t n. m' p = m p"
  shows "page_of m' t n va = page_of m t n va"
proof (cases "leaf_at m t n va")
  case None
  then show ?thesis using leaf_frame [OF assms] by (simp add: page_of_def)
next
  case (Some a)
  then obtain u i where l: "leaf_at m t n va = Some (u, i)" by (cases a) auto
  then have "frame_of u \<in> tables m t n" by (induction n arbitrary: t) (auto simp: Let_def split: if_splits)
  with assms have "ent m' u i = ent m u i" by (simp add: ent_def)
  then show ?thesis using leaf_frame [OF assms] l by (simp add: page_of_def)
qed

text \<open>
  Writing a leaf entry: the tables, their shape and every other address's translation stay; the address whose
  leaf it is translates as the new entry says.
\<close>

definition leaf_value :: "u64 \<Rightarrow> u64 \<Rightarrow> u64 option" where
  "leaf_value e va = (if present e then Some ((e AND ADDR_MASK) OR (va AND mask 12)) else None)"

lemma leaf_at_tables: "leaf_at m t n va = Some (u, i) \<Longrightarrow> frame_of u \<in> tables m t n"
  by (induction n arbitrary: t) (auto simp: Let_def split: if_splits)

lemma leaf_at_same_page: "same_page n va va' \<Longrightarrow> leaf_at m t n va = leaf_at m t n va'"
  by (induction n arbitrary: t) (auto simp: Let_def)

lemma leaf_walk:
  "leaf_at m t n va = Some (u, i) \<Longrightarrow> walk m t n va = leaf_value (ent m u i) va"
  by (induction n arbitrary: t) (auto simp: Let_def leaf_value_def child_at_def child_def split: if_splits)

lemma leaf_write:
  assumes "pt_tree m t n" "leaf_at m t n va = Some (u, i)" and m'_def: "m' = set_ent m u i v"
  shows "tables m' t n = tables m t n \<and> pt_tree m' t n \<and> (\<forall>va'. leaf_at m' t n va' = leaf_at m t n va') \<and>
    (\<forall>va'. walk m' t n va' = (if same_page n va va' then leaf_value v va' else walk m t n va'))"
  using assms(1,2)
proof (induction n arbitrary: t)
  case 0
  then show ?case by (auto simp: m'_def ent_set_ent leaf_value_def Let_def)
next
  case (Suc n)
  let ?i = "pt_index va (12 + 9 * Suc n)"
  from Suc.prems(2) have ci: "child_at m t n ?i" and lf: "leaf_at m (child m t ?i) n va = Some (u, i)"
    by (auto simp: Let_def split: if_splits)
  have u: "frame_of u \<in> tables m (child m t ?i) n" using lf by (rule leaf_at_tables)
  from Suc.prems(1) ci u have "frame_of t \<noteq> frame_of u" by auto
  then have r: "m' (frame_of t) = m (frame_of t)" by (simp add: m'_def set_ent_other)
  note root = child_agree [of m' t m, OF r]
  have e: "ent m' t j = ent m t j" for j using r by (simp add: ent_def)
  have other: "\<forall>p \<in> tables m (child m t j) n. m' p = m p" if "child_at m t n j" "j \<noteq> ?i" for j
  proof
    fix p assume "p \<in> tables m (child m t j) n"
    moreover have "tables m (child m t j) n \<inter> tables m (child m t ?i) n = {}"
      using Suc.prems(1) ci that by auto
    ultimately have "p \<noteq> frame_of u" using u by auto
    then show "m' p = m p" by (simp add: m'_def set_ent_other)
  qed
  from Suc.prems(1) ci have "pt_tree m (child m t ?i) n" by auto
  note IH = Suc.IH [OF this lf]
  have tb: "tables m' (child m t j) n = tables m (child m t j) n" if "child_at m t n j" for j
    using IH tables_frame [OF other [OF that]] by (cases "j = ?i") auto
  have tr: "pt_tree m' (child m t j) n" if "child_at m t n j" for j
    using IH pt_tree_frame [OF other [OF that]] Suc.prems(1) that by (cases "j = ?i") auto
  have 1: "tables m' t (Suc n) = tables m t (Suc n)" by (simp add: root tb)
  have 2: "pt_tree m' t (Suc n)" using Suc.prems(1) tr by (simp add: root tb)
  have 3: "leaf_at m' t (Suc n) va' = leaf_at m t (Suc n) va'" for va'
    using IH leaf_frame [OF other] by (cases "pt_index va' (12 + 9 * Suc n) = ?i") (auto simp: root Let_def)
  have 4: "walk m' t (Suc n) va' = (if same_page (Suc n) va va' then leaf_value v va' else walk m t (Suc n) va')" for va'
  proof (cases "pt_index va' (12 + 9 * Suc n) = ?i")
    case True
    with IH ci show ?thesis by (auto simp: e child_at_def child_def Let_def)
  next
    case False
    have "walk m' (child m t j) n va' = walk m (child m t j) n va'" if "child_at m t n j" "j \<noteq> ?i" for j
      using walk_frame [OF other [OF that]] .
    with False show ?thesis by (auto simp: e child_at_def child_def Let_def)
  qed
  from 1 2 3 4 show ?case by blast
qed

section \<open>The code's walks are the walk\<close>

lemma entry_online: "phys_offset st \<noteq> 0 \<Longrightarrow> entry st t i = Some (ent (ram st) t i)"
  by (simp add: entry_def phys_to_virt_def)

lemma write_entry_online: "phys_offset st \<noteq> 0 \<Longrightarrow> write_entry st t i v = Some (st\<lparr>ram := set_ent (ram st) t i v\<rparr>)"
  by (simp add: write_entry_def phys_to_virt_def)

lemma offset_masks: "(0x3FFFFFFF :: u64) = mask 30" "(0x1FFFFF :: u64) = mask 21" "(0xFFF :: u64) = mask 12"
  by (simp_all add: mask_eq_exp_minus_1)

lemma walk_levels:
  "walk m t 3 va =
     (let pml4e = ent m t (pt_index va 39) in if \<not> present pml4e then None else
      let pdpte = ent m (pml4e AND ADDR_MASK) (pt_index va 30) in
      if \<not> present pdpte then None
      else if large pdpte then Some ((pdpte AND ADDR_MASK AND NOT (mask 30)) OR (va AND mask 30)) else
      let pde = ent m (pdpte AND ADDR_MASK) (pt_index va 21) in
      if \<not> present pde then None
      else if large pde then Some ((pde AND ADDR_MASK AND NOT (mask 21)) OR (va AND mask 21))
      else walk m (pde AND ADDR_MASK) 0 va)"
  by (simp add: numeral_3_eq_3 Let_def)

lemma mm_get_physical_address_walk:
  "phys_offset st \<noteq> 0 \<Longrightarrow> mm_get_physical_address st va = Some (walk (ram st) (current_pml4 st) 3 va)"
  unfolding mm_get_physical_address_def walk_levels offset_masks
  by (simp add: entry_online Let_def)

lemma leaf_pte_in_leaf_at:
  "phys_offset st \<noteq> 0 \<Longrightarrow> leaf_pte_in st pml4 va = Some (leaf_at (ram st) pml4 3 va)"
  by (simp add: leaf_pte_in_def entry_online numeral_3_eq_3 Let_def child_at_def child_def)

lemma mm_unmap_user_page_in_spec:
  "phys_offset st \<noteq> 0 \<Longrightarrow> mm_unmap_user_page_in pml4 va st =
     Some (case leaf_at (ram st) pml4 3 va of
        None \<Rightarrow> (None, st)
      | Some (t, i) \<Rightarrow> if present (ent (ram st) t i)
          then (Some (ent (ram st) t i AND ADDR_MASK), st\<lparr>ram := set_ent (ram st) t i 0\<rparr>) else (None, st))"
  by (auto simp: mm_unmap_user_page_in_def leaf_pte_in_leaf_at entry_online write_entry_online split: option.splits)

lemma mm_debug_pte_in_spec:
  "phys_offset st \<noteq> 0 \<Longrightarrow> mm_debug_pte_in st pml4 va =
     Some (map_option (\<lambda>(t, i). ent (ram st) t i) (leaf_at (ram st) pml4 3 va))"
  by (auto simp: mm_debug_pte_in_def leaf_pte_in_leaf_at entry_online split: option.splits)

section \<open>Pages of an address\<close>

lemma take9_eq_iff: "drop_bit sh va AND 0x1FF = take_bit 9 (drop_bit sh va)" for va :: u64
  by (simp add: take_bit_eq_mask mask_eq_exp_minus_1)

lemma pt_index_eq_iff:
  "pt_index va sh = pt_index va' sh \<longleftrightarrow> (\<forall>k. sh \<le> k \<and> k < sh + 9 \<longrightarrow> bit va k = bit va' k)"
proof -
  have aux: "(\<forall>n < 64. (n < 9 \<and> A n) = (n < 9 \<and> B n)) \<longleftrightarrow> (\<forall>j < 9. A j = B j)" for A B :: "nat \<Rightarrow> bool"
  proof
    assume all: "\<forall>n < 64. (n < 9 \<and> A n) = (n < 9 \<and> B n)"
    have "A j = B j" if j: "j < 9" for j
    proof -
      from j have "j < 64" by simp
      with all have "(j < 9 \<and> A j) = (j < 9 \<and> B j)" by blast
      with j show ?thesis by blast
    qed
    then show "\<forall>j < 9. A j = B j" by blast
  qed auto
  have "pt_index va sh = pt_index va' sh \<longleftrightarrow> take_bit 9 (drop_bit sh va) = take_bit 9 (drop_bit sh va')"
    by (simp add: pt_index_def take9_eq_iff word_unat_eq_iff)
  also have "\<dots> \<longleftrightarrow> (\<forall>j < 9. bit va (sh + j) = bit va' (sh + j))"
    by (simp add: bit_eq_iff bit_take_bit_iff bit_drop_bit_eq aux)
  also have "\<dots> \<longleftrightarrow> (\<forall>k. sh \<le> k \<and> k < sh + 9 \<longrightarrow> bit va k = bit va' k)"
    by (metis add_less_cancel_left le_add1 le_Suc_ex)
  finally show ?thesis .
qed

lemma same_page_iff: "same_page 3 va va' \<longleftrightarrow> (\<forall>k. 12 \<le> k \<and> k < 48 \<longrightarrow> bit va k = bit va' k)"
proof -
  have split: "12 \<le> k \<and> k < 48 \<longleftrightarrow> (12 \<le> k \<and> k < 21) \<or> (21 \<le> k \<and> k < 30) \<or> (30 \<le> k \<and> k < 39) \<or> (39 \<le> k \<and> k < 48)"
    for k :: nat by auto
  have "same_page 3 va va' \<longleftrightarrow> pt_index va 39 = pt_index va' 39 \<and> pt_index va 30 = pt_index va' 30 \<and>
      pt_index va 21 = pt_index va' 21 \<and> pt_index va 12 = pt_index va' 12"
    by (simp add: numeral_3_eq_3)
  then show ?thesis
    unfolding split imp_disjL all_conj_distrib by (simp add: pt_index_eq_iff conj_ac)
qed

lemma same_page_sym: "same_page n va va' = same_page n va' va"
  by (induction n) auto

lemma same_page_refl [simp]: "same_page n va va"
  by (induction n) auto

text \<open>Distinct pages have distinct leaf entries.\<close>

lemma leaf_at_inj:
  assumes "pt_tree m t n" "leaf_at m t n va = Some (u, i)" "leaf_at m t n va' = Some (u', i)" "frame_of u' = frame_of u"
  shows "same_page n va va'"
  using assms
proof (induction n arbitrary: t)
  case (Suc n)
  let ?i = "pt_index va (12 + 9 * Suc n)" and ?j = "pt_index va' (12 + 9 * Suc n)"
  from Suc.prems have c: "child_at m t n ?i" "leaf_at m (child m t ?i) n va = Some (u, i)"
    "child_at m t n ?j" "leaf_at m (child m t ?j) n va' = Some (u', i)"
    by (auto simp: Let_def split: if_splits)
  have "?i = ?j"
  proof (rule ccontr)
    assume "?i \<noteq> ?j"
    then have "tables m (child m t ?i) n \<inter> tables m (child m t ?j) n = {}" using Suc.prems(1) c by auto
    with leaf_at_tables [OF c(2)] leaf_at_tables [OF c(4)] Suc.prems(4) show False by auto
  qed
  moreover have "same_page n va va'"
    by (rule Suc.IH [of "child m t ?i"]) (use Suc.prems c calculation in auto)
  ultimately show ?case by simp
qed auto

lemma leaf_write_other_entry:
  assumes "pt_tree m t n" "leaf_at m t n va = Some (u, i)" "leaf_at m t n va' = Some (u', i')" "\<not> same_page n va va'"
  shows "ent (set_ent m u i v) u' i' = ent m u' i'"
  using leaf_at_inj [OF assms(1,2), of va' u'] assms(3,4) by (auto simp: ent_set_ent)

definition leaf_entry :: "ram \<Rightarrow> u64 \<Rightarrow> u64 \<Rightarrow> u64 option" where
  "leaf_entry m pml4 va = map_option (\<lambda>(t, i). ent m t i) (leaf_at m pml4 3 va)"

lemma leaf_entry_write:
  assumes "pt_tree m t 3" "leaf_at m t 3 va = Some (u, i)"
  shows "leaf_entry (set_ent m u i v) t va' = (if same_page 3 va va' then Some v else leaf_entry m t va')"
proof -
  from leaf_write [OF assms refl, of v] have lf: "leaf_at (set_ent m u i v) t 3 va' = leaf_at m t 3 va'" by blast
  show ?thesis
  proof (cases "same_page 3 va va'")
    case True
    with assms(2) leaf_at_same_page [OF True, of m t] lf show ?thesis
      by (simp add: leaf_entry_def ent_set_ent)
  next
    case False
    then show ?thesis
      using lf leaf_write_other_entry [OF assms _ False, of _ _ v]
      by (cases "leaf_at m t 3 va'") (auto simp: leaf_entry_def)
  qed
qed

lemma bit_ENTRY:
  "bit ENTRY_PRESENT k \<longleftrightarrow> k = 0" "bit ENTRY_RW k \<longleftrightarrow> k = 1" "bit ENTRY_USER k \<longleftrightarrow> k = 2"
  "bit ENTRY_LARGE k \<longleftrightarrow> k = 7" "bit ENTRY_NX k \<longleftrightarrow> k = 63"
  unfolding ENTRY_PRESENT_def ENTRY_RW_def ENTRY_USER_def ENTRY_LARGE_def ENTRY_NX_def push_bit_of_1 bit_exp_iff
  by auto

text \<open>The protection bits lie outside the address and the present bit.\<close>

lemma protect_keeps:
  "((e AND NOT ENTRY_RW AND NOT ENTRY_NX) OR (if w then ENTRY_RW else 0) OR (if x then 0 else ENTRY_NX)) AND ADDR_MASK = e AND ADDR_MASK"
  "((e AND NOT ENTRY_RW AND NOT ENTRY_NX) OR (if w then ENTRY_RW else 0) OR (if x then 0 else ENTRY_NX)) AND ENTRY_PRESENT = e AND ENTRY_PRESENT"
proof -
  have m: "NOT ENTRY_RW AND NOT ENTRY_NX AND ADDR_MASK = ADDR_MASK" "ENTRY_RW AND ADDR_MASK = 0" "ENTRY_NX AND ADDR_MASK = 0"
    "NOT ENTRY_RW AND NOT ENTRY_NX AND ENTRY_PRESENT = ENTRY_PRESENT" "ENTRY_RW AND ENTRY_PRESENT = 0" "ENTRY_NX AND ENTRY_PRESENT = 0"
    by code_simp+
  show "((e AND NOT ENTRY_RW AND NOT ENTRY_NX) OR (if w then ENTRY_RW else 0) OR (if x then 0 else ENTRY_NX)) AND ADDR_MASK = e AND ADDR_MASK"
    "((e AND NOT ENTRY_RW AND NOT ENTRY_NX) OR (if w then ENTRY_RW else 0) OR (if x then 0 else ENTRY_NX)) AND ENTRY_PRESENT = e AND ENTRY_PRESENT"
    by (simp_all add: bit.conj_disj_distrib2 and.assoc m)
qed

section \<open>A small address space\<close>

text \<open>One mapped page, at address 0 and frame 5, under tables in frames 1 to 4; used to exhibit states below.\<close>

definition demo_ram :: ram where
  "demo_ram = (\<lambda>p i. if i = 0 \<and> 1 \<le> p \<and> p \<le> 4 then of_nat ((p + 1) * 4096 + 7) else if p = 5 then 42 else 0)"

definition demo_mm :: mm_state where
  "demo_mm = \<lparr>phys_offset = 1,
     pfn_db = \<lparr>pfn_bitmap = Some \<lparr>words = [0x3F], size_in_bits = 64\<rparr>, pfn_hint = 0, total_pages = 64, free_pages = 58\<rparr>,
     ram = demo_ram, cr3 = 0x1000, kernel_pml4 = 0x1000, geom = (0, 8), slot_map = [0], slot_hint = 0,
     registry = [], paged_out = [], last_slot = None,
     blk = \<lparr>blk_present = True, blk_sectors = (\<lambda>_ _. 0), blk_answers = (\<lambda>_. True), blk_requests = 0\<rparr>, vads = []\<rparr>"

lemma demo_children:
  "child_at demo_ram 0x1000 (Suc (Suc 0)) = (\<lambda>i. i = 0)" "child_at demo_ram 0x2000 (Suc 0) = (\<lambda>i. i = 0)" "child_at demo_ram 0x3000 0 = (\<lambda>i. i = 0)"
  "child demo_ram 0x1000 0 = 0x2000" "child demo_ram 0x2000 0 = 0x3000" "child demo_ram 0x3000 0 = 0x4000"
proof -
  have f: "frame_of 0x1000 = 1" "frame_of 0x2000 = 2" "frame_of 0x3000 = 3"
    by (simp_all add: frame_of_def pfn_of_def PAGE_SIZE_def)
  have e: "ent demo_ram 0x1000 i = (if i = 0 then 0x2007 else 0)" "ent demo_ram 0x2000 i = (if i = 0 then 0x3007 else 0)"
    "ent demo_ram 0x3000 i = (if i = 0 then 0x4007 else 0)" for i
    by (simp_all add: ent_def f demo_ram_def)
  have p: "present 0x2007" "present 0x3007" "present 0x4007" "(0x3007 :: u64) AND ENTRY_LARGE = 0" "(0x4007 :: u64) AND ENTRY_LARGE = 0"
    "(0x2007 :: u64) AND ADDR_MASK = 0x2000" "(0x3007 :: u64) AND ADDR_MASK = 0x3000" "(0x4007 :: u64) AND ADDR_MASK = 0x4000"
    by code_simp+
  show "child_at demo_ram 0x1000 (Suc (Suc 0)) = (\<lambda>i. i = 0)" "child_at demo_ram 0x2000 (Suc 0) = (\<lambda>i. i = 0)"
    "child_at demo_ram 0x3000 0 = (\<lambda>i. i = 0)"
    "child demo_ram 0x1000 0 = 0x2000" "child demo_ram 0x2000 0 = 0x3000" "child demo_ram 0x3000 0 = 0x4000"
    by (auto simp: fun_eq_iff child_at_def child_def e p)
qed

lemma demo_frames: "frame_of 0x1000 = 1" "frame_of 0x2000 = 2" "frame_of 0x3000 = 3" "frame_of 0x4000 = 4" "frame_of 0x5000 = 5"
  by (simp_all add: frame_of_def pfn_of_def PAGE_SIZE_def)

lemma demo_tree: "pt_tree demo_ram 0x1000 3"
  by (simp add: numeral_3_eq_3 demo_children demo_frames)

lemma demo_leaf: "leaf_at demo_ram 0x1000 3 0 = Some (0x4000, 0)"
  by (simp add: numeral_3_eq_3 demo_children pt_index_def)

lemma demo_leaf_entry: "leaf_entry demo_ram 0x1000 0 = Some 0x5007"
  by (simp add: leaf_entry_def demo_leaf ent_def demo_frames) (simp add: demo_ram_def)

section \<open>Properties\<close>

text \<open>
  C15. Unmapping a page in an address space whose tables form a tree never panics and is exact: it returns the
  frame the page mapped, or \<open>None\<close> when the page had no leaf, changing nothing; afterwards the page has no
  translation, and the leaf entry and the translation of every other page are what they were.
\<close>

theorem mm_unmap_user_page_in_correct:
  assumes "phys_offset st \<noteq> 0" "pt_tree (ram st) pml4 3"
  shows "\<exists>r st'. mm_unmap_user_page_in pml4 va st = Some (r, st') \<and> pt_tree (ram st') pml4 3 \<and>
    (case leaf_entry (ram st) pml4 va of
       Some e \<Rightarrow> if present e
         then r = Some (e AND ADDR_MASK) \<and> walk (ram st') pml4 3 va = None \<and>
           (\<forall>va'. \<not> same_page 3 va va' \<longrightarrow> walk (ram st') pml4 3 va' = walk (ram st) pml4 3 va' \<and>
              leaf_entry (ram st') pml4 va' = leaf_entry (ram st) pml4 va')
         else r = None \<and> st' = st
     | None \<Rightarrow> r = None \<and> st' = st)"
proof (cases "leaf_at (ram st) pml4 3 va")
  case None
  with assms show ?thesis by (simp add: mm_unmap_user_page_in_spec leaf_entry_def)
next
  case (Some p)
  then obtain t i where l: "leaf_at (ram st) pml4 3 va = Some (t, i)" by (cases p) auto
  note w = leaf_write [OF assms(2) l refl, of 0] and lw = leaf_entry_write [OF assms(2) l, of 0]
  show ?thesis
  proof (cases "present (ent (ram st) t i)")
    case True
    with assms l w lw show ?thesis by (simp add: mm_unmap_user_page_in_spec leaf_entry_def leaf_value_def)
  next
    case False
    with assms l show ?thesis by (simp add: mm_unmap_user_page_in_spec leaf_entry_def)
  qed
qed

theorem mm_unmap_user_page_in_witness:
  "phys_offset demo_mm \<noteq> 0 \<and> pt_tree (ram demo_mm) 0x1000 3 \<and>
   (\<exists>st'. mm_unmap_user_page_in 0x1000 0 demo_mm = Some (Some 0x5000, st') \<and> walk (ram st') 0x1000 3 0 = None)"
proof -
  have d: "phys_offset demo_mm \<noteq> 0" "ram demo_mm = demo_ram" by (simp_all add: demo_mm_def)
  have "present 0x5007" "(0x5007 :: u64) AND ADDR_MASK = 0x5000" by code_simp+
  then show ?thesis
    using mm_unmap_user_page_in_correct [of demo_mm "0x1000" 0] d demo_tree demo_leaf_entry by auto
qed

text \<open>
  Changing the protection of a page of the current address space never panics, leaves the translation of
  every address alone, sets exactly the write and no-execute bits of that page's leaf as asked, and touches no
  other page's leaf; a page without a present leaf is left alone.
\<close>

theorem mm_protect_user_page_correct:
  assumes "phys_offset st \<noteq> 0" "pt_tree (ram st) (current_pml4 st) 3"
  shows "\<exists>st'. mm_protect_user_page va w x st = Some st' \<and> pt_tree (ram st') (current_pml4 st) 3 \<and>
    (\<forall>va'. walk (ram st') (current_pml4 st) 3 va' = walk (ram st) (current_pml4 st) 3 va') \<and>
    (\<forall>va'. \<not> same_page 3 va va' \<longrightarrow>
       leaf_entry (ram st') (current_pml4 st) va' = leaf_entry (ram st) (current_pml4 st) va') \<and>
    (case leaf_entry (ram st) (current_pml4 st) va of
       Some e \<Rightarrow> if present e
         then (\<exists>e'. leaf_entry (ram st') (current_pml4 st) va = Some e' \<and>
           (\<forall>k. bit e' k \<longleftrightarrow> (if k = 1 then w else if k = 63 then \<not> x else bit e k)))
         else st' = st
     | None \<Rightarrow> st' = st)"
proof (cases "leaf_at (ram st) (current_pml4 st) 3 va")
  case None
  with assms show ?thesis
    by (simp add: mm_protect_user_page_def leaf_pte_def leaf_pte_in_leaf_at leaf_entry_def)
next
  case (Some p)
  then obtain t i where l: "leaf_at (ram st) (current_pml4 st) 3 va = Some (t, i)" by (cases p) auto
  let ?e = "ent (ram st) t i"
  define e' where "e' = (?e AND NOT ENTRY_RW AND NOT ENTRY_NX) OR (if w then ENTRY_RW else 0) OR (if x then 0 else ENTRY_NX)"
  note wr = leaf_write [OF assms(2) l refl, of e'] and lw = leaf_entry_write [OF assms(2) l, of e']
  have le: "leaf_entry (ram st) (current_pml4 st) va = Some ?e" by (simp add: leaf_entry_def l)
  show ?thesis
  proof (cases "present ?e")
    case True
    have bits: "\<forall>k. bit e' k \<longleftrightarrow> (if k = 1 then w else if k = 63 then \<not> x else bit ?e k)"
      by (auto simp: e'_def bit_or_iff bit_and_iff bit_not_iff bit_ENTRY dest: bit_imp_le_length)
    have keep: "e' AND ADDR_MASK = ?e AND ADDR_MASK" "present e'"
      using True by (simp_all add: e'_def protect_keeps)
    have "walk (ram st) (current_pml4 st) 3 va' = leaf_value e' va'" if "same_page 3 va va'" for va'
      using leaf_walk [of "ram st" "current_pml4 st" 3 va' t i] leaf_at_same_page [OF that, of "ram st"] l keep True
      by (simp add: leaf_value_def)
    moreover have "mm_protect_user_page va w x st = Some (st\<lparr>ram := set_ent (ram st) t i e'\<rparr>)"
      using assms l True
      by (simp add: mm_protect_user_page_def leaf_pte_def leaf_pte_in_leaf_at entry_online write_entry_online e'_def)
    ultimately show ?thesis
      using wr lw bits True le by simp
  next
    case False
    with assms l show ?thesis
      by (simp add: mm_protect_user_page_def leaf_pte_def leaf_pte_in_leaf_at entry_online leaf_entry_def)
  qed
qed

theorem mm_protect_user_page_witness:
  "phys_offset demo_mm \<noteq> 0 \<and> pt_tree (ram demo_mm) (current_pml4 demo_mm) 3 \<and>
   (\<exists>st'. mm_protect_user_page 0 False True demo_mm = Some st' \<and> walk (ram st') 0x1000 3 0 = walk (ram demo_mm) 0x1000 3 0)"
proof -
  have "current_pml4 demo_mm = 0x1000" "phys_offset demo_mm \<noteq> 0" "ram demo_mm = demo_ram"
    by (simp_all add: demo_mm_def current_pml4_def ADDR_MASK_def)
  then show ?thesis
    using mm_protect_user_page_correct [of demo_mm 0 False True] demo_tree by auto
qed

end
