(* ===== verification/Mm_Pageout.thy ===== *)
theory Mm_Pageout
  imports Mm_Walk
begin

text \<open>
  The page-out engine (\<^verbatim>\<open>kernel/src/mm/pageout.rs\<close>): the pagefile slot allocator, the transfers of a page to
  and from its slot, the working-set registry and the record of paged-out pages, and eviction; and the
  contiguous allocator of \<^verbatim>\<open>mm/phys.rs\<close> that asks the pager for frames when the first search fails. The fault
  path \<open>page_in\<close>, which maps pages, is in \<open>Mm_Map\<close>.

  The virtio block device is the state's \<open>blk\<close>: request \<open>k\<close> succeeds exactly when \<open>blk_answers\<close> says so. A
  failed request changes neither memory nor the disk. Slot numbers are 32-bit; the arithmetic that could
  overflow is checked, as the kernel's dev profile does.
\<close>

section \<open>Slots\<close>

definition SECTORS_PER_PAGE :: nat where "SECTORS_PER_PAGE = 8"

definition slot_count :: "'a mm_state_scheme \<Rightarrow> nat" where "slot_count st = snd (geom st)"

definition base_sector :: "'a mm_state_scheme \<Rightarrow> nat" where "base_sector st = fst (geom st)"

fun slot_scan :: "u64 list \<Rightarrow> nat \<Rightarrow> nat \<Rightarrow> nat list \<Rightarrow> nat option option" where
  "slot_scan mp hint n [] = Some None"
| "slot_scan mp hint n (i # is) = do {
     require (hint + i < 2 ^ 32);
     let s = (hint + i) mod n;
     w \<leftarrow> idx mp (s div 64);
     if w AND push_bit (s mod 64) 1 = 0 then Some (Some s) else slot_scan mp hint n is
   }"

definition slot_alloc :: "'a mm_state_scheme \<Rightarrow> (nat option \<times> 'a mm_state_scheme) option" where
  "slot_alloc st =
     (let n = slot_count st in
      if n = 0 then Some (None, st)
      else do {
        r \<leftarrow> slot_scan (slot_map st) (slot_hint st) n [0..<n];
        (case r of
           None \<Rightarrow> Some (None, st)
         | Some s \<Rightarrow> do {
             w \<leftarrow> idx (slot_map st) (s div 64);
             mp \<leftarrow> upd (slot_map st) (s div 64) (w OR push_bit (s mod 64) 1);
             require (s + 1 < 2 ^ 32);
             Some (Some s, st\<lparr>slot_map := mp, slot_hint := s + 1\<rparr>)
           })
      })"

definition slot_free :: "nat \<Rightarrow> 'a mm_state_scheme \<Rightarrow> 'a mm_state_scheme option" where
  "slot_free slot st = do {
     w \<leftarrow> idx (slot_map st) (slot div 64);
     mp \<leftarrow> upd (slot_map st) (slot div 64) (w AND NOT (push_bit (slot mod 64) 1));
     Some (st\<lparr>slot_map := mp, slot_hint := min (slot_hint st) slot\<rparr>)
   }"

section \<open>Transfers\<close>

text \<open>One request to the block device, as its driver reports it.\<close>

definition blk_request :: "'a mm_state_scheme \<Rightarrow> bool \<times> 'a mm_state_scheme" where
  "blk_request st = (blk_answers (blk st) (blk_requests (blk st)), st\<lparr>blk := (blk st)\<lparr>blk_requests := Suc (blk_requests (blk st))\<rparr>\<rparr>)"

definition write_sector :: "nat \<Rightarrow> (nat \<Rightarrow> u64) \<Rightarrow> 'a mm_state_scheme \<Rightarrow> bool \<times> 'a mm_state_scheme" where
  "write_sector lba data st =
     (if \<not> blk_present (blk st) then (False, st)
      else let (ok, st') = blk_request st in
        (ok, if ok then st'\<lparr>blk := (blk st')\<lparr>blk_sectors := (blk_sectors (blk st'))(lba := data)\<rparr>\<rparr> else st'))"

definition read_sector :: "nat \<Rightarrow> 'a mm_state_scheme \<Rightarrow> (nat \<Rightarrow> u64) option \<times> 'a mm_state_scheme" where
  "read_sector lba st =
     (if \<not> blk_present (blk st) then (None, st)
      else let (ok, st') = blk_request st in (if ok then Some (blk_sectors (blk st') lba) else None, st'))"

text \<open>Sector \<open>i\<close> of a page is its qwords \<open>64 i\<close> to \<open>64 i + 63\<close>.\<close>

fun write_page_loop :: "nat list \<Rightarrow> nat \<Rightarrow> u64 \<Rightarrow> 'a mm_state_scheme \<Rightarrow> bool \<times> 'a mm_state_scheme" where
  "write_page_loop [] slot pa st = (True, st)"
| "write_page_loop (i # is) slot pa st =
     (let (ok, st') = write_sector (base_sector st + slot * SECTORS_PER_PAGE + i) (\<lambda>k. ent (ram st) pa (i * 64 + k)) st in
      if \<not> ok then (False, st') else write_page_loop is slot pa st')"

definition write_page :: "nat \<Rightarrow> u64 \<Rightarrow> 'a mm_state_scheme \<Rightarrow> (bool \<times> 'a mm_state_scheme) option" where
  "write_page slot pa st = do {
     va \<leftarrow> phys_to_virt st (unat pa);
     Some (write_page_loop [0..<SECTORS_PER_PAGE] slot pa st)
   }"

definition fill_sector :: "ram \<Rightarrow> u64 \<Rightarrow> nat \<Rightarrow> (nat \<Rightarrow> u64) \<Rightarrow> ram" where
  "fill_sector m pa i data =
     m(frame_of pa := (\<lambda>j. if i * 64 \<le> j \<and> j < (i + 1) * 64 then data (j - i * 64) else m (frame_of pa) j))"

fun read_page_loop :: "nat list \<Rightarrow> nat \<Rightarrow> u64 \<Rightarrow> 'a mm_state_scheme \<Rightarrow> bool \<times> 'a mm_state_scheme" where
  "read_page_loop [] slot pa st = (True, st)"
| "read_page_loop (i # is) slot pa st =
     (let (r, st') = read_sector (base_sector st + slot * SECTORS_PER_PAGE + i) st in
      case r of
        None \<Rightarrow> (False, st')
      | Some data \<Rightarrow> read_page_loop is slot pa (st'\<lparr>ram := fill_sector (ram st') pa i data\<rparr>))"

definition read_page :: "nat \<Rightarrow> u64 \<Rightarrow> 'a mm_state_scheme \<Rightarrow> (bool \<times> 'a mm_state_scheme) option" where
  "read_page slot pa st = do {
     va \<leftarrow> phys_to_virt st (unat pa);
     Some (read_page_loop [0..<SECTORS_PER_PAGE] slot pa st)
   }"

section \<open>The registry and the paged-out records\<close>

definition REG_CAP :: nat where "REG_CAP = 8192"
definition MAP_CAP :: nat where "MAP_CAP = 2048"

definition pageout_init :: "nat \<Rightarrow> nat \<Rightarrow> 'a mm_state_scheme \<Rightarrow> 'a mm_state_scheme" where
  "pageout_init base slots st = st\<lparr>geom := (base, slots), slot_map := replicate ((slots + 63) div 64) 0\<rparr>"

definition online :: "'a mm_state_scheme \<Rightarrow> bool" where
  "online st \<longleftrightarrow> slot_count st \<noteq> 0"

definition last_evicted_slot :: "'a mm_state_scheme \<Rightarrow> nat option" where
  "last_evicted_slot st = last_slot st"

text \<open>The scans that drop records, releasing their slots.\<close>

fun drop_records :: "(u64 \<times> u64 \<times> nat \<Rightarrow> bool) \<Rightarrow> (u64 \<times> u64 \<times> nat) list \<Rightarrow> 'a mm_state_scheme \<Rightarrow>
    ((u64 \<times> u64 \<times> nat) list \<times> 'a mm_state_scheme) option" where
  "drop_records P [] st = Some ([], st)"
| "drop_records P (r # rs) st =
     (if P r then do { st \<leftarrow> slot_free (snd (snd r)) st; drop_records P rs st }
      else do { (kept, st) \<leftarrow> drop_records P rs st; Some (r # kept, st) })"

definition drop_process :: "u64 \<Rightarrow> 'a mm_state_scheme \<Rightarrow> 'a mm_state_scheme option" where
  "drop_process c st = do {
     let st = st\<lparr>registry := filter (\<lambda>(c', _). c' \<noteq> c) (registry st)\<rparr>;
     (kept, st) \<leftarrow> drop_records (\<lambda>(c', _, _). c' = c) (paged_out st) st;
     Some (st\<lparr>paged_out := kept\<rparr>)
   }"

definition drop_range :: "u64 \<Rightarrow> u64 \<Rightarrow> u64 \<Rightarrow> 'a mm_state_scheme \<Rightarrow> 'a mm_state_scheme option" where
  "drop_range c base len st = do {
     let end' = saturating_add base len;
     (kept, st) \<leftarrow> drop_records (\<lambda>(c', va, _). c' = c \<and> base \<le> va \<and> va < end') (paged_out st) st;
     Some (st\<lparr>paged_out := kept\<rparr>)
   }"

fun take_record :: "u64 \<Rightarrow> u64 \<Rightarrow> (u64 \<times> u64 \<times> nat) list \<Rightarrow> (nat \<times> (u64 \<times> u64 \<times> nat) list) option" where
  "take_record c va [] = None"
| "take_record c va (r # rs) =
     (if fst r = c \<and> fst (snd r) = va then Some (snd (snd r), rs)
      else map_option (\<lambda>(slot, rest). (slot, r # rest)) (take_record c va rs))"

definition paged_out_take :: "u64 \<Rightarrow> u64 \<Rightarrow> 'a mm_state_scheme \<Rightarrow> nat option \<times> 'a mm_state_scheme" where
  "paged_out_take c va st =
     (case take_record c va (paged_out st) of
        None \<Rightarrow> (None, st)
      | Some (slot, rest) \<Rightarrow> (Some slot, st\<lparr>paged_out := rest\<rparr>))"

section \<open>Eviction\<close>

text \<open>The second half of \<open>evict\<close>, with the slot in hand: write, unmap, record, free.\<close>

definition evict_to_slot :: "u64 \<Rightarrow> u64 \<Rightarrow> u64 \<Rightarrow> nat \<Rightarrow> 'a mm_state_scheme \<Rightarrow> (nat \<times> 'a mm_state_scheme) option" where
  "evict_to_slot c va pa slot st = do {
     (ok, st) \<leftarrow> write_page slot pa st;
     if \<not> ok then do { st \<leftarrow> slot_free slot st; Some (0, st) }
     else do {
       (unmapped, st) \<leftarrow> mm_unmap_user_page_in c va st;
       if unmapped \<noteq> Some pa then do { st \<leftarrow> slot_free slot st; Some (0, st) }
       else if length (paged_out st) \<ge> MAP_CAP then do { st \<leftarrow> slot_free slot st; Some (0, st) }
       else do {
         let st = st\<lparr>paged_out := paged_out st @ [(c, va, slot)], last_slot := Some slot\<rparr>;
         st \<leftarrow> mm_free_contiguous_pages (unat pa) 1 st;
         Some (1, st)
       }
     }
   }"

definition evict :: "u64 \<Rightarrow> u64 \<Rightarrow> 'a mm_state_scheme \<Rightarrow> (nat \<times> 'a mm_state_scheme) option" where
  "evict c va st = do {
     l \<leftarrow> mm_debug_pte_in st c va;
     (case l of
        None \<Rightarrow> Some (0, st)
      | Some pte \<Rightarrow>
          if pte AND 1 = 0 then Some (0, st)
          else do {
            let pa = pte AND 0x000FFFFFFFFFF000;
            (s, st) \<leftarrow> slot_alloc st;
            (case s of
               None \<Rightarrow> Some (0, st)
             | Some slot \<Rightarrow> evict_to_slot c va pa slot st)
          })
   }"

fun evict_loop :: "(u64 \<times> u64) list \<Rightarrow> nat \<Rightarrow> nat \<Rightarrow> 'a mm_state_scheme \<Rightarrow> (nat \<times> 'a mm_state_scheme) option" where
  "evict_loop [] n freed st = Some (freed, st)"
| "evict_loop ((c, va) # reg) n freed st =
     (if freed < n then do {
        (k, st) \<leftarrow> evict c va (st\<lparr>registry := reg\<rparr>);
        evict_loop reg n (freed + k) st
      } else Some (freed, st))"

definition evict_some :: "nat \<Rightarrow> 'a mm_state_scheme \<Rightarrow> (nat \<times> 'a mm_state_scheme) option" where
  "evict_some n st = evict_loop (registry st) n 0 st"

definition register_page :: "u64 \<Rightarrow> u64 \<Rightarrow> 'a mm_state_scheme \<Rightarrow> 'a mm_state_scheme option" where
  "register_page c va st =
     (if length (registry st) < REG_CAP then Some (st\<lparr>registry := registry st @ [(c, va)]\<rparr>)
      else case registry st of
        [] \<Rightarrow> Some st
      | (vc, vva) # reg \<Rightarrow> do {
          (k, st) \<leftarrow> evict vc vva (st\<lparr>registry := reg\<rparr>);
          Some (st\<lparr>registry := registry st @ [(c, va)]\<rparr>)
        })"

definition mm_allocate_contiguous_pages :: "nat \<Rightarrow> 'a mm_state_scheme \<Rightarrow> (nat option \<times> 'a mm_state_scheme) option" where
  "mm_allocate_contiguous_pages count st = do {
     (r, st) \<leftarrow> try_alloc count st;
     (case r of
        Some pa \<Rightarrow> Some (Some pa, st)
      | None \<Rightarrow>
          if online st then do {
            (k, st) \<leftarrow> evict_some count st;
            if k > 0 then try_alloc count st else Some (None, st)
          } else Some (None, st))
   }"

definition mm_allocate_page :: "'a mm_state_scheme \<Rightarrow> (nat option \<times> 'a mm_state_scheme) option" where
  "mm_allocate_page st = mm_allocate_contiguous_pages 1 st"

section \<open>The slot allocator's contract\<close>

definition slots_used :: "'a mm_state_scheme \<Rightarrow> nat set" where
  "slots_used st = {s. s < slot_count st \<and> bit_at (slot_map st) s}"

definition slots_wf :: "'a mm_state_scheme \<Rightarrow> bool" where
  "slots_wf st \<longleftrightarrow> slot_count st \<le> length (slot_map st) * 64 \<and> slot_hint st \<le> slot_count st \<and> 2 * slot_count st < 2 ^ 32"

lemma slot_scan_spec:
  assumes "0 < n" "n \<le> length mp * 64" "\<forall>i \<in> set is. hint + i < 2 ^ 32"
  shows "\<exists>r. slot_scan mp hint n is = Some r \<and>
    (case r of None \<Rightarrow> \<forall>i \<in> set is. bit_at mp ((hint + i) mod n) | Some s \<Rightarrow> s < n \<and> \<not> bit_at mp s)"
  using assms(3)
proof (induction "is")
  case (Cons i "is")
  let ?s = "(hint + i) mod n"
  have s: "?s < n" using assms(1) by simp
  then have w: "?s div 64 < length mp" using assms(2) by (intro index_word_less) simp
  have b: "(mp ! (?s div 64)) AND 2 ^ (?s mod 64) = 0 \<longleftrightarrow> \<not> bit_at mp ?s"
    using not_le [of 64 "?s mod 64"] by (simp add: bit_at_def and_one_bit_eq_0 del: mod_mod_trivial)
  show ?case
  proof (cases "bit_at mp ?s")
    case True
    with Cons w b show ?thesis by (auto simp: Let_def split: option.splits)
  next
    case False
    with Cons.prems w b s show ?thesis by (simp add: Let_def)
  qed
qed simp

lemma cyclic_cover:
  fixes h n s :: nat
  assumes "h \<le> n" "s < n"
  obtains i where "i < n" "(h + i) mod n = s"
proof (cases "h \<le> s")
  case True
  with assms that [of "s - h"] show ?thesis by simp
next
  case False
  with assms that [of "s + n - h"] show ?thesis by simp
qed

lemma slot_alloc_spec:
  assumes "slots_wf st"
  obtains r st' where "slot_alloc st = Some (r, st')" "case r of
      None \<Rightarrow> st' = st \<and> slots_used st = {..<slot_count st}
    | Some s \<Rightarrow> s < slot_count st \<and> s \<notin> slots_used st \<and> slots_used st' = insert s (slots_used st) \<and>
        slots_wf st' \<and> (\<exists>mp h. st' = st\<lparr>slot_map := mp, slot_hint := h\<rparr>)"
proof (cases "slot_count st = 0")
  case True
  then show ?thesis by (intro that [of None st]) (auto simp: slot_alloc_def slots_used_def)
next
  case False
  let ?n = "slot_count st"
  from assms have wf: "?n \<le> length (slot_map st) * 64" "slot_hint st \<le> ?n" "2 * ?n < 2 ^ 32" by (auto simp: slots_wf_def)
  then have "\<forall>i \<in> set [0..<?n]. slot_hint st + i < 2 ^ 32" by auto
  from slot_scan_spec [OF _ wf(1) this] False obtain r where
    r: "slot_scan (slot_map st) (slot_hint st) ?n [0..<?n] = Some r"
      "case r of None \<Rightarrow> \<forall>i \<in> set [0..<?n]. bit_at (slot_map st) ((slot_hint st + i) mod ?n) | Some s \<Rightarrow> s < ?n \<and> \<not> bit_at (slot_map st) s"
    by blast
  show ?thesis
  proof (cases r)
    case None
    have "bit_at (slot_map st) s" if s: "s < ?n" for s
    proof -
      obtain i where "i < ?n" "(slot_hint st + i) mod ?n = s" by (rule cyclic_cover [OF wf(2) s])
      with r(2) None show ?thesis by fastforce
    qed
    with None r(1) False show ?thesis
      by (intro that [of None st]) (auto simp: slot_alloc_def slots_used_def Let_def)
  next
    case (Some s)
    with r(2) have s: "s < ?n" "\<not> bit_at (slot_map st) s" by auto
    then have w: "s div 64 < length (slot_map st)" using wf(1) by (intro index_word_less) simp
    let ?mp = "(slot_map st)[s div 64 := slot_map st ! (s div 64) OR push_bit (s mod 64) 1]"
    let ?st = "st\<lparr>slot_map := ?mp, slot_hint := s + 1\<rparr>"
    have bits: "bit_at ?mp j \<longleftrightarrow> bit_at (slot_map st) j \<or> j = s" if "j < ?n" for j
      using bit_at_set [of s "slot_map st" j] that wf(1) s(1) by simp
    show ?thesis
    proof (rule that [of "Some s" ?st])
      show "slot_alloc st = Some (Some s, ?st)"
        using False r(1) Some w s(1) wf(3) by (simp add: slot_alloc_def Let_def)
      have "slots_used ?st = insert s (slots_used st)"
        using bits s by (auto simp: slots_used_def slot_count_def)
      moreover have "slots_wf ?st" using wf s(1) by (simp add: slots_wf_def slot_count_def)
      ultimately show "case Some s of
          None \<Rightarrow> ?st = st \<and> slots_used st = {..<slot_count st}
        | Some s \<Rightarrow> s < slot_count st \<and> s \<notin> slots_used st \<and> slots_used ?st = insert s (slots_used st) \<and>
            slots_wf ?st \<and> (\<exists>mp h. ?st = st\<lparr>slot_map := mp, slot_hint := h\<rparr>)"
        using s by (auto simp: slots_used_def)
    qed
  qed
qed

lemma slot_free_spec:
  assumes "slots_wf st" "s < slot_count st"
  obtains st' where "slot_free s st = Some st'" "slots_used st' = slots_used st - {s}" "slots_wf st'"
    "\<exists>mp h. st' = st\<lparr>slot_map := mp, slot_hint := h\<rparr>"
proof -
  let ?n = "slot_count st"
  from assms have wf: "?n \<le> length (slot_map st) * 64" "slot_hint st \<le> ?n" "2 * ?n < 2 ^ 32" by (auto simp: slots_wf_def)
  then have w: "s div 64 < length (slot_map st)" using assms(2) by (intro index_word_less) simp
  let ?mp = "(slot_map st)[s div 64 := slot_map st ! (s div 64) AND NOT (push_bit (s mod 64) 1)]"
  let ?st = "st\<lparr>slot_map := ?mp, slot_hint := min (slot_hint st) s\<rparr>"
  have bits: "bit_at ?mp j \<longleftrightarrow> bit_at (slot_map st) j \<and> j \<noteq> s" if "j < ?n" for j
    using bit_at_clear [of s "slot_map st" j] that wf(1) assms(2) by simp
  show ?thesis
  proof (rule that [of ?st])
    show "slot_free s st = Some ?st" using w by (simp add: slot_free_def)
    show "slots_used ?st = slots_used st - {s}" using bits by (auto simp: slots_used_def slot_count_def)
    show "slots_wf ?st" using wf assms(2) by (simp add: slots_wf_def slot_count_def min_le_iff_disj)
  qed blast
qed

interpretation slots: unit_allocator slots_wf slots_used slot_count slot_alloc slot_free
proof unfold_locales
  show "slots_used st \<subseteq> {..<slot_count st}" for st :: "'a mm_state_scheme" by (auto simp: slots_used_def)
  show "slot_alloc st \<noteq> None" if "slots_wf st" for st :: "'a mm_state_scheme"
    by (rule slot_alloc_spec [OF that]) simp
  show "i < slot_count st \<and> i \<notin> slots_used st \<and> slots_used st' = insert i (slots_used st) \<and>
      slot_count st' = slot_count st \<and> slots_wf st'"
    if "slots_wf st" "slot_alloc st = Some (Some i, st')" for i and st st' :: "'a mm_state_scheme"
    by (rule slot_alloc_spec [OF that(1)]) (use that(2) in \<open>auto simp: slot_count_def\<close>)
  show "slots_used st' = slots_used st \<and> slot_count st' = slot_count st \<and> slots_wf st' \<and> slots_used st = {..<slot_count st}"
    if "slots_wf st" "slot_alloc st = Some (None, st')" for st st' :: "'a mm_state_scheme"
    by (rule slot_alloc_spec [OF that(1)]) (use that in auto)
  show "\<exists>st'. slot_free i st = Some st' \<and> slots_used st' = slots_used st - {i} \<and> slot_count st' = slot_count st \<and> slots_wf st'"
    if "slots_wf st" "i \<in> slots_used st" for i and st :: "'a mm_state_scheme"
  proof -
    from that have wf: "slots_wf st" and i: "i < slot_count st" by (simp_all add: slots_used_def)
    obtain st' where st': "slot_free i st = Some st'" "slots_used st' = slots_used st - {i}" "slots_wf st'"
      "\<exists>mp h. st' = st\<lparr>slot_map := mp, slot_hint := h\<rparr>" by (rule slot_free_spec [OF wf i])
    from st'(4) have "slot_count st' = slot_count st" by (auto simp: slot_count_def)
    with st' show ?thesis by blast
  qed
qed

section \<open>Transfers are faithful\<close>

text \<open>The page held by a slot, and a device that answers every request from now on.\<close>

definition slot_page :: "'a mm_state_scheme \<Rightarrow> nat \<Rightarrow> nat \<Rightarrow> u64" where
  "slot_page st slot j = blk_sectors (blk st) (base_sector st + slot * SECTORS_PER_PAGE + j div 64) (j mod 64)"

definition blk_reliable :: "'a mm_state_scheme \<Rightarrow> bool" where
  "blk_reliable st \<longleftrightarrow> blk_present (blk st) \<and> (\<forall>k \<ge> blk_requests (blk st). blk_answers (blk st) k)"

definition blk_upd :: "'a mm_state_scheme \<Rightarrow> (nat \<Rightarrow> nat \<Rightarrow> u64) \<Rightarrow> nat \<Rightarrow> 'a mm_state_scheme" where
  "blk_upd st sect k = st\<lparr>blk := (blk st)\<lparr>blk_sectors := sect, blk_requests := k\<rparr>\<rparr>"

lemma blk_upd_simps [simp]:
  "ram (blk_upd st sect k) = ram st" "geom (blk_upd st sect k) = geom st" "phys_offset (blk_upd st sect k) = phys_offset st"
  "pfn_db (blk_upd st sect k) = pfn_db st" "base_sector (blk_upd st sect k) = base_sector st"
  "blk_sectors (blk (blk_upd st sect k)) = sect" "blk_requests (blk (blk_upd st sect k)) = k"
  "blk_present (blk (blk_upd st sect k)) = blk_present (blk st)" "blk_answers (blk (blk_upd st sect k)) = blk_answers (blk st)"
  "blk_upd (blk_upd st sect k) sect' k' = blk_upd st sect' k'"
  "paged_out (blk_upd st sect k) = paged_out st" "registry (blk_upd st sect k) = registry st"
  "slot_map (blk_upd st sect k) = slot_map st" "slot_hint (blk_upd st sect k) = slot_hint st"
  "vads (blk_upd st sect k) = vads st" "cr3 (blk_upd st sect k) = cr3 st"
  by (simp_all add: blk_upd_def base_sector_def)

lemma blk_upd_id: "blk_upd st (blk_sectors (blk st)) (blk_requests (blk st)) = st"
  by (simp add: blk_upd_def)

lemma write_sector_blk:
  "write_sector lba data st =
     (if blk_present (blk st) \<and> blk_answers (blk st) (blk_requests (blk st))
      then (True, blk_upd st ((blk_sectors (blk st))(lba := data)) (Suc (blk_requests (blk st))))
      else (False, blk_upd st (blk_sectors (blk st)) (if blk_present (blk st) then Suc (blk_requests (blk st)) else blk_requests (blk st))))"
  by (simp add: write_sector_def blk_request_def Let_def blk_upd_def)

lemma write_page_loop_spec:
  "\<exists>ok sect k. write_page_loop is slot pa st = (ok, blk_upd st sect k) \<and> blk_requests (blk st) \<le> k \<and>
     (ok \<longrightarrow> (\<forall>i \<in> set is. sect (base_sector st + slot * SECTORS_PER_PAGE + i) = (\<lambda>j. ent (ram st) pa (i * 64 + j)))) \<and>
     (\<forall>lba. (\<forall>i \<in> set is. lba \<noteq> base_sector st + slot * SECTORS_PER_PAGE + i) \<longrightarrow> sect lba = blk_sectors (blk st) lba) \<and>
     (blk_reliable st \<longrightarrow> ok)"
proof (induction "is" arbitrary: st)
  case Nil
  show ?case
    by (rule exI [of _ True], rule exI [of _ "blk_sectors (blk st)"], rule exI [of _ "blk_requests (blk st)"]) (simp add: blk_upd_id)
next
  case (Cons i "is")
  let ?lba = "base_sector st + slot * SECTORS_PER_PAGE + i" and ?data = "\<lambda>k. ent (ram st) pa (i * 64 + k)"
  show ?case
  proof (cases "blk_present (blk st) \<and> blk_answers (blk st) (blk_requests (blk st))")
    case True
    let ?st = "blk_upd st ((blk_sectors (blk st))(?lba := ?data)) (Suc (blk_requests (blk st)))"
    from Cons [of ?st] obtain ok sect k where IH:
      "write_page_loop is slot pa ?st = (ok, blk_upd st sect k)" "Suc (blk_requests (blk st)) \<le> k"
      "ok \<longrightarrow> (\<forall>i \<in> set is. sect (base_sector st + slot * SECTORS_PER_PAGE + i) = (\<lambda>j. ent (ram st) pa (i * 64 + j)))"
      "\<forall>lba. (\<forall>i \<in> set is. lba \<noteq> base_sector st + slot * SECTORS_PER_PAGE + i) \<longrightarrow> sect lba = ((blk_sectors (blk st))(?lba := ?data)) lba"
      "blk_reliable ?st \<longrightarrow> ok" by auto
    have "sect ?lba = ?data" if "ok"
    proof (cases "i \<in> set is")
      case True
      with IH(3) that show ?thesis by simp
    next
      case False
      then have "\<forall>i' \<in> set is. ?lba \<noteq> base_sector st + slot * SECTORS_PER_PAGE + i'" by auto
      with IH(4) have "sect ?lba = ((blk_sectors (blk st))(?lba := ?data)) ?lba" by blast
      then show ?thesis by simp
    qed
    moreover have "blk_reliable st \<Longrightarrow> blk_reliable ?st" by (simp add: blk_reliable_def)
    ultimately show ?thesis
      using True IH by - (rule exI [of _ ok], rule exI [of _ sect], rule exI [of _ k], simp add: write_sector_blk)
  next
    case False
    then have "\<not> blk_reliable st" by (auto simp: blk_reliable_def)
    moreover have "write_page_loop (i # is) slot pa st =
        (False, blk_upd st (blk_sectors (blk st)) (if blk_present (blk st) then Suc (blk_requests (blk st)) else blk_requests (blk st)))"
      using False by (auto simp: write_sector_blk)
    ultimately show ?thesis by fastforce
  qed
qed

lemma slot_lba_inj:
  assumes "slot * SECTORS_PER_PAGE + j div 64 = slot' * SECTORS_PER_PAGE + i" "i < 8" "j < 512"
  shows "slot' = slot"
proof -
  have "j div 64 < 8" using assms(3) by (simp add: div_less_iff_less_mult)
  then have "(slot * 8 + j div 64) div 8 = slot" "(slot' * 8 + i) div 8 = slot'" using assms(2) by simp_all
  with assms(1) show ?thesis by (simp add: SECTORS_PER_PAGE_def)
qed

lemma write_page_spec:
  assumes "phys_offset st \<noteq> 0"
  obtains ok sect k where "write_page slot pa st = Some (ok, blk_upd st sect k)" "blk_requests (blk st) \<le> k"
    "ok \<longrightarrow> (\<forall>j < 512. slot_page (blk_upd st sect k) slot j = ent (ram st) pa j)"
    "\<forall>slot' j. slot' \<noteq> slot \<longrightarrow> j < 512 \<longrightarrow> slot_page (blk_upd st sect k) slot' j = slot_page st slot' j"
    "blk_reliable st \<longrightarrow> ok"
proof -
  from write_page_loop_spec [of "[0..<SECTORS_PER_PAGE]" slot pa st] obtain ok sect k where w:
    "write_page_loop [0..<SECTORS_PER_PAGE] slot pa st = (ok, blk_upd st sect k)" "blk_requests (blk st) \<le> k"
    "ok \<longrightarrow> (\<forall>i \<in> set [0..<SECTORS_PER_PAGE]. sect (base_sector st + slot * SECTORS_PER_PAGE + i) = (\<lambda>j. ent (ram st) pa (i * 64 + j)))"
    "\<forall>lba. (\<forall>i \<in> set [0..<SECTORS_PER_PAGE]. lba \<noteq> base_sector st + slot * SECTORS_PER_PAGE + i) \<longrightarrow> sect lba = blk_sectors (blk st) lba"
    "blk_reliable st \<longrightarrow> ok" by blast
  show ?thesis
  proof (rule that [OF _ w(2)])
    show "write_page slot pa st = Some (ok, blk_upd st sect k)" using assms w(1) by (simp add: write_page_def phys_to_virt_def)
    show "ok \<longrightarrow> (\<forall>j < 512. slot_page (blk_upd st sect k) slot j = ent (ram st) pa j)"
    proof (intro allI impI)
      fix j :: nat assume ok "j < 512"
      then have "j div 64 \<in> set [0..<SECTORS_PER_PAGE]" by (simp add: SECTORS_PER_PAGE_def div_less_iff_less_mult)
      with w(3) \<open>ok\<close> show "slot_page (blk_upd st sect k) slot j = ent (ram st) pa j" by (simp add: slot_page_def)
    qed
    show "\<forall>slot' j. slot' \<noteq> slot \<longrightarrow> j < 512 \<longrightarrow> slot_page (blk_upd st sect k) slot' j = slot_page st slot' j"
    proof (intro allI impI)
      fix slot' j :: nat assume "slot' \<noteq> slot" "j < 512"
      then have "\<forall>i \<in> set [0..<SECTORS_PER_PAGE]. base_sector st + slot' * SECTORS_PER_PAGE + j div 64 \<noteq> base_sector st + slot * SECTORS_PER_PAGE + i"
        using slot_lba_inj [of slot' j slot] by (auto simp: SECTORS_PER_PAGE_def)
      with w(4) show "slot_page (blk_upd st sect k) slot' j = slot_page st slot' j" by (simp add: slot_page_def)
    qed
  qed (use w(5) in blast)
qed

definition blk_tick :: "'a mm_state_scheme \<Rightarrow> nat \<Rightarrow> ram \<Rightarrow> 'a mm_state_scheme" where
  "blk_tick st k m = st\<lparr>blk := (blk st)\<lparr>blk_requests := k\<rparr>, ram := m\<rparr>"

lemma blk_tick_simps [simp]:
  "ram (blk_tick st k m) = m" "phys_offset (blk_tick st k m) = phys_offset st" "pfn_db (blk_tick st k m) = pfn_db st"
  "geom (blk_tick st k m) = geom st" "blk_requests (blk (blk_tick st k m)) = k"
  "blk_tick (blk_tick st k m) k' m' = blk_tick st k' m'" "base_sector (blk_tick st k m) = base_sector st"
  "slot_page (blk_tick st k m) = slot_page st" "slot_map (blk_tick st k m) = slot_map st"
  "slot_hint (blk_tick st k m) = slot_hint st" "paged_out (blk_tick st k m) = paged_out st"
  "registry (blk_tick st k m) = registry st" "cr3 (blk_tick st k m) = cr3 st" "vads (blk_tick st k m) = vads st"
  by (simp_all add: blk_tick_def base_sector_def slot_page_def fun_eq_iff)

lemma read_sector_blk:
  "read_sector lba st =
     (if blk_present (blk st) \<and> blk_answers (blk st) (blk_requests (blk st)) then Some (blk_sectors (blk st) lba) else None,
      blk_tick st (if blk_present (blk st) then Suc (blk_requests (blk st)) else blk_requests (blk st)) (ram st))"
  by (simp add: read_sector_def blk_request_def Let_def blk_tick_def)

lemma read_page_loop_spec:
  "\<exists>ok k m. read_page_loop is slot pa st = (ok, blk_tick st k m) \<and> (\<forall>p. p \<noteq> frame_of pa \<longrightarrow> m p = ram st p) \<and>
     (ok \<longrightarrow> (\<forall>j. m (frame_of pa) j = (if j div 64 \<in> set is then slot_page st slot j else ram st (frame_of pa) j))) \<and>
     (blk_reliable st \<longrightarrow> ok)"
proof (induction "is" arbitrary: st)
  case Nil
  have "blk_tick st (blk_requests (blk st)) (ram st) = st" by (simp add: blk_tick_def)
  then show ?case
    by - (rule exI [of _ True], rule exI [of _ "blk_requests (blk st)"], rule exI [of _ "ram st"], simp)
next
  case (Cons i "is")
  show ?case
  proof (cases "blk_present (blk st) \<and> blk_answers (blk st) (blk_requests (blk st))")
    case True
    let ?m = "fill_sector (ram st) pa i (blk_sectors (blk st) (base_sector st + slot * SECTORS_PER_PAGE + i))"
    let ?st = "blk_tick st (Suc (blk_requests (blk st))) ?m"
    from Cons [of ?st] obtain ok k m where IH: "read_page_loop is slot pa ?st = (ok, blk_tick st k m)"
      "\<forall>p. p \<noteq> frame_of pa \<longrightarrow> m p = ?m p"
      "ok \<longrightarrow> (\<forall>j. m (frame_of pa) j = (if j div 64 \<in> set is then slot_page st slot j else ?m (frame_of pa) j))"
      "blk_reliable ?st \<longrightarrow> ok" by auto
    have fill: "?m p = ram st p" if "p \<noteq> frame_of pa" for p using that by (simp add: fill_sector_def)
    have "i * 64 \<le> j \<and> j < (i + 1) * 64 \<longleftrightarrow> j div 64 = i" for j :: nat
      by (auto simp: div_nat_eqI div_times_less_eq_dividend dividend_less_times_div) 
    then have fillpa: "?m (frame_of pa) j = (if j div 64 = i then slot_page st slot j else ram st (frame_of pa) j)" for j
      by (auto simp: fill_sector_def slot_page_def modulo_nat_def mult.commute)
    have rel: "blk_reliable st \<Longrightarrow> blk_reliable ?st" by (simp add: blk_reliable_def blk_tick_def)
    have "read_page_loop (i # is) slot pa st = (ok, blk_tick st k m)"
      using True IH(1) by (simp add: read_sector_blk) (simp add: blk_tick_def)
    moreover have "\<forall>p. p \<noteq> frame_of pa \<longrightarrow> m p = ram st p" using IH(2) fill by simp
    moreover have "ok \<longrightarrow> (\<forall>j. m (frame_of pa) j = (if j div 64 \<in> set (i # is) then slot_page st slot j else ram st (frame_of pa) j))"
      using IH(3) by (simp add: fillpa)
    ultimately show ?thesis using IH(4) rel by blast
  next
    case False
    then have "\<not> blk_reliable st" by (auto simp: blk_reliable_def)
    moreover have "read_page_loop (i # is) slot pa st =
       (False, blk_tick st (if blk_present (blk st) then Suc (blk_requests (blk st)) else blk_requests (blk st)) (ram st))"
      using False by (auto simp: read_sector_blk)
    ultimately show ?thesis by fastforce
  qed
qed

lemma read_page_spec:
  assumes "phys_offset st \<noteq> 0"
  obtains ok k m where "read_page slot pa st = Some (ok, blk_tick st k m)" "\<forall>p. p \<noteq> frame_of pa \<longrightarrow> m p = ram st p"
    "ok \<longrightarrow> (\<forall>j < 512. m (frame_of pa) j = slot_page st slot j)" "blk_reliable st \<longrightarrow> ok"
proof -
  from read_page_loop_spec [of "[0..<SECTORS_PER_PAGE]" slot pa st] obtain ok k m where r:
    "read_page_loop [0..<SECTORS_PER_PAGE] slot pa st = (ok, blk_tick st k m)" "\<forall>p. p \<noteq> frame_of pa \<longrightarrow> m p = ram st p"
    "ok \<longrightarrow> (\<forall>j. m (frame_of pa) j = (if j div 64 \<in> set [0..<SECTORS_PER_PAGE] then slot_page st slot j else ram st (frame_of pa) j))"
    "blk_reliable st \<longrightarrow> ok" by blast
  show ?thesis
  proof (rule that [OF _ r(2)])
    show "read_page slot pa st = Some (ok, blk_tick st k m)" using assms r(1) by (simp add: read_page_def phys_to_virt_def)
    show "ok \<longrightarrow> (\<forall>j < 512. m (frame_of pa) j = slot_page st slot j)"
      using r(3) by (simp add: SECTORS_PER_PAGE_def div_less_iff_less_mult)
  qed (use r(4) in blast)
qed

section \<open>Eviction is faithful\<close>

lemma phys_cong:
  assumes "pfn_db st' = pfn_db st" "phys_offset st' = phys_offset st"
  shows "phys_wf st' = phys_wf st" "frames_used st' = frames_used st" "frame_count st' = frame_count st"
  using assms by (simp_all add: phys_wf_def frames_used_def frame_count_def)

lemma slots_cong:
  assumes "geom st' = geom st" "slot_map st' = slot_map st"
  shows "slots_used st' = slots_used st" "slot_count st' = slot_count st" "slot_hint st' = slot_hint st \<Longrightarrow> slots_wf st' = slots_wf st"
  using assms by (simp_all add: slots_used_def slot_count_def slots_wf_def)

lemma mm_free_pfn: "mm_free_contiguous_pages pa n st = mm_free_contiguous_pages (from_pfn (pfn_of pa)) n st"
  by (simp add: mm_free_contiguous_pages_def Let_def split: option.split)

lemma mm_free_only_db:
  assumes "mm_free_contiguous_pages pa n st = Some st'"
  obtains db where "st' = st\<lparr>pfn_db := db\<rparr>"
proof (cases "pfn_bitmap (pfn_db st)")
  case None
  with assms that [of "pfn_db st"] show ?thesis by (simp add: mm_free_contiguous_pages_def)
next
  case (Some bm)
  with assms that show ?thesis
    by (auto simp: mm_free_contiguous_pages_def Let_def panic_elims split: if_splits)
qed

text \<open>
  What a completed eviction does: the page's content is in a slot that was free, the record says so, the leaf
  entry is cleared, the frame is free. What a refused one leaves alone.
\<close>

definition evicted :: "u64 \<Rightarrow> u64 \<Rightarrow> u64 \<Rightarrow> nat \<Rightarrow> 'a mm_state_scheme \<Rightarrow> 'a mm_state_scheme \<Rightarrow> bool" where
  "evicted c va e slot st st' \<longleftrightarrow>
     leaf_entry (ram st) c va = Some e \<and> present e \<and>
     slot \<notin> slots_used st \<and> slots_used st' = insert slot (slots_used st) \<and>
     (\<forall>j < 512. slot_page st' slot j = ent (ram st) (e AND ADDR_MASK) j) \<and>
     (\<forall>s \<noteq> slot. \<forall>j < 512. slot_page st' s j = slot_page st s j) \<and>
     paged_out st' = paged_out st @ [(c, va, slot)] \<and> last_slot st' = Some slot \<and>
     frame_of (e AND ADDR_MASK) \<in> frames_used st \<and>
     frames_used st' = frames_used st - {frame_of (e AND ADDR_MASK)} \<and> frame_count st' = frame_count st \<and>
     mm_free_page_count st' = mm_free_page_count st + 1 \<and>
     (\<exists>t i. leaf_at (ram st) c 3 va = Some (t, i) \<and> ram st' = set_ent (ram st) t i 0) \<and>
     registry st' = registry st \<and> vads st' = vads st \<and> cr3 st' = cr3 st \<and> geom st' = geom st \<and>
     phys_offset st' = phys_offset st \<and>
     blk_present (blk st') = blk_present (blk st) \<and> blk_answers (blk st') = blk_answers (blk st) \<and>
     blk_requests (blk st) \<le> blk_requests (blk st')"

definition eviction_refused :: "'a mm_state_scheme \<Rightarrow> 'a mm_state_scheme \<Rightarrow> bool" where
  "eviction_refused st st' \<longleftrightarrow>
     ram st' = ram st \<and> pfn_db st' = pfn_db st \<and> phys_offset st' = phys_offset st \<and> paged_out st' = paged_out st \<and>
     slots_used st' = slots_used st \<and> (\<forall>s \<in> slots_used st. \<forall>j < 512. slot_page st' s j = slot_page st s j) \<and>
     registry st' = registry st \<and> vads st' = vads st \<and> cr3 st' = cr3 st \<and> geom st' = geom st"

lemma present_bit: "present e \<longleftrightarrow> e AND 1 \<noteq> 0"
  by (simp add: ENTRY_PRESENT_def)

lemma evict_to_slot_refused:
  assumes wf: "phys_wf st1" "slots_wf st1" and slot: "slot < slot_count st1" and w: "write_page slot pa st1 = Some (False, st2)"
    and pages: "\<forall>s j. s \<noteq> slot \<longrightarrow> j < 512 \<longrightarrow> slot_page st2 s j = slot_page st1 s j" and st2: "st2 = blk_upd st1 sect k"
  obtains st' where "evict_to_slot c va pa slot st1 = Some (0, st')" "phys_wf st'" "slots_wf st'"
    "slots_used st' = slots_used st1 - {slot}" "\<forall>s j. s \<noteq> slot \<longrightarrow> j < 512 \<longrightarrow> slot_page st' s j = slot_page st1 s j"
    "\<exists>mp h. st' = st2\<lparr>slot_map := mp, slot_hint := h\<rparr>"
proof -
  have used: "slots_used st2 = slots_used st1" "slots_wf st2" "slot < slot_count st2"
    using slots_cong [of st2 st1] wf(2) slot by (simp_all add: st2)
  obtain st3 where st3: "slot_free slot st2 = Some st3" "slots_used st3 = slots_used st2 - {slot}" "slots_wf st3"
    "\<exists>mp h. st3 = st2\<lparr>slot_map := mp, slot_hint := h\<rparr>" by (rule slot_free_spec [OF used(2,3)])
  then obtain mp h where st3': "st3 = st2\<lparr>slot_map := mp, slot_hint := h\<rparr>" by blast
  have "slot_page st3 = slot_page st2" by (simp add: st3' slot_page_def base_sector_def fun_eq_iff)
  moreover have "evict_to_slot c va pa slot st1 = Some (0, st3)" using w st3(1) by (simp add: evict_to_slot_def)
  moreover have "phys_wf st3" using phys_cong(1) [of st3 st1] wf(1) by (simp add: st3' st2)
  ultimately show thesis using st3 used(1) pages by (intro that [of st3]) simp_all
qed

lemma evict_to_slot_done:
  assumes wf: "phys_wf st1" "slots_wf st1" and w: "write_page slot pa st1 = Some (True, st2)" and st2: "st2 = blk_upd st1 sect k"
    and l: "leaf_at (ram st1) c 3 va = Some (t, i)" "present (ent (ram st1) t i)" "pa = ent (ram st1) t i AND ADDR_MASK"
    and fr: "frame_of pa \<in> frames_used st1" and room: "length (paged_out st1) < MAP_CAP"
  obtains st' where "evict_to_slot c va pa slot st1 = Some (1, st')" "phys_wf st'" "slots_wf st'"
    "frames_used st' = frames_used st1 - {frame_of pa}" "frame_count st' = frame_count st1"
    "mm_free_page_count st' = mm_free_page_count st1 + 1" "slots_used st' = slots_used st1" "slot_page st' = slot_page st2"
    "\<exists>db. st' = st2\<lparr>ram := set_ent (ram st1) t i 0, paged_out := paged_out st1 @ [(c, va, slot)], last_slot := Some slot, pfn_db := db\<rparr>"
proof -
  let ?st4 = "st2\<lparr>ram := set_ent (ram st1) t i 0, paged_out := paged_out st1 @ [(c, va, slot)], last_slot := Some slot\<rparr>"
  have ram2: "ram st2 = ram st1" "phys_offset st2 \<noteq> 0" "paged_out st2 = paged_out st1"
    using wf(1) by (simp_all add: st2 phys_wf_def)
  have um: "mm_unmap_user_page_in c va st2 = Some (Some pa, st2\<lparr>ram := set_ent (ram st1) t i 0\<rparr>)"
    using mm_unmap_user_page_in_spec [OF ram2(2), of c va] ram2(1) l by simp
  have pc: "phys_wf ?st4" "frames_used ?st4 = frames_used st1" "frame_count ?st4 = frame_count st1" "pfn_db ?st4 = pfn_db st1"
    using phys_cong [of ?st4 st1] wf(1) by (simp_all add: st2)
  have sub: "{frame_of pa..<frame_of pa + 1} \<subseteq> frames_used ?st4" using fr by (simp add: pc(2))
  obtain st5 where st5: "mm_free_contiguous_pages (from_pfn (frame_of pa)) 1 ?st4 = Some st5"
    "frames_used st5 = frames_used ?st4 - {frame_of pa..<frame_of pa + 1}" "frame_count st5 = frame_count ?st4" "phys_wf st5"
    "free_pages (pfn_db st5) = free_pages (pfn_db ?st4) + 1"
    by (rule mm_free_spec [OF pc(1) sub]) simp
  obtain db where db: "st5 = ?st4\<lparr>pfn_db := db\<rparr>" by (rule mm_free_only_db [OF st5(1)])
  have "mm_free_contiguous_pages (unat pa) 1 ?st4 = Some st5"
    using st5(1) by (simp add: mm_free_pfn [of "unat pa"] frame_of_def)
  then have ev: "evict_to_slot c va pa slot st1 = Some (1, st5)"
    using w um room ram2(3) by (simp add: evict_to_slot_def Let_def)
  have "slot_page st5 = slot_page st2" by (simp add: db slot_page_def base_sector_def fun_eq_iff)
  moreover have "slots_used st5 = slots_used st1" "slots_wf st5"
    using slots_cong [of st5 st1] wf(2) by (simp_all add: db st2)
  moreover have "\<exists>db. st5 = ?st4\<lparr>pfn_db := db\<rparr>" using db by blast
  ultimately show thesis
    using st5 pc by (intro that [OF ev]) (simp_all add: mm_free_page_count_def)
qed

lemma evict_spec:
  assumes wf: "phys_wf st" "slots_wf st"
    and owned: "\<forall>e. leaf_entry (ram st) c va = Some e \<longrightarrow> present e \<longrightarrow> frame_of (e AND ADDR_MASK) \<in> frames_used st"
    and room: "length (paged_out st) < MAP_CAP"
  obtains st' where "evict c va st = Some (0, st')" "eviction_refused st st'" "phys_wf st'" "slots_wf st'"
      "(\<exists>e. leaf_entry (ram st) c va = Some e \<and> present e) \<longrightarrow> blk_reliable st \<longrightarrow> slots_used st = {..<slot_count st}"
  | e slot st' where "evict c va st = Some (1, st')" "evicted c va e slot st st'" "phys_wf st'" "slots_wf st'"
proof -
  from wf(1) have off: "phys_offset st \<noteq> 0" by (simp add: phys_wf_def)
  have dbg: "mm_debug_pte_in st c va = Some (leaf_entry (ram st) c va)"
    by (simp add: mm_debug_pte_in_spec [OF off] leaf_entry_def)
  have maskc: "(0x000FFFFFFFFFF000 :: u64) = ADDR_MASK" by (simp add: ADDR_MASK_def)
  show thesis
  proof (cases "\<exists>e. leaf_entry (ram st) c va = Some e \<and> present e")
    case False
    then have "evict c va st = Some (0, st)" by (auto simp: evict_def dbg present_bit split: option.splits)
    then show thesis by (rule that(1)) (use False wf in \<open>auto simp: eviction_refused_def\<close>)
  next
    case True
    then obtain e where e: "leaf_entry (ram st) c va = Some e" "present e" by blast
    then obtain t i where l: "leaf_at (ram st) c 3 va = Some (t, i)" "ent (ram st) t i = e" by (auto simp: leaf_entry_def)
    let ?pa = "e AND ADDR_MASK"
    obtain r st1 where sa: "slot_alloc st = Some (r, st1)" "case r of
        None \<Rightarrow> st1 = st \<and> slots_used st = {..<slot_count st}
      | Some s \<Rightarrow> s < slot_count st \<and> s \<notin> slots_used st \<and> slots_used st1 = insert s (slots_used st) \<and>
          slots_wf st1 \<and> (\<exists>mp h. st1 = st\<lparr>slot_map := mp, slot_hint := h\<rparr>)" by (rule slot_alloc_spec [OF wf(2)])
    show thesis
    proof (cases r)
      case None
      with sa e have "evict c va st = Some (0, st)" by (simp add: evict_def dbg present_bit Let_def)
      then show thesis by (rule that(1)) (use None sa wf in \<open>simp_all add: eviction_refused_def\<close>)
    next
      case (Some slot)
      with sa obtain mp h where st1: "st1 = st\<lparr>slot_map := mp, slot_hint := h\<rparr>"
        and slot: "slot < slot_count st1" "slot \<notin> slots_used st" "slots_used st1 = insert slot (slots_used st)" "slots_wf st1"
        by (auto simp: slot_count_def)
      have ev: "evict c va st = evict_to_slot c va ?pa slot st1"
        using e sa(1) Some by (simp add: evict_def dbg present_bit Let_def maskc)
      have wf1: "phys_wf st1" "frames_used st1 = frames_used st" "frame_count st1 = frame_count st"
        using phys_cong [of st1 st] wf(1) by (simp_all add: st1)
      have pg1: "slot_page st1 = slot_page st" by (simp add: st1 slot_page_def base_sector_def fun_eq_iff)
      from off have off1: "phys_offset st1 \<noteq> 0" by (simp add: st1)
      obtain ok sect k where wp: "write_page slot ?pa st1 = Some (ok, blk_upd st1 sect k)" "blk_requests (blk st1) \<le> k"
        "ok \<longrightarrow> (\<forall>j < 512. slot_page (blk_upd st1 sect k) slot j = ent (ram st1) ?pa j)"
        "\<forall>slot' j. slot' \<noteq> slot \<longrightarrow> j < 512 \<longrightarrow> slot_page (blk_upd st1 sect k) slot' j = slot_page st1 slot' j"
        "blk_reliable st1 \<longrightarrow> ok" by (rule write_page_spec [OF off1, of slot ?pa])
      show thesis
      proof (cases ok)
        case False
        then have w: "write_page slot ?pa st1 = Some (False, blk_upd st1 sect k)" using wp(1) by simp
        obtain st' where st': "evict_to_slot c va ?pa slot st1 = Some (0, st')" "phys_wf st'" "slots_wf st'"
          "slots_used st' = slots_used st1 - {slot}" "\<forall>s j. s \<noteq> slot \<longrightarrow> j < 512 \<longrightarrow> slot_page st' s j = slot_page st1 s j"
          "\<exists>mp h. st' = (blk_upd st1 sect k)\<lparr>slot_map := mp, slot_hint := h\<rparr>"
          by (rule evict_to_slot_refused [OF wf1(1) slot(4,1) w wp(4) refl])
        have "\<forall>s \<in> slots_used st. \<forall>j < 512. slot_page st' s j = slot_page st s j"
          using st'(5) slot(2) by (metis pg1)
        with st'(4,6) slot(2,3) have "eviction_refused st st'" unfolding eviction_refused_def by (auto simp: st1)
        moreover have "\<not> blk_reliable st" using wp(5) False by (simp add: blk_reliable_def st1)
        ultimately show thesis using that(1) [of st'] ev st' by simp
      next
        case True
        then have w: "write_page slot ?pa st1 = Some (True, blk_upd st1 sect k)" using wp(1) by simp
        have l1: "leaf_at (ram st1) c 3 va = Some (t, i)" "present (ent (ram st1) t i)" "?pa = ent (ram st1) t i AND ADDR_MASK"
          using l e by (simp_all add: st1)
        have fr: "frame_of ?pa \<in> frames_used st1" using owned e by (simp add: wf1)
        have room1: "length (paged_out st1) < MAP_CAP" using room by (simp add: st1)
        obtain st' where st': "evict_to_slot c va ?pa slot st1 = Some (1, st')" "phys_wf st'" "slots_wf st'"
          "frames_used st' = frames_used st1 - {frame_of ?pa}" "frame_count st' = frame_count st1"
          "mm_free_page_count st' = mm_free_page_count st1 + 1" "slots_used st' = slots_used st1" "slot_page st' = slot_page (blk_upd st1 sect k)"
          "\<exists>db. st' = (blk_upd st1 sect k)\<lparr>ram := set_ent (ram st1) t i 0, paged_out := paged_out st1 @ [(c, va, slot)], last_slot := Some slot, pfn_db := db\<rparr>"
          by (rule evict_to_slot_done [OF wf1(1) slot(4) w refl l1 fr room1])
        from st'(9) obtain db where db: "st' = (blk_upd st1 sect k)\<lparr>ram := set_ent (ram st1) t i 0,
            paged_out := paged_out st1 @ [(c, va, slot)], last_slot := Some slot, pfn_db := db\<rparr>" by blast
        have "evicted c va e slot st st'"
          unfolding evicted_def
          using e slot(2,3) wp(2,3,4) True pg1 st'(4-8) fr wf1(2,3) l(1)
          by (simp add: st1 db mm_free_page_count_def)
        then show thesis using that(2) [of st'] ev st' by simp
      qed
    qed
  qed
qed

text \<open>
  When the record map is full the page is already unmapped by the time the code notices: the call answers 0
  and releases the slot, the frame stays allocated, and neither a mapping nor a record of the content is left.
\<close>

lemma evict_record_map_full:
  assumes wf: "phys_wf st" "slots_wf st" and tree: "pt_tree (ram st) c 3" and rel: "blk_reliable st"
    and e: "leaf_entry (ram st) c va = Some e" "present e"
    and free: "slots_used st \<noteq> {..<slot_count st}" and full: "MAP_CAP \<le> length (paged_out st)"
  obtains st' where "evict c va st = Some (0, st')" "walk (ram st') c 3 va = None" "frames_used st' = frames_used st"
    "paged_out st' = paged_out st" "slots_used st' = slots_used st"
proof -
  from wf(1) have off: "phys_offset st \<noteq> 0" by (simp add: phys_wf_def)
  from e obtain t i where l: "leaf_at (ram st) c 3 va = Some (t, i)" "ent (ram st) t i = e" by (auto simp: leaf_entry_def)
  let ?pa = "e AND ADDR_MASK"
  have maskc: "(0x000FFFFFFFFFF000 :: u64) = ADDR_MASK" by (simp add: ADDR_MASK_def)
  from slots.take_total [OF wf(2)] slots.take_full [OF wf(2)] free obtain slot st1 where sa: "slot_alloc st = Some (Some slot, st1)"
    by (metis option.exhaust surj_pair)
  have "\<exists>mp h. st1 = st\<lparr>slot_map := mp, slot_hint := h\<rparr>"
    by (rule slot_alloc_spec [OF wf(2)]) (use sa in auto)
  then obtain mp h where st1: "st1 = st\<lparr>slot_map := mp, slot_hint := h\<rparr>" by blast
  from slots.take_found [OF wf(2) sa] have slot: "slot < slot_count st1" "slot \<notin> slots_used st"
    "slots_used st1 = insert slot (slots_used st)" "slots_wf st1" by auto
  have off1: "phys_offset st1 \<noteq> 0" "blk_reliable st1" using off rel by (simp_all add: st1 blk_reliable_def)
  obtain sect k where wp: "write_page slot ?pa st1 = Some (True, blk_upd st1 sect k)"
    by (rule write_page_spec [OF off1(1), of slot ?pa]) (use off1(2) in auto)
  let ?st2 = "blk_upd st1 sect k"
  let ?st3 = "?st2\<lparr>ram := set_ent (ram st) t i 0\<rparr>"
  have um: "mm_unmap_user_page_in c va ?st2 = Some (Some ?pa, ?st3)"
    using mm_unmap_user_page_in_spec [of ?st2 c va] off1(1) l e by (simp add: st1)
  have used3: "slots_wf ?st3" "slot < slot_count ?st3" "slots_used ?st3 = insert slot (slots_used st)"
    using slots_cong [of ?st3 st1] slot by (simp_all add: st1 slot_count_def)
  obtain st4 where st4: "slot_free slot ?st3 = Some st4" "slots_used st4 = slots_used ?st3 - {slot}" "slots_wf st4"
    "\<exists>mp h. st4 = ?st3\<lparr>slot_map := mp, slot_hint := h\<rparr>" by (rule slot_free_spec [OF used3(1,2)])
  then obtain mp' h' where st4': "st4 = ?st3\<lparr>slot_map := mp', slot_hint := h'\<rparr>" by blast
  have dbg: "mm_debug_pte_in st c va = Some (Some e)" by (simp add: mm_debug_pte_in_spec [OF off] l)
  have "evict c va st = Some (0, st4)"
    using sa wp um st4(1) full e(2) by (simp add: evict_def evict_to_slot_def dbg maskc present_bit Let_def st1)
  moreover have "walk (ram st4) c 3 va = None"
    using leaf_write [OF tree l(1) refl, of 0] by (simp add: st4' leaf_value_def)
  ultimately show thesis
    using that [of st4] phys_cong(2) [of st4 st] st4(2) used3(3) slot(2) by (simp add: st4' st1)
qed

section \<open>Accounting\<close>

text \<open>Of the steps of an eviction only the release of the frame touches the PFN database.\<close>

definition same_db :: "'a mm_state_scheme \<Rightarrow> 'a mm_state_scheme \<Rightarrow> bool" where
  "same_db st st' \<longleftrightarrow> pfn_db st' = pfn_db st \<and> phys_offset st' = phys_offset st"

lemma slot_alloc_db:
  assumes "slot_alloc st = Some (r, st')"
  shows "same_db st st'"
proof (cases "slot_count st = 0")
  case False
  with assms obtain x where "(case x of
      None \<Rightarrow> Some (None, st)
    | Some s \<Rightarrow> do {
        w \<leftarrow> idx (slot_map st) (s div 64);
        mp \<leftarrow> upd (slot_map st) (s div 64) (w OR push_bit (s mod 64) 1);
        require (s + 1 < 2 ^ 32);
        Some (Some s, st\<lparr>slot_map := mp, slot_hint := s + 1\<rparr>)
      }) = Some (r, st')"
    by (auto simp only: slot_alloc_def Let_def if_False bind_eq_Some_conv)
  then show ?thesis
    by (cases x) (auto simp: same_db_def panic_elims split: if_splits)
qed (use assms in \<open>simp add: slot_alloc_def same_db_def Let_def\<close>)

lemma slot_free_db: "slot_free s st = Some st' \<Longrightarrow> same_db st st'"
  by (auto simp: slot_free_def same_db_def panic_elims)

lemma write_page_db: "write_page s pa st = Some (ok, st') \<Longrightarrow> same_db st st'"
  using write_page_loop_spec [of "[0..<SECTORS_PER_PAGE]" s pa st]
  by (auto simp: write_page_def same_db_def phys_to_virt_def split: if_splits)

lemma mm_unmap_db: "mm_unmap_user_page_in c va st = Some (r, st') \<Longrightarrow> same_db st st'"
  by (auto simp: mm_unmap_user_page_in_def write_entry_def same_db_def panic_elims split: option.splits if_splits)

lemma same_db_trans: "same_db a b \<Longrightarrow> same_db b c \<Longrightarrow> same_db a c"
  by (simp add: same_db_def)

lemma mm_free_wf:
  assumes "phys_wf st" "mm_free_contiguous_pages pa 1 st = Some st'"
  shows "phys_wf st'" "frame_count st' = frame_count st" "mm_free_page_count st' = mm_free_page_count st + 1"
proof -
  have "{pfn_of pa..<pfn_of pa + 1} \<subseteq> frames_used st"
    using mm_free_not_allocated [OF assms(1), of 1 pa] assms(2) by fastforce
  then obtain st'' where "mm_free_contiguous_pages (from_pfn (pfn_of pa)) 1 st = Some st''" "phys_wf st''"
    "frame_count st'' = frame_count st" "free_pages (pfn_db st'') = free_pages (pfn_db st) + 1"
    using mm_free_spec [OF assms(1), of "pfn_of pa" 1] by (metis zero_less_one)
  with assms(2) show "phys_wf st'" "frame_count st' = frame_count st" "mm_free_page_count st' = mm_free_page_count st + 1"
    by (simp_all add: mm_free_pfn [of pa] mm_free_page_count_def)
qed

definition accounted :: "nat \<Rightarrow> 'a mm_state_scheme \<Rightarrow> 'a mm_state_scheme \<Rightarrow> bool" where
  "accounted k st st' \<longleftrightarrow> phys_wf st' \<and> frame_count st' = frame_count st \<and> mm_free_page_count st' = mm_free_page_count st + k"

lemma accounted_db: "phys_wf st \<Longrightarrow> same_db st st' \<Longrightarrow> accounted 0 st st'"
  using phys_cong [of st' st] by (simp add: same_db_def accounted_def mm_free_page_count_def)

lemma accounted_trans: "accounted a st st' \<Longrightarrow> accounted b st' st'' \<Longrightarrow> accounted (a + b) st st''"
  by (simp add: accounted_def)

lemma slot_free_accounted:
  "phys_wf st \<Longrightarrow> same_db st st1 \<Longrightarrow> do { st \<leftarrow> slot_free s st1; Some (0, st) } = Some (k, st') \<Longrightarrow> accounted k st st'"
  by (auto simp: bind_eq_Some_conv intro!: accounted_db intro: same_db_trans dest!: slot_free_db)

lemma evict_to_slot_accounted:
  assumes wf: "phys_wf st" and e: "evict_to_slot c va pa slot st = Some (k, st')"
  shows "accounted k st st'"
proof -
  from e obtain ok st1 where w: "write_page slot pa st = Some (ok, st1)"
    by (auto simp: evict_to_slot_def bind_eq_Some_conv)
  note db1 = write_page_db [OF w]
  show ?thesis
  proof (cases ok)
    case False
    with e w show ?thesis by (intro slot_free_accounted [OF wf db1]) (simp add: evict_to_slot_def)
  next
    case True
    with e w obtain r st2 where u: "mm_unmap_user_page_in c va st1 = Some (r, st2)"
      by (auto simp: evict_to_slot_def bind_eq_Some_conv)
    note db2 = same_db_trans [OF db1 mm_unmap_db [OF u]]
    show ?thesis
    proof (cases "r \<noteq> Some pa \<or> length (paged_out st2) \<ge> MAP_CAP")
      case rec: True
      with e w u True show ?thesis by (intro slot_free_accounted [OF wf db2]) (auto simp: evict_to_slot_def split: if_splits)
    next
      case rec: False
      let ?st3 = "st2\<lparr>paged_out := paged_out st2 @ [(c, va, slot)], last_slot := Some slot\<rparr>"
      have a: "accounted 0 st ?st3"
        by (rule accounted_db [OF wf]) (use db2 in \<open>simp add: same_db_def\<close>)
      from e w u True rec have f: "mm_free_contiguous_pages (unat pa) 1 ?st3 = Some st'" "k = 1"
        by (auto simp: evict_to_slot_def Let_def bind_eq_Some_conv split: if_splits)
      from a mm_free_wf [OF _ f(1)] f(2) show ?thesis by (simp add: accounted_def)
    qed
  qed
qed

lemma evict_accounted:
  assumes wf: "phys_wf st" and e: "evict c va st = Some (k, st')"
  shows "accounted k st st'"
proof -
  from e obtain l where l: "mm_debug_pte_in st c va = Some l" by (auto simp: evict_def bind_eq_Some_conv)
  show ?thesis
  proof (cases "\<exists>pte. l = Some pte \<and> pte AND 1 \<noteq> 0")
    case False
    with e l have "k = 0 \<and> st' = st" by (auto simp: evict_def split: option.splits)
    with wf show ?thesis by (simp add: accounted_def)
  next
    case True
    then obtain pte where pte: "l = Some pte" "pte AND 1 \<noteq> 0" by blast
    with e l obtain r st1 where s: "slot_alloc st = Some (r, st1)"
      by (auto simp: evict_def Let_def bind_eq_Some_conv)
    from slot_alloc_db [OF s] wf have a: "accounted 0 st st1" "phys_wf st1"
      using accounted_db [OF wf] by (auto simp: accounted_def)
    show ?thesis
    proof (cases r)
      case None
      with e l pte s a show ?thesis by (simp add: evict_def Let_def)
    next
      case (Some slot)
      with e l pte s have "evict_to_slot c va (pte AND 0x000FFFFFFFFFF000) slot st1 = Some (k, st')"
        by (simp add: evict_def Let_def)
      from accounted_trans [OF a(1) evict_to_slot_accounted [OF a(2) this]] show ?thesis by simp
    qed
  qed
qed

lemma evict_loop_accounted:
  assumes "phys_wf st" "evict_loop reg n freed st = Some (k, st')"
  shows "freed \<le> k \<and> accounted (k - freed) st st'"
  using assms
proof (induction reg n freed st arbitrary: k st' rule: evict_loop.induct)
  case (2 c va reg n freed st)
  show ?case
  proof (cases "freed < n")
    case True
    with 2(3) obtain j st1 where e: "evict c va (st\<lparr>registry := reg\<rparr>) = Some (j, st1)"
      "evict_loop reg n (freed + j) st1 = Some (k, st')" by (auto simp: bind_eq_Some_conv)
    have "phys_wf (st\<lparr>registry := reg\<rparr>)" using 2(2) phys_cong(1) [of "st\<lparr>registry := reg\<rparr>" st] by simp
    from evict_accounted [OF this e(1)] have a: "accounted j st st1"
      using phys_cong [of "st\<lparr>registry := reg\<rparr>" st] by (simp add: accounted_def mm_free_page_count_def)
    then have wf1: "phys_wf st1" by (simp add: accounted_def)
    have "freed + j \<le> k \<and> accounted (k - (freed + j)) st1 st'"
      by (rule "2.IH" [OF True e(1) refl wf1 e(2)])
    with accounted_trans [OF a] show ?thesis by fastforce
  next
    case False
    with 2(2,3) show ?thesis by (simp add: accounted_def)
  qed
qed (simp add: accounted_def)

lemma try_alloc_total:
  assumes "phys_wf st"
  obtains r st' where "try_alloc n st = Some (r, st')"
  by (rule try_alloc_spec [OF assms])

text \<open>A single frame is found exactly when one is free.\<close>

lemma no_run_of_one:
  assumes "phys_wf st" "\<forall>i. i + 1 \<le> frame_count st \<longrightarrow> {i..<i + 1} \<inter> frames_used st \<noteq> {}"
  shows "mm_free_page_count st = 0"
proof -
  have "{..<frame_count st} \<subseteq> frames_used st" using assms(2) by auto
  then have "frames_used st = {..<frame_count st}" using frames.used_bounded [OF assms(1)] by auto
  moreover have "free_pages (pfn_db st) + card (frames_used st) = frame_count st" by (rule phys_wfE [OF assms(1)])
  ultimately show ?thesis by (simp add: mm_free_page_count_def)
qed

definition fresh_run :: "nat \<Rightarrow> nat \<Rightarrow> 'a mm_state_scheme \<Rightarrow> 'a mm_state_scheme \<Rightarrow> bool" where
  "fresh_run i n s st' \<longleftrightarrow> i + n \<le> frame_count s \<and> {i..<i + n} \<inter> frames_used s = {} \<and>
     frames_used st' = frames_used s \<union> {i..<i + n} \<and> ram st' = zero_frames (ram s) i n \<and>
     mm_free_page_count st' + n = mm_free_page_count s"

lemma try_alloc_fresh:
  assumes "phys_wf s" "try_alloc n s = Some (r, st')"
  shows "phys_wf st' \<and> (case r of
     Some pa \<Rightarrow> \<exists>i. pa = from_pfn i \<and> fresh_run i n s st'
   | None \<Rightarrow> st' = s \<and> (n = 1 \<longrightarrow> mm_free_page_count st' = 0))"
proof (rule try_alloc_spec [OF assms(1), of n])
  fix q t
  assume "try_alloc n s = Some (q, t)" and
    post: "case q of
       None \<Rightarrow> t = s \<and> (n = 0 \<or> (\<forall>i. i + n \<le> frame_count s \<longrightarrow> {i..<i + n} \<inter> frames_used s \<noteq> {}))
     | Some pa \<Rightarrow> (\<exists>i. pa = from_pfn i \<and> 0 < n \<and> i + n \<le> frame_count s \<and> {i..<i + n} \<inter> frames_used s = {} \<and>
         frames_used t = frames_used s \<union> {i..<i + n} \<and> frame_count t = frame_count s \<and> phys_wf t \<and>
         free_pages (pfn_db t) + n = free_pages (pfn_db s) \<and> ram t = zero_frames (ram s) i n)"
  with assms(2) have "q = r" "t = st'" by simp_all
  with post no_run_of_one [OF assms(1)] assms(1) show ?thesis
    by (auto simp: fresh_run_def mm_free_page_count_def split: option.splits)
qed

lemma try_alloc_frame_count:
  assumes "phys_wf s" "try_alloc n s = Some (r, st')"
  shows "frame_count st' = frame_count s"
  by (rule try_alloc_spec [OF assms(1), of n]) (use assms(2) in \<open>auto split: option.splits\<close>)

section \<open>Properties\<close>


lemma demo_mm_wf: "phys_wf demo_mm" "slots_wf demo_mm" "frames_used demo_mm = {..<6}"
proof -
  have m: "(0x3F :: int) = mask 6" by (simp add: mask_eq_exp_minus_1)
  have b: "bit (0x3F :: int) i \<longleftrightarrow> i < 6" for i unfolding m bit_mask_iff by simp
  have u: "bits_used \<lparr>words = [0x3F], size_in_bits = 64\<rparr> = {..<6}"
    by (auto simp: bits_used_def bit_at_def) (simp_all only: b)
  then show "phys_wf demo_mm" by (auto simp: phys_wf_def demo_mm_def bitmap_wf_def)
  show "frames_used demo_mm = {..<6}" using u by (simp add: frames_used_def demo_mm_def)
  show "slots_wf demo_mm" by (simp add: slots_wf_def demo_mm_def slot_count_def)
qed

lemma demo_resident: "ram demo_mm = demo_ram" "present 0x5007" "frame_of (0x5007 AND ADDR_MASK) = 5"
  "length (paged_out demo_mm) < MAP_CAP" "blk_reliable demo_mm" "slots_used demo_mm \<noteq> {..<slot_count demo_mm}"
proof -
  have "(0x5007 :: u64) AND ADDR_MASK = 0x5000" by code_simp
  then show "frame_of (0x5007 AND ADDR_MASK) = 5" by (simp add: demo_frames)
  show "present 0x5007" by code_simp
  have "0 \<notin> slots_used demo_mm" "0 \<in> {..<slot_count demo_mm}"
    by (simp_all add: slots_used_def bit_at_def slot_count_def demo_mm_def)
  then show "slots_used demo_mm \<noteq> {..<slot_count demo_mm}" by metis
qed (simp_all add: demo_mm_def MAP_CAP_def blk_reliable_def)




end
