(* ===== verification/Mm_Map.thy ===== *)
theory Mm_Map
  imports Mm_Pageout
begin

text \<open>
  Building and tearing down mappings (\<^verbatim>\<open>kernel/src/mm/virt.rs\<close>, write side) and the pager's fault path
  (\<open>page_in\<close> of \<^verbatim>\<open>kernel/src/mm/pageout.rs\<close>). Intermediate tables come from \<open>mm_allocate_page\<close>, which may
  evict other pages; an allocation failure there is the source's \<open>expect\<close>, a bugcheck.
\<close>

section \<open>Mapping\<close>

definition phys_word :: "nat \<Rightarrow> u64" where
  "phys_word pa = of_nat pa"

definition get_or_create_table :: "u64 \<Rightarrow> nat \<Rightarrow> 'a mm_state_scheme \<Rightarrow> (u64 \<times> 'a mm_state_scheme) option" where
  "get_or_create_table t i st = do {
     e \<leftarrow> entry st t i;
     if present e then Some (e AND ADDR_MASK, st)
     else do {
       (r, st) \<leftarrow> mm_allocate_page st;
       pa \<leftarrow> r;
       let c = phys_word pa;
       st \<leftarrow> write_entry st t i ((c AND ADDR_MASK) OR ENTRY_PRESENT OR ENTRY_RW OR ENTRY_USER);
       Some (c, st)
     }
   }"

definition map_user_page :: "u64 \<Rightarrow> u64 \<Rightarrow> u64 \<Rightarrow> bool \<Rightarrow> bool \<Rightarrow> 'a mm_state_scheme \<Rightarrow> 'a mm_state_scheme option" where
  "map_user_page pml4 v p writable exec st = do {
     (pdpt, st) \<leftarrow> get_or_create_table pml4 (pt_index v 39) st;
     (pd, st) \<leftarrow> get_or_create_table pdpt (pt_index v 30) st;
     (pt, st) \<leftarrow> get_or_create_table pd (pt_index v 21) st;
     write_entry st pt (pt_index v 12)
       ((p AND ADDR_MASK) OR ENTRY_PRESENT OR ENTRY_USER OR (if writable then ENTRY_RW else 0) OR (if exec then 0 else ENTRY_NX))
   }"

definition mm_map_user_range :: "u64 \<Rightarrow> u64 \<Rightarrow> u64 \<Rightarrow> nat \<Rightarrow> bool \<Rightarrow> bool \<Rightarrow> 'a mm_state_scheme \<Rightarrow> 'a mm_state_scheme option" where
  "mm_map_user_range pml4 va p pages writable exec st =
     foreach (\<lambda>i st. do {
       off \<leftarrow> checked_mul (of_nat i) 0x1000;
       v \<leftarrow> checked_add va off;
       q \<leftarrow> checked_add p off;
       map_user_page pml4 v q writable exec st
     }) [0..<pages] st"

definition mm_create_address_space :: "'a mm_state_scheme \<Rightarrow> (u64 \<times> 'a mm_state_scheme) option" where
  "mm_create_address_space st = do {
     (r, st) \<leftarrow> mm_allocate_page st;
     pa \<leftarrow> r;
     let new = phys_word pa;
     va \<leftarrow> phys_to_virt st pa;
     va' \<leftarrow> phys_to_virt st (unat (kernel_pml4 st));
     st \<leftarrow> foreach (\<lambda>i st. do { e \<leftarrow> entry st (kernel_pml4 st) i; write_entry st new i e }) [256..<512] st;
     Some (new, st)
   }"

section \<open>Splitting and protecting live mappings\<close>

definition new_table :: "'a mm_state_scheme \<Rightarrow> (u64 \<times> 'a mm_state_scheme) option" where
  "new_table st = do { (r, st) \<leftarrow> mm_allocate_page st; pa \<leftarrow> r; Some (phys_word pa, st) }"

text \<open>Fill a fresh table with 512 consecutive spans, as the two splits and the privatizing split do.\<close>

definition fill_table :: "u64 \<Rightarrow> u64 \<Rightarrow> u64 \<Rightarrow> u64 \<Rightarrow> 'a mm_state_scheme \<Rightarrow> 'a mm_state_scheme option" where
  "fill_table t base span flags st =
     foreach (\<lambda>i st. write_entry st t i ((base + of_nat i * span) OR flags)) [0..<512] st"

definition split_1g :: "u64 \<Rightarrow> nat \<Rightarrow> 'a mm_state_scheme \<Rightarrow> 'a mm_state_scheme option" where
  "split_1g t i st = do {
     p3 \<leftarrow> entry st t i;
     if large p3 then do {
       let base = p3 AND ADDR_MASK AND NOT 0x3FFFFFFF;
       let flags = p3 AND FLAG_MASK;
       (c, st) \<leftarrow> new_table st;
       st \<leftarrow> fill_table c base 0x200000 flags st;
       write_entry st t i ((c AND ADDR_MASK) OR ENTRY_PRESENT OR (p3 AND (ENTRY_RW OR ENTRY_USER OR ENTRY_NX)))
     } else Some st
   }"

definition split_2m :: "u64 \<Rightarrow> nat \<Rightarrow> 'a mm_state_scheme \<Rightarrow> 'a mm_state_scheme option" where
  "split_2m t i st = do {
     p2 \<leftarrow> entry st t i;
     if large p2 then do {
       let base = p2 AND ADDR_MASK AND NOT 0x1FFFFF;
       let flags = p2 AND FLAG_MASK AND NOT ENTRY_LARGE;
       (c, st) \<leftarrow> new_table st;
       st \<leftarrow> fill_table c base 0x1000 flags st;
       write_entry st t i ((c AND ADDR_MASK) OR ENTRY_PRESENT OR (p2 AND (ENTRY_RW OR ENTRY_USER OR ENTRY_NX)))
     } else Some st
   }"

definition split_to_4k :: "u64 \<Rightarrow> 'a mm_state_scheme \<Rightarrow> 'a mm_state_scheme option" where
  "split_to_4k va st = do {
     p4 \<leftarrow> entry st (current_pml4 st) (pt_index va 39);
     if \<not> present p4 then Some st else do {
     p3 \<leftarrow> entry st (p4 AND ADDR_MASK) (pt_index va 30);
     if \<not> present p3 then Some st else do {
     st \<leftarrow> split_1g (p4 AND ADDR_MASK) (pt_index va 30) st;
     p3 \<leftarrow> entry st (p4 AND ADDR_MASK) (pt_index va 30);
     p2 \<leftarrow> entry st (p3 AND ADDR_MASK) (pt_index va 21);
     if \<not> present p2 then Some st
     else split_2m (p3 AND ADDR_MASK) (pt_index va 21) st }}
   }"

text \<open>
  The two protection walks: \<open>clear_nx_path\<close> clears the no-execute bit of every present entry on the path, and
  \<open>set_user_exec_path\<close> also sets the user bit; both stop at the leaf. They differ only in the edit.
\<close>

definition touch_path :: "(u64 \<Rightarrow> u64) \<Rightarrow> u64 \<Rightarrow> 'a mm_state_scheme \<Rightarrow> 'a mm_state_scheme option" where
  "touch_path f va st = do {
     let t4 = current_pml4 st;
     p4 \<leftarrow> entry st t4 (pt_index va 39);
     if \<not> present p4 then Some st else do {
     st \<leftarrow> write_entry st t4 (pt_index va 39) (f p4);
     p4 \<leftarrow> entry st t4 (pt_index va 39);
     let t3 = p4 AND ADDR_MASK;
     p3 \<leftarrow> entry st t3 (pt_index va 30);
     if \<not> present p3 then Some st else do {
     st \<leftarrow> write_entry st t3 (pt_index va 30) (f p3);
     p3 \<leftarrow> entry st t3 (pt_index va 30);
     if large p3 then Some st else do {
     let t2 = p3 AND ADDR_MASK;
     p2 \<leftarrow> entry st t2 (pt_index va 21);
     if \<not> present p2 then Some st else do {
     st \<leftarrow> write_entry st t2 (pt_index va 21) (f p2);
     p2 \<leftarrow> entry st t2 (pt_index va 21);
     if large p2 then Some st else do {
     let t1 = p2 AND ADDR_MASK;
     p1 \<leftarrow> entry st t1 (pt_index va 12);
     if \<not> present p1 then Some st
     else write_entry st t1 (pt_index va 12) (f p1) }}}}}
   }"

definition clear_nx_path :: "u64 \<Rightarrow> 'a mm_state_scheme \<Rightarrow> 'a mm_state_scheme option" where
  "clear_nx_path va st = touch_path (\<lambda>e. e AND NOT ENTRY_NX) va st"

definition set_user_exec_path :: "u64 \<Rightarrow> 'a mm_state_scheme \<Rightarrow> 'a mm_state_scheme option" where
  "set_user_exec_path va st = touch_path (\<lambda>e. (e OR ENTRY_USER) AND NOT ENTRY_NX) va st"

text \<open>The page loops of the two exported routines; the address step is checked, as in the dev profile.\<close>

function page_loop :: "(u64 \<Rightarrow> 's \<Rightarrow> 's option) \<Rightarrow> u64 \<Rightarrow> u64 \<Rightarrow> 's \<Rightarrow> 's option" where
  "page_loop f addr end' st =
     (if addr < end' then do {
        st \<leftarrow> f addr st;
        (case checked_add addr 0x1000 of None \<Rightarrow> None | Some addr' \<Rightarrow> page_loop f addr' end' st)
      } else Some st)"
  by pat_completeness auto
termination
proof (relation "measure (\<lambda>(f, addr, end', st). 2 ^ 64 - unat addr)", simp)
  fix addr end' addr' :: u64
  assume "checked_add addr 0x1000 = Some addr'"
  then have "unat addr + 4096 < 2 ^ 64" "unat addr' = unat addr + 4096"
    by (simp_all add: checked_add_Some)
  then show "((f, addr', end', st'), f, addr, end', st) \<in> measure (\<lambda>(f, addr, end', st). 2 ^ 64 - unat addr)" for f :: "u64 \<Rightarrow> 's \<Rightarrow> 's option" and st st'
    by simp
qed

declare page_loop.simps [simp del]

definition mm_set_executable :: "u64 \<Rightarrow> nat \<Rightarrow> 'a mm_state_scheme \<Rightarrow> 'a mm_state_scheme option" where
  "mm_set_executable va len st = do {
     end' \<leftarrow> checked_add va (of_nat len);
     page_loop (\<lambda>addr st. do { st \<leftarrow> split_to_4k addr st; clear_nx_path addr st }) (va AND NOT 0xFFF) end' st
   }"

definition mm_set_user_executable :: "u64 \<Rightarrow> nat \<Rightarrow> 'a mm_state_scheme \<Rightarrow> 'a mm_state_scheme option" where
  "mm_set_user_executable va len st = do {
     end' \<leftarrow> checked_add va (of_nat len);
     page_loop (\<lambda>addr st. do { st \<leftarrow> split_to_4k addr st; set_user_exec_path addr st }) (va AND NOT 0xFFF) end' st
   }"

section \<open>Teardown\<close>

primrec free_table_level :: "nat \<Rightarrow> u64 \<Rightarrow> 'a mm_state_scheme \<Rightarrow> 'a mm_state_scheme option" where
  "free_table_level 0 t st = do {
     st \<leftarrow> foreach (\<lambda>i st. do {
       e \<leftarrow> entry st t i;
       if \<not> present e then Some st
       else do { require (\<not> large e); mm_free_contiguous_pages (unat (e AND ADDR_MASK)) 1 st }
     }) [0..<512] st;
     mm_free_contiguous_pages (unat t) 1 st
   }"
| "free_table_level (Suc n) t st = do {
     st \<leftarrow> foreach (\<lambda>i st. do {
       e \<leftarrow> entry st t i;
       if \<not> present e then Some st
       else do { require (\<not> large e); free_table_level n (e AND ADDR_MASK) st }
     }) [0..<512] st;
     mm_free_contiguous_pages (unat t) 1 st
   }"

definition mm_free_user_address_space :: "u64 \<Rightarrow> 'a mm_state_scheme \<Rightarrow> 'a mm_state_scheme option" where
  "mm_free_user_address_space pml4 st = do {
     st \<leftarrow> foreach (\<lambda>i st. do {
       e \<leftarrow> entry st pml4 i;
       if \<not> present e then Some st else free_table_level 2 (e AND ADDR_MASK) st
     }) [0..<256] st;
     mm_free_contiguous_pages (unat pml4) 1 st
   }"

section \<open>The fault path of the pager\<close>

definition page_in :: "u64 \<Rightarrow> u64 \<Rightarrow> bool \<Rightarrow> bool \<Rightarrow> 'a mm_state_scheme \<Rightarrow> (bool \<times> 'a mm_state_scheme) option" where
  "page_in c va writable executable st =
     (let (s, st) = paged_out_take c va st in
      case s of
        None \<Rightarrow> Some (False, st)
      | Some slot \<Rightarrow> do {
          (r, st) \<leftarrow> mm_allocate_page st;
          (case r of
             None \<Rightarrow> Some (False, st\<lparr>paged_out := paged_out st @ [(c, va, slot)]\<rparr>)
           | Some pa \<Rightarrow> do {
               (ok, st) \<leftarrow> read_page slot (phys_word pa) st;
               if \<not> ok then do {
                 st \<leftarrow> mm_free_contiguous_pages pa 1 (st\<lparr>paged_out := paged_out st @ [(c, va, slot)]\<rparr>);
                 Some (False, st)
               } else do {
                 st \<leftarrow> slot_free slot st;
                 st \<leftarrow> mm_map_user_range c va (phys_word pa) 1 writable executable st;
                 st \<leftarrow> register_page c va st;
                 Some (True, st)
               }
             })
        })"

section \<open>Replacing one child of a table\<close>

text \<open>
  The effect on a whole tree of replacing the subtree under one entry of its root: used for a new table, for a
  change below an existing one and for a split.
\<close>

lemma replace_child:
  assumes tree: "pt_tree m t (Suc n)"
    and same: "\<forall>j. j \<noteq> i \<longrightarrow> ent m' t j = ent m t j"
    and ci: "child_at m' t n i" "child m' t i = c" "i < 512"
    and others: "\<forall>j. j \<noteq> i \<longrightarrow> child_at m t n j \<longrightarrow> (\<forall>p \<in> tables m (child m t j) n. m' p = m p)"
    and sub: "pt_tree m' c n" and root: "frame_of t \<notin> tables m' c n"
    and disj: "\<forall>j. j \<noteq> i \<longrightarrow> child_at m t n j \<longrightarrow> tables m (child m t j) n \<inter> tables m' c n = {}"
  shows "pt_tree m' t (Suc n)"
    "tables m' t (Suc n) = insert (frame_of t) (tables m' c n \<union> (\<Union>j \<in> {j. j \<noteq> i \<and> child_at m t n j}. tables m (child m t j) n))"
    "walk m' t (Suc n) va = (if pt_index va (12 + 9 * Suc n) = i then walk m' c n va else walk m t (Suc n) va)"
    "leaf_at m' t (Suc n) va = (if pt_index va (12 + 9 * Suc n) = i then leaf_at m' c n va else leaf_at m t (Suc n) va)"
proof -
  have cj: "child_at m' t n j = child_at m t n j" "child m' t j = child m t j" if "j \<noteq> i" for j
    using same that by (simp_all add: child_at_def child_def)
  have fr: "\<forall>p \<in> tables m (child m t j) n. m' p = m p" if "j \<noteq> i" "child_at m t n j" for j
    using others that by blast
  have tb: "tables m' (child m' t j) n = (if j = i then tables m' c n else tables m (child m t j) n)" if "child_at m' t n j" for j
    using that tables_frame [OF fr] cj ci(2) by auto
  have tr: "pt_tree m' (child m' t j) n" if "child_at m' t n j" for j
    using that pt_tree_frame [OF fr] cj ci(2) sub tree by (cases "j = i") auto
  show "pt_tree m' t (Suc n)"
    unfolding pt_tree.simps
  proof (intro conjI allI impI)
    fix j k assume c: "child_at m' t n j" "child_at m' t n k" "j \<noteq> k"
    consider "j = i" "k \<noteq> i" | "j \<noteq> i" "k = i" | "j \<noteq> i" "k \<noteq> i" using c(3) by auto
    then show "tables m' (child m' t j) n \<inter> tables m' (child m' t k) n = {}"
    proof cases
      case 1
      then show ?thesis unfolding tb [OF c(1)] tb [OF c(2)] using disj c cj by (auto simp: Int_commute)
    next
      case 2
      then show ?thesis unfolding tb [OF c(1)] tb [OF c(2)] using disj c cj by auto
    next
      case 3
      then have "child_at m t n j" "child_at m t n k" using c cj by simp_all
      with tree c(3) have "tables m (child m t j) n \<inter> tables m (child m t k) n = {}" by simp
      with 3 show ?thesis unfolding tb [OF c(1)] tb [OF c(2)] by simp
    qed
  next
    fix j assume c: "child_at m' t n j"
    show "pt_tree m' (child m' t j) n" by (rule tr [OF c])
    show "frame_of t \<notin> tables m' (child m' t j) n"
      using c tree cj root by (auto simp: tb [OF c])
  qed
  have "(\<Union>j \<in> {j. child_at m' t n j}. tables m' (child m' t j) n) =
    tables m' c n \<union> (\<Union>j \<in> {j. j \<noteq> i \<and> child_at m t n j}. tables m (child m t j) n)"
    using ci(1) cj tb by (auto split: if_splits)
  then show "tables m' t (Suc n) = insert (frame_of t) (tables m' c n \<union> (\<Union>j \<in> {j. j \<noteq> i \<and> child_at m t n j}. tables m (child m t j) n))"
    by simp
  show "walk m' t (Suc n) va = (if pt_index va (12 + 9 * Suc n) = i then walk m' c n va else walk m t (Suc n) va)"
  proof (cases "pt_index va (12 + 9 * Suc n) = i")
    case True
    with ci show ?thesis by (auto simp: child_at_def child_def Let_def)
  next
    case False
    let ?j = "pt_index va (12 + 9 * Suc n)"
    have "walk m' (child m t ?j) n va = walk m (child m t ?j) n va" if "child_at m t n ?j"
      by (rule walk_frame [OF fr [OF False that]])
    with False same show ?thesis by (auto simp: child_at_def child_def Let_def)
  qed
  show "leaf_at m' t (Suc n) va = (if pt_index va (12 + 9 * Suc n) = i then leaf_at m' c n va else leaf_at m t (Suc n) va)"
  proof (cases "pt_index va (12 + 9 * Suc n) = i")
    case True
    with ci show ?thesis by (simp add: Let_def)
  next
    case False
    let ?j = "pt_index va (12 + 9 * Suc n)"
    have "leaf_at m' (child m t ?j) n va = leaf_at m (child m t ?j) n va" if "child_at m t n ?j"
      by (rule leaf_frame [OF fr [OF False that]])
    with False show ?thesis by (auto simp: cj Let_def)
  qed
qed

text \<open>A zeroed frame is an empty table.\<close>

lemma empty_table:
  assumes "\<forall>i. ent m c i = 0"
  shows "tables m c n = {frame_of c}" "pt_tree m c n" "walk m c n va = None" "page_of m c n va = None"
proof -
  have nc: "child_at m c k = (\<lambda>_. False)" for k using assms by (simp add: fun_eq_iff child_at_def)
  show "tables m c n = {frame_of c}" by (cases n) (simp_all add: nc)
  show "pt_tree m c n" by (cases n) (simp_all add: nc)
  show "walk m c n va = None" using assms by (cases n) (simp_all add: Let_def)
  show "page_of m c n va = None" using assms by (cases n) (simp_all add: page_of_def page_of_child nc)
qed

section \<open>Mapping a page\<close>

text \<open>Frames below the architectural limit survive the trip through an entry.\<close>

lemma ADDR_MASK_bits: "bit ADDR_MASK k \<longleftrightarrow> 12 \<le> k \<and> k < 52"
proof -
  have eq: "ADDR_MASK = push_bit 12 (mask 40)" by (simp add: ADDR_MASK_def mask_eq_exp_minus_1)
  show ?thesis unfolding eq bit_push_bit_iff bit_mask_iff by auto
qed

lemma phys_word_frame:
  assumes "i < 2 ^ 40"
  shows "phys_word (from_pfn i) AND ADDR_MASK = phys_word (from_pfn i)" "frame_of (phys_word (from_pfn i)) = i"
    "unat (phys_word (from_pfn i)) = from_pfn i"
proof -
  have lt: "from_pfn i < 2 ^ 52" using assms by (simp add: from_pfn_def PAGE_SIZE_def)
  then show u: "unat (phys_word (from_pfn i)) = from_pfn i"
    unfolding phys_word_def by (subst unat_of_nat) (simp add: mod_less)
  then show "frame_of (phys_word (from_pfn i)) = i" by (simp add: frame_of_def)
  have w: "phys_word (from_pfn i) = push_bit 12 (of_nat i)"
    by (simp add: phys_word_def from_pfn_def PAGE_SIZE_def push_bit_eq_mult mult.commute)
  have "take_bit 40 (of_nat i :: u64) = of_nat i"
    using assms by (simp only: take_bit_of_nat take_bit_nat_eq_self)
  then have "bit (of_nat i :: u64) k \<Longrightarrow> k < 40" for k by (metis bit_take_bit_iff)
  then have "bit (of_nat i :: u64) (k - 12) \<Longrightarrow> 12 \<le> k \<Longrightarrow> k < 52" for k by fastforce
  then show "phys_word (from_pfn i) AND ADDR_MASK = phys_word (from_pfn i)"
    by (intro bit_word_eqI) (auto simp: w bit_and_iff ADDR_MASK_bits bit_push_bit_iff)
qed

lemma table_entry_facts:
  assumes "c AND ADDR_MASK = c"
  shows "present ((c AND ADDR_MASK) OR ENTRY_PRESENT OR ENTRY_RW OR ENTRY_USER)"
    "\<not> large ((c AND ADDR_MASK) OR ENTRY_PRESENT OR ENTRY_RW OR ENTRY_USER)"
    "((c AND ADDR_MASK) OR ENTRY_PRESENT OR ENTRY_RW OR ENTRY_USER) AND ADDR_MASK = c"
proof -
  let ?e = "(c AND ADDR_MASK) OR ENTRY_PRESENT OR ENTRY_RW OR ENTRY_USER"
  have b: "bit ?e k \<longleftrightarrow> bit c k \<and> 12 \<le> k \<and> k < 52 \<or> k = 0 \<or> k = 1 \<or> k = 2" for k
    by (auto simp: bit_or_iff bit_and_iff ADDR_MASK_bits bit_ENTRY)
  have "bit (?e AND ENTRY_PRESENT) 0" by (simp add: bit_and_iff b bit_ENTRY)
  then show "present ?e" by (metis bit_0_eq bot_apply bot_bool_def)
  have "?e AND ENTRY_LARGE = 0" by (rule bit_word_eqI) (auto simp: bit_and_iff b bit_ENTRY)
  then show "\<not> large ?e" by simp
  have "?e AND ADDR_MASK = c AND ADDR_MASK" by (rule bit_word_eqI) (auto simp: bit_and_iff b ADDR_MASK_bits)
  then show "?e AND ADDR_MASK = c" using assms by simp
qed

text \<open>While a frame is free the page allocator takes it without evicting.\<close>

lemma try_alloc_only:
  assumes "try_alloc n st = Some (r, st')"
  shows "\<exists>db m. st' = st\<lparr>pfn_db := db, ram := m\<rparr>"
proof -
  have id: "st = st\<lparr>pfn_db := pfn_db st, ram := ram st\<rparr>" by simp
  show ?thesis
  proof (cases "pfn_bitmap (pfn_db st)")
    case None
    with assms have "st' = st" by (simp add: try_alloc_def)
    with id show ?thesis by metis
  next
    case (Some bm)
    with assms obtain q bm' where f: "find_clear_bits_and_set bm n (pfn_hint (pfn_db st)) = Some (q, bm')"
      by (auto simp: try_alloc_def bind_eq_Some_conv)
    show ?thesis
    proof (cases q)
      case None
      with assms f Some have "st' = st" by (simp add: try_alloc_def)
      with id show ?thesis by metis
    next
      case (Some i)
      with assms f \<open>pfn_bitmap (pfn_db st) = Some bm\<close> show ?thesis
        by (auto simp: try_alloc_def phys_to_virt_def panic_elims split: if_splits)
    qed
  qed
qed

lemma mm_allocate_page_free:
  assumes "phys_wf st" "0 < mm_free_page_count st"
  obtains i st' where "mm_allocate_page st = Some (Some (from_pfn i), st')" "i < frame_count st" "i \<notin> frames_used st"
    "frames_used st' = insert i (frames_used st)" "frame_count st' = frame_count st" "phys_wf st'"
    "ram st' = (ram st)(i := (\<lambda>_. 0))" "mm_free_page_count st' + 1 = mm_free_page_count st"
    "\<exists>db m. st' = st\<lparr>pfn_db := db, ram := m\<rparr>"
proof -
  obtain r st' where t: "try_alloc 1 st = Some (r, st')" by (rule try_alloc_total [OF assms(1)])
  note f = try_alloc_fresh [OF assms(1) t] try_alloc_frame_count [OF assms(1) t]
  then obtain i where i: "r = Some (from_pfn i)" "fresh_run i 1 st st'" "phys_wf st'"
    using assms(2) by (auto split: option.splits)
  have "mm_allocate_page st = Some (Some (from_pfn i), st')"
    using t i(1) by (simp add: mm_allocate_page_def mm_allocate_contiguous_pages_def)
  moreover have "{i..<i + 1} = {i}" by auto
  moreover have "zero_frames (ram st) i 1 = (ram st)(i := (\<lambda>_. 0))"
    by (auto simp: zero_frames_def fun_eq_iff)
  ultimately show thesis
    using i f(2) try_alloc_only [OF t] by (intro that [of i st']) (auto simp: fresh_run_def)
qed

text \<open>The descent of \<open>map_user_page\<close>, level by level, and the paths it may take.\<close>

fun map_walk :: "nat \<Rightarrow> u64 \<Rightarrow> u64 \<Rightarrow> u64 \<Rightarrow> 'a mm_state_scheme \<Rightarrow> 'a mm_state_scheme option" where
  "map_walk 0 t v e st = write_entry st t (pt_index v 12) e"
| "map_walk (Suc n) t v e st = do {
     (c, st) \<leftarrow> get_or_create_table t (pt_index v (12 + 9 * Suc n)) st;
     map_walk n c v e st
   }"

lemma map_user_page_walk:
  "map_user_page pml4 v p w x st = map_walk 3 pml4 v
     ((p AND ADDR_MASK) OR ENTRY_PRESENT OR ENTRY_USER OR (if w then ENTRY_RW else 0) OR (if x then 0 else ENTRY_NX)) st"
proof -
  have sh: "12 + 9 * Suc (Suc (Suc 0)) = (39 :: nat)" "12 + 9 * Suc (Suc 0) = (30 :: nat)" "12 + 9 * Suc 0 = (21 :: nat)"
    by simp_all
  show ?thesis unfolding map_user_page_def numeral_3_eq_3 map_walk.simps sh ..
qed

fun no_large_path :: "ram \<Rightarrow> u64 \<Rightarrow> nat \<Rightarrow> u64 \<Rightarrow> bool" where
  "no_large_path m t 0 v = True"
| "no_large_path m t (Suc n) v =
     (let e = ent m t (pt_index v (12 + 9 * Suc n)) in
      present e \<longrightarrow> \<not> (large e \<and> n < 2) \<and> no_large_path m (e AND ADDR_MASK) n v)"

text \<open>
  A change below a table that keeps the tree: it takes at most \<open>k\<close> free frames, for tables only, touches nothing
  else that is in use, and gives every address the translation \<open>w\<close>.
\<close>

definition updated :: "nat \<Rightarrow> nat \<Rightarrow> u64 \<Rightarrow> 'a mm_state_scheme \<Rightarrow> 'a mm_state_scheme \<Rightarrow> (u64 \<Rightarrow> u64 option) \<Rightarrow> bool" where
  "updated k n t st st' w \<longleftrightarrow>
     phys_wf st' \<and> frame_count st' = frame_count st \<and> frames_used st \<subseteq> frames_used st' \<and>
     mm_free_page_count st \<le> mm_free_page_count st' + k \<and>
     pt_tree (ram st') t n \<and> tables (ram st) t n \<subseteq> tables (ram st') t n \<and>
     tables (ram st') t n \<subseteq> tables (ram st) t n \<union> (frames_used st' - frames_used st) \<and>
     tables (ram st') t n \<subseteq> frames_used st' \<and>
     (\<forall>p \<in> frames_used st - tables (ram st) t n. ram st' p = ram st p) \<and>
     (\<forall>va. walk (ram st') t n va = w va) \<and>
     (\<exists>db m. st' = st\<lparr>pfn_db := db, ram := m\<rparr>)"

definition mapped_as :: "nat \<Rightarrow> u64 \<Rightarrow> u64 \<Rightarrow> u64 \<Rightarrow> 'a mm_state_scheme \<Rightarrow> 'a mm_state_scheme \<Rightarrow> bool" where
  "mapped_as n t v e st st' \<longleftrightarrow>
     updated n n t st st' (\<lambda>va. if same_page n v va then leaf_value e va else walk (ram st) t n va) \<and>
     (\<forall>va. page_of (ram st') t n va =
        (if same_page n v va then if present e then Some (e AND ADDR_MASK) else None else page_of (ram st) t n va)) \<and>
     (\<exists>u i. leaf_at (ram st') t n v = Some (u, i) \<and> ent (ram st') u i = e)"

lemma map_walk_leaf:
  assumes "phys_wf st" "tables (ram st) t 0 \<subseteq> frames_used st"
  shows "\<exists>st'. map_walk 0 t v e st = Some st' \<and> mapped_as 0 t v e st st'"
proof -
  let ?st = "st\<lparr>ram := set_ent (ram st) t (pt_index v 12) e\<rparr>"
  have "phys_offset st \<noteq> 0" using assms(1) by (simp add: phys_wf_def)
  then have "map_walk 0 t v e st = Some ?st" by (simp add: write_entry_online)
  moreover have "\<exists>db m. ?st = st\<lparr>pfn_db := db, ram := m\<rparr>"
    by (rule exI [of _ "pfn_db st"], rule exI [of _ "ram ?st"], simp)
  moreover have "mapped_as 0 t v e st ?st"
    using assms phys_cong [of ?st st] calculation(2)
    unfolding mapped_as_def updated_def by (auto simp: mm_free_page_count_def ent_set_ent leaf_value_def page_of_def set_ent_other Let_def)
  ultimately show ?thesis by blast
qed

lemma frames_only_trans:
  assumes "\<exists>db m. s2 = st\<lparr>pfn_db := db, ram := m\<rparr>" "\<exists>db m. s3 = s2\<lparr>pfn_db := db, ram := m\<rparr>"
  shows "\<exists>db m. s3 = st\<lparr>pfn_db := db, ram := m\<rparr>"
proof -
  from assms obtain d m d' m' where "s2 = st\<lparr>pfn_db := d, ram := m\<rparr>" "s3 = s2\<lparr>pfn_db := d', ram := m'\<rparr>" by auto
  then have "s3 = st\<lparr>pfn_db := d', ram := m'\<rparr>" by simp
  then show ?thesis by blast
qed

text \<open>What one level of the descent leaves: a child table, present or fresh, in its slot, and nothing else changed.\<close>

definition table_ready :: "nat \<Rightarrow> u64 \<Rightarrow> nat \<Rightarrow> u64 \<Rightarrow> u64 \<Rightarrow> 'a mm_state_scheme \<Rightarrow> 'a mm_state_scheme \<Rightarrow> bool" where
  "table_ready d t n v c st st' \<longleftrightarrow>
     (let i = pt_index v (12 + 9 * Suc n); m = ram st; m' = ram st' in
      phys_wf st' \<and> frame_count st' = frame_count st \<and> frames_used st \<subseteq> frames_used st' \<and>
      mm_free_page_count st \<le> mm_free_page_count st' + d \<and>
      (\<forall>p \<in> frames_used st - {frame_of t}. m' p = m p) \<and> (\<forall>j. j \<noteq> i \<longrightarrow> ent m' t j = ent m t j) \<and>
      child_at m' t n i \<and> child m' t i = c \<and> pt_tree m' c n \<and> tables m' c n \<subseteq> frames_used st' \<and>
      frame_of t \<notin> tables m' c n \<and>
      (if child_at m t n i then tables m (child m t i) n = tables m' c n
       else tables m' c n \<inter> frames_used st = {}) \<and>
      (\<forall>va. pt_index va (12 + 9 * Suc n) = i \<longrightarrow> walk m' c n va = walk m t (Suc n) va \<and> page_of m' c n va = page_of m t (Suc n) va) \<and>
      (\<exists>db m. st' = st\<lparr>pfn_db := db, ram := m\<rparr>))"

lemma table_ready_mono: "table_ready 0 t n v c st st' \<Longrightarrow> table_ready d t n v c st st'"
  unfolding table_ready_def Let_def by (elim conjE, intro conjI; (assumption | linarith))

lemma table_ready_child:
  assumes wf: "phys_wf st" and tree: "pt_tree (ram st) t (Suc n)" and used: "tables (ram st) t (Suc n) \<subseteq> frames_used st"
    and ca: "child_at (ram st) t n (pt_index v (12 + 9 * Suc n))"
  shows "table_ready 0 t n v (child (ram st) t (pt_index v (12 + 9 * Suc n))) st st"
proof -
  let ?i = "pt_index v (12 + 9 * Suc n)"
  have "\<exists>db m. st = st\<lparr>pfn_db := db, ram := m\<rparr>"
    by (rule exI [of _ "pfn_db st"], rule exI [of _ "ram st"], simp)
  moreover have "tables (ram st) (child (ram st) t ?i) n \<subseteq> frames_used st" using used ca by auto
  moreover have "walk (ram st) (child (ram st) t ?i) n va = walk (ram st) t (Suc n) va" if "pt_index va (12 + 9 * Suc n) = ?i" for va
    using ca that by (auto simp: child_at_def child_def Let_def)
  moreover have "page_of (ram st) (child (ram st) t ?i) n va = page_of (ram st) t (Suc n) va" if "pt_index va (12 + 9 * Suc n) = ?i" for va
    using ca that by (simp add: page_of_child)
  ultimately show ?thesis
    using wf tree ca unfolding table_ready_def Let_def by auto
qed

lemma get_or_create_present:
  assumes wf: "phys_wf st" and tree: "pt_tree (ram st) t (Suc n)" and used: "tables (ram st) t (Suc n) \<subseteq> frames_used st"
    and nl: "no_large_path (ram st) t (Suc n) v" and p: "present (ent (ram st) t (pt_index v (12 + 9 * Suc n)))"
  shows "\<exists>c st'. get_or_create_table t (pt_index v (12 + 9 * Suc n)) st = Some (c, st') \<and> table_ready 0 t n v c st st' \<and>
    no_large_path (ram st') c n v"
proof -
  let ?i = "pt_index v (12 + 9 * Suc n)"
  have "child_at (ram st) t n ?i" using nl p by (auto simp: child_at_def Let_def)
  note table_ready_child [OF wf tree used this]
  moreover have "get_or_create_table t ?i st = Some (child (ram st) t ?i, st)"
    using wf p by (simp add: get_or_create_table_def entry_online phys_wf_def child_def)
  moreover have "no_large_path (ram st) (child (ram st) t ?i) n v" using nl p by (simp add: child_def Let_def)
  ultimately show ?thesis by blast
qed

lemma get_or_create_fresh:
  assumes wf: "phys_wf st" and fc: "frame_count st \<le> 2 ^ 40" and used: "frame_of t \<in> frames_used st"
    and free: "0 < mm_free_page_count st" and p: "\<not> present (ent (ram st) t (pt_index v (12 + 9 * Suc n)))"
  shows "\<exists>c st'. get_or_create_table t (pt_index v (12 + 9 * Suc n)) st = Some (c, st') \<and> table_ready 1 t n v c st st' \<and>
    no_large_path (ram st') c n v"
proof -
  let ?i = "pt_index v (12 + 9 * Suc n)"
  obtain k s1 where k: "mm_allocate_page st = Some (Some (from_pfn k), s1)" "k < frame_count st" "k \<notin> frames_used st"
    "frames_used s1 = insert k (frames_used st)" "frame_count s1 = frame_count st" "phys_wf s1"
    "ram s1 = (ram st)(k := (\<lambda>_. 0))" "mm_free_page_count s1 + 1 = mm_free_page_count st"
    "\<exists>db m. s1 = st\<lparr>pfn_db := db, ram := m\<rparr>"
    by (rule mm_allocate_page_free [OF wf free])
  define c where "c = phys_word (from_pfn k)"
  have "k < 2 ^ 40" using k(2) fc by simp
  note c = phys_word_frame [OF this, folded c_def]
  note e = table_entry_facts [OF c(1)]
  define x where "x = (c AND ADDR_MASK) OR ENTRY_PRESENT OR ENTRY_RW OR ENTRY_USER"
  define m2 where "m2 = set_ent (ram s1) t ?i x"
  let ?s2 = "s1\<lparr>ram := m2\<rparr>"
  have off: "phys_offset st \<noteq> 0" "phys_offset s1 \<noteq> 0" using wf k(6) by (simp_all add: phys_wf_def)
  have run: "get_or_create_table t ?i st = Some (c, ?s2)"
    using p k(1) off by (simp add: get_or_create_table_def entry_online write_entry_online m2_def x_def c_def Let_def)
  have kt: "k \<noteq> frame_of t" using k(3) used by auto
  have zero: "\<forall>j. ent m2 c j = 0" using kt by (simp add: m2_def ent_set_ent c(2)) (simp add: ent_def c(2) k(7))
  note et = empty_table [OF zero]
  have ent2: "ent m2 t j = (if j = ?i then x else ent (ram st) t j)" for j
    using kt by (simp add: m2_def ent_set_ent) (simp add: ent_def k(7))
  have nl: "no_large_path m2 c n v" using zero by (cases n) (simp_all add: Let_def)
  have only: "\<exists>db m. ?s2 = st\<lparr>pfn_db := db, ram := m\<rparr>"
    by (rule frames_only_trans [OF k(9)], rule exI [of _ "pfn_db s1"], rule exI [of _ m2], simp)
  have keep: "m2 p = ram st p" if "p \<in> frames_used st" "p \<noteq> frame_of t" for p
    using that k(3,7) by (auto simp: m2_def set_ent_other)
  have "table_ready 1 t n v c st ?s2"
    using k(3-6,8) phys_cong [of ?s2 s1] et only keep kt ent2 c(2) p e
    unfolding table_ready_def Let_def
    by (auto simp: child_at_def child_def page_of_child x_def [symmetric] mm_free_page_count_def)
  with run nl show ?thesis by auto
qed

lemma updated_step:
  assumes tree: "pt_tree (ram st) t (Suc n)" and used: "tables (ram st) t (Suc n) \<subseteq> frames_used st"
    and ready: "table_ready d t n v c st s2" and sub: "updated k n c s2 s3 w"
  shows "updated (d + k) (Suc n) t st s3
      (\<lambda>va. if pt_index va (12 + 9 * Suc n) = pt_index v (12 + 9 * Suc n) then w va else walk (ram st) t (Suc n) va)"
    "leaf_at (ram s3) t (Suc n) v = leaf_at (ram s3) c n v"
    "page_of (ram s3) t (Suc n) va = (if pt_index va (12 + 9 * Suc n) = pt_index v (12 + 9 * Suc n)
      then page_of (ram s3) c n va else page_of (ram st) t (Suc n) va)"
proof -
  let ?i = "pt_index v (12 + 9 * Suc n)" and ?m = "ram st" and ?m2 = "ram s2" and ?m3 = "ram s3"
  note R = ready [unfolded table_ready_def Let_def]
  note S = sub [unfolded updated_def]
  have tf: "frame_of t \<in> frames_used st" using used by simp
  have keep: "?m3 p = ?m p" if "p \<in> frames_used st" "p \<noteq> frame_of t" "p \<notin> tables ?m2 c n" for p
  proof -
    have "p \<in> frames_used s2 - tables ?m2 c n" using that R by auto
    then have "?m3 p = ?m2 p" using S by blast
    moreover have "?m2 p = ?m p" using that R by blast
    ultimately show ?thesis by simp
  qed
  have "frame_of t \<in> frames_used s2 - tables ?m2 c n" using tf R by auto
  then have rt: "?m3 (frame_of t) = ?m2 (frame_of t)" using S by blast
  then have et: "ent ?m3 t j = ent ?m2 t j" for j by (simp add: ent_def)
  have same: "\<forall>j. j \<noteq> ?i \<longrightarrow> ent ?m3 t j = ent ?m t j" using et R by simp
  have ci: "child_at ?m3 t n ?i" "child ?m3 t ?i = c" using R child_agree [of ?m3 t ?m2, OF rt] by simp_all
  have oth: "tables ?m (child ?m t j) n \<subseteq> frames_used st" "frame_of t \<notin> tables ?m (child ?m t j) n"
    "tables ?m (child ?m t j) n \<inter> tables ?m2 c n = {}" if "j \<noteq> ?i" "child_at ?m t n j" for j
  proof -
    show "tables ?m (child ?m t j) n \<subseteq> frames_used st" "frame_of t \<notin> tables ?m (child ?m t j) n"
      using used tree that by auto
    show "tables ?m (child ?m t j) n \<inter> tables ?m2 c n = {}"
    proof (cases "child_at ?m t n ?i")
      case True
      then have "tables ?m (child ?m t ?i) n = tables ?m2 c n" using R by simp
      with tree that True show ?thesis by (metis pt_tree.simps(2))
    next
      case False
      then have "tables ?m2 c n \<inter> frames_used st = {}" using R by simp
      with \<open>tables ?m (child ?m t j) n \<subseteq> frames_used st\<close> show ?thesis by auto
    qed
  qed
  have others: "\<forall>j. j \<noteq> ?i \<longrightarrow> child_at ?m t n j \<longrightarrow> (\<forall>p \<in> tables ?m (child ?m t j) n. ?m3 p = ?m p)"
    using oth keep by blast
  have tc: "tables ?m3 c n \<subseteq> tables ?m2 c n \<union> (frames_used s3 - frames_used s2)" using S by blast
  have root: "frame_of t \<notin> tables ?m3 c n" using tc tf R by auto
  have disj: "\<forall>j. j \<noteq> ?i \<longrightarrow> child_at ?m t n j \<longrightarrow> tables ?m (child ?m t j) n \<inter> tables ?m3 c n = {}"
  proof (intro allI impI)
    fix j assume j: "j \<noteq> ?i" "child_at ?m t n j"
    have "tables ?m (child ?m t j) n \<inter> (frames_used s3 - frames_used s2) = {}" using oth(1) [OF j] R by auto
    with oth(3) [OF j] tc show "tables ?m (child ?m t j) n \<inter> tables ?m3 c n = {}" by blast
  qed
  have "pt_tree ?m3 c n" using S by blast
  note rc = replace_child [OF tree same ci _ others this root disj, OF pt_index_less]
  have tb3: "tables ?m3 t (Suc n) = insert (frame_of t) (tables ?m3 c n \<union> (\<Union>j \<in> {j. j \<noteq> ?i \<and> child_at ?m t n j}. tables ?m (child ?m t j) n))"
    by (rule rc(2))
  have sub23: "tables ?m2 c n \<subseteq> tables ?m3 c n" using S by blast
  have old: "tables ?m (child ?m t ?i) n = tables ?m2 c n" if "child_at ?m t n ?i" using R that by simp
  have fresh: "tables ?m2 c n \<inter> frames_used st = {}" "tables ?m2 c n \<subseteq> frames_used s2" if "\<not> child_at ?m t n ?i"
    using R that by simp_all
  have grow: "frames_used st \<subseteq> frames_used s2" "frames_used s2 \<subseteq> frames_used s3" using R S by blast+
  have cs: "{j. child_at ?m t n j} = (if child_at ?m t n ?i then {?i} else {}) \<union> {j. j \<noteq> ?i \<and> child_at ?m t n j}" by auto
  have tbs: "tables ?m t (Suc n) = insert (frame_of t) ((if child_at ?m t n ?i then tables ?m2 c n else {}) \<union>
      (\<Union>j \<in> {j. j \<noteq> ?i \<and> child_at ?m t n j}. tables ?m (child ?m t j) n))"
    unfolding tables.simps cs using old by (cases "child_at ?m t n ?i") simp_all
  have tb: "tables ?m t (Suc n) \<subseteq> tables ?m3 t (Suc n)"
    unfolding tb3 tbs using sub23 by auto
  have tn: "tables ?m3 t (Suc n) \<subseteq> tables ?m t (Suc n) \<union> (frames_used s3 - frames_used st)"
  proof -
    have "tables ?m3 c n \<subseteq> (if child_at ?m t n ?i then tables ?m2 c n else {}) \<union> (frames_used s3 - frames_used st)"
    proof (cases "child_at ?m t n ?i")
      case True
      with tc grow show ?thesis by auto
    next
      case False
      with tc grow fresh [OF False] show ?thesis by auto
    qed
    then show ?thesis unfolding tb3 tbs by blast
  qed
  have tu: "tables ?m3 t (Suc n) \<subseteq> frames_used s3"
    using tn used grow by blast
  have kp: "\<forall>p \<in> frames_used st - tables ?m t (Suc n). ?m3 p = ?m p"
  proof
    fix p assume p: "p \<in> frames_used st - tables ?m t (Suc n)"
    then have "p \<notin> tables ?m2 c n" using fresh unfolding tbs by (auto split: if_splits)
    with p show "?m3 p = ?m p" using keep by simp
  qed
  have wk: "\<forall>va. walk ?m3 t (Suc n) va = (if pt_index va (12 + 9 * Suc n) = ?i then w va else walk ?m t (Suc n) va)"
    using rc(3) S by (simp del: walk.simps)
  show "leaf_at ?m3 t (Suc n) v = leaf_at ?m3 c n v" using rc(4) [of v] by simp
  have "child_at ?m3 t n j = child_at ?m t n j" "child ?m3 t j = child ?m t j" if "j \<noteq> ?i" for j
    using same that by (simp_all add: child_at_def child_def)
  with ci others show "page_of ?m3 t (Suc n) va = (if pt_index va (12 + 9 * Suc n) = ?i then page_of ?m3 c n va else page_of ?m t (Suc n) va)"
    by (simp add: page_of_child Let_def page_of_frame)
  have only: "\<exists>db m. s3 = st\<lparr>pfn_db := db, ram := m\<rparr>"
    by (rule frames_only_trans [of s2]) (use R S in blast)+
  have "phys_wf s3" "frame_count s3 = frame_count st" "mm_free_page_count st \<le> mm_free_page_count s3 + (d + k)"
    using R S by auto
  with rc(1) tb tn tu kp wk only grow show "updated (d + k) (Suc n) t st s3
      (\<lambda>va. if pt_index va (12 + 9 * Suc n) = ?i then w va else walk ?m t (Suc n) va)"
    unfolding updated_def by blast
qed

lemma map_walk_step:
  assumes tree: "pt_tree (ram st) t (Suc n)" and used: "tables (ram st) t (Suc n) \<subseteq> frames_used st"
    and ready: "table_ready 1 t n v c st s2" and sub: "mapped_as n c v e s2 s3"
  shows "mapped_as (Suc n) t v e st s3"
proof -
  from sub have "updated n n c s2 s3 (\<lambda>va. if same_page n v va then leaf_value e va else walk (ram s2) c n va)"
    by (simp add: mapped_as_def)
  note u = updated_step [OF tree used ready this]
  have "(\<lambda>va. if pt_index va (12 + 9 * Suc n) = pt_index v (12 + 9 * Suc n)
       then if same_page n v va then leaf_value e va else walk (ram s2) c n va else walk (ram st) t (Suc n) va)
    = (\<lambda>va. if same_page (Suc n) v va then leaf_value e va else walk (ram st) t (Suc n) va)"
    using ready by (auto simp: fun_eq_iff table_ready_def Let_def)
  moreover have "page_of (ram s3) t (Suc n) va = (if same_page (Suc n) v va then if present e then Some (e AND ADDR_MASK) else None
      else page_of (ram st) t (Suc n) va)" for va
    using u(3) [of va] sub ready by (auto simp: mapped_as_def table_ready_def Let_def)
  ultimately show ?thesis using u(1,2) sub by (simp add: mapped_as_def del: walk.simps leaf_at.simps same_page.simps)
qed

lemma map_walk_spec:
  assumes "phys_wf st" "frame_count st \<le> 2 ^ 40" "pt_tree (ram st) t n" "tables (ram st) t n \<subseteq> frames_used st"
    "no_large_path (ram st) t n v" "n \<le> mm_free_page_count st"
  shows "\<exists>st'. map_walk n t v e st = Some st' \<and> mapped_as n t v e st st'"
  using assms
proof (induction n arbitrary: t st)
  case 0
  then show ?case by (intro map_walk_leaf)
next
  case (Suc n)
  let ?i = "pt_index v (12 + 9 * Suc n)"
  have "\<exists>c s2. get_or_create_table t ?i st = Some (c, s2) \<and> table_ready 1 t n v c st s2 \<and> no_large_path (ram s2) c n v"
  proof (cases "present (ent (ram st) t ?i)")
    case True
    from get_or_create_present [OF Suc.prems(1,3,4,5) this] table_ready_mono show ?thesis by blast
  next
    case False
    with Suc.prems show ?thesis by (intro get_or_create_fresh) auto
  qed
  then obtain c s2 where s2: "get_or_create_table t ?i st = Some (c, s2)" "table_ready 1 t n v c st s2" "no_large_path (ram s2) c n v" by blast
  then have R: "phys_wf s2" "frame_count s2 \<le> 2 ^ 40" "pt_tree (ram s2) c n" "tables (ram s2) c n \<subseteq> frames_used s2"
    "no_large_path (ram s2) c n v" "n \<le> mm_free_page_count s2"
    using Suc.prems by (simp_all add: table_ready_def Let_def)
  from Suc.IH [OF R] obtain s3 where "map_walk n c v e s2 = Some s3" "mapped_as n c v e s2 s3" by blast
  with s2 map_walk_step [OF Suc.prems(3,4) s2(2)] show ?case by auto
qed

lemma leaf_flags_bits:
  fixes p :: u64 and w x :: bool
  defines "e \<equiv> (p AND ADDR_MASK) OR ENTRY_PRESENT OR ENTRY_USER OR (if w then ENTRY_RW else 0) OR (if x then 0 else ENTRY_NX)"
  shows "present e" "e AND ADDR_MASK = p AND ADDR_MASK"
proof -
  have b: "bit e k \<longleftrightarrow> bit p k \<and> 12 \<le> k \<and> k < 52 \<or> k = 0 \<or> k = 2 \<or> w \<and> k = 1 \<or> \<not> x \<and> k = 63" for k
    by (auto simp: e_def bit_or_iff bit_and_iff ADDR_MASK_bits bit_ENTRY)
  have "bit (e AND ENTRY_PRESENT) 0" by (simp add: bit_and_iff b bit_ENTRY)
  then show "present e" by (metis bit_0_eq bot_apply bot_bool_def)
  show "e AND ADDR_MASK = p AND ADDR_MASK" by (rule bit_word_eqI) (auto simp: bit_and_iff b ADDR_MASK_bits)
qed

lemma leaf_flags:
  "leaf_value ((p AND ADDR_MASK) OR ENTRY_PRESENT OR ENTRY_USER OR (if w then ENTRY_RW else 0) OR (if x then 0 else ENTRY_NX)) va =
     Some ((p AND ADDR_MASK) OR (va AND mask 12))"
  using leaf_flags_bits [of p w x] by (simp add: leaf_value_def)

text \<open>
  C18. Mapping one page into an address space whose tables form a tree, with no large page in the way and three
  frames free, never panics. Afterwards the page translates to the given frame with the given permissions, every
  other address translates as before, the tables still form a tree whose new members were free frames, no other
  frame in use has changed and at most three frames were taken.
\<close>

theorem map_user_page_correct:
  assumes "phys_wf st" "frame_count st \<le> 2 ^ 40" "pt_tree (ram st) pml4 3" "tables (ram st) pml4 3 \<subseteq> frames_used st"
    and "no_large_path (ram st) pml4 3 v" "3 \<le> mm_free_page_count st"
  shows "\<exists>st'. map_user_page pml4 v p w x st = Some st' \<and> phys_wf st' \<and> pt_tree (ram st') pml4 3 \<and>
    tables (ram st') pml4 3 \<subseteq> tables (ram st) pml4 3 \<union> (frames_used st' - frames_used st) \<and>
    (\<forall>va. walk (ram st') pml4 3 va =
       (if same_page 3 v va then Some ((p AND ADDR_MASK) OR (va AND 0xFFF)) else walk (ram st) pml4 3 va)) \<and>
    leaf_entry (ram st') pml4 v = Some ((p AND ADDR_MASK) OR ENTRY_PRESENT OR ENTRY_USER OR
       (if w then ENTRY_RW else 0) OR (if x then 0 else ENTRY_NX)) \<and>
    (\<forall>q \<in> frames_used st - tables (ram st) pml4 3. ram st' q = ram st q) \<and>
    mm_free_page_count st \<le> mm_free_page_count st' + 3"
proof -
  define e where "e = (p AND ADDR_MASK) OR ENTRY_PRESENT OR ENTRY_USER OR (if w then ENTRY_RW else 0) OR (if x then 0 else ENTRY_NX)"
  from map_walk_spec [OF assms, of e] obtain st' where s: "map_walk 3 pml4 v e st = Some st'" "mapped_as 3 pml4 v e st st'" by blast
  have "\<forall>va. walk (ram st') pml4 3 va = (if same_page 3 v va then Some ((p AND ADDR_MASK) OR (va AND 0xFFF)) else walk (ram st) pml4 3 va)"
    using s(2) leaf_flags [of p w x, folded e_def] unfolding offset_masks mapped_as_def updated_def by simp
  with s show ?thesis
    unfolding map_user_page_walk mapped_as_def updated_def e_def leaf_entry_def by auto
qed

lemma demo_path: "tables demo_ram 0x1000 3 = {1, 2, 3, 4}" "no_large_path demo_ram 0x1000 3 0x200000"
proof -
  show "tables demo_ram 0x1000 3 = {1, 2, 3, 4}"
    by (auto simp add: numeral_3_eq_3 demo_children demo_frames)
  have i: "pt_index 0x200000 39 = 0" "pt_index 0x200000 30 = 0" "pt_index 0x200000 21 = 1" by code_simp+
  have e: "ent demo_ram 0x1000 0 = 0x2007" "ent demo_ram 0x2000 0 = 0x3007" "ent demo_ram 0x3000 (Suc 0) = 0"
    by (simp_all add: ent_def demo_frames) (simp_all add: demo_ram_def)
  have p: "(0x2007 :: u64) AND ADDR_MASK = 0x2000" "(0x3007 :: u64) AND ADDR_MASK = 0x3000" "(0x3007 :: u64) AND ENTRY_LARGE = 0" by code_simp+
  have sh: "12 + 9 * Suc (Suc (Suc 0)) = (39 :: nat)" "12 + 9 * Suc (Suc 0) = (30 :: nat)" "12 + 9 * Suc 0 = (21 :: nat)" by simp_all
  show "no_large_path demo_ram 0x1000 3 0x200000"
    unfolding numeral_3_eq_3 no_large_path.simps sh by (simp add: i e p Let_def)
qed

theorem map_user_page_witness:
  "phys_wf demo_mm \<and> 3 \<le> mm_free_page_count demo_mm \<and>
   (\<exists>st'. map_user_page 0x1000 0x200000 0x7000 True False demo_mm = Some st' \<and> walk (ram st') 0x1000 3 0x200010 = Some 0x7010 \<and>
      walk (ram st') 0x1000 3 0 = walk (ram demo_mm) 0x1000 3 0)"
proof -
  have d: "ram demo_mm = demo_ram" "frame_count demo_mm \<le> 2 ^ 40" "3 \<le> mm_free_page_count demo_mm"
    by (simp_all add: demo_mm_def frame_count_def mm_free_page_count_def)
  have s: "same_page 3 0x200000 0x200010" "\<not> same_page 3 0x200000 0" by code_simp+
  have v: "((0x7000 AND ADDR_MASK) OR (0x200010 AND 0xFFF)) = (0x7010 :: u64)" by code_simp
  have t: "tables (ram demo_mm) 0x1000 3 \<subseteq> frames_used demo_mm" by (simp add: d demo_path demo_mm_wf)
  have p: "pt_tree (ram demo_mm) 0x1000 3" "no_large_path (ram demo_mm) 0x1000 3 0x200000" by (simp_all add: d demo_path demo_tree)
  from map_user_page_correct [OF demo_mm_wf(1) d(2) p(1) t p(2) d(3), of "0x7000" True False] s v d demo_mm_wf(1)
  show ?thesis by auto
qed

lemma no_large_frame:
  assumes "\<forall>p \<in> tables m t n. m' p = m p"
  shows "no_large_path m' t n v = no_large_path m t n v"
  using assms
proof (induction n arbitrary: t)
  case (Suc n)
  then have r: "ent m' t i = ent m t i" for i by (simp add: ent_def)
  let ?i = "pt_index v (12 + 9 * Suc n)"
  have "no_large_path m' (child m t ?i) n v = no_large_path m (child m t ?i) n v" if "child_at m t n ?i"
    by (rule Suc.IH) (use Suc.prems that in auto)
  then show ?case by (auto simp: r child_at_def child_def Let_def)
qed simp

lemma leaf_no_large: "leaf_at m t n v = Some u \<Longrightarrow> no_large_path m t n v"
  by (induction n arbitrary: t) (auto simp: Let_def child_at_def child_def split: if_splits)


section \<open>Page-in\<close>

lemma take_record_slot: "take_record c va rs = Some (s, rest) \<Longrightarrow> (c, va, s) \<in> set rs"
  by (induction rs arbitrary: s rest) (auto split: if_splits)

lemma take_record_last:
  "(\<forall>s. (c, va, s) \<notin> set rs) \<Longrightarrow> take_record c va (rs @ [(c, va, slot)]) = Some (slot, rs)"
  by (induction rs) auto

lemma map_range_one: "mm_map_user_range pml4 va p 1 w x st = map_user_page pml4 va p w x st"
proof -
  have "checked_mul 0 0x1000 = Some (0 :: u64)" "checked_add a 0 = Some a" for a :: u64
    using unsigned_less [of a, where ?'a = nat] by (simp_all add: checked_mul_def checked_add_def)
  then show ?thesis by (simp add: mm_map_user_range_def)
qed

definition paged_in :: "u64 \<Rightarrow> u64 \<Rightarrow> nat \<Rightarrow> nat \<Rightarrow> 'a mm_state_scheme \<Rightarrow> 'a mm_state_scheme \<Rightarrow> bool" where
  "paged_in c va slot i st st' \<longleftrightarrow>
     i \<notin> frames_used st \<and> i \<in> frames_used st' \<and> frames_used st \<subseteq> frames_used st' \<and> frame_count st' = frame_count st \<and>
     pt_tree (ram st') c 3 \<and> i \<notin> tables (ram st') c 3 \<and>
     (\<forall>va'. walk (ram st') c 3 va' =
        (if same_page 3 va va' then Some (phys_word (from_pfn i) OR (va' AND 0xFFF)) else walk (ram st) c 3 va')) \<and>
     (\<forall>j < 512. ram st' i j = slot_page st slot j) \<and>
     (\<forall>q \<in> frames_used st - tables (ram st) c 3. ram st' q = ram st q) \<and>
     slots_used st' = slots_used st - {slot} \<and> registry st' = registry st @ [(c, va)]"

lemma page_in_spec:
  assumes wf: "phys_wf st" "slots_wf st" "frame_count st \<le> 2 ^ 40"
    and tr: "pt_tree (ram st) c 3" "tables (ram st) c 3 \<subseteq> frames_used st" "no_large_path (ram st) c 3 va"
    and rec: "take_record c va (paged_out st) = Some (slot, rest)" "slot < slot_count st"
    and free: "4 \<le> mm_free_page_count st" and reg: "length (registry st) < REG_CAP" and dev: "blk_reliable st"
  obtains i st' where "page_in c va w x st = Some (True, st')" "phys_wf st'" "slots_wf st'" "paged_in c va slot i st st'"
    "paged_out st' = rest"
proof -
  define s0 where "s0 = st\<lparr>paged_out := rest\<rparr>"
  have c0: "phys_wf s0" "frames_used s0 = frames_used st" "frame_count s0 = frame_count st" "mm_free_page_count s0 = mm_free_page_count st"
    using phys_cong [of s0 st] wf by (simp_all add: s0_def mm_free_page_count_def)
  from c0 free have "0 < mm_free_page_count s0" by simp
  then obtain i s1 where i: "mm_allocate_page s0 = Some (Some (from_pfn i), s1)" "i < frame_count s0" "i \<notin> frames_used s0"
    "frames_used s1 = insert i (frames_used s0)" "frame_count s1 = frame_count s0" "phys_wf s1"
    "ram s1 = (ram s0)(i := (\<lambda>_. 0))" "mm_free_page_count s1 + 1 = mm_free_page_count s0"
    "\<exists>db m. s1 = s0\<lparr>pfn_db := db, ram := m\<rparr>" by (rule mm_allocate_page_free [OF c0(1)])
  then obtain db m0 where s1: "s1 = s0\<lparr>pfn_db := db, ram := m0\<rparr>" by blast
  have "i < 2 ^ 40" using i(2) c0(3) wf(3) by simp
  note pw = phys_word_frame [OF this]
  let ?pa = "phys_word (from_pfn i)"
  have off1: "phys_offset s1 \<noteq> 0" using i(6) by (simp add: phys_wf_def)
  obtain ok k m where rd: "read_page slot ?pa s1 = Some (ok, blk_tick s1 k m)" "\<forall>p. p \<noteq> frame_of ?pa \<longrightarrow> m p = ram s1 p"
    "ok \<longrightarrow> (\<forall>j < 512. m (frame_of ?pa) j = slot_page s1 slot j)" "blk_reliable s1 \<longrightarrow> ok"
    by (rule read_page_spec [OF off1])
  have dev1: "blk_reliable s1" "slot_page s1 = slot_page st"
    using dev by (simp_all add: s1 s0_def blk_reliable_def slot_page_def base_sector_def fun_eq_iff)
  let ?s2 = "blk_tick s1 k m"
  have sl2: "slots_used ?s2 = slots_used st" "slot_count ?s2 = slot_count st" "slots_wf ?s2"
    using slots_cong [of ?s2 st] wf(2) by (simp_all add: s1 s0_def blk_tick_def)
  obtain s3 where s3: "slot_free slot ?s2 = Some s3" "slots_used s3 = slots_used ?s2 - {slot}" "slots_wf s3"
    "\<exists>mp h. s3 = ?s2\<lparr>slot_map := mp, slot_hint := h\<rparr>"
    using slot_free_spec [OF sl2(3), of slot] rec(2) sl2(2) by metis
  then obtain mp h where s3e: "s3 = ?s2\<lparr>slot_map := mp, slot_hint := h\<rparr>" by blast
  have c3: "phys_wf s3" "frames_used s3 = insert i (frames_used st)" "frame_count s3 = frame_count st" "ram s3 = m"
    "mm_free_page_count s3 + 1 = mm_free_page_count st"
    using phys_cong [of s3 s1] i(4,5,6,8) c0 by (simp_all add: s3e blk_tick_def mm_free_page_count_def)
  have keep: "m q = ram st q" if "q \<in> frames_used st" for q
    using that rd(2) i(3,7) c0(2) pw(2) by (auto simp: s0_def)
  then have keept: "\<forall>q \<in> tables (ram st) c 3. m q = ram st q" using tr(2) by blast
  have tr3: "pt_tree (ram s3) c 3" "tables (ram s3) c 3 = tables (ram st) c 3" "no_large_path (ram s3) c 3 va"
    using pt_tree_frame [OF keept] tables_frame [OF keept] no_large_frame [OF keept] tr c3(4) by simp_all
  have w3: "walk (ram s3) c 3 va' = walk (ram st) c 3 va'" for va' using walk_frame [OF keept] c3(4) by simp
  have pre: "frame_count s3 \<le> 2 ^ 40" "tables (ram s3) c 3 \<subseteq> frames_used s3" "3 \<le> mm_free_page_count s3"
    using c3 wf(3) tr3(2) tr(2) free by auto
  define e where "e = (?pa AND ADDR_MASK) OR ENTRY_PRESENT OR ENTRY_USER OR (if w then ENTRY_RW else 0) OR (if x then 0 else ENTRY_NX)"
  from map_walk_spec [OF c3(1) pre(1) tr3(1) pre(2) tr3(3) pre(3), of e]
  obtain s4 where s4: "map_user_page c va ?pa w x s3 = Some s4" "mapped_as 3 c va e s3 s4"
    by (auto simp: map_user_page_walk e_def)
  note S = s4(2) [unfolded mapped_as_def updated_def]
  from S obtain db4 m4 where s4e: "s4 = s3\<lparr>pfn_db := db4, ram := m4\<rparr>" by blast
  let ?s5 = "s4\<lparr>registry := registry s4 @ [(c, va)]\<rparr>"
  have regs: "registry s4 = registry st" by (simp add: s4e s3e s1 s0_def blk_tick_def)
  have run: "page_in c va w x st = Some (True, ?s5)"
    using rec(1) i(1) rd(1,4) dev1(1) s3(1) s4(1) reg regs
    by (simp add: page_in_def paged_out_take_def map_range_one [unfolded One_nat_def] register_page_def s0_def [symmetric])
  have fin: "phys_wf ?s5" "frames_used ?s5 = frames_used s4" "frame_count ?s5 = frame_count s4"
    using phys_cong [of ?s5 s4] S by simp_all
  have sl5: "slots_used ?s5 = slots_used s3" "slots_wf ?s5"
    using slots_cong [of ?s5 s3] s3(3) by (simp_all add: s4e)
  have itab: "i \<notin> tables (ram st) c 3" using tr(2) i(3) c0(2) by auto
  have iused: "i \<in> frames_used s3 - tables (ram s3) c 3" using itab c3(2) tr3(2) by simp
  then have "ram s4 i = m i" using S c3(4) by auto
  then have pg: "\<forall>j < 512. ram ?s5 i j = slot_page st slot j" using rd(3,4) dev1 pw(2) by simp
  have wk: "\<forall>va'. walk (ram ?s5) c 3 va' = (if same_page 3 va va' then Some (?pa OR (va' AND 0xFFF)) else walk (ram st) c 3 va')"
    using S w3 leaf_flags [of ?pa w x, folded e_def] pw(1) unfolding offset_masks by simp
  have others: "\<forall>q \<in> frames_used st - tables (ram st) c 3. ram ?s5 q = ram st q"
  proof
    fix q assume q: "q \<in> frames_used st - tables (ram st) c 3"
    then have "q \<in> frames_used s3 - tables (ram s3) c 3" using c3(2) tr3(2) by simp
    then have "ram s4 q = ram s3 q" using S by blast
    with q keep c3(4) show "ram ?s5 q = ram st q" by simp
  qed
  have itab': "i \<notin> tables (ram s4) c 3" using S iused by blast
  have "frames_used s3 \<subseteq> frames_used s4" "frame_count s4 = frame_count s3" "pt_tree (ram s4) c 3" using S by blast+
  then have "paged_in c va slot i st ?s5"
    unfolding paged_in_def using fin sl5 s3(2) sl2(1) c3 itab' pg wk others i(3) c0(2) regs by auto
  moreover have "paged_out ?s5 = rest" by (simp add: s4e s3e s1 s0_def blk_tick_def)
  ultimately show thesis using that run fin(1) sl5(2) by blast
qed


text \<open>
  C19. Paging is lossless: a resident page that is evicted has no translation, and a later page-in puts its 512
  words into a frame mapped at the same address. The pagefile slot and the record are released, and the
  translation of every other address is what it was before the eviction.
\<close>

theorem evict_page_in_roundtrip:
  assumes wf: "phys_wf st" "slots_wf st" "frame_count st \<le> 2 ^ 40"
    and tr: "pt_tree (ram st) c 3" "tables (ram st) c 3 \<subseteq> frames_used st"
    and page: "leaf_entry (ram st) c va = Some e" "present e" "frame_of (e AND ADDR_MASK) \<in> frames_used st - tables (ram st) c 3"
    and room: "\<forall>s. (c, va, s) \<notin> set (paged_out st)" "length (paged_out st) < MAP_CAP" "3 \<le> mm_free_page_count st"
      "length (registry st) < REG_CAP" "slots_used st \<noteq> {..<slot_count st}"
    and dev: "blk_reliable st"
  shows "\<exists>st1 st2 i. evict c va st = Some (1, st1) \<and> walk (ram st1) c 3 va = None \<and>
    page_in c va w x st1 = Some (True, st2) \<and> phys_wf st2 \<and> slots_wf st2 \<and> pt_tree (ram st2) c 3 \<and>
    paged_out st2 = paged_out st \<and> slots_used st2 = slots_used st \<and>
    (\<forall>va'. \<not> same_page 3 va va' \<longrightarrow> walk (ram st2) c 3 va' = walk (ram st) c 3 va') \<and>
    walk (ram st2) c 3 va = Some (phys_word (from_pfn i) OR (va AND 0xFFF)) \<and>
    (\<forall>j < 512. ram st2 i j = ent (ram st) (e AND ADDR_MASK) j)"
proof -
  have own: "\<forall>e. leaf_entry (ram st) c va = Some e \<longrightarrow> present e \<longrightarrow> frame_of (e AND ADDR_MASK) \<in> frames_used st"
    using page by simp
  have "\<exists>slot st1. evict c va st = Some (1, st1) \<and> evicted c va e slot st st1 \<and> phys_wf st1 \<and> slots_wf st1"
  proof (rule evict_spec [OF wf(1,2) own room(2)])
    fix st'
    assume "(\<exists>e. leaf_entry (ram st) c va = Some e \<and> present e) \<longrightarrow> blk_reliable st \<longrightarrow> slots_used st = {..<slot_count st}"
    with page(1,2) dev room(5) show ?thesis by blast
  next
    fix e' slot st' assume r: "evict c va st = Some (1, st')" "evicted c va e' slot st st'" "phys_wf st'" "slots_wf st'"
    from r(2) page(1) have "e' = e" by (simp add: evicted_def)
    with r show ?thesis by blast
  qed
  then obtain slot st1 where ev: "evict c va st = Some (1, st1)" "evicted c va e slot st st1" "phys_wf st1" "slots_wf st1" by blast
  note E = ev(2) [unfolded evicted_def]
  have "\<exists>t i. leaf_at (ram st) c 3 va = Some (t, i) \<and> ram st1 = set_ent (ram st) t i 0" using E by (elim conjE) assumption
  then obtain t i where l: "leaf_at (ram st) c 3 va = Some (t, i)" and m1: "ram st1 = set_ent (ram st) t i 0" by auto
  note lw = leaf_write [OF tr(1) l m1]
  have slot: "slot < slot_count st1" using E by (auto simp: slots_used_def)
  have t1: "pt_tree (ram st1) c 3" "tables (ram st1) c 3 \<subseteq> frames_used st1" "no_large_path (ram st1) c 3 va"
    using lw tr(2) page(3) E l leaf_no_large [of "ram st1" c 3 va] by auto
  have tk: "take_record c va (paged_out st1) = Some (slot, paged_out st)"
    using E take_record_last [OF room(1), of slot] by simp
  have d1: "blk_reliable st1" using dev E by (auto simp: blk_reliable_def)
  have pre: "frame_count st1 \<le> 2 ^ 40" "4 \<le> mm_free_page_count st1" "length (registry st1) < REG_CAP"
    using E wf(3) room by simp_all
  obtain k st2 where pin: "page_in c va w x st1 = Some (True, st2)" "phys_wf st2" "slots_wf st2" "paged_in c va slot k st1 st2"
    "paged_out st2 = paged_out st"
    by (rule page_in_spec [OF ev(3,4) pre(1) t1 tk slot pre(2,3) d1])
  note P = pin(4) [unfolded paged_in_def]
  have refl: "same_page 3 va va" by (simp add: numeral_3_eq_3)
  have sl: "slots_used st2 = slots_used st" using E P by auto
  have gone: "walk (ram st1) c 3 va = None" using lw refl by (simp add: leaf_value_def)
  have others: "\<forall>va'. \<not> same_page 3 va va' \<longrightarrow> walk (ram st2) c 3 va' = walk (ram st) c 3 va'"
    using P lw by simp
  have cont: "\<forall>j < 512. ram st2 k j = ent (ram st) (e AND ADDR_MASK) j" using P E by simp
  have home: "walk (ram st2) c 3 va = Some (phys_word (from_pfn k) OR (va AND 0xFFF))" using P refl by simp
  show ?thesis
    by (intro exI conjI) (rule ev(1) gone pin(1) pin(2) pin(3) pin(5) sl others home cont | use P in blast)+
qed

theorem evict_page_in_witness:
  "phys_wf demo_mm \<and> slots_wf demo_mm \<and> (\<exists>st1 st2 i. evict 0x1000 0 demo_mm = Some (1, st1) \<and>
     page_in 0x1000 0 True False st1 = Some (True, st2) \<and> (\<forall>j < 512. ram st2 i j = 42))"
proof -
  have d: "ram demo_mm = demo_ram" "frame_count demo_mm \<le> 2 ^ 40" "3 \<le> mm_free_page_count demo_mm"
    "length (registry demo_mm) < REG_CAP" "\<forall>s. (0x1000, 0, s) \<notin> set (paged_out demo_mm)"
    by (simp_all add: demo_mm_def frame_count_def mm_free_page_count_def REG_CAP_def)
  have t: "pt_tree (ram demo_mm) 0x1000 3" "tables (ram demo_mm) 0x1000 3 \<subseteq> frames_used demo_mm"
    by (simp_all add: d demo_tree demo_path demo_mm_wf)
  have l: "leaf_entry (ram demo_mm) 0x1000 0 = Some 0x5007"
    "frame_of (0x5007 AND ADDR_MASK) \<in> frames_used demo_mm - tables (ram demo_mm) 0x1000 3"
    by (simp_all only: d demo_leaf_entry demo_resident demo_mm_wf demo_path) simp_all
  have c: "ent (ram demo_mm) (0x5007 AND ADDR_MASK) j = 42" for j
    by (simp add: ent_def demo_resident) (simp add: demo_ram_def)
  from evict_page_in_roundtrip [OF demo_mm_wf(1,2) d(2) t l(1) demo_resident(2) l(2) d(5) demo_resident(4) d(3,4) demo_resident(6,5), of True False]
  show ?thesis using demo_mm_wf c by auto
qed

end
