(* ===== verification/Mm_Teardown.thy ===== *)
theory Mm_Teardown
  imports Mm_Map
begin

text \<open>
  Releasing an address space: \<open>mm_free_user_address_space\<close> and \<open>free_table_level\<close> of
  \<^verbatim>\<open>kernel/src/mm/virt.rs\<close>, shown to free a list of frames that is a function of memory alone.
\<close>

section \<open>Tearing an address space down\<close>

text \<open>The frames the teardown frees, in its order: below each present entry, then the table itself.\<close>

fun level_frames :: "nat \<Rightarrow> ram \<Rightarrow> u64 \<Rightarrow> nat list" where
  "level_frames 0 m t =
     concat (map (\<lambda>i. if present (ent m t i) then [frame_of (child m t i)] else []) [0..<512]) @ [frame_of t]"
| "level_frames (Suc n) m t =
     concat (map (\<lambda>i. if present (ent m t i) then level_frames n m (child m t i) else []) [0..<512]) @ [frame_of t]"

definition space_frames :: "ram \<Rightarrow> u64 \<Rightarrow> nat list" where
  "space_frames m pml4 =
     concat (map (\<lambda>i. if present (ent m pml4 i) then level_frames 2 m (child m pml4 i) else []) [0..<256]) @ [frame_of pml4]"

text \<open>No entry below a table maps a large page.\<close>

fun small_pages :: "nat \<Rightarrow> ram \<Rightarrow> u64 \<Rightarrow> bool" where
  "small_pages 0 m t \<longleftrightarrow> (\<forall>i < 512. present (ent m t i) \<longrightarrow> \<not> large (ent m t i))"
| "small_pages (Suc n) m t \<longleftrightarrow>
     (\<forall>i < 512. present (ent m t i) \<longrightarrow> \<not> large (ent m t i) \<and> small_pages n m (child m t i))"

definition free_frames :: "nat list \<Rightarrow> 'a mm_state_scheme \<Rightarrow> 'a mm_state_scheme option" where
  "free_frames = foreach (\<lambda>f. mm_free_contiguous_pages (from_pfn f) 1)"

lemma free_frames_simps [simp]:
  "free_frames [] st = Some st"
  "free_frames [f] st = mm_free_contiguous_pages (from_pfn f) 1 st"
  "free_frames (xs @ ys) st = do { st \<leftarrow> free_frames xs st; free_frames ys st }"
  by (simp_all add: free_frames_def foreach_append)

lemma free_frames_ram: "free_frames fs st = Some st' \<Longrightarrow> ram st' = ram st \<and> phys_offset st' = phys_offset st"
proof (induction fs arbitrary: st)
  case (Cons f fs)
  then obtain s where s: "mm_free_contiguous_pages (from_pfn f) 1 st = Some s" "free_frames fs s = Some st'"
    by (auto simp: free_frames_def panic_elims)
  from mm_free_only_db [OF s(1)] obtain db where "s = st\<lparr>pfn_db := db\<rparr>" by blast
  with Cons.IH [OF s(2)] show ?case by simp
qed simp

lemma free_frames_spec:
  assumes "phys_wf st" "distinct fs" "set fs \<subseteq> frames_used st"
  shows "\<exists>st'. free_frames fs st = Some st' \<and> phys_wf st' \<and> frames_used st' = frames_used st - set fs \<and>
    frame_count st' = frame_count st \<and> mm_free_page_count st' = mm_free_page_count st + length fs \<and> ram st' = ram st"
  using assms
proof (induction fs arbitrary: st)
  case Nil
  then show ?case by simp
next
  case (Cons f fs)
  have "{f..<f + 1} \<subseteq> frames_used st" using Cons.prems by auto
  with Cons.prems obtain s where s: "mm_free_contiguous_pages (from_pfn f) 1 st = Some s"
    "frames_used s = frames_used st - {f..<f + 1}" "frame_count s = frame_count st" "phys_wf s"
    "free_pages (pfn_db s) = free_pages (pfn_db st) + 1" "ram s = ram st"
    using mm_free_spec [of st f 1] by auto
  have u: "frames_used s = frames_used st - {f}" using s(2) by auto
  then have "set fs \<subseteq> frames_used s" using Cons.prems by auto
  with Cons.IH [of s] Cons.prems s(4) obtain st' where "free_frames fs s = Some st'" "phys_wf st'"
    "frames_used st' = frames_used s - set fs" "frame_count st' = frame_count s"
    "mm_free_page_count st' = mm_free_page_count s + length fs" "ram st' = ram s" by auto
  with s u show ?case by (auto simp: free_frames_def mm_free_page_count_def)
qed

text \<open>A loop whose body frees a list of frames that depends on memory only frees them all in order.\<close>

lemma foreach_free:
  assumes "ram st = m" "phys_offset st \<noteq> 0"
    and "\<And>i s. i \<in> set is \<Longrightarrow> ram s = m \<Longrightarrow> phys_offset s \<noteq> 0 \<Longrightarrow> f i s = free_frames (g i) s"
  shows "foreach f is st = free_frames (concat (map g is)) st"
  using assms
proof (induction "is" arbitrary: st)
  case (Cons i "is")
  have "foreach f is s = free_frames (concat (map g is)) s" if "free_frames (g i) st = Some s" for s
    using free_frames_ram [OF that] Cons.prems by (intro Cons.IH) auto
  then show ?case using Cons.prems by (auto split: bind_split)
qed simp

lemma free_one: "mm_free_contiguous_pages (unat t) 1 st = free_frames [frame_of t] st"
  by (simp only: free_frames_simps) (subst mm_free_pfn, simp add: frame_of_def)

lemma free_table_level_frames:
  assumes "small_pages n (ram st) t" "phys_offset st \<noteq> 0"
  shows "free_table_level n t st = free_frames (level_frames n (ram st) t) st"
  using assms
proof (induction n arbitrary: t st)
  case 0
  have "foreach (\<lambda>i st. do {
       e \<leftarrow> entry st t i;
       if \<not> present e then Some st
       else do { require (\<not> large e); mm_free_contiguous_pages (unat (e AND ADDR_MASK)) 1 st }
     }) [0..<512] st = free_frames (concat (map (\<lambda>i. if present (ent (ram st) t i) then [frame_of (child (ram st) t i)] else []) [0..<512])) st"
    by (rule foreach_free [OF refl 0(2)]) (use 0(1) in \<open>auto simp: entry_online child_def free_one [simplified]\<close>)
  then show ?case by (simp only: free_table_level.simps level_frames.simps free_frames_simps(3) free_one)
next
  case (Suc n)
  have "foreach (\<lambda>i st. do {
       e \<leftarrow> entry st t i;
       if \<not> present e then Some st
       else do { require (\<not> large e); free_table_level n (e AND ADDR_MASK) st }
     }) [0..<512] st = free_frames (concat (map (\<lambda>i. if present (ent (ram st) t i) then level_frames n (ram st) (child (ram st) t i) else []) [0..<512])) st"
    by (rule foreach_free [OF refl Suc.prems(2)]) (use Suc in \<open>auto simp: entry_online child_def\<close>)
  then show ?case by (simp only: free_table_level.simps level_frames.simps free_frames_simps(3) free_one)
qed

lemma mm_free_user_address_space_frames:
  assumes "\<forall>i < 256. present (ent (ram st) pml4 i) \<longrightarrow> small_pages 2 (ram st) (child (ram st) pml4 i)" "phys_offset st \<noteq> 0"
  shows "mm_free_user_address_space pml4 st = free_frames (space_frames (ram st) pml4) st"
proof -
  have "foreach (\<lambda>i st. do {
       e \<leftarrow> entry st pml4 i;
       if \<not> present e then Some st else free_table_level 2 (e AND ADDR_MASK) st
     }) [0..<256] st = free_frames (concat (map (\<lambda>i. if present (ent (ram st) pml4 i) then level_frames 2 (ram st) (child (ram st) pml4 i) else []) [0..<256])) st"
    by (rule foreach_free [OF refl assms(2)]) (use assms in \<open>auto simp: entry_online child_def free_table_level_frames\<close>)
  then show ?thesis by (simp only: mm_free_user_address_space_def space_frames_def free_frames_simps(3) free_one)
qed

text \<open>Every frame a low address translates to is among them.\<close>

lemma frame_of_offset: "frame_of ((e AND ADDR_MASK) OR (va AND mask 12)) = frame_of (e AND ADDR_MASK)"
proof -
  have f: "frame_of x = unat (drop_bit 12 x)" for x :: u64
    by (simp only: frame_of_def pfn_of_def PAGE_SIZE_def unat_drop_bit_eq) simp
  have "drop_bit 12 ((e AND ADDR_MASK) OR (va AND mask 12)) = drop_bit 12 (e AND ADDR_MASK)"
    by (rule bit_word_eqI) (auto simp: bit_drop_bit_eq bit_or_iff bit_and_iff bit_mask_iff)
  then show ?thesis by (simp add: f)
qed

lemma walk_level_frames:
  assumes "small_pages n m t" "walk m t n va = Some pa"
  shows "frame_of pa \<in> set (level_frames n m t)"
  using assms
proof (induction n arbitrary: t)
  case 0
  then have "present (ent m t (pt_index va 12))" "frame_of pa = frame_of (child m t (pt_index va 12))"
    by (auto simp: Let_def child_def frame_of_offset split: if_splits)
  then show ?case by (auto intro!: bexI [of _ "pt_index va 12"])
next
  case (Suc n)
  let ?i = "pt_index va (12 + 9 * Suc n)"
  from Suc.prems have "present (ent m t ?i)" "walk m (child m t ?i) n va = Some pa" "small_pages n m (child m t ?i)"
    by (auto simp: Let_def child_def split: if_splits)
  with Suc.IH show ?case by (auto intro!: bexI [of _ ?i])
qed

text \<open>
  C20. Tearing down an address space whose frames are distinct and in use never panics and frees exactly its
  frames: the user-half leaves, the tables above them and the root, each once. In particular no frame that a
  user address translated to stays allocated.
\<close>

theorem mm_free_user_address_space_correct:
  assumes "phys_wf st" "\<forall>i < 256. present (ent (ram st) pml4 i) \<longrightarrow> small_pages 2 (ram st) (child (ram st) pml4 i)"
    and "distinct (space_frames (ram st) pml4)" "set (space_frames (ram st) pml4) \<subseteq> frames_used st"
  shows "\<exists>st'. mm_free_user_address_space pml4 st = Some st' \<and> phys_wf st' \<and> ram st' = ram st \<and>
    frames_used st' = frames_used st - set (space_frames (ram st) pml4) \<and>
    mm_free_page_count st' = mm_free_page_count st + length (space_frames (ram st) pml4) \<and>
    (\<forall>va pa. pt_index va 39 < 256 \<longrightarrow> walk (ram st) pml4 3 va = Some pa \<longrightarrow> frame_of pa \<notin> frames_used st')"
proof -
  have "phys_offset st \<noteq> 0" using assms(1) by (simp add: phys_wf_def)
  note eq = mm_free_user_address_space_frames [OF assms(2) this]
  from free_frames_spec [OF assms(1,3,4)] obtain st' where st': "free_frames (space_frames (ram st) pml4) st = Some st'" "phys_wf st'"
    "frames_used st' = frames_used st - set (space_frames (ram st) pml4)" "ram st' = ram st"
    "mm_free_page_count st' = mm_free_page_count st + length (space_frames (ram st) pml4)" by blast
  have "frame_of pa \<in> set (space_frames (ram st) pml4)" if va: "pt_index va 39 < 256" "walk (ram st) pml4 3 va = Some pa" for va pa
  proof -
    let ?i = "pt_index va 39"
    have "walk (ram st) pml4 (Suc 2) va = Some pa" using va(2) by (simp add: eval_nat_numeral)
    then have "present (ent (ram st) pml4 ?i)" "walk (ram st) (child (ram st) pml4 ?i) 2 va = Some pa"
      unfolding walk.simps by (auto simp: child_def Let_def split: if_splits)
    with walk_level_frames [of 2 "ram st" "child (ram st) pml4 ?i" va pa] assms(2) va(1)
    show ?thesis by (auto simp: space_frames_def intro!: bexI [of _ ?i])
  qed
  with st' eq show ?thesis by auto
qed

lemma concat_only_first:
  assumes "0 < n" "\<And>i. 0 < i \<Longrightarrow> f i = []"
  shows "concat (map f [0..<n]) = f 0"
proof -
  have "[0..<n] = 0 # [1..<n]" using assms(1) by (simp add: upt_conv_Cons)
  moreover have "concat (map f [1..<n]) = []" using assms(2) by auto
  ultimately show ?thesis by simp
qed

lemma demo_space:
  "\<forall>i < 256. present (ent demo_ram 0x1000 i) \<longrightarrow> small_pages 2 demo_ram (child demo_ram 0x1000 i)"
  "space_frames demo_ram 0x1000 = [5, 4, 3, 2, 1]"
proof -
  have e: "ent demo_ram 0x1000 i = (if i = 0 then 0x2007 else 0)" "ent demo_ram 0x2000 i = (if i = 0 then 0x3007 else 0)"
    "ent demo_ram 0x3000 i = (if i = 0 then 0x4007 else 0)" "ent demo_ram 0x4000 i = (if i = 0 then 0x5007 else 0)" for i
    by (simp_all add: ent_def demo_frames) (simp_all add: demo_ram_def)
  have p: "present 0x2007" "present 0x3007" "present 0x4007" "present 0x5007" "(0x3007 :: u64) AND ENTRY_LARGE = 0" "(0x4007 :: u64) AND ENTRY_LARGE = 0" "(0x5007 :: u64) AND ENTRY_LARGE = 0"
    "(0x5007 :: u64) AND ADDR_MASK = 0x5000"
    by code_simp+
  have c: "child demo_ram 0x4000 0 = 0x5000" by (simp add: child_def e p)
  show "\<forall>i < 256. present (ent demo_ram 0x1000 i) \<longrightarrow> small_pages 2 demo_ram (child demo_ram 0x1000 i)"
    by (simp add: e demo_children p numeral_2_eq_2)
  have l: "level_frames 0 demo_ram 0x4000 = [5, 4]"
    unfolding level_frames.simps by (subst concat_only_first) (simp_all add: e p c demo_frames)
  have l1: "level_frames (Suc 0) demo_ram 0x3000 = [5, 4, 3]"
    unfolding level_frames.simps(2) by (subst concat_only_first) (simp_all only: e p l demo_children demo_frames, simp_all add: p)
  have l2: "level_frames (Suc (Suc 0)) demo_ram 0x2000 = [5, 4, 3, 2]"
    unfolding level_frames.simps(2) [of "Suc 0"] by (subst concat_only_first) (simp_all only: e p l1 demo_children demo_frames, simp_all add: p)
  show "space_frames demo_ram 0x1000 = [5, 4, 3, 2, 1]"
    unfolding space_frames_def numeral_2_eq_2 by (subst concat_only_first) (simp_all only: e p l2 demo_children demo_frames, simp_all add: p)
qed

theorem mm_free_user_address_space_witness:
  "phys_wf demo_mm \<and> (\<exists>st'. mm_free_user_address_space 0x1000 demo_mm = Some st' \<and> frames_used st' = {0} \<and> mm_free_page_count st' = 63)"
proof -
  have d: "ram demo_mm = demo_ram" "mm_free_page_count demo_mm = 58" by (simp_all add: demo_mm_def mm_free_page_count_def)
  have "{..<6} - {5, 4, 3, 2, 1} = {0 :: nat}" by auto
  then show ?thesis
    using mm_free_user_address_space_correct [OF demo_mm_wf(1), of "0x1000"] d demo_space demo_mm_wf by auto
qed

end
