(* ===== verification/Mm_Split.thy ===== *)
theory Mm_Split
  imports Mm_Map
begin

text \<open>
  Splitting large pages (\<open>split_to_4k\<close> of \<^verbatim>\<open>kernel/src/mm/virt.rs\<close>) is invisible to every translation. The two
  splits are instances of one, \<open>split_leaf\<close>, whose effect is lifted level by level to the root of the tree.
\<close>

section \<open>Splitting large pages\<close>

definition fill_frame :: "ram \<Rightarrow> u64 \<Rightarrow> nat set \<Rightarrow> (nat \<Rightarrow> u64) \<Rightarrow> ram" where
  "fill_frame m t I g = (\<lambda>p j. if p = frame_of t \<and> j \<in> I then g j else m p j)"

lemma foreach_write:
  assumes "phys_offset st \<noteq> 0"
  shows "foreach (\<lambda>i st. write_entry st t i (g i)) is st = Some (st\<lparr>ram := fill_frame (ram st) t (set is) g\<rparr>)"
  using assms
proof (induction "is" arbitrary: st)
  case Nil
  then show ?case by (simp add: fill_frame_def)
next
  case (Cons i "is")
  have "fill_frame (set_ent (ram st) t i (g i)) t (set is) g = fill_frame (ram st) t (set (i # is)) g"
    by (auto simp: fun_eq_iff set_ent_def fill_frame_def)
  then show ?case using Cons.IH [of "st\<lparr>ram := set_ent (ram st) t i (g i)\<rparr>"] Cons.prems by (simp add: write_entry_online)
qed

text \<open>The spans of a split leaf translate as the leaf did.\<close>

lemma bit_pt_index: "bit (of_nat (pt_index va s) :: u64) k \<longleftrightarrow> k < 9 \<and> bit va (s + k)"
proof -
  have m: "(0x1FF :: u64) = mask 9" by (simp add: mask_eq_exp_minus_1)
  have "of_nat (pt_index va s) = drop_bit s va AND mask 9" unfolding m [symmetric] by (simp add: pt_index_def)
  then show ?thesis by (auto simp: bit_and_iff bit_mask_iff bit_drop_bit_eq dest: bit_imp_le_length)
qed

lemma pt_index_push:
  assumes "j < 512" "s \<le> 55"
  shows "pt_index (push_bit s (of_nat j)) s = j"
proof -
  have "take_bit 9 (of_nat j :: u64) = of_nat j" using assms(1) take_bit_nat_eq_self [of j 9] by (simp only: take_bit_of_nat) simp
  then have b: "bit (of_nat j :: u64) k \<Longrightarrow> k < 9" for k by (metis bit_take_bit_iff)
  have m: "(0x1FF :: u64) = mask 9" by (simp add: mask_eq_exp_minus_1)
  have "drop_bit s (push_bit s (of_nat j)) AND mask 9 = (of_nat j :: u64)"
    by (rule bit_word_eqI) (use b assms(2) in \<open>fastforce simp: bit_and_iff bit_drop_bit_eq bit_push_bit_iff bit_mask_iff\<close>)
  then show ?thesis using assms(1) unfolding pt_index_def m by (simp add: unat_of_nat)
qed

lemma split_span:
  fixes b f va :: u64
  assumes b: "\<And>k. bit b k \<Longrightarrow> s + 9 \<le> k \<and> 12 \<le> k \<and> k < 52" and f: "\<And>k. bit f k \<Longrightarrow> k < 12 \<or> 52 \<le> k" and s: "12 \<le> s" "s + 9 < 52"
  defines "e \<equiv> (b + of_nat (pt_index va s) * 2 ^ s) OR f"
  shows "(e AND ADDR_MASK AND NOT (mask s)) OR (va AND mask s) = b OR (va AND mask (s + 9))"
    "s = 12 \<Longrightarrow> (e AND ADDR_MASK) OR (va AND mask 12) = b OR (va AND mask (12 + 9))"
    "e AND ENTRY_PRESENT = f AND ENTRY_PRESENT" "e AND ENTRY_LARGE = f AND ENTRY_LARGE"
proof -
  let ?j = "of_nat (pt_index va s) :: u64"
  have j: "bit (push_bit s ?j) k \<longleftrightarrow> s \<le> k \<and> k < s + 9 \<and> bit va k" for k
    using s by (auto simp: bit_push_bit_iff bit_pt_index dest: bit_imp_le_length)
  have "b AND push_bit s ?j = 0"
    by (rule bit_word_eqI) (use b j in \<open>fastforce simp: bit_and_iff\<close>)
  then have plus: "b + ?j * 2 ^ s = b OR push_bit s ?j"
    by (simp add: disjunctive_add_eq_or push_bit_eq_mult mult.commute)
  have e: "bit e k \<longleftrightarrow> bit b k \<or> s \<le> k \<and> k < s + 9 \<and> bit va k \<or> bit f k" for k
    unfolding e_def plus by (auto simp: bit_or_iff j)
  show "(e AND ADDR_MASK AND NOT (mask s)) OR (va AND mask s) = b OR (va AND mask (s + 9))"
  proof (rule bit_word_eqI)
    fix k assume "k < LENGTH(64)"
    then show "bit ((e AND ADDR_MASK AND NOT (mask s)) OR (va AND mask s)) k = bit (b OR (va AND mask (s + 9))) k"
      using b [of k] f [of k] s by (auto simp: bit_or_iff bit_and_iff bit_not_iff bit_mask_iff ADDR_MASK_bits e)
  qed
  show "(e AND ADDR_MASK) OR (va AND mask 12) = b OR (va AND mask (12 + 9))" if "s = 12"
  proof (rule bit_word_eqI)
    fix k assume "k < LENGTH(64)"
    then show "bit ((e AND ADDR_MASK) OR (va AND mask 12)) k = bit (b OR (va AND mask (12 + 9))) k"
      using b [of k] f [of k] that by (auto simp: bit_or_iff bit_and_iff bit_mask_iff ADDR_MASK_bits e)
  qed
  show "e AND ENTRY_PRESENT = f AND ENTRY_PRESENT" "e AND ENTRY_LARGE = f AND ENTRY_LARGE"
    by (rule bit_word_eqI; use b [of 0] b [of 7] s in \<open>auto simp: bit_and_iff bit_ENTRY e\<close>)+
qed

text \<open>
  One split: a present large entry of a table of level \<open>n + 1\<close> becomes a table of 512 entries of level \<open>n\<close>. The
  two splits of the code are its instances.
\<close>

definition split_leaf :: "nat \<Rightarrow> u64 \<Rightarrow> nat \<Rightarrow> u64 \<Rightarrow> 'a mm_state_scheme \<Rightarrow> 'a mm_state_scheme option" where
  "split_leaf n t i flags st = do {
     e \<leftarrow> entry st t i;
     (c, st) \<leftarrow> new_table st;
     st \<leftarrow> fill_table c (e AND ADDR_MASK AND NOT (mask (12 + 9 * Suc n))) (2 ^ (12 + 9 * n)) flags st;
     write_entry st t i ((c AND ADDR_MASK) OR ENTRY_PRESENT OR (e AND (ENTRY_RW OR ENTRY_USER OR ENTRY_NX)))
   }"

lemma split_is_split_leaf:
  assumes "phys_offset st \<noteq> 0"
  shows "split_1g t i st = (if large (ent (ram st) t i) then split_leaf 1 t i (ent (ram st) t i AND FLAG_MASK) st else Some st)"
    "split_2m t i st = (if large (ent (ram st) t i) then split_leaf 0 t i (ent (ram st) t i AND FLAG_MASK AND NOT ENTRY_LARGE) st else Some st)"
  using assms by (simp_all add: split_1g_def split_2m_def split_leaf_def entry_online offset_masks Let_def)

lemma split_entry_facts:
  fixes c e :: u64
  assumes "c AND ADDR_MASK = c"
  defines "x \<equiv> (c AND ADDR_MASK) OR ENTRY_PRESENT OR (e AND (ENTRY_RW OR ENTRY_USER OR ENTRY_NX))"
  shows "present x" "x AND ENTRY_LARGE = 0" "x AND ADDR_MASK = c"
proof -
  have b: "bit x k \<longleftrightarrow> bit c k \<and> 12 \<le> k \<and> k < 52 \<or> k = 0 \<or> bit e k \<and> (k = 1 \<or> k = 2 \<or> k = 63)" for k
    by (auto simp: x_def bit_or_iff bit_and_iff ADDR_MASK_bits bit_ENTRY)
  have "bit (x AND ENTRY_PRESENT) 0" by (simp add: bit_and_iff b bit_ENTRY)
  then show "present x" by (metis bit_0_eq bot_apply bot_bool_def)
  show "x AND ENTRY_LARGE = 0" by (rule bit_word_eqI) (auto simp: bit_and_iff b bit_ENTRY)
  have "x AND ADDR_MASK = c AND ADDR_MASK" by (rule bit_word_eqI) (auto simp: bit_and_iff b ADDR_MASK_bits)
  then show "x AND ADDR_MASK = c" using assms by simp
qed


lemma split_leaf_updated:
  assumes wf: "phys_wf st" "frame_count st \<le> 2 ^ 40" and tree: "pt_tree (ram st) t (Suc n)" and used: "tables (ram st) t (Suc n) \<subseteq> frames_used st"
    and n: "n < 2" and i: "i < 512" and leaf: "present (ent (ram st) t i)" "large (ent (ram st) t i)" and free: "0 < mm_free_page_count st"
    and fl: "\<And>k. bit flags k \<Longrightarrow> k < 12 \<or> 52 \<le> k" "present flags" "n = 1 \<longrightarrow> large flags"
  shows "\<exists>st'. split_leaf n t i flags st = Some st' \<and> updated 1 (Suc n) t st st' (walk (ram st) t (Suc n)) \<and>
    child_at (ram st') t n i"
proof -
  let ?m = "ram st" and ?e = "ent (ram st) t i"
  define b where "b = ?e AND ADDR_MASK AND NOT (mask (12 + 9 * Suc n))"
  have bb: "\<And>k. bit b k \<Longrightarrow> (12 + 9 * n) + 9 \<le> k \<and> 12 \<le> k \<and> k < 52"
    by (auto simp: b_def bit_and_iff bit_not_iff bit_mask_iff ADDR_MASK_bits)
  obtain k s1 where k: "mm_allocate_page st = Some (Some (from_pfn k), s1)" "k < frame_count st" "k \<notin> frames_used st"
    "frames_used s1 = insert k (frames_used st)" "frame_count s1 = frame_count st" "phys_wf s1"
    "ram s1 = (ram st)(k := (\<lambda>_. 0))" "mm_free_page_count s1 + 1 = mm_free_page_count st"
    "\<exists>db m. s1 = st\<lparr>pfn_db := db, ram := m\<rparr>"
    by (rule mm_allocate_page_free [OF wf(1) free])
  define c where "c = phys_word (from_pfn k)"
  have "k < 2 ^ 40" using k(2) wf(2) by simp
  note c = phys_word_frame [OF this, folded c_def]
  define x where "x = (c AND ADDR_MASK) OR ENTRY_PRESENT OR (?e AND (ENTRY_RW OR ENTRY_USER OR ENTRY_NX))"
  note xf = split_entry_facts [OF c(1), of ?e, folded x_def]
  define g where "g = (\<lambda>j. (b + of_nat j * 2 ^ (12 + 9 * n)) OR flags)"
  define m' where "m' = set_ent (fill_frame (ram s1) c {0..<512} g) t i x"
  let ?s = "s1\<lparr>ram := m'\<rparr>"
  have off: "phys_offset st \<noteq> 0" "phys_offset s1 \<noteq> 0" using wf(1) k(6) by (simp_all add: phys_wf_def)
  have fillf: "fill_table c b (2 ^ (12 + 9 * n)) flags s1 = Some (s1\<lparr>ram := fill_frame (ram s1) c {0..<512} g\<rparr>)"
    using foreach_write [OF off(2), of c g "[0..<512]"] unfolding fill_table_def g_def by (simp only: set_upt)
  have run: "split_leaf n t i flags st = Some ?s"
    using k(1) off fillf [unfolded b_def]
    by (simp add: split_leaf_def new_table_def entry_online write_entry_online c_def [symmetric] x_def m'_def)
  have tf: "frame_of t \<in> frames_used st" using used by simp
  have kt: "k \<noteq> frame_of t" using k(3) tf by auto
  have et: "ent m' t j = (if j = i then x else ent ?m t j)" for j
    using kt c(2) by (simp add: m'_def ent_set_ent) (simp add: ent_def fill_frame_def k(7))
  have ec: "ent m' c j = g j" if "j < 512" for j
    using kt c(2) that by (simp add: m'_def ent_set_ent) (simp add: ent_def fill_frame_def)
  have keep: "m' p = ?m p" if "p \<noteq> frame_of t" "p \<noteq> k" for p
    using that c(2) by (simp add: m'_def set_ent_other fill_frame_def k(7))
  have flg: "g (pt_index va (12 + 9 * n)) AND ENTRY_PRESENT = flags AND ENTRY_PRESENT" "g (pt_index va (12 + 9 * n)) AND ENTRY_LARGE = flags AND ENTRY_LARGE"
    "(g (pt_index va (12 + 9 * n)) AND ADDR_MASK AND NOT (mask (12 + 9 * n))) OR (va AND mask (12 + 9 * n)) = b OR (va AND mask (12 + 9 * Suc n))"
    "n = 0 \<Longrightarrow> (g (pt_index va 12) AND ADDR_MASK) OR (va AND mask 12) = b OR (va AND mask (12 + 9 * Suc n))" for va
    using split_span [of b "12 + 9 * n" flags va, OF bb fl(1)] n by (simp_all add: g_def)
  have glarge: "large (g j)" if "n = 1" "j < 512" for j
  proof -
    have "pt_index (push_bit (12 + 9 * n) (of_nat j)) (12 + 9 * n) = j" using that by (intro pt_index_push) simp_all
    with flg(2) [of "push_bit (12 + 9 * n) (of_nat j)"] fl(3) that show ?thesis by (simp del: push_bit_of_nat)
  qed
  have noc: "child_at m' c 0 = (\<lambda>_. False)" if "n = 1"
    using glarge [OF that] ec by (auto simp: fun_eq_iff child_at_def)
  have tc: "tables m' c n = {k}" "pt_tree m' c n"
    using n noc c(2) by (auto simp: less_2_cases_iff)
  have wc: "walk m' c n va = Some (b OR (va AND mask (12 + 9 * Suc n)))" for va
  proof (cases "n = 0")
    case True
    with flg [of va] fl(2) show ?thesis by (simp add: ec Let_def)
  next
    case False
    with n have "n = 1" by simp
    with flg [of va] fl(2,3) show ?thesis by (simp add: ec Let_def)
  qed
  have wt: "walk ?m t (Suc n) va = Some (b OR (va AND mask (12 + 9 * Suc n)))" if "pt_index va (12 + 9 * Suc n) = i" for va
    using leaf n unfolding walk.simps Let_def that by (simp add: b_def)
  have ci: "child_at m' t n i" "child m' t i = c" using xf i by (simp_all add: child_at_def child_def et)
  have oth: "tables ?m (child ?m t j) n \<subseteq> frames_used st" "frame_of t \<notin> tables ?m (child ?m t j) n" if "child_at ?m t n j" for j
    using used tree that by auto
  have others: "\<forall>j. j \<noteq> i \<longrightarrow> child_at ?m t n j \<longrightarrow> (\<forall>p \<in> tables ?m (child ?m t j) n. m' p = ?m p)"
  proof (intro allI impI ballI)
    fix j p assume j: "child_at ?m t n j" and p: "p \<in> tables ?m (child ?m t j) n"
    with oth [OF j] k(3) have "p \<noteq> frame_of t" "p \<noteq> k" by auto
    then show "m' p = ?m p" by (rule keep)
  qed
  have disj: "\<forall>j. j \<noteq> i \<longrightarrow> child_at ?m t n j \<longrightarrow> tables ?m (child ?m t j) n \<inter> tables m' c n = {}"
  proof (intro allI impI)
    fix j assume "child_at ?m t n j"
    from oth(1) [OF this] k(3) show "tables ?m (child ?m t j) n \<inter> tables m' c n = {}" unfolding tc(1) by auto
  qed
  have same: "\<forall>j. j \<noteq> i \<longrightarrow> ent m' t j = ent ?m t j" by (simp add: et)
  have root: "frame_of t \<notin> tables m' c n" using tc(1) kt by simp
  note rc = replace_child [OF tree same ci i others tc(2) root disj]
  have nci: "\<not> child_at ?m t n i" using leaf n by (simp add: child_at_def)
  then have "{j. j \<noteq> i \<and> child_at ?m t n j} = {j. child_at ?m t n j}" by auto
  then have tb: "tables m' t (Suc n) = insert k (tables ?m t (Suc n))" using rc(2) tc(1) by auto
  have wk: "\<forall>va. walk m' t (Suc n) va = walk ?m t (Suc n) va" using rc(3) wt wc by (simp del: walk.simps)
  have only: "\<exists>db m. ?s = st\<lparr>pfn_db := db, ram := m\<rparr>"
    by (rule frames_only_trans [OF k(9)], rule exI [of _ "pfn_db s1"], rule exI [of _ m'], simp)
  have kp: "\<forall>p \<in> frames_used st - tables ?m t (Suc n). m' p = ?m p" using keep k(3) by auto
  have ph: "phys_wf ?s" "frames_used ?s = insert k (frames_used st)" "frame_count ?s = frame_count st" "mm_free_page_count ?s + 1 = mm_free_page_count st"
    using phys_cong [of ?s s1] k by (simp_all add: mm_free_page_count_def)
  have "updated 1 (Suc n) t st ?s (walk ?m t (Suc n))"
    unfolding updated_def using ph rc(1) tb wk only kp used k(3) by (auto simp del: tables.simps walk.simps pt_tree.simps)
  with run ci(1) show ?thesis by auto
qed

lemma updated_refl: "phys_wf st \<Longrightarrow> pt_tree (ram st) t n \<Longrightarrow> tables (ram st) t n \<subseteq> frames_used st \<Longrightarrow> updated k n t st st (walk (ram st) t n)"
  unfolding updated_def by (auto intro!: exI [of _ "pfn_db st"] exI [of _ "ram st"])

lemma updated_trans:
  assumes "updated k n t s1 s2 (walk (ram s1) t n)" "updated k' n t s2 s3 w"
  shows "updated (k + k') n t s1 s3 w"
proof -
  note A = assms(1) [unfolded updated_def] and B = assms(2) [unfolded updated_def]
  have only: "\<exists>db m. s3 = s1\<lparr>pfn_db := db, ram := m\<rparr>" by (rule frames_only_trans [of s2]) (use A B in blast)+
  have keep: "\<forall>p \<in> frames_used s1 - tables (ram s1) t n. ram s3 p = ram s1 p"
  proof
    fix p assume p: "p \<in> frames_used s1 - tables (ram s1) t n"
    then have "p \<in> frames_used s2 - tables (ram s2) t n" using A by blast
    then have "ram s3 p = ram s2 p" using B by blast
    with p A show "ram s3 p = ram s1 p" by simp
  qed
  have tb: "tables (ram s3) t n \<subseteq> tables (ram s1) t n \<union> (frames_used s3 - frames_used s1)"
    "tables (ram s1) t n \<subseteq> tables (ram s3) t n" "frames_used s1 \<subseteq> frames_used s3" using A B by blast+
  have "mm_free_page_count s1 \<le> mm_free_page_count s3 + (k + k')" "frame_count s3 = frame_count s1" using A B by linarith+
  with B only keep tb show ?thesis unfolding updated_def by blast
qed

lemma updated_lift:
  assumes "phys_wf st" "pt_tree (ram st) t (Suc n)" "tables (ram st) t (Suc n) \<subseteq> frames_used st"
    and "child_at (ram st) t n (pt_index v (12 + 9 * Suc n))" "c = child (ram st) t (pt_index v (12 + 9 * Suc n))"
    and "updated k n c st st' (walk (ram st) c n)"
  shows "updated k (Suc n) t st st' (walk (ram st) t (Suc n))"
proof -
  note r = table_ready_child [OF assms(1-4), folded assms(5)]
  have w: "walk (ram st) c n va = walk (ram st) t (Suc n) va" if "pt_index va (12 + 9 * Suc n) = pt_index v (12 + 9 * Suc n)" for va
    using r that unfolding table_ready_def Let_def by blast
  have "(\<lambda>va. if pt_index va (12 + 9 * Suc n) = pt_index v (12 + 9 * Suc n) then walk (ram st) c n va else walk (ram st) t (Suc n) va)
      = walk (ram st) t (Suc n)"
    by (rule ext) (use w in presburger)
  with updated_step(1) [OF assms(2,3) r assms(6)] show ?thesis by simp
qed

lemma flags_of_leaf:
  fixes e :: u64
  assumes "present e" "large e"
  shows "bit (e AND FLAG_MASK) k \<Longrightarrow> k < 12 \<or> 52 \<le> k" "present (e AND FLAG_MASK)" "large (e AND FLAG_MASK)"
    "bit (e AND FLAG_MASK AND NOT ENTRY_LARGE) k \<Longrightarrow> k < 12 \<or> 52 \<le> k" "present (e AND FLAG_MASK AND NOT ENTRY_LARGE)"
proof -
  have f: "bit FLAG_MASK j \<longleftrightarrow> j < 64 \<and> \<not> (12 \<le> j \<and> j < 52)" for j
    by (auto simp: FLAG_MASK_def bit_not_iff ADDR_MASK_bits)
  show "bit (e AND FLAG_MASK) k \<Longrightarrow> k < 12 \<or> 52 \<le> k" "bit (e AND FLAG_MASK AND NOT ENTRY_LARGE) k \<Longrightarrow> k < 12 \<or> 52 \<le> k"
    by (auto simp: bit_and_iff f)
  have "(e AND FLAG_MASK) AND ENTRY_PRESENT = e AND ENTRY_PRESENT" "(e AND FLAG_MASK) AND ENTRY_LARGE = e AND ENTRY_LARGE"
    "(e AND FLAG_MASK AND NOT ENTRY_LARGE) AND ENTRY_PRESENT = e AND ENTRY_PRESENT"
    by (rule bit_word_eqI; auto simp: bit_and_iff bit_not_iff f bit_ENTRY)+
  with assms show "present (e AND FLAG_MASK)" "large (e AND FLAG_MASK)" "present (e AND FLAG_MASK AND NOT ENTRY_LARGE)" by simp_all
qed

lemma split_level:
  assumes "phys_wf st" "frame_count st \<le> 2 ^ 40" "pt_tree (ram st) t (Suc n)" "tables (ram st) t (Suc n) \<subseteq> frames_used st"
    and "i < 512" "present (ent (ram st) t i)" "0 < mm_free_page_count st"
    and f: "n = 1 \<and> f = split_1g \<or> n = 0 \<and> f = split_2m"
  shows "\<exists>st'. f t i st = Some st' \<and> updated 1 (Suc n) t st st' (walk (ram st) t (Suc n)) \<and> child_at (ram st') t n i"
proof (cases "large (ent (ram st) t i)")
  case True
  note sl = split_leaf_updated [OF assms(1-4) _ assms(5,6) True assms(7)] and fl = flags_of_leaf [OF assms(6) True]
  have off: "phys_offset st \<noteq> 0" using assms(1) by (simp add: phys_wf_def)
  from f show ?thesis
  proof
    assume "n = 1 \<and> f = split_1g"
    with True sl [OF _ fl(1,2)] fl(3) show ?thesis by (simp add: split_is_split_leaf [OF off])
  next
    assume "n = 0 \<and> f = split_2m"
    with True sl [OF _ fl(4,5)] show ?thesis by (simp add: split_is_split_leaf [OF off])
  qed
next
  case False
  have off: "phys_offset st \<noteq> 0" using assms(1) by (simp add: phys_wf_def)
  have "f t i st = Some st" using f False by (auto simp: split_is_split_leaf [OF off])
  moreover have "child_at (ram st) t n i" using assms(5,6) False by (simp add: child_at_def)
  ultimately show ?thesis using updated_refl [OF assms(1,3,4)] by blast
qed

lemma no_large_child:
  assumes "child_at m t n (pt_index v (12 + 9 * Suc n))" "no_large_path m (child m t (pt_index v (12 + 9 * Suc n))) n v"
  shows "no_large_path m t (Suc n) v"
  using assms by (simp add: child_at_def child_def Let_def)

lemma no_large_absent: "\<not> present (ent m t (pt_index v (12 + 9 * Suc n))) \<Longrightarrow> no_large_path m t (Suc n) v"
  by (simp add: Let_def)

text \<open>A change below one child leaves the root table, hence its other entries, alone.\<close>

lemma updated_root:
  assumes "pt_tree (ram st) t (Suc n)" "tables (ram st) t (Suc n) \<subseteq> frames_used st" "child_at (ram st) t n i"
    and "updated k n (child (ram st) t i) st st' w"
  shows "child_at (ram st') t n' = child_at (ram st) t n'" "child (ram st') t = child (ram st) t" "ent (ram st') t j = ent (ram st) t j"
proof -
  have "frame_of t \<in> frames_used st - tables (ram st) (child (ram st) t i) n" using assms(1-3) by auto
  then have r: "ram st' (frame_of t) = ram st (frame_of t)" using assms(4) unfolding updated_def by blast
  show "child_at (ram st') t n' = child_at (ram st) t n'" "child (ram st') t = child (ram st) t"
    using child_agree [of "ram st'" t "ram st", OF r] by simp_all
  show "ent (ram st') t j = ent (ram st) t j" using r by (simp add: ent_def)
qed

lemma updatedD:
  assumes "updated k n t st st' w"
  shows "phys_wf st'" "frame_count st' = frame_count st" "pt_tree (ram st') t n" "tables (ram st') t n \<subseteq> frames_used st'"
    "mm_free_page_count st \<le> mm_free_page_count st' + k" "phys_offset st' \<noteq> 0" "cr3 st' = cr3 st"
  using assms unfolding updated_def by (auto simp: phys_wf_def)

lemma below:
  assumes "pt_tree m t (Suc n)" "tables m t (Suc n) \<subseteq> U" "child_at m t n i"
  shows "pt_tree m (child m t i) n" "tables m (child m t i) n \<subseteq> U"
  using assms by auto

lemma split_below:
  assumes wf: "phys_wf st" "frame_count st \<le> 2 ^ 40" "pt_tree (ram st) t (Suc (Suc 0))" "tables (ram st) t (Suc (Suc 0)) \<subseteq> frames_used st"
    and free: "2 \<le> mm_free_page_count st" and p: "present (ent (ram st) t (pt_index va 30))"
  shows "\<exists>st'. do { st \<leftarrow> split_1g t (pt_index va 30) st; p3 \<leftarrow> entry st t (pt_index va 30);
       p2 \<leftarrow> entry st (p3 AND ADDR_MASK) (pt_index va 21);
       if \<not> present p2 then Some st else split_2m (p3 AND ADDR_MASK) (pt_index va 21) st } = Some st' \<and>
    updated 2 (Suc (Suc 0)) t st st' (walk (ram st) t (Suc (Suc 0))) \<and> no_large_path (ram st') t (Suc (Suc 0)) va"
proof -
  let ?i = "pt_index va 30" and ?j = "pt_index va 21"
  have ix: "pt_index va (12 + 9 * Suc (Suc 0)) = ?i" "pt_index va (12 + 9 * Suc 0) = ?j" by simp_all
  have "0 < mm_free_page_count st" using free by simp
  from split_level [OF wf(1-2) _ _ pt_index_less p this, of 1 split_1g] wf(3,4) obtain s1 where
    s1: "split_1g t ?i st = Some s1" "updated 1 (Suc (Suc 0)) t st s1 (walk (ram st) t (Suc (Suc 0)))" "child_at (ram s1) t (Suc 0) ?i"
    by (auto simp del: tables.simps pt_tree.simps walk.simps)
  note d1 = updatedD [OF s1(2)]
  let ?c = "child (ram s1) t ?i"
  note b = below [OF d1(3,4) s1(3)]
  note en = entry_online [OF d1(6)]
  show ?thesis
  proof (cases "present (ent (ram s1) ?c ?j)")
    case False
    have "no_large_path (ram s1) t (Suc (Suc 0)) va"
      by (rule no_large_child; unfold ix) (use s1(3) False no_large_absent [of "ram s1" ?c va 0] ix in simp_all)
    moreover have "updated 2 (Suc (Suc 0)) t st s1 (walk (ram st) t (Suc (Suc 0)))"
      using updated_trans [OF s1(2) updated_refl [OF d1(1,3,4), of 1]] s1(2) unfolding updated_def by simp
    ultimately show ?thesis using s1(1) False by (simp add: en child_def del: walk.simps no_large_path.simps)
  next
    case True
    have "0 < mm_free_page_count s1" "frame_count s1 \<le> 2 ^ 40" using free wf(2) d1(2,5) by simp_all
    from split_level [OF d1(1) this(2) b pt_index_less True this(1), of split_2m] obtain s2 where
      s2: "split_2m ?c ?j s1 = Some s2" "updated 1 (Suc 0) ?c s1 s2 (walk (ram s1) ?c (Suc 0))" "child_at (ram s2) ?c 0 ?j" by auto
    have l: "updated 1 (Suc (Suc 0)) t s1 s2 (walk (ram s1) t (Suc (Suc 0)))"
      by (rule updated_lift [OF d1(1,3,4), of va]) (use s1(3) s2(2) in \<open>simp_all add: ix\<close>)
    have "walk (ram s1) t (Suc (Suc 0)) = walk (ram st) t (Suc (Suc 0))" using s1(2) unfolding updated_def by blast
    with updated_trans [OF s1(2) l] have u: "updated 2 (Suc (Suc 0)) t st s2 (walk (ram st) t (Suc (Suc 0)))" by (simp add: numeral_2_eq_2)
    note r = updated_root [OF d1(3,4) s1(3) s2(2)]
    have nl: "no_large_path (ram s2) ?c (Suc 0) va" by (rule no_large_child; unfold ix) (use s2(3) in simp_all)
    have "no_large_path (ram s2) t (Suc (Suc 0)) va"
      by (rule no_large_child; unfold ix) (use s1(3) nl in \<open>simp_all only: r\<close>)
    with u show ?thesis using s1(1) s2(1) True by (simp add: en child_def del: walk.simps no_large_path.simps)
  qed
qed


text \<open>
  C21. Splitting the large pages above an address never panics while two frames are free, and is invisible:
  every address translates as before, the tables still form a tree, and no other frame in use has changed. After
  it no large page is left on the path to that address.
\<close>

theorem split_to_4k_correct:
  assumes "phys_wf st" "frame_count st \<le> 2 ^ 40" "pt_tree (ram st) (current_pml4 st) 3"
    and "tables (ram st) (current_pml4 st) 3 \<subseteq> frames_used st" "2 \<le> mm_free_page_count st"
  shows "\<exists>st'. split_to_4k va st = Some st' \<and> phys_wf st' \<and> pt_tree (ram st') (current_pml4 st) 3 \<and>
    (\<forall>va'. walk (ram st') (current_pml4 st) 3 va' = walk (ram st) (current_pml4 st) 3 va') \<and>
    no_large_path (ram st') (current_pml4 st) 3 va \<and>
    (\<forall>q \<in> frames_used st - tables (ram st) (current_pml4 st) 3. ram st' q = ram st q) \<and>
    mm_free_page_count st \<le> mm_free_page_count st' + 2"
proof -
  let ?P = "current_pml4 st" and ?m = "ram st" and ?i = "pt_index va 39"
  let ?n = "Suc (Suc 0)"
  have n: "3 = Suc ?n" by simp
  have ix: "pt_index va (12 + 9 * Suc ?n) = ?i" "pt_index va (12 + 9 * ?n) = pt_index va 30" by simp_all
  have off: "phys_offset st \<noteq> 0" using assms(1) by (simp add: phys_wf_def)
  note en = entry_online [OF off]
  note tr = assms(3,4) [unfolded n]
  have "\<exists>st'. split_to_4k va st = Some st' \<and> updated 2 (Suc ?n) ?P st st' (walk ?m ?P (Suc ?n)) \<and> no_large_path (ram st') ?P (Suc ?n) va"
  proof (cases "present (ent ?m ?P ?i)")
    case False
    then show ?thesis
      using updated_refl [OF assms(1) tr] no_large_absent [of ?m ?P va ?n] by (simp add: split_to_4k_def en del: walk.simps no_large_path.simps)
  next
    case True
    then have ca: "child_at ?m ?P ?n ?i" by (simp add: child_at_def)
    let ?c = "child ?m ?P ?i"
    note b = below [OF tr ca]
    show ?thesis
    proof (cases "present (ent ?m ?c (pt_index va 30))")
      case False
      have "no_large_path ?m ?P (Suc ?n) va"
        by (rule no_large_child; unfold ix) (use ca False no_large_absent [of ?m ?c va "Suc 0"] ix(2) in simp_all)
      with True False show ?thesis
        using updated_refl [OF assms(1) tr] by (simp add: split_to_4k_def en child_def del: walk.simps no_large_path.simps)
    next
      case p: True
      from split_below [OF assms(1,2) b assms(5) p] obtain s2 where
        s2: "do { st \<leftarrow> split_1g ?c (pt_index va 30) st; p3 \<leftarrow> entry st ?c (pt_index va 30);
          p2 \<leftarrow> entry st (p3 AND ADDR_MASK) (pt_index va 21);
          if \<not> present p2 then Some st else split_2m (p3 AND ADDR_MASK) (pt_index va 21) st } = Some s2"
        "updated 2 ?n ?c st s2 (walk ?m ?c ?n)" "no_large_path (ram s2) ?c ?n va" by blast
      have "updated 2 (Suc ?n) ?P st s2 (walk ?m ?P (Suc ?n))"
        by (rule updated_lift [OF assms(1) tr, of va]) (use ca s2(2) in \<open>simp_all only: ix\<close>)
      moreover note r = updated_root [OF tr ca s2(2)]
      have "no_large_path (ram s2) ?P (Suc ?n) va"
        by (rule no_large_child; unfold ix) (use ca s2(3) in \<open>simp_all only: r\<close>)
      ultimately show ?thesis
        using True p s2(1) by (simp add: split_to_4k_def en child_def del: walk.simps no_large_path.simps)
    qed
  qed
  then show ?thesis unfolding n updated_def by blast
qed

text \<open>Address 0 mapped by a 1 GiB page at physical 1 GiB, under tables in frames 1 and 2.\<close>

definition huge_ram :: ram where
  "huge_ram = (\<lambda>p i. if i = 0 \<and> p = 1 then 0x2007 else if i = 0 \<and> p = 2 then 0x40000087 else 0)"

theorem split_to_4k_witness:
  "phys_wf (demo_mm\<lparr>ram := huge_ram\<rparr>) \<and> (\<exists>st'. split_to_4k 0x201234 (demo_mm\<lparr>ram := huge_ram\<rparr>) = Some st' \<and>
     walk (ram st') 0x1000 3 0x201234 = Some 0x40201234 \<and> no_large_path (ram st') 0x1000 3 0x201234)"
proof -
  let ?st = "demo_mm\<lparr>ram := huge_ram\<rparr>"
  have c: "current_pml4 ?st = 0x1000" by (simp add: demo_mm_def current_pml4_def ADDR_MASK_def)
  have wf: "phys_wf ?st" "frames_used ?st = {..<6}" "frame_count ?st \<le> 2 ^ 40" "2 \<le> mm_free_page_count ?st"
    using phys_cong [of ?st demo_mm] demo_mm_wf by (simp_all add: demo_mm_def frame_count_def mm_free_page_count_def)
  have e: "ent huge_ram 0x1000 i = (if i = 0 then 0x2007 else 0)" "ent huge_ram 0x2000 i = (if i = 0 then 0x40000087 else 0)" for i
    by (simp_all add: ent_def demo_frames) (simp_all add: huge_ram_def)
  have p: "present 0x2007" "present 0x40000087" "large 0x40000087" "(0x2007 :: u64) AND ADDR_MASK = 0x2000" by code_simp+
  have ch: "child_at huge_ram 0x1000 (Suc (Suc 0)) = (\<lambda>i. i = 0)" "child_at huge_ram 0x2000 (Suc 0) = (\<lambda>_. False)" "child huge_ram 0x1000 0 = 0x2000"
    by (auto simp: fun_eq_iff child_at_def child_def e p)
  have t: "pt_tree huge_ram 0x1000 3" "tables huge_ram 0x1000 3 = {1, 2}"
    by (auto simp: numeral_3_eq_3 ch demo_frames)
  have i: "pt_index 0x201234 39 = 0" "pt_index 0x201234 30 = 0" by code_simp+
  have v: "((0x40000087 AND ADDR_MASK AND NOT (mask 30)) OR (0x201234 AND mask 30)) = (0x40201234 :: u64)" by code_simp
  have "walk huge_ram 0x1000 3 0x201234 = Some 0x40201234"
    unfolding walk_levels by (simp add: i e p v)
  with split_to_4k_correct [of ?st "0x201234"] c wf t show ?thesis by auto
qed

end
