(* ===== verification/Mm_Vad.thy ===== *)
theory Mm_Vad
  imports Mm_Map
begin

text \<open>
  Virtual address descriptors (\<^verbatim>\<open>kernel/src/mm/vad.rs\<close>) and the user-buffer probes of
  \<^verbatim>\<open>kernel/src/mm/virt.rs\<close>. Each address space has a sorted list of committed ranges; the list is abstracted to
  the protection of each address (\<open>prot_at\<close>), against which allocation, freeing and protection changes are
  specified. The demand-commit fault path is composed of the pager's and the mapper's operations.
\<close>

section \<open>The lists\<close>

definition USER_VAD_BASE :: u64 where "USER_VAD_BASE = 0x0000700000000000"
definition USER_VAD_LIMIT :: u64 where "USER_VAD_LIMIT = 0x00007FFF00000000"

text \<open>Finding an address space's list (the first one, as \<open>position\<close> does), and storing it back.\<close>

fun find_space :: "u64 \<Rightarrow> space_vads list \<Rightarrow> vad list option" where
  "find_space p [] = None"
| "find_space p (s # ss) = (if sv_pml4 s = p then Some (sv_vads s) else find_space p ss)"

fun store_space :: "u64 \<Rightarrow> vad list \<Rightarrow> space_vads list \<Rightarrow> space_vads list" where
  "store_space p vs [] = []"
| "store_space p vs (s # ss) = (if sv_pml4 s = p then s\<lparr>sv_vads := vs\<rparr> # ss else s # store_space p vs ss)"

definition space_create :: "u64 \<Rightarrow> space_vads list \<Rightarrow> space_vads list" where
  "space_create p ss = (case find_space p ss of None \<Rightarrow> ss @ [\<lparr>sv_pml4 = p, sv_vads = []\<rparr>] | Some _ \<Rightarrow> ss)"

section \<open>Allocation\<close>

text \<open>The first-fit cursor: it stops in front of the first descriptor with a large enough gap before it.\<close>

fun fit_cursor :: "u64 \<Rightarrow> u64 \<Rightarrow> vad list \<Rightarrow> u64" where
  "fit_cursor len cursor [] = cursor"
| "fit_cursor len cursor (v # vs) =
     (if cursor \<le> vad_start v \<and> len \<le> vad_start v - cursor then cursor
      else fit_cursor len (max cursor (vad_end v)) vs)"

text \<open>Insertion at the partition point of a list sorted by start.\<close>

definition insert_vad :: "vad \<Rightarrow> vad list \<Rightarrow> vad list" where
  "insert_vad v vs = takeWhile (\<lambda>u. vad_start u < vad_start v) vs @ v # dropWhile (\<lambda>u. vad_start u < vad_start v) vs"

definition vad_allocate :: "u64 \<Rightarrow> u64 \<Rightarrow> bool \<Rightarrow> bool \<Rightarrow> 'a mm_state_scheme \<Rightarrow> u64 option \<times> 'a mm_state_scheme" where
  "vad_allocate pml4 pages writable executable st =
     (case checked_mul pages 0x1000 of
        None \<Rightarrow> (None, st)
      | Some len \<Rightarrow>
          if len = 0 then (None, st)
          else
            let spaces = space_create pml4 (vads st);
                vs = the (find_space pml4 spaces);
                cursor = fit_cursor len USER_VAD_BASE vs
            in case checked_add cursor len of
                 None \<Rightarrow> (None, st\<lparr>vads := spaces\<rparr>)
               | Some end' \<Rightarrow>
                   if USER_VAD_LIMIT < end' then (None, st\<lparr>vads := spaces\<rparr>)
                   else (Some cursor, st\<lparr>vads := store_space pml4
                     (insert_vad \<lparr>vad_start = cursor, vad_end = end', vad_writable = writable, vad_executable = executable\<rparr> vs) spaces\<rparr>))"

section \<open>Coverage and probes\<close>

fun covers_loop :: "u64 \<Rightarrow> u64 \<Rightarrow> vad list \<Rightarrow> bool" where
  "covers_loop end' cursor [] \<longleftrightarrow> end' \<le> cursor"
| "covers_loop end' cursor (v # vs) \<longleftrightarrow>
     (if vad_end v \<le> cursor then covers_loop end' cursor vs
      else if cursor < vad_start v then False
      else end' \<le> vad_end v \<or> covers_loop end' (vad_end v) vs)"

definition vad_covers :: "u64 \<Rightarrow> u64 \<Rightarrow> u64 \<Rightarrow> 'a mm_state_scheme \<Rightarrow> bool" where
  "vad_covers pml4 va len st =
     (case checked_add va len of
        None \<Rightarrow> False
      | Some end' \<Rightarrow> (case find_space pml4 (vads st) of None \<Rightarrow> False | Some vs \<Rightarrow> covers_loop end' va vs))"

text \<open>The page scan of a probe: whether every page up to \<open>end'\<close> is present and user-accessible.\<close>

function probe_loop :: "'a mm_state_scheme \<Rightarrow> u64 \<Rightarrow> u64 \<Rightarrow> bool option" where
  "probe_loop st page end' =
     (if page < end' then do {
        ok \<leftarrow> page_present_and_user st page;
        if \<not> ok then Some False
        else (case checked_add page 0x1000 of None \<Rightarrow> None | Some page' \<Rightarrow> probe_loop st page' end')
      } else Some True)"
  by pat_completeness auto
termination
proof (relation "measure (\<lambda>(st, page, end'). 2 ^ 64 - unat page)", simp)
  fix st :: "'a mm_state_scheme" and page end' page' :: u64
  assume "checked_add page 0x1000 = Some page'"
  then have "unat page + 4096 < 2 ^ 64" "unat page' = unat page + 4096" by (simp_all add: checked_add_Some)
  then show "((st, page', end'), st, page, end') \<in> measure (\<lambda>(st, page, end'). 2 ^ 64 - unat page)" by simp
qed

declare probe_loop.simps [simp del]

definition is_power_of_two :: "u64 \<Rightarrow> bool" where
  "is_power_of_two a \<longleftrightarrow> a \<noteq> 0 \<and> a AND (a - 1) = 0"

definition probe_user_buffer :: "u64 \<Rightarrow> u64 \<Rightarrow> u64 \<Rightarrow> 'a mm_state_scheme \<Rightarrow> (nt_status + unit) option" where
  "probe_user_buffer address length' alignment st =
     (if length' = 0 then Some (Inr ())
      else do {
        require (is_power_of_two alignment);
        if address AND (alignment - 1) \<noteq> 0 then Some (Inl STATUS_DATATYPE_MISALIGNMENT)
        else (case checked_add address length' of
          None \<Rightarrow> Some (Inl STATUS_ACCESS_VIOLATION)
        | Some end' \<Rightarrow> do {
            all_present \<leftarrow> probe_loop st (address AND NOT 0xFFF) end';
            Some (if \<not> all_present \<and> \<not> vad_covers (current_pml4 st) address length' st
                  then Inl STATUS_ACCESS_VIOLATION else Inr ())
          })
      })"

definition probe_for_read :: "u64 \<Rightarrow> u64 \<Rightarrow> u64 \<Rightarrow> 'a mm_state_scheme \<Rightarrow> (nt_status + unit) option" where
  "probe_for_read address length' alignment st = probe_user_buffer address length' alignment st"

definition probe_for_write :: "u64 \<Rightarrow> u64 \<Rightarrow> u64 \<Rightarrow> 'a mm_state_scheme \<Rightarrow> (nt_status + unit) option" where
  "probe_for_write address length' alignment st = probe_user_buffer address length' alignment st"

section \<open>Demand commit\<close>

definition vad_resolve :: "u64 \<Rightarrow> 'a mm_state_scheme \<Rightarrow> (bool \<times> 'a mm_state_scheme) option" where
  "vad_resolve va st =
     (let page = va AND NOT 0xFFF; pml4 = current_pml4 st in
      case find_space pml4 (vads st) of
        None \<Rightarrow> Some (False, st)
      | Some vs \<Rightarrow>
          (case List.find (\<lambda>v. vad_start v \<le> page \<and> page < vad_end v) vs of
             None \<Rightarrow> Some (False, st)
           | Some v \<Rightarrow> do {
               pte \<leftarrow> mm_debug_pte st page;
               if pte \<noteq> None then Some (True, st)
               else do {
                 (ok, st) \<leftarrow> page_in pml4 page (vad_writable v) (vad_executable v) st;
                 if ok then Some (True, st)
                 else do {
                   (r, st) \<leftarrow> mm_allocate_page st;
                   (case r of
                      None \<Rightarrow> Some (False, st)
                    | Some pa \<Rightarrow> do {
                        st \<leftarrow> mm_map_user_range pml4 page (phys_word pa) 1 (vad_writable v) (vad_executable v) st;
                        st \<leftarrow> register_page pml4 page st;
                        Some (True, st)
                      })
                 }
               }
             }))"

section \<open>Release and protection\<close>

text \<open>Both loops walk the list by index; what is before the index is final, so they are written over the rest.\<close>

definition unmap_free :: "u64 \<Rightarrow> 'a mm_state_scheme \<Rightarrow> 'a mm_state_scheme option" where
  "unmap_free page st = do {
     (r, st) \<leftarrow> mm_unmap_user_page page st;
     (case r of None \<Rightarrow> Some st | Some pa \<Rightarrow> mm_free_contiguous_pages (unat pa) 1 st)
   }"

fun vad_free_loop :: "u64 \<Rightarrow> u64 \<Rightarrow> vad list \<Rightarrow> 'a mm_state_scheme \<Rightarrow> (vad list \<times> 'a mm_state_scheme) option" where
  "vad_free_loop base end' [] st = Some ([], st)"
| "vad_free_loop base end' (v # vs) st =
     (if vad_end v \<le> base then do { (vs', st) \<leftarrow> vad_free_loop base end' vs st; Some (v # vs', st) }
      else if end' \<le> vad_start v then Some (v # vs, st)
      else do {
        let lo = max (vad_start v) base;
        let hi = min (vad_end v) end';
        st \<leftarrow> page_loop unmap_free lo hi st;
        (vs', st) \<leftarrow> vad_free_loop base end' vs st;
        Some ((if vad_start v < lo then [v\<lparr>vad_end := lo\<rparr>] else []) @
              (if hi < vad_end v then [v\<lparr>vad_start := hi\<rparr>] else []) @ vs', st)
      })"

definition vad_free :: "u64 \<Rightarrow> u64 \<Rightarrow> u64 \<Rightarrow> 'a mm_state_scheme \<Rightarrow> ((nt_status + unit) \<times> 'a mm_state_scheme) option" where
  "vad_free pml4 base len st =
     (case checked_add base len of
        None \<Rightarrow> Some (Inl STATUS_INVALID_PARAMETER, st)
      | Some end' \<Rightarrow> do {
          st \<leftarrow> drop_range pml4 base len st;
          (case find_space pml4 (vads st) of
             None \<Rightarrow> Some (Inl STATUS_INVALID_PARAMETER, st)
           | Some vs \<Rightarrow> do {
               (vs', st) \<leftarrow> vad_free_loop base end' vs st;
               Some (Inr (), st\<lparr>vads := store_space pml4 vs' (vads st)\<rparr>)
             })
        })"

text \<open>
  In \<open>vad_protect\<close> a tail cut off at \<open>hi = end'\<close> becomes the next element of the loop, which stops there because
  it starts at \<open>end'\<close>.
\<close>

fun vad_protect_loop :: "u64 \<Rightarrow> u64 \<Rightarrow> bool \<Rightarrow> bool \<Rightarrow> vad list \<Rightarrow> 'a mm_state_scheme \<Rightarrow> (vad list \<times> 'a mm_state_scheme) option" where
  "vad_protect_loop base end' w x [] st = Some ([], st)"
| "vad_protect_loop base end' w x (v # vs) st =
     (if vad_end v \<le> base then do { (vs', st) \<leftarrow> vad_protect_loop base end' w x vs st; Some (v # vs', st) }
      else if end' \<le> vad_start v then Some (v # vs, st)
      else do {
        let lo = max (vad_start v) base;
        let hi = min (vad_end v) end';
        let head = (if vad_start v < lo then [v\<lparr>vad_end := lo\<rparr>] else []);
        let mid = v\<lparr>vad_start := lo, vad_end := hi, vad_writable := w, vad_executable := x\<rparr>;
        st \<leftarrow> page_loop (\<lambda>page. mm_protect_user_page page w x) lo hi st;
        if hi < vad_end v then Some (head @ [mid, v\<lparr>vad_start := hi\<rparr>] @ vs, st)
        else do { (vs', st) \<leftarrow> vad_protect_loop base end' w x vs st; Some (head @ [mid] @ vs', st) }
      })"

definition vad_protect :: "u64 \<Rightarrow> u64 \<Rightarrow> u64 \<Rightarrow> bool \<Rightarrow> bool \<Rightarrow> 'a mm_state_scheme \<Rightarrow> ((nt_status + unit) \<times> 'a mm_state_scheme) option" where
  "vad_protect pml4 base len w x st =
     (case checked_add base len of
        None \<Rightarrow> Some (Inl STATUS_INVALID_PARAMETER, st)
      | Some end' \<Rightarrow>
          if end' \<le> base then Some (Inl STATUS_INVALID_PARAMETER, st)
          else (case find_space pml4 (vads st) of
             None \<Rightarrow> Some (Inl STATUS_INVALID_PARAMETER, st)
           | Some vs \<Rightarrow>
               if \<not> (\<exists>v \<in> set vs. vad_start v < end' \<and> base < vad_end v) then Some (Inl STATUS_INVALID_PARAMETER, st)
               else do {
                 (vs', st) \<leftarrow> vad_protect_loop base end' w x vs st;
                 Some (Inr (), st\<lparr>vads := store_space pml4 vs' (vads st)\<rparr>)
               }))"

fun remove_space :: "u64 \<Rightarrow> space_vads list \<Rightarrow> space_vads list" where
  "remove_space p [] = []"
| "remove_space p (s # ss) = (if sv_pml4 s = p then ss else s # remove_space p ss)"

definition vad_teardown :: "u64 \<Rightarrow> 'a mm_state_scheme \<Rightarrow> 'a mm_state_scheme option" where
  "vad_teardown pml4 st = do { st \<leftarrow> drop_process pml4 st; Some (st\<lparr>vads := remove_space pml4 (vads st)\<rparr>) }"

definition vad_count :: "u64 \<Rightarrow> 'a mm_state_scheme \<Rightarrow> nat" where
  "vad_count pml4 st = (case find_space pml4 (vads st) of None \<Rightarrow> 0 | Some vs \<Rightarrow> length vs)"

section \<open>Well-formed lists and the protection they give\<close>

fun vads_wf :: "vad list \<Rightarrow> bool" where
  "vads_wf [] \<longleftrightarrow> True"
| "vads_wf (v # vs) \<longleftrightarrow> vad_start v < vad_end v \<and> (\<forall>u \<in> set vs. vad_end v \<le> vad_start u) \<and> vads_wf vs"

definition in_vad :: "vad \<Rightarrow> u64 \<Rightarrow> bool" where
  "in_vad v a \<longleftrightarrow> vad_start v \<le> a \<and> a < vad_end v"

definition prot_at :: "vad list \<Rightarrow> u64 \<Rightarrow> (bool \<times> bool) option" where
  "prot_at vs a = map_option (\<lambda>v. (vad_writable v, vad_executable v)) (List.find (\<lambda>v. in_vad v a) vs)"

definition vad_list :: "u64 \<Rightarrow> 'a mm_state_scheme \<Rightarrow> vad list" where
  "vad_list pml4 st = (case find_space pml4 (vads st) of None \<Rightarrow> [] | Some vs \<Rightarrow> vs)"

lemma prot_at_simps [simp]:
  "prot_at [] a = None"
  "prot_at (v # vs) a = (if in_vad v a then Some (vad_writable v, vad_executable v) else prot_at vs a)"
  by (simp_all add: prot_at_def)

lemma prot_at_append: "prot_at (us @ vs) a = (case prot_at us a of None \<Rightarrow> prot_at vs a | Some p \<Rightarrow> Some p)"
  by (induction us) auto

lemma prot_at_None: "prot_at vs a = None \<longleftrightarrow> (\<forall>v \<in> set vs. \<not> in_vad v a)"
  by (induction vs) auto

lemma vads_wf_append:
  "vads_wf (us @ vs) \<longleftrightarrow> vads_wf us \<and> vads_wf vs \<and> (\<forall>u \<in> set us. \<forall>v \<in> set vs. vad_end u \<le> vad_start v)"
  by (induction us) auto

lemma vads_wf_nonempty: "vads_wf vs \<Longrightarrow> v \<in> set vs \<Longrightarrow> vad_start v < vad_end v"
  by (induction vs) auto

lemma space_list_simps:
  "find_space p (space_create p ss) = Some (case find_space p ss of None \<Rightarrow> [] | Some vs \<Rightarrow> vs)"
  "q \<noteq> p \<Longrightarrow> find_space q (space_create p ss) = find_space q ss"
  "find_space p ss = Some us \<Longrightarrow> find_space p (store_space p vs ss) = Some vs"
  "q \<noteq> p \<Longrightarrow> find_space q (store_space p vs ss) = find_space q ss"
proof -
  have a: "find_space r (ss @ [\<lparr>sv_pml4 = p, sv_vads = []\<rparr>]) =
      (case find_space r ss of None \<Rightarrow> if r = p then Some [] else None | Some vs \<Rightarrow> Some vs)" for r
    by (induction ss) auto
  show "find_space p (space_create p ss) = Some (case find_space p ss of None \<Rightarrow> [] | Some vs \<Rightarrow> vs)"
    "q \<noteq> p \<Longrightarrow> find_space q (space_create p ss) = find_space q ss"
    by (simp_all add: space_create_def a split: option.split)
  show "find_space p ss = Some us \<Longrightarrow> find_space p (store_space p vs ss) = Some vs" by (induction ss) (auto split: if_splits)
  show "q \<noteq> p \<Longrightarrow> find_space q (store_space p vs ss) = find_space q ss" by (induction ss) auto
qed

section \<open>First fit\<close>

definition clear_of :: "vad list \<Rightarrow> nat \<Rightarrow> nat \<Rightarrow> bool" where
  "clear_of vs s n \<longleftrightarrow> (\<forall>v \<in> set vs. unat (vad_end v) \<le> s \<or> s + n \<le> unat (vad_start v))"

lemma fit_cursor_spec:
  assumes "vads_wf vs"
  shows "cursor \<le> fit_cursor len cursor vs" "clear_of vs (unat (fit_cursor len cursor vs)) (unat len)"
    "\<And>s. unat cursor \<le> s \<Longrightarrow> clear_of vs s (unat len) \<Longrightarrow> 0 < unat len \<Longrightarrow> unat (fit_cursor len cursor vs) \<le> s"
    "fit_cursor len cursor vs = cursor \<or> (\<exists>v \<in> set vs. fit_cursor len cursor vs = vad_end v)"
proof -
  have "cursor \<le> fit_cursor len cursor vs \<and> clear_of vs (unat (fit_cursor len cursor vs)) (unat len) \<and>
    (\<forall>s. unat cursor \<le> s \<longrightarrow> clear_of vs s (unat len) \<longrightarrow> 0 < unat len \<longrightarrow> unat (fit_cursor len cursor vs) \<le> s) \<and>
    (fit_cursor len cursor vs = cursor \<or> (\<exists>v \<in> set vs. fit_cursor len cursor vs = vad_end v))"
    using assms
  proof (induction vs arbitrary: cursor)
    case Nil
    then show ?case by (simp add: clear_of_def)
  next
    case (Cons v vs)
    show ?case
    proof (cases "cursor \<le> vad_start v \<and> len \<le> vad_start v - cursor")
      case True
      then have fit: "unat cursor + unat len \<le> unat (vad_start v)"
        using unat_sub [of cursor "vad_start v"] by (simp add: word_le_nat_alt) linarith
      have "unat cursor + unat len \<le> unat (vad_start u)" if "u \<in> set vs" for u
      proof -
        have "vad_start v < vad_end v" "vad_end v \<le> vad_start u" using Cons.prems that by auto
        then show ?thesis using fit by (simp add: word_le_nat_alt word_less_nat_alt)
      qed
      with fit True show ?thesis by (simp add: clear_of_def)
    next
      case False
      let ?c = "max cursor (vad_end v)"
      from Cons.IH [of ?c] Cons.prems have IH: "?c \<le> fit_cursor len ?c vs" "clear_of vs (unat (fit_cursor len ?c vs)) (unat len)"
        "\<And>s. unat ?c \<le> s \<Longrightarrow> clear_of vs s (unat len) \<Longrightarrow> 0 < unat len \<Longrightarrow> unat (fit_cursor len ?c vs) \<le> s"
        "fit_cursor len ?c vs = ?c \<or> (\<exists>v \<in> set vs. fit_cursor len ?c vs = vad_end v)" by auto
      have eq: "fit_cursor len cursor (v # vs) = fit_cursor len ?c vs" using False by auto
      have low: "unat (fit_cursor len ?c vs) \<le> s" if s: "unat cursor \<le> s" "clear_of (v # vs) s (unat len)" "0 < unat len" for s
      proof (rule IH(3))
        from s(2) consider "unat (vad_end v) \<le> s" | "s + unat len \<le> unat (vad_start v)" by (auto simp: clear_of_def)
        then show "unat ?c \<le> s"
        proof cases
          case 1
          with s(1) show ?thesis by (simp add: max_def)
        next
          case 2
          then have "cursor \<le> vad_start v" "len \<le> vad_start v - cursor" using s(1) unat_sub [of cursor "vad_start v"] by (simp_all add: word_le_nat_alt)
          with False show ?thesis by simp
        qed
      qed (use s in \<open>auto simp: clear_of_def\<close>)
      have ve: "vad_end v \<le> fit_cursor len ?c vs" "cursor \<le> fit_cursor len ?c vs" using IH(1) by simp_all
      then have cl: "clear_of (v # vs) (unat (fit_cursor len ?c vs)) (unat len)"
        using IH(2) by (simp add: clear_of_def word_le_nat_alt)
      have "fit_cursor len ?c vs = cursor \<or> (\<exists>v \<in> set (v # vs). fit_cursor len ?c vs = vad_end v)"
        using IH(4) by (auto simp: max_def)
      then show ?thesis unfolding eq using ve cl low by blast
    qed
  qed
  then show "cursor \<le> fit_cursor len cursor vs" "clear_of vs (unat (fit_cursor len cursor vs)) (unat len)"
    "\<And>s. unat cursor \<le> s \<Longrightarrow> clear_of vs s (unat len) \<Longrightarrow> 0 < unat len \<Longrightarrow> unat (fit_cursor len cursor vs) \<le> s"
    "fit_cursor len cursor vs = cursor \<or> (\<exists>v \<in> set vs. fit_cursor len cursor vs = vad_end v)" by blast+
qed

lemma dropWhile_starts:
  assumes "vads_wf vs" "u \<in> set (dropWhile (\<lambda>u. vad_start u < s) vs)"
  shows "s \<le> vad_start u"
  using assms
proof (induction vs)
  case (Cons v vs)
  show ?case
  proof (cases "vad_start v < s")
    case True
    with Cons show ?thesis by simp
  next
    case False
    with Cons.prems have "u = v \<or> vad_end v \<le> vad_start u \<and> vad_start v < vad_end v" by auto
    with False show ?thesis by auto
  qed
qed simp

lemma insert_vad_spec:
  assumes wf: "vads_wf vs" and ne: "vad_start v < vad_end v" and cl: "clear_of vs (unat (vad_start v)) (unat (vad_end v) - unat (vad_start v))"
  shows "vads_wf (insert_vad v vs)" "set (insert_vad v vs) = insert v (set vs)"
    "prot_at (insert_vad v vs) a = (if in_vad v a then Some (vad_writable v, vad_executable v) else prot_at vs a)"
proof -
  let ?t = "takeWhile (\<lambda>u. vad_start u < vad_start v) vs" and ?d = "dropWhile (\<lambda>u. vad_start u < vad_start v) vs"
  have split: "?t @ ?d = vs" by simp
  have ne': "unat (vad_start v) < unat (vad_end v)" using ne by (simp add: word_less_nat_alt)
  have t: "vad_end u \<le> vad_start v" if "u \<in> set ?t" for u
  proof -
    have "u \<in> set vs" "vad_start u < vad_start v" using that by (auto dest: set_takeWhileD)
    with cl ne' show ?thesis by (auto simp: clear_of_def word_le_nat_alt word_less_nat_alt)
  qed
  have d: "vad_end v \<le> vad_start u" if "u \<in> set ?d" for u
  proof -
    have "u \<in> set vs" "vad_start v \<le> vad_start u" using that dropWhile_starts [OF wf that] by (auto dest: set_dropWhileD)
    moreover have "vad_start u < vad_end u" using vads_wf_nonempty [OF wf] calculation by blast
    ultimately show ?thesis using cl ne' by (fastforce simp: clear_of_def word_le_nat_alt word_less_nat_alt)
  qed
  have wfs: "vads_wf ?t" "vads_wf ?d" "\<forall>x \<in> set ?t. \<forall>y \<in> set ?d. vad_end x \<le> vad_start y"
    using wf split vads_wf_append [of ?t ?d] by simp_all
  show "vads_wf (insert_vad v vs)"
    using wfs t d ne unfolding insert_vad_def vads_wf_append by auto
  have "set vs = set ?t \<union> set ?d" using split by (metis set_append)
  then show "set (insert_vad v vs) = insert v (set vs)" by (auto simp: insert_vad_def)
  have "prot_at ?t a = None" if "in_vad v a"
    using that t by (fastforce simp: prot_at_None in_vad_def)
  moreover have "prot_at vs a = (case prot_at ?t a of None \<Rightarrow> prot_at ?d a | Some p \<Rightarrow> Some p)"
    using prot_at_append [of ?t ?d a] by simp
  ultimately show "prot_at (insert_vad v vs) a = (if in_vad v a then Some (vad_writable v, vad_executable v) else prot_at vs a)"
    unfolding insert_vad_def prot_at_append by (auto split: option.splits)
qed

section \<open>Coverage\<close>

lemma covers_loop_spec:
  assumes "vads_wf vs" "cursor < end'"
  shows "covers_loop end' cursor vs \<longleftrightarrow> (\<forall>a. cursor \<le> a \<longrightarrow> a < end' \<longrightarrow> prot_at vs a \<noteq> None)"
  using assms
proof (induction vs arbitrary: cursor)
  case Nil
  then show ?case by auto
next
  case (Cons v vs)
  from Cons.prems(1) have v: "vad_start v < vad_end v" "\<forall>u \<in> set vs. vad_end v \<le> vad_start u" "vads_wf vs" by auto
  have after: "prot_at vs a = None" if "a < vad_end v" for a
    using v(2) that by (fastforce simp: prot_at_None in_vad_def)
  consider "vad_end v \<le> cursor" | "cursor < vad_end v" "cursor < vad_start v" | "cursor < vad_end v" "vad_start v \<le> cursor" by fastforce
  then show ?case
  proof cases
    case 1
    then have "prot_at (v # vs) a = prot_at vs a" if "cursor \<le> a" for a using that by (auto simp: in_vad_def)
    with 1 Cons.IH [OF v(3) Cons.prems(2)] show ?thesis by (simp del: prot_at_simps)
  next
    case 2
    then have "prot_at (v # vs) cursor = None" using after by (auto simp: in_vad_def)
    with 2 Cons.prems(2) show ?thesis by (auto simp del: prot_at_simps intro!: exI [of _ cursor])
  next
    case 3
    have here: "prot_at (v # vs) a \<noteq> None" if "cursor \<le> a" "a < vad_end v" for a
      using that 3 by (auto simp: in_vad_def)
    show ?thesis
    proof (cases "end' \<le> vad_end v")
      case True
      with 3 here show ?thesis by (auto simp del: prot_at_simps)
    next
      case False
      have later: "prot_at (v # vs) a = prot_at vs a" if "vad_end v \<le> a" for a using that by (auto simp: in_vad_def)
      have "(\<forall>a. cursor \<le> a \<longrightarrow> a < end' \<longrightarrow> prot_at (v # vs) a \<noteq> None) \<longleftrightarrow>
          (\<forall>a. vad_end v \<le> a \<longrightarrow> a < end' \<longrightarrow> prot_at vs a \<noteq> None)"
        (is "?L = ?R")
      proof
        show ?R if ?L using that later 3 by (metis less_imp_le order_trans)
        show ?L if ?R
        proof (intro allI impI)
          fix a assume "cursor \<le> a" "a < end'"
          with that here later show "prot_at (v # vs) a \<noteq> None" by (cases "a < vad_end v") (auto simp del: prot_at_simps)
        qed
      qed
      moreover have "covers_loop end' cursor (v # vs) = covers_loop end' (vad_end v) vs" using False 3 by auto
      ultimately show ?thesis using False Cons.IH [OF v(3), of "vad_end v"] by (simp del: prot_at_simps covers_loop.simps)
    qed
  qed
qed

lemma vad_covers_spec:
  assumes "vads_wf (vad_list pml4 st)" "len \<noteq> 0"
  shows "vad_covers pml4 va len st \<longleftrightarrow> unat va + unat len < 2 ^ 64 \<and>
    (\<forall>a. va \<le> a \<longrightarrow> unat a < unat va + unat len \<longrightarrow> prot_at (vad_list pml4 st) a \<noteq> None)"
proof (cases "checked_add va len")
  case None
  then show ?thesis by (auto simp: vad_covers_def checked_add_def split: if_splits)
next
  case (Some end')
  then have e: "unat va + unat len < 2 ^ 64" "unat end' = unat va + unat len" by (simp_all add: checked_add_Some)
  have "0 < unat len" using assms(2) by (simp add: unat_gt_0)
  with e have lt: "va < end'" by (simp add: word_less_nat_alt)
  show ?thesis
  proof (cases "find_space pml4 (vads st)")
    case None
    with Some lt e show ?thesis
      by (auto simp: vad_covers_def vad_list_def word_less_nat_alt intro!: exI [of _ va])
  next
    case (Some vs)
    with assms(1) \<open>checked_add va len = Some end'\<close> covers_loop_spec [of vs va end'] lt e show ?thesis
      by (simp add: vad_covers_def vad_list_def word_less_nat_alt)
  qed
qed

section \<open>Probes\<close>

definition accessible :: "'a mm_state_scheme \<Rightarrow> u64 \<Rightarrow> bool" where
  "accessible st a \<longleftrightarrow> page_present_and_user st a = Some True"

lemma page_present_total: "phys_offset st \<noteq> 0 \<Longrightarrow> page_present_and_user st a = Some (accessible st a)"
  unfolding accessible_def by (auto simp: page_present_and_user_def entry_online Let_def)

lemma pt_index_page: "12 \<le> s \<Longrightarrow> pt_index (a AND NOT 0xFFF) s = pt_index a s"
proof -
  assume s: "12 \<le> s"
  have m: "(0xFFF :: u64) = mask 12" by (simp add: mask_eq_exp_minus_1)
  have "drop_bit s (a AND NOT (mask 12)) = drop_bit s a"
    by (rule bit_word_eqI) (use s in \<open>auto simp: bit_drop_bit_eq bit_and_iff bit_not_iff bit_mask_iff dest: bit_imp_le_length\<close>)
  then show ?thesis unfolding m pt_index_def by simp
qed

lemma accessible_page: "accessible st (a AND NOT 0xFFF) = accessible st a"
proof -
  have i: "pt_index (a AND NOT 0xFFF) 39 = pt_index a 39" "pt_index (a AND NOT 0xFFF) 30 = pt_index a 30"
    "pt_index (a AND NOT 0xFFF) 21 = pt_index a 21" "pt_index (a AND NOT 0xFFF) 12 = pt_index a 12"
    by (rule pt_index_page, simp)+
  show ?thesis unfolding accessible_def page_present_and_user_def i ..
qed

lemma unat_page: "unat (a AND NOT 0xFFF :: u64) = unat a div 4096 * 4096"
proof -
  have m: "(0xFFF :: u64) = mask 12" by (simp add: mask_eq_exp_minus_1)
  have "a AND NOT (mask 12) = push_bit 12 (drop_bit 12 a)"
    by (rule bit_word_eqI) (auto simp: bit_push_bit_iff bit_drop_bit_eq bit_and_iff bit_not_iff bit_mask_iff)
  moreover have "unat (push_bit 12 (drop_bit 12 a)) = unat (drop_bit 12 a * 4096)" by (simp add: push_bit_eq_mult mult.commute)
  moreover have "unat a div 4096 * 4096 < 2 ^ 64"
    using unsigned_less [of a, where ?'a = nat] div_times_less_eq_dividend [of "unat a" 4096] by simp
  ultimately show ?thesis unfolding m by (simp add: unat_word_ariths unat_drop_bit_eq)
qed

lemma probe_loop_spec:
  assumes "phys_offset st \<noteq> 0" "unat end' \<le> 2 ^ 64 - 4096" "4096 dvd unat page"
  shows "probe_loop st page end' = Some (\<forall>a. page \<le> a \<longrightarrow> a < end' \<longrightarrow> accessible st a)"
  using assms
proof (induction st page end' rule: probe_loop.induct)
  case (1 st page end')
  note pp = page_present_total [OF 1(2), of page]
  show ?case
  proof (cases "page < end'")
    case False
    then show ?thesis by (subst probe_loop.simps) auto
  next
    case lt: True
    show ?thesis
    proof (cases "accessible st page")
      case False
      with lt pp show ?thesis by (subst probe_loop.simps) auto
    next
      case True
      from lt 1(3) have "unat page < 2 ^ 64 - 4096" by (simp add: word_less_nat_alt)
      then have ca: "checked_add page 0x1000 = Some (page + 0x1000)" and u: "unat (page + 0x1000) = unat page + 4096"
        by (simp_all add: checked_add_def unat_word_ariths)
      have "4096 dvd unat (page + 0x1000)" using 1(4) u by simp
      with 1(1) [OF lt] pp True ca 1(2,3)
      have IH: "probe_loop st (page + 0x1000) end' = Some (\<forall>a. page + 0x1000 \<le> a \<longrightarrow> a < end' \<longrightarrow> accessible st a)" by simp
      have here: "accessible st a" if "page \<le> a" "a < page + 0x1000" for a
      proof -
        from that u have "unat page \<le> unat a" "unat a < unat page + 4096" by (simp_all add: word_le_nat_alt word_less_nat_alt)
        moreover obtain k where k: "unat page = 4096 * k" using 1(4) by (auto simp: dvd_def)
        ultimately have "unat a div 4096 = k" by (intro div_nat_eqI) simp_all
        with k have "unat (a AND NOT 0xFFF) = unat page" by (simp only: unat_page)
        then have "a AND NOT 0xFFF = page" by (simp only: word_unat_eq_iff)
        with True accessible_page [of st a] show ?thesis by simp
      qed
      have "(\<forall>a. page \<le> a \<longrightarrow> a < end' \<longrightarrow> accessible st a) \<longleftrightarrow> (\<forall>a. page + 0x1000 \<le> a \<longrightarrow> a < end' \<longrightarrow> accessible st a)"
        (is "?L = ?R")
      proof
        have "page \<le> page + 0x1000" using u by (simp add: word_le_nat_alt)
        then show ?R if ?L using that by (metis order_trans)
        show ?L if ?R
        proof (intro allI impI)
          fix a assume "page \<le> a" "a < end'"
          with that here show "accessible st a" by (cases "a < page + 0x1000") auto
        qed
      qed
      with IH lt pp True ca show ?thesis by (subst probe_loop.simps) simp
    qed
  qed
qed

text \<open>The invariant of a process's descriptors.\<close>

definition vads_ok :: "u64 \<Rightarrow> 'a mm_state_scheme \<Rightarrow> bool" where
  "vads_ok pml4 st \<longleftrightarrow> vads_wf (vad_list pml4 st) \<and>
     (\<forall>v \<in> set (vad_list pml4 st). USER_VAD_BASE \<le> vad_start v \<and> vad_end v \<le> USER_VAD_LIMIT \<and>
        4096 dvd unat (vad_start v) \<and> 4096 dvd unat (vad_end v))"

section \<open>A process with one descriptor\<close>

definition demo_vads :: mm_state where
  "demo_vads = demo_mm\<lparr>vads := [\<lparr>sv_pml4 = 0x1000, sv_vads =
     [\<lparr>vad_start = USER_VAD_BASE, vad_end = 0x700000002000, vad_writable = True, vad_executable = False\<rparr>]\<rparr>]\<rparr>"

lemma demo_vads_simps:
  "current_pml4 demo_vads = 0x1000" "ram demo_vads = demo_ram" "phys_offset demo_vads \<noteq> 0" "registry demo_vads = []" "paged_out demo_vads = []"
  "find_space 0x1000 (vads demo_vads) = Some [\<lparr>vad_start = USER_VAD_BASE, vad_end = 0x700000002000, vad_writable = True, vad_executable = False\<rparr>]"
  "vad_list 0x1000 demo_vads = [\<lparr>vad_start = USER_VAD_BASE, vad_end = 0x700000002000, vad_writable = True, vad_executable = False\<rparr>]"
  "mm_free_page_count demo_vads = 58" "frame_count demo_vads = 64" "frames_used demo_vads = {..<6}" "phys_wf demo_vads" "slots_wf demo_vads"
proof -
  show "frames_used demo_vads = {..<6}" "phys_wf demo_vads"
    using phys_cong [of demo_vads demo_mm] demo_mm_wf by (simp_all add: demo_vads_def)
  show "slots_wf demo_vads" using slots_cong [of demo_vads demo_mm] demo_mm_wf by (simp add: demo_vads_def)
qed (simp_all add: demo_vads_def demo_mm_def current_pml4_def ADDR_MASK_def vad_list_def mm_free_page_count_def frame_count_def)

lemma demo_vads_ok: "vads_ok 0x1000 demo_vads"
  unfolding vads_ok_def demo_vads_simps by (simp add: USER_VAD_BASE_def USER_VAD_LIMIT_def)

section \<open>Properties\<close>

text \<open>
  C23. Reserving address space is exact first fit. A refusal means that no start in the arena has enough room before
  the next descriptor, and changes no list. A success returns the lowest start that fits, page-aligned and inside
  the arena, on which nothing was committed; afterwards exactly the new range has the requested protection, every
  other address has the one it had, and the list is still sorted and disjoint.
\<close>

theorem vad_allocate_correct:
  assumes "vads_ok pml4 st" "pages \<noteq> 0"
  shows "(case vad_allocate pml4 pages w x st of
      (None, st') \<Rightarrow> (\<forall>q. vad_list q st' = vad_list q st) \<and>
        (\<forall>s. unat USER_VAD_BASE \<le> s \<longrightarrow> s + unat pages * 4096 \<le> unat USER_VAD_LIMIT \<longrightarrow> \<not> clear_of (vad_list pml4 st) s (unat pages * 4096))
    | (Some a, st') \<Rightarrow> vads_ok pml4 st' \<and> (\<forall>q. q \<noteq> pml4 \<longrightarrow> vad_list q st' = vad_list q st) \<and>
        USER_VAD_BASE \<le> a \<and> unat a + unat pages * 4096 \<le> unat USER_VAD_LIMIT \<and> 4096 dvd unat a \<and>
        (\<forall>b. prot_at (vad_list pml4 st') b =
          (if a \<le> b \<and> unat b < unat a + unat pages * 4096 then Some (w, x) else prot_at (vad_list pml4 st) b)) \<and>
        (\<forall>b. a \<le> b \<longrightarrow> unat b < unat a + unat pages * 4096 \<longrightarrow> prot_at (vad_list pml4 st) b = None) \<and>
        (\<forall>s. unat USER_VAD_BASE \<le> s \<longrightarrow> clear_of (vad_list pml4 st) s (unat pages * 4096) \<longrightarrow> unat a \<le> s))"
proof -
  let ?vs = "vad_list pml4 st" and ?n = "unat pages * 4096" and ?ss = "space_create pml4 (vads st)"
  from assms(1) have wf: "vads_wf ?vs" by (simp add: vads_ok_def)
  have np: "0 < unat pages" using assms(2) by (simp add: unat_gt_0)
  have lim: "unat USER_VAD_LIMIT < 2 ^ 64" "unat USER_VAD_BASE = 0x700000000000" "unat USER_VAD_LIMIT = 0x7FFF00000000" "4096 dvd unat USER_VAD_BASE"
    by (simp_all add: USER_VAD_LIMIT_def USER_VAD_BASE_def)
  have fs: "find_space pml4 ?ss = Some ?vs" by (simp add: space_list_simps vad_list_def)
  have same: "vad_list q (st\<lparr>vads := ?ss\<rparr>) = vad_list q st" for q
    by (cases "q = pml4") (simp_all add: vad_list_def space_list_simps)
  show ?thesis
  proof (cases "checked_mul pages 0x1000")
    case None
    then have "2 ^ 64 \<le> ?n" by (simp add: checked_mul_def split: if_splits)
    with None lim(1) show ?thesis by (simp add: vad_allocate_def)
  next
    case (Some len)
    then have len: "unat len = ?n" by (simp add: checked_mul_Some)
    have l0: "0 < unat len" "len \<noteq> 0" using np len by (simp, metis mult_pos_pos less_irrefl unsigned_0 zero_less_numeral)
    define c where "c = fit_cursor len USER_VAD_BASE ?vs"
    note fit = fit_cursor_spec [OF wf, where cursor = USER_VAD_BASE and len = len, folded c_def]
    have al: "4096 dvd unat c" using fit(4) assms(1) lim(4) by (auto simp: vads_ok_def)
    show ?thesis
    proof (cases "unat c + ?n \<le> unat USER_VAD_LIMIT")
      case False
      then have "\<not> clear_of ?vs s ?n" if "unat USER_VAD_BASE \<le> s" "s + ?n \<le> unat USER_VAD_LIMIT" for s
        using fit(3) [of s] that len l0 by auto
      moreover have "\<exists>st'. vad_allocate pml4 pages w x st = (None, st') \<and> st' = st\<lparr>vads := ?ss\<rparr>"
      proof (cases "checked_add c len")
        case None
        then show ?thesis using Some l0 fs by (simp add: vad_allocate_def c_def)
      next
        case (Some e)
        then have "unat e = unat c + ?n" using len by (simp add: checked_add_Some)
        then have "USER_VAD_LIMIT < e" using False by (simp add: word_less_nat_alt)
        then show ?thesis using Some \<open>checked_mul pages 0x1000 = Some len\<close> l0 fs by (simp add: vad_allocate_def c_def)
      qed
      ultimately show ?thesis using same by auto
    next
      case True
      define e where "e = c + len"
      have ca: "checked_add c len = Some e" and e: "unat e = unat c + ?n"
        using True lim len by (simp_all add: checked_add_def e_def unat_word_ariths)
      have "\<not> USER_VAD_LIMIT < e" using True e by (simp add: word_less_nat_alt)
      define v where "v = \<lparr>vad_start = c, vad_end = e, vad_writable = w, vad_executable = x\<rparr>"
      have run: "vad_allocate pml4 pages w x st = (Some c, st\<lparr>vads := store_space pml4 (insert_vad v ?vs) ?ss\<rparr>)"
        using Some l0 ca \<open>\<not> USER_VAD_LIMIT < e\<close> fs by (simp add: vad_allocate_def c_def v_def Let_def)
      let ?st = "st\<lparr>vads := store_space pml4 (insert_vad v ?vs) ?ss\<rparr>"
      have vl: "vad_list pml4 ?st = insert_vad v ?vs" by (simp add: vad_list_def space_list_simps(3) [OF fs])
      have oth: "vad_list q ?st = vad_list q st" if "q \<noteq> pml4" for q using that by (simp add: vad_list_def space_list_simps)
      have "vad_start v < vad_end v" "clear_of ?vs (unat (vad_start v)) (unat (vad_end v) - unat (vad_start v))"
        using fit(2) e len np by (simp_all add: v_def word_less_nat_alt)
      note ins = insert_vad_spec [OF wf this]
      have inv: "in_vad v b \<longleftrightarrow> c \<le> b \<and> unat b < unat c + ?n" for b
        by (simp add: in_vad_def v_def word_less_nat_alt e)
      have "4096 dvd unat e" using al e by simp
      then have ok: "vads_ok pml4 ?st"
        using assms(1) ins(1,2) fit(1) al e True unfolding vads_ok_def vl by (auto simp: v_def word_le_nat_alt)
      have free: "prot_at ?vs b = None" if "c \<le> b" "unat b < unat c + ?n" for b
        using fit(2) that len by (fastforce simp: prot_at_None in_vad_def clear_of_def word_le_nat_alt word_less_nat_alt)
      show ?thesis
        using run ok oth fit(1,3) True al free len l0 np by (simp add: vl ins(3) inv) (auto simp: v_def)
    qed
  qed
qed

theorem vad_allocate_witness:
  "vads_ok 0x1000 demo_vads \<and> (case vad_allocate 0x1000 3 False True demo_vads of
     (None, _) \<Rightarrow> False | (Some a, st') \<Rightarrow> a = 0x700000002000 \<and> vads_ok 0x1000 st' \<and> prot_at (vad_list 0x1000 st') 0x700000004FFF = Some (False, True))"
proof -
  have m: "checked_mul (3 :: u64) 0x1000 = Some 0x3000" "checked_add (0x700000002000 :: u64) 0x3000 = Some 0x700000005000"
    by (simp_all add: checked_mul_def checked_add_def)
  have run: "fst (vad_allocate 0x1000 3 False True demo_vads) = Some 0x700000002000"
    using demo_vads_simps(6) by (simp add: vad_allocate_def m space_create_def USER_VAD_BASE_def USER_VAD_LIMIT_def)
  from vad_allocate_correct [OF demo_vads_ok, of 3 False True] run show ?thesis
    by (cases "vad_allocate 0x1000 3 False True demo_vads") (auto simp: demo_vads_ok)
qed



end
