(* ===== verification/Mm_Vad_Pages.thy ===== *)
theory Mm_Vad_Pages
  imports Mm_Vad
begin

text \<open>
  What releasing, protecting and demand-committing ranges do to the resident pages. The range loops of
  \<^verbatim>\<open>kernel/src/mm/vad.rs\<close> apply one page operation to every page of a range; \<open>page_op\<close> is the contract of such an
  operation, met by the unmapping step of \<open>vad_free\<close> and by \<open>mm_protect_user_page\<close>.
\<close>

section \<open>Releasing resident pages\<close>

definition resident :: "ram \<Rightarrow> u64 \<Rightarrow> u64 \<Rightarrow> u64 option" where
  "resident m pml4 va = page_of m pml4 3 va"

lemma resident_leaf:
  "resident m pml4 va = (case leaf_entry m pml4 va of Some e \<Rightarrow> if present e then Some (e AND ADDR_MASK) else None | None \<Rightarrow> None)"
  by (simp add: resident_def page_of_def leaf_entry_def split: option.split)

text \<open>
  The frames behind the pages of an address space: allocated, none of them a table, and no frame behind two pages.
\<close>

definition frames_ok :: "u64 \<Rightarrow> 'a mm_state_scheme \<Rightarrow> bool" where
  "frames_ok P st \<longleftrightarrow> phys_wf st \<and> pt_tree (ram st) P 3 \<and> tables (ram st) P 3 \<subseteq> frames_used st \<and>
     (\<forall>va f. resident (ram st) P va = Some f \<longrightarrow> frame_of f \<in> frames_used st - tables (ram st) P 3) \<and>
     (\<forall>va va' f f'. resident (ram st) P va = Some f \<longrightarrow> resident (ram st) P va' = Some f' \<longrightarrow> frame_of f = frame_of f' \<longrightarrow> same_page 3 va va')"

definition released :: "u64 \<Rightarrow> (u64 \<Rightarrow> bool) \<Rightarrow> 'a mm_state_scheme \<Rightarrow> 'a mm_state_scheme \<Rightarrow> bool" where
  "released P A st st' \<longleftrightarrow> frames_ok P st' \<and>
     (\<forall>va. resident (ram st') P va = (if A va then None else resident (ram st) P va)) \<and>
     frames_used st' = frames_used st - {frame_of f |f. \<exists>va. A va \<and> resident (ram st) P va = Some f} \<and>
     (\<exists>db m. st' = st\<lparr>pfn_db := db, ram := m\<rparr>)"

lemma released_none: "frames_ok P st \<Longrightarrow> \<forall>va. A va \<longrightarrow> resident (ram st) P va = None \<Longrightarrow> released P A st st"
  unfolding released_def by (auto intro!: exI [of _ "pfn_db st"] exI [of _ "ram st"])

lemma released_trans:
  assumes "released P A st s1" "released P B s1 s2"
  shows "released P (\<lambda>va. A va \<or> B va) st s2"
proof -
  have r1: "resident (ram s1) P va = (if A va then None else resident (ram st) P va)"
    and r2: "resident (ram s2) P va = (if B va then None else resident (ram s1) P va)" for va
    using assms by (simp_all add: released_def)
  have "\<exists>db m. s2 = st\<lparr>pfn_db := db, ram := m\<rparr>" by (rule frames_only_trans [of s1]) (use assms in \<open>simp_all add: released_def\<close>)
  moreover have "frames_used s2 = frames_used st - {frame_of f |f. \<exists>va. (A va \<or> B va) \<and> resident (ram st) P va = Some f}"
  proof -
    have "(B va \<and> resident (ram s1) P va = Some f) = (B va \<and> \<not> A va \<and> resident (ram st) P va = Some f)" for va f
      by (simp add: r1)
    then have "frames_used s2 = frames_used st - {frame_of f |f. \<exists>va. A va \<and> resident (ram st) P va = Some f} -
        {frame_of f |f. \<exists>va. B va \<and> \<not> A va \<and> resident (ram st) P va = Some f}"
      using assms by (simp add: released_def)
    then show ?thesis by blast
  qed
  ultimately show ?thesis using assms r1 r2 unfolding released_def by auto
qed

lemma released_cong: "released P A st st' \<Longrightarrow> (\<And>va. A va = B va) \<Longrightarrow> released P B st st'"
  using ext [of A B] by simp

lemma resident_same_page: "same_page 3 va va' \<Longrightarrow> resident m P va = resident m P va'"
  by (simp add: resident_leaf leaf_entry_def leaf_at_same_page)

lemma free_one_spec:
  assumes "phys_wf st" "f \<in> frames_used st"
  shows "\<exists>st'. mm_free_contiguous_pages (from_pfn f) 1 st = Some st' \<and> frames_used st' = frames_used st - {f} \<and>
    phys_wf st' \<and> (\<exists>db. st' = st\<lparr>pfn_db := db\<rparr>)"
proof -
  have "{f..<f + 1} \<subseteq> frames_used st" "(0 :: nat) < 1" using assms(2) by simp_all
  then obtain s where s: "mm_free_contiguous_pages (from_pfn f) 1 st = Some s" "frames_used s = frames_used st - {f..<f + 1}" "phys_wf s"
    using mm_free_spec [OF assms(1)] by metis
  moreover have "{f..<f + 1} = {f}" by auto
  moreover have "\<exists>db. s = st\<lparr>pfn_db := db\<rparr>" by (rule mm_free_only_db [OF s(1)]) blast
  ultimately show ?thesis by auto
qed

lemma unmap_free_spec:
  assumes ok: "frames_ok (current_pml4 st) st"
  shows "\<exists>st'. unmap_free p st = Some st' \<and> released (current_pml4 st) (same_page 3 p) st st'"
proof -
  let ?P = "current_pml4 st" and ?m = "ram st"
  from ok have wf: "phys_wf st" and tree: "pt_tree ?m ?P 3" and tb: "tables ?m ?P 3 \<subseteq> frames_used st" by (simp_all add: frames_ok_def)
  then have off: "phys_offset st \<noteq> 0" by (simp add: phys_wf_def)
  show ?thesis
  proof (cases "resident ?m ?P p")
    case None
    then have "unmap_free p st = Some st"
      by (auto simp: unmap_free_def mm_unmap_user_page_def mm_unmap_user_page_in_spec [OF off] resident_leaf leaf_entry_def
        split: option.splits if_splits)
    moreover have "released ?P (same_page 3 p) st st"
      using ok None resident_same_page by (intro released_none) (metis, metis)
    ultimately show ?thesis by blast
  next
    case (Some f)
    then obtain t i where l: "leaf_at ?m ?P 3 p = Some (t, i)" and e: "present (ent ?m t i)" "f = ent ?m t i AND ADDR_MASK"
      by (auto simp: resident_leaf leaf_entry_def split: option.splits if_splits)
    let ?s1 = "st\<lparr>ram := set_ent ?m t i 0\<rparr>"
    note lw = leaf_write [OF tree l refl, of 0] and le = leaf_entry_write [OF tree l, of 0]
    have fu: "frame_of f \<in> frames_used st - tables ?m ?P 3" using ok Some by (simp add: frames_ok_def)
    have c1: "phys_wf ?s1" "frames_used ?s1 = frames_used st" using phys_cong [of ?s1 st] wf by simp_all
    from free_one_spec [OF c1(1), of "frame_of f"] fu c1(2) obtain s2 db where s2: "mm_free_contiguous_pages (from_pfn (frame_of f)) 1 ?s1 = Some s2"
      "frames_used s2 = frames_used st - {frame_of f}" "phys_wf s2" and db: "s2 = ?s1\<lparr>pfn_db := db\<rparr>" by auto
    have s2ram: "ram s2 = set_ent ?m t i 0" by (simp add: db)
    from db have only: "\<exists>db m. s2 = st\<lparr>pfn_db := db, ram := m\<rparr>"
      by (intro exI [of _ db] exI [of _ "set_ent ?m t i 0"]) simp
    have "mm_free_contiguous_pages (unat f) 1 ?s1 = Some s2"
      using s2(1) mm_free_pfn [of "unat f" 1 ?s1] by (simp add: frame_of_def)
    then have run: "unmap_free p st = Some s2"
      using l e by (simp add: unmap_free_def mm_unmap_user_page_def mm_unmap_user_page_in_spec [OF off])
    have res: "resident (ram s2) ?P va = (if same_page 3 p va then None else resident ?m ?P va)" for va
      by (simp add: s2ram resident_leaf le)
    have eqf: "frame_of g = frame_of f \<longleftrightarrow> same_page 3 p va" if "resident ?m ?P va = Some g" for va g
    proof
      show "same_page 3 p va" if "frame_of g = frame_of f"
        using ok Some \<open>resident ?m ?P va = Some g\<close> that same_page_sym unfolding frames_ok_def by metis
      show "frame_of g = frame_of f" if "same_page 3 p va"
        using resident_same_page [OF that, of ?m ?P] Some \<open>resident ?m ?P va = Some g\<close> by simp
    qed
    have "{frame_of g |g. \<exists>va. same_page 3 p va \<and> resident ?m ?P va = Some g} = {frame_of f}"
      using eqf Some resident_same_page by fastforce
    moreover have "tables (ram s2) ?P 3 = tables ?m ?P 3" "pt_tree (ram s2) ?P 3" using lw by (simp_all add: s2ram)
    then have "frames_ok ?P s2"
      using ok fu tb s2(2,3) eqf unfolding frames_ok_def res by (auto split: if_splits)
    ultimately have "released ?P (same_page 3 p) st s2" using res s2(2) only unfolding released_def by simp
    with run show ?thesis by blast
  qed
qed

lemma same_page_aligned:
  assumes "4096 dvd unat lo" "lo \<le> p" "unat p < unat lo + 4096"
  shows "same_page 3 lo p"
proof -
  obtain k where k: "unat lo = 4096 * k" using assms(1) by (auto simp: dvd_def)
  have "unat p div 4096 = k" using assms k by (intro div_nat_eqI) (simp_all add: word_le_nat_alt)
  then have "unat (p AND NOT 0xFFF) = unat lo" by (simp only: unat_page k mult.commute)
  then have lo: "lo = p AND NOT 0xFFF" by (simp only: word_unat_eq_iff)
  have m: "(0xFFF :: u64) = mask 12" by (simp add: mask_eq_exp_minus_1)
  show ?thesis unfolding same_page_iff lo m by (auto simp: bit_and_iff bit_not_iff bit_mask_iff)
qed

lemma same_page_trans: "same_page n a b \<Longrightarrow> same_page n b c \<Longrightarrow> same_page n a c"
  by (induction n) auto

lemma range_first_page:
  assumes al: "4096 dvd unat lo" and u: "unat (lo + 0x1000) = unat lo + 4096" and lt: "lo < hi"
  shows "(same_page 3 lo va \<or> (\<exists>p. lo + 0x1000 \<le> p \<and> p < hi \<and> same_page 3 p va)) \<longleftrightarrow>
    (\<exists>p. lo \<le> p \<and> p < hi \<and> same_page 3 p va)" (is "?L = ?R")
proof
  have le: "lo \<le> lo + 0x1000" using u by (simp add: word_le_nat_alt)
  show ?R if ?L using that
  proof
    show ?R if "same_page 3 lo va" using that lt by blast
    show ?R if "\<exists>p. lo + 0x1000 \<le> p \<and> p < hi \<and> same_page 3 p va" using that le by (blast intro: order_trans)
  qed
  assume ?R
  then obtain p where p: "lo \<le> p" "p < hi" "same_page 3 p va" by blast
  show ?L
  proof (cases "p < lo + 0x1000")
    case True
    with p u have "same_page 3 lo p" by (intro same_page_aligned [OF al]) (simp_all add: word_less_nat_alt)
    with p(3) show ?thesis using same_page_trans by blast
  next
    case False
    with p show ?thesis by auto
  qed
qed

text \<open>
  The contract of an operation on one page that the range loops apply to every page of a range: it succeeds on
  states that are \<open>ok\<close>, and \<open>rel\<close> relates the states before and after it by the set of addresses it affected.
\<close>

locale page_op =
  fixes f :: "u64 \<Rightarrow> 's \<Rightarrow> 's option" and ok :: "'s \<Rightarrow> bool" and rel :: "(u64 \<Rightarrow> bool) \<Rightarrow> 's \<Rightarrow> 's \<Rightarrow> bool"
  assumes step: "ok st \<Longrightarrow> \<exists>st'. f p st = Some st' \<and> rel (same_page 3 p) st st'"
    and rel_ok: "rel A st st' \<Longrightarrow> ok st'"
    and rel_none: "ok st \<Longrightarrow> \<forall>va. \<not> A va \<Longrightarrow> rel A st st"
    and rel_trans: "rel A s1 s2 \<Longrightarrow> rel B s2 s3 \<Longrightarrow> rel (\<lambda>va. A va \<or> B va) s1 s3"
begin

lemma over_range:
  assumes "ok st" "4096 dvd unat lo" "unat hi \<le> 2 ^ 64 - 4096"
  shows "\<exists>st'. page_loop f lo hi st = Some st' \<and> rel (\<lambda>va. \<exists>p. lo \<le> p \<and> p < hi \<and> same_page 3 p va) st st'"
  using assms
proof (induction "unat hi - unat lo" arbitrary: lo st rule: less_induct)
  case less
  show ?case
  proof (cases "lo < hi")
    case False
    then have "page_loop f lo hi st = Some st" by (subst page_loop.simps) simp
    moreover have "rel (\<lambda>va. \<exists>p. lo \<le> p \<and> p < hi \<and> same_page 3 p va) st st"
      using less.prems(1) False by (intro rel_none) auto
    ultimately show ?thesis by blast
  next
    case True
    from step [OF less.prems(1), of lo] obtain s1 where s1: "f lo st = Some s1" "rel (same_page 3 lo) st s1" by blast
    from True less.prems(3) have "unat lo < 2 ^ 64 - 4096" by (simp add: word_less_nat_alt)
    then have ca: "checked_add lo 0x1000 = Some (lo + 0x1000)" and u: "unat (lo + 0x1000) = unat lo + 4096"
      by (simp_all add: checked_add_def unat_word_ariths)
    have lt: "unat hi - unat (lo + 0x1000) < unat hi - unat lo" using True u by (simp add: word_less_nat_alt)
    have al: "4096 dvd unat (lo + 0x1000)" using less.prems(2) u by simp
    from less.hyps [OF lt rel_ok [OF s1(2)] al less.prems(3)] obtain s2 where s2: "page_loop f (lo + 0x1000) hi s1 = Some s2"
      "rel (\<lambda>va. \<exists>p. lo + 0x1000 \<le> p \<and> p < hi \<and> same_page 3 p va) s1 s2" by blast
    have "page_loop f lo hi st = Some s2"
      using True s1(1) ca s2(1) by (subst page_loop.simps) simp
    moreover have "(\<lambda>va. same_page 3 lo va \<or> (\<exists>p. lo + 0x1000 \<le> p \<and> p < hi \<and> same_page 3 p va)) =
        (\<lambda>va. \<exists>p. lo \<le> p \<and> p < hi \<and> same_page 3 p va)"
      by (rule ext) (rule range_first_page [OF less.prems(2) u True])
    ultimately show ?thesis using rel_trans [OF s1(2) s2(2)] by auto
  qed
qed

end

interpretation releasing: page_op unmap_free "\<lambda>st. frames_ok (current_pml4 st) st" "\<lambda>A st. released (current_pml4 st) A st"
proof unfold_locales
  fix st :: "'a mm_state_scheme" and p
  show "\<exists>st'. unmap_free p st = Some st' \<and> released (current_pml4 st) (same_page 3 p) st st'"
    if "frames_ok (current_pml4 st) st" using unmap_free_spec [OF that] .
next
  fix A and st st' :: "'a mm_state_scheme"
  assume r: "released (current_pml4 st) A st st'"
  then have "current_pml4 st' = current_pml4 st" by (auto simp: released_def current_pml4_def)
  with r show "frames_ok (current_pml4 st') st'" by (simp add: released_def)
next
  fix A and st :: "'a mm_state_scheme"
  show "released (current_pml4 st) A st st" if "frames_ok (current_pml4 st) st" "\<forall>va. \<not> A va"
    using that by (intro released_none) simp_all
next
  fix A B and s1 s2 s3 :: "'a mm_state_scheme"
  assume r: "released (current_pml4 s1) A s1 s2" "released (current_pml4 s2) B s2 s3"
  then have "current_pml4 s2 = current_pml4 s1" by (auto simp: released_def current_pml4_def)
  with r show "released (current_pml4 s1) (\<lambda>va. A va \<or> B va) s1 s3" using released_trans by fastforce
qed

definition aligned_below :: "vad \<Rightarrow> bool" where
  "aligned_below v \<longleftrightarrow> 4096 dvd unat (vad_start v) \<and> 4096 dvd unat (vad_end v) \<and> unat (vad_end v) \<le> 2 ^ 64 - 4096"

definition within :: "vad list \<Rightarrow> vad list \<Rightarrow> bool" where
  "within vs' vs \<longleftrightarrow> (\<forall>u \<in> set vs'. \<exists>v \<in> set vs. vad_start v \<le> vad_start u \<and> vad_end u \<le> vad_end v)"

lemma within_starts: "within vs' vs \<Longrightarrow> \<forall>v \<in> set vs. e \<le> vad_start v \<Longrightarrow> \<forall>u \<in> set vs'. e \<le> vad_start u"
  unfolding within_def by (meson order_trans)

text \<open>The addresses whose page meets a descriptor inside a range.\<close>

definition touched :: "u64 \<Rightarrow> u64 \<Rightarrow> vad list \<Rightarrow> u64 \<Rightarrow> bool" where
  "touched base end' vs va \<longleftrightarrow> (\<exists>p. base \<le> p \<and> p < end' \<and> prot_at vs p \<noteq> None \<and> same_page 3 p va)"

lemma touched_skip: "vad_end v \<le> base \<Longrightarrow> touched base end' (v # vs) = touched base end' vs"
  by (auto simp: touched_def in_vad_def fun_eq_iff)

lemma touched_cut:
  "(\<lambda>va. (\<exists>p. max (vad_start v) base \<le> p \<and> p < min (vad_end v) end' \<and> same_page 3 p va) \<or> touched base end' vs va) =
   touched base end' (v # vs)" (is "?L = ?R")
proof
  fix va
  have inv: "in_vad v p \<longleftrightarrow> max (vad_start v) base \<le> p \<and> p < min (vad_end v) end'" if "base \<le> p" "p < end'" for p
    using that by (auto simp: in_vad_def)
  have "(\<exists>p. max (vad_start v) base \<le> p \<and> p < min (vad_end v) end' \<and> same_page 3 p va) =
      (\<exists>p. base \<le> p \<and> p < end' \<and> in_vad v p \<and> same_page 3 p va)"
    using inv by (metis max.boundedE min.strict_boundedE)
  then show "?L va = ?R va" unfolding touched_def by (auto split: if_splits)
qed

lemma pieces_within:
  assumes "\<And>u. u \<in> set pieces \<Longrightarrow> vad_start v \<le> vad_start u \<and> vad_end u \<le> vad_end v \<and> aligned_below u"
    and "within vs' vs" "\<forall>v \<in> set vs'. aligned_below v"
  shows "within (pieces @ vs') (v # vs)" "\<forall>u \<in> set (pieces @ vs'). aligned_below u"
proof -
  show "within (pieces @ vs') (v # vs)" using assms(1,2) unfolding within_def set_append by (metis UnE list.set_intros)
  show "\<forall>u \<in> set (pieces @ vs'). aligned_below u" using assms(1,3) unfolding set_append by blast
qed

lemma prot_before:
  assumes "\<forall>u \<in> set vs. vad_end v \<le> vad_start u" "a < vad_end v"
  shows "prot_at vs a = None"
  using assms by (fastforce simp: prot_at_None in_vad_def)

text \<open>Cutting a range out of one descriptor.\<close>

lemma cut_vad:
  fixes v :: vad and base end' :: u64 and pieces :: "vad list"
  assumes v: "vad_start v < vad_end v" "base < vad_end v" "vad_start v < end'" "base \<le> end'"
    and vs': "vads_wf vs'" "\<forall>u \<in> set vs'. vad_end v \<le> vad_start u"
    and p: "\<And>a. prot_at vs' a = (if base \<le> a \<and> a < end' then None else prot_at vs a)"
    and vs: "\<forall>u \<in> set vs. vad_end v \<le> vad_start u"
  defines "pieces \<equiv> (if vad_start v < max (vad_start v) base then [v\<lparr>vad_end := max (vad_start v) base\<rparr>] else []) @
    (if min (vad_end v) end' < vad_end v then [v\<lparr>vad_start := min (vad_end v) end'\<rparr>] else [])"
  shows "vads_wf (pieces @ vs')" "prot_at (pieces @ vs') a = (if base \<le> a \<and> a < end' then None else prot_at (v # vs) a)"
    "u \<in> set pieces \<Longrightarrow> vad_start v \<le> vad_start u \<and> vad_end u \<le> vad_end v \<and>
      (vad_start u = vad_start v \<or> vad_start u = end') \<and> (vad_end u = vad_end v \<or> vad_end u = base)"
proof -
  show "vads_wf (pieces @ vs')"
    using v vs' unfolding pieces_def by (auto simp: max_def min_def)
  have "prot_at vs b = None" if "b < vad_end v" for b
    using vs that by (fastforce simp: prot_at_None in_vad_def)
  then show "prot_at (pieces @ vs') a = (if base \<le> a \<and> a < end' then None else prot_at (v # vs) a)"
    using v unfolding pieces_def by (auto simp: p in_vad_def max_def min_def)
  show "u \<in> set pieces \<Longrightarrow> vad_start v \<le> vad_start u \<and> vad_end u \<le> vad_end v \<and>
      (vad_start u = vad_start v \<or> vad_start u = end') \<and> (vad_end u = vad_end v \<or> vad_end u = base)"
    using v unfolding pieces_def by (auto simp: max_def min_def split: if_splits)
qed

lemma vad_free_loop_spec:
  assumes "vads_wf vs" "base \<le> end'" "4096 dvd unat base" "4096 dvd unat end'" "\<forall>v \<in> set vs. aligned_below v" "frames_ok (current_pml4 st) st"
  shows "\<exists>vs' st'. vad_free_loop base end' vs st = Some (vs', st') \<and> vads_wf vs' \<and> within vs' vs \<and> (\<forall>v \<in> set vs'. aligned_below v) \<and>
    (\<forall>a. prot_at vs' a = (if base \<le> a \<and> a < end' then None else prot_at vs a)) \<and>
    released (current_pml4 st) (touched base end' vs) st st'"
  using assms
proof (induction vs arbitrary: st)
  case Nil
  then show ?case by (auto simp: within_def touched_def intro!: released_none)
next
  case (Cons v vs)
  let ?P = "current_pml4 st"
  from Cons.prems have v: "vad_start v < vad_end v" "\<forall>u \<in> set vs. vad_end v \<le> vad_start u" "vads_wf vs" "\<forall>v \<in> set vs. aligned_below v" by auto
  note before = prot_before [OF v(2)]
  note IH = Cons.IH [OF v(3) Cons.prems(2,3,4) v(4)]
  consider (skip) "vad_end v \<le> base" | (stop) "base < vad_end v" "end' \<le> vad_start v" | (cut) "base < vad_end v" "vad_start v < end'" by fastforce
  then show ?case
  proof cases
    case skip
    from IH [OF Cons.prems(6)] obtain vs' s where s: "vad_free_loop base end' vs st = Some (vs', s)" "vads_wf vs'" "within vs' vs" "\<forall>v \<in> set vs'. aligned_below v"
      "\<forall>a. prot_at vs' a = (if base \<le> a \<and> a < end' then None else prot_at vs a)" "released ?P (touched base end' vs) st s" by blast
    note A = touched_skip [OF skip, of end' vs]
    have "\<forall>a. prot_at (v # vs') a = (if base \<le> a \<and> a < end' then None else prot_at (v # vs) a)"
      using s(5) skip by (auto simp: in_vad_def)
    moreover have "vads_wf (v # vs')" using v(1) s(2) within_starts [OF s(3) v(2)] by simp
    moreover have "within (v # vs') (v # vs)" using s(3) by (auto simp: within_def)
    ultimately show ?thesis
      using s(1,4) skip Cons.prems(5) s(6) A by (simp del: prot_at_simps)
  next
    case stop
    have "prot_at (v # vs) a = None" if "a < end'" for a using that stop before [of a] v(1) by (auto simp: in_vad_def)
    then show ?thesis
      using stop Cons.prems by (auto simp: within_def touched_def simp del: prot_at_simps intro!: released_none)
  next
    case cut
    let ?lo = "max (vad_start v) base" and ?hi = "min (vad_end v) end'"
    have al: "4096 dvd unat ?lo" "unat ?hi \<le> 2 ^ 64 - 4096"
      using Cons.prems(3,5) by (auto simp: aligned_below_def max_def min_def word_le_nat_alt)
    from releasing.over_range [OF Cons.prems(6) al] obtain s1 where s1: "page_loop unmap_free ?lo ?hi st = Some s1"
      "released ?P (\<lambda>va. \<exists>p. ?lo \<le> p \<and> p < ?hi \<and> same_page 3 p va) st s1" by blast
    have P1: "current_pml4 s1 = ?P" using s1(2) by (auto simp: released_def current_pml4_def)
    have "frames_ok (current_pml4 s1) s1" using s1(2) by (simp add: released_def P1)
    from IH [OF this] obtain vs' s2 where s2: "vad_free_loop base end' vs s1 = Some (vs', s2)" "vads_wf vs'" "within vs' vs" "\<forall>v \<in> set vs'. aligned_below v"
      "\<forall>a. prot_at vs' a = (if base \<le> a \<and> a < end' then None else prot_at vs a)" "released ?P (touched base end' vs) s1 s2"
      unfolding P1 by blast
    note c = cut_vad [OF v(1) cut Cons.prems(2) s2(2) within_starts [OF s2(3) v(2)], of vs] 
    let ?pieces = "(if vad_start v < ?lo then [v\<lparr>vad_end := ?lo\<rparr>] else []) @ (if ?hi < vad_end v then [v\<lparr>vad_start := ?hi\<rparr>] else [])"
    have wf: "vads_wf (?pieces @ vs')" and pr: "\<forall>a. prot_at (?pieces @ vs') a = (if base \<le> a \<and> a < end' then None else prot_at (v # vs) a)"
      using c(1,2) s2(5) v(2) by blast+
    have pc: "vad_start v \<le> vad_start u \<and> vad_end u \<le> vad_end v \<and> aligned_below u" if "u \<in> set ?pieces" for u
      using c(3) [of u] that s2(5) v(2) Cons.prems(3,4,5) by (auto simp: aligned_below_def word_le_nat_alt)
    note wi = pieces_within [OF pc s2(3,4)]
    have "released ?P (touched base end' (v # vs)) st s2" using released_trans [OF s1(2) s2(6)] unfolding touched_cut .
    moreover have "vad_free_loop base end' (v # vs) st = Some (?pieces @ vs', s2)"
      using cut [unfolded not_le [symmetric]] s1(1) s2(1) by (simp add: Let_def)
    ultimately show ?thesis using wf pr wi by blast
  qed
qed

lemma drop_records_spec:
  assumes "slots_wf st" "\<forall>r \<in> set rs. snd (snd r) < slot_count st"
  shows "\<exists>st'. drop_records Q rs st = Some (filter (\<lambda>r. \<not> Q r) rs, st') \<and> slots_wf st' \<and>
    slots_used st' = slots_used st - (\<lambda>r. snd (snd r)) ` {r \<in> set rs. Q r} \<and> (\<exists>mp h. st' = st\<lparr>slot_map := mp, slot_hint := h\<rparr>)"
  using assms
proof (induction rs arbitrary: st)
  case Nil
  then show ?case by (auto intro!: exI [of _ "slot_map st"] exI [of _ "slot_hint st"])
next
  case (Cons r rs)
  show ?case
  proof (cases "Q r")
    case False
    have "\<forall>r \<in> set rs. snd (snd r) < slot_count st" using Cons.prems(2) by simp
    from Cons.IH [OF Cons.prems(1) this] obtain s2 where s2: "drop_records Q rs st = Some (filter (\<lambda>r. \<not> Q r) rs, s2)" "slots_wf s2"
      "slots_used s2 = slots_used st - (\<lambda>r. snd (snd r)) ` {r \<in> set rs. Q r}" "\<exists>mp h. s2 = st\<lparr>slot_map := mp, slot_hint := h\<rparr>" by blast
    moreover have "{q \<in> set (r # rs). Q q} = {r \<in> set rs. Q r}" using False by auto
    ultimately show ?thesis using False by simp
  next
    case True
    have s: "snd (snd r) < slot_count st" using Cons.prems(2) by simp
    obtain s1 where s1: "slot_free (snd (snd r)) st = Some s1" "slots_used s1 = slots_used st - {snd (snd r)}" "slots_wf s1"
      "\<exists>mp h. s1 = st\<lparr>slot_map := mp, slot_hint := h\<rparr>" by (rule slot_free_spec [OF Cons.prems(1) s])
    then obtain mp h where e1: "s1 = st\<lparr>slot_map := mp, slot_hint := h\<rparr>" by blast
    then have "slot_count s1 = slot_count st" by (simp add: slot_count_def)
    with Cons.IH [OF s1(3)] Cons.prems(2) obtain s2 mp' h' where s2: "drop_records Q rs s1 = Some (filter (\<lambda>r. \<not> Q r) rs, s2)" "slots_wf s2"
      "slots_used s2 = slots_used s1 - (\<lambda>r. snd (snd r)) ` {r \<in> set rs. Q r}" "s2 = s1\<lparr>slot_map := mp', slot_hint := h'\<rparr>" by auto
    have "s2 = st\<lparr>slot_map := mp', slot_hint := h'\<rparr>" using s2(4) by (simp add: e1)
    then have "\<exists>mp h. s2 = st\<lparr>slot_map := mp, slot_hint := h\<rparr>" by blast
    moreover have "slots_used s2 = slots_used st - (\<lambda>r. snd (snd r)) ` {q \<in> set (r # rs). Q q}"
    proof -
      have "{q \<in> set (r # rs). Q q} = insert r {r \<in> set rs. Q r}" using True by auto
      then show ?thesis using s2(3) s1(2) by auto
    qed
    ultimately show ?thesis using True s1(1) s2(1,2) by simp
  qed
qed

lemma frames_ok_cong:
  assumes "pfn_db st' = pfn_db st" "phys_offset st' = phys_offset st" "ram st' = ram st"
  shows "frames_ok P st' = frames_ok P st"
  using phys_cong [OF assms(1,2)] assms(3) by (simp add: frames_ok_def)

lemma vads_ok_within:
  assumes "vads_ok P st" "vad_list P st' = vs'" "vads_wf vs'" "within vs' (vad_list P st)" "\<forall>v \<in> set vs'. aligned_below v"
  shows "vads_ok P st'"
  unfolding vads_ok_def assms(2)
proof (intro conjI ballI)
  fix u assume u: "u \<in> set vs'"
  then obtain v where v: "v \<in> set (vad_list P st)" "vad_start v \<le> vad_start u" "vad_end u \<le> vad_end v"
    using assms(4) by (auto simp: within_def)
  with assms(1) show "USER_VAD_BASE \<le> vad_start u" "vad_end u \<le> USER_VAD_LIMIT" unfolding vads_ok_def by (meson order_trans)+
  from u assms(5) show "4096 dvd unat (vad_start u)" "4096 dvd unat (vad_end u)" by (simp_all add: aligned_below_def)
qed (rule assms(3))


section \<open>Changing protection\<close>

definition set_prot :: "bool \<Rightarrow> bool \<Rightarrow> u64 \<Rightarrow> u64" where
  "set_prot w x e = (e AND NOT ENTRY_RW AND NOT ENTRY_NX) OR (if w then ENTRY_RW else 0) OR (if x then 0 else ENTRY_NX)"

lemma set_prot_facts [simp]:
  "set_prot w x (set_prot w x e) = set_prot w x e" "set_prot w x e AND ADDR_MASK = e AND ADDR_MASK"
  "set_prot w x e AND ENTRY_PRESENT = e AND ENTRY_PRESENT"
  by (rule bit_word_eqI; auto simp: set_prot_def bit_or_iff bit_and_iff bit_not_iff bit_ENTRY ADDR_MASK_bits)+

definition reprotected :: "bool \<Rightarrow> bool \<Rightarrow> u64 \<Rightarrow> (u64 \<Rightarrow> bool) \<Rightarrow> 'a mm_state_scheme \<Rightarrow> 'a mm_state_scheme \<Rightarrow> bool" where
  "reprotected w x P A st st' \<longleftrightarrow>
     phys_offset st' \<noteq> 0 \<and> pt_tree (ram st') P 3 \<and> (\<exists>m. st' = st\<lparr>ram := m\<rparr>) \<and>
     (\<forall>va. walk (ram st') P 3 va = walk (ram st) P 3 va) \<and>
     (\<forall>va. leaf_entry (ram st') P va =
        map_option (\<lambda>e. if A va \<and> present e then set_prot w x e else e) (leaf_entry (ram st) P va))"

lemma reprotected_none:
  assumes "phys_offset st \<noteq> 0" "pt_tree (ram st) P 3" "\<forall>va. A va \<longrightarrow> (\<forall>e. leaf_entry (ram st) P va = Some e \<longrightarrow> \<not> present e)"
  shows "reprotected w x P A st st"
proof -
  have "\<exists>m. st = st\<lparr>ram := m\<rparr>" by (rule exI [of _ "ram st"]) simp
  moreover have "leaf_entry (ram st) P va = map_option (\<lambda>e. if A va \<and> present e then set_prot w x e else e) (leaf_entry (ram st) P va)" for va
    using assms(3) by (cases "leaf_entry (ram st) P va") auto
  ultimately show ?thesis using assms(1,2) unfolding reprotected_def by blast
qed

lemma reprotected_trans:
  assumes "reprotected w x P A s1 s2" "reprotected w x P B s2 s3"
  shows "reprotected w x P (\<lambda>va. A va \<or> B va) s1 s3"
proof -
  from assms obtain m m' where m: "s2 = s1\<lparr>ram := m\<rparr>" "s3 = s2\<lparr>ram := m'\<rparr>" by (auto simp: reprotected_def)
  then have "s3 = s1\<lparr>ram := m'\<rparr>" by simp
  then have "\<exists>m. s3 = s1\<lparr>ram := m\<rparr>" by blast
  moreover have "leaf_entry (ram s3) P va =
      map_option (\<lambda>e. if (A va \<or> B va) \<and> present e then set_prot w x e else e) (leaf_entry (ram s1) P va)" for va
    using assms by (cases "leaf_entry (ram s1) P va") (auto simp: reprotected_def)
  ultimately show ?thesis using assms unfolding reprotected_def by simp
qed

lemma protect_page_spec:
  assumes "phys_offset st \<noteq> 0" "pt_tree (ram st) (current_pml4 st) 3"
  shows "\<exists>st'. mm_protect_user_page p w x st = Some st' \<and> reprotected w x (current_pml4 st) (same_page 3 p) st st'"
proof -
  let ?P = "current_pml4 st" and ?m = "ram st"
  show ?thesis
  proof (cases "\<exists>e. leaf_entry ?m ?P p = Some e \<and> present e")
    case False
    have "mm_protect_user_page p w x st = Some st"
      using False assms(1) by (auto simp: mm_protect_user_page_def leaf_pte_def leaf_pte_in_leaf_at leaf_entry_def entry_online split: option.splits)
    moreover have "reprotected w x ?P (same_page 3 p) st st"
    proof (rule reprotected_none [OF assms])
      have "leaf_entry ?m ?P va = leaf_entry ?m ?P p" if "same_page 3 p va" for va
        using leaf_at_same_page [OF that, of ?m ?P] by (simp add: leaf_entry_def)
      with False show "\<forall>va. same_page 3 p va \<longrightarrow> (\<forall>e. leaf_entry ?m ?P va = Some e \<longrightarrow> \<not> present e)" by metis
    qed
    ultimately show ?thesis by blast
  next
    case True
    then obtain t i where l: "leaf_at ?m ?P 3 p = Some (t, i)" and e: "present (ent ?m t i)" by (auto simp: leaf_entry_def)
    let ?e = "set_prot w x (ent ?m t i)" and ?s = "st\<lparr>ram := set_ent ?m t i (set_prot w x (ent ?m t i))\<rparr>"
    note lw = leaf_write [OF assms(2) l refl, of ?e] and le = leaf_entry_write [OF assms(2) l, of ?e]
    have run: "mm_protect_user_page p w x st = Some ?s"
      using assms(1) l e by (simp add: mm_protect_user_page_def leaf_pte_def leaf_pte_in_leaf_at entry_online write_entry_online set_prot_def)
    have same: "leaf_entry ?m ?P va = Some (ent ?m t i)" "leaf_at ?m ?P 3 va = Some (t, i)" if "same_page 3 p va" for va
      using leaf_at_same_page [OF that, of ?m ?P, symmetric] l by (simp_all add: leaf_entry_def)
    have w: "walk (ram ?s) ?P 3 va = walk ?m ?P 3 va" for va
      using lw leaf_walk [OF same(2), of va] e by (simp add: leaf_value_def)
    have lf: "leaf_entry (ram ?s) ?P va = map_option (\<lambda>e. if same_page 3 p va \<and> present e then set_prot w x e else e) (leaf_entry ?m ?P va)" for va
      using le [of va] same(1) [of va] e by (cases "leaf_entry ?m ?P va") auto
    have "reprotected w x ?P (same_page 3 p) st ?s"
      using assms(1) lw w lf unfolding reprotected_def by auto
    with run show ?thesis by blast
  qed
qed

interpretation protecting: page_op "\<lambda>p. mm_protect_user_page p w x" "\<lambda>st. phys_offset st \<noteq> 0 \<and> pt_tree (ram st) (current_pml4 st) 3"
  "\<lambda>A st. reprotected w x (current_pml4 st) A st" for w x
proof unfold_locales
  fix st :: "'a mm_state_scheme" and p
  show "\<exists>st'. mm_protect_user_page p w x st = Some st' \<and> reprotected w x (current_pml4 st) (same_page 3 p) st st'"
    if "phys_offset st \<noteq> 0 \<and> pt_tree (ram st) (current_pml4 st) 3" using protect_page_spec that by blast
next
  fix A and st st' :: "'a mm_state_scheme"
  assume r: "reprotected w x (current_pml4 st) A st st'"
  then have "current_pml4 st' = current_pml4 st" by (auto simp: reprotected_def current_pml4_def)
  with r show "phys_offset st' \<noteq> 0 \<and> pt_tree (ram st') (current_pml4 st') 3" by (simp add: reprotected_def)
next
  fix A and st :: "'a mm_state_scheme"
  show "reprotected w x (current_pml4 st) A st st" if "phys_offset st \<noteq> 0 \<and> pt_tree (ram st) (current_pml4 st) 3" "\<forall>va. \<not> A va"
    using that by (intro reprotected_none) simp_all
next
  fix A B and s1 s2 s3 :: "'a mm_state_scheme"
  assume r: "reprotected w x (current_pml4 s1) A s1 s2" "reprotected w x (current_pml4 s2) B s2 s3"
  then have "current_pml4 s2 = current_pml4 s1" by (auto simp: reprotected_def current_pml4_def)
  with r show "reprotected w x (current_pml4 s1) (\<lambda>va. A va \<or> B va) s1 s3" using reprotected_trans by fastforce
qed

definition reprot :: "u64 \<Rightarrow> u64 \<Rightarrow> bool \<Rightarrow> bool \<Rightarrow> vad list \<Rightarrow> u64 \<Rightarrow> (bool \<times> bool) option" where
  "reprot base end' w x vs a = (if base \<le> a \<and> a < end' then map_option (\<lambda>_. (w, x)) (prot_at vs a) else prot_at vs a)"

lemma protect_vad:
  fixes v :: vad and base end' :: u64 and pieces :: "vad list"
  assumes v: "vad_start v < vad_end v" "base < vad_end v" "vad_start v < end'" "base < end'"
    and vs: "\<forall>u \<in> set vs. vad_end v \<le> vad_start u"
    and vs': "vads_wf vs'" "\<forall>u \<in> set vs'. vad_end v \<le> vad_start u" "\<And>a. prot_at vs' a = reprot base end' w x vs a"
  defines "pieces \<equiv> (if vad_start v < max (vad_start v) base then [v\<lparr>vad_end := max (vad_start v) base\<rparr>] else []) @
    [v\<lparr>vad_start := max (vad_start v) base, vad_end := min (vad_end v) end', vad_writable := w, vad_executable := x\<rparr>] @
    (if min (vad_end v) end' < vad_end v then [v\<lparr>vad_start := min (vad_end v) end'\<rparr>] else [])"
  shows "vads_wf (pieces @ vs')" "prot_at (pieces @ vs') a = reprot base end' w x (v # vs) a"
    "u \<in> set pieces \<Longrightarrow> vad_start v \<le> vad_start u \<and> vad_end u \<le> vad_end v \<and>
      vad_start u \<in> {vad_start v, base, end'} \<and> vad_end u \<in> {vad_end v, base, end'}"
proof -
  show "vads_wf (pieces @ vs')"
    using v vs' unfolding pieces_def by (auto simp: max_def min_def)
  have "prot_at vs b = None" if "b < vad_end v" for b
    using vs that by (fastforce simp: prot_at_None in_vad_def)
  then show "prot_at (pieces @ vs') a = reprot base end' w x (v # vs) a"
    using v unfolding pieces_def by (auto simp: vs'(3) reprot_def in_vad_def max_def min_def)
  show "u \<in> set pieces \<Longrightarrow> vad_start v \<le> vad_start u \<and> vad_end u \<le> vad_end v \<and>
      vad_start u \<in> {vad_start v, base, end'} \<and> vad_end u \<in> {vad_end v, base, end'}"
    using v unfolding pieces_def by (auto simp: max_def min_def split: if_splits)
qed

lemma vad_protect_loop_spec:
  assumes "vads_wf vs" "base < end'" "4096 dvd unat base" "4096 dvd unat end'" "\<forall>v \<in> set vs. aligned_below v"
    "phys_offset st \<noteq> 0" "pt_tree (ram st) (current_pml4 st) 3"
  shows "\<exists>vs' st'. vad_protect_loop base end' w x vs st = Some (vs', st') \<and> vads_wf vs' \<and> within vs' vs \<and> (\<forall>v \<in> set vs'. aligned_below v) \<and>
    (\<forall>a. prot_at vs' a = reprot base end' w x vs a) \<and>
    reprotected w x (current_pml4 st) (touched base end' vs) st st'"
  using assms
proof (induction vs arbitrary: st)
  case Nil
  then show ?case by (auto simp: within_def reprot_def touched_def intro!: reprotected_none)
next
  case (Cons v vs)
  let ?P = "current_pml4 st"
  from Cons.prems have v: "vad_start v < vad_end v" "\<forall>u \<in> set vs. vad_end v \<le> vad_start u" "vads_wf vs" "\<forall>v \<in> set vs. aligned_below v" by auto
  note before = prot_before [OF v(2)]
  note IH = Cons.IH [OF v(3) Cons.prems(2,3,4) v(4)]
  consider (skip) "vad_end v \<le> base" | (stop) "base < vad_end v" "end' \<le> vad_start v" | (cut) "base < vad_end v" "vad_start v < end'" by fastforce
  then show ?case
  proof cases
    case skip
    from IH [OF Cons.prems(6,7)] obtain vs' s where s: "vad_protect_loop base end' w x vs st = Some (vs', s)" "vads_wf vs'" "within vs' vs" "\<forall>v \<in> set vs'. aligned_below v"
      "\<forall>a. prot_at vs' a = reprot base end' w x vs a" "reprotected w x ?P (touched base end' vs) st s" by blast
    note A = touched_skip [OF skip, of end' vs]
    have "\<forall>a. prot_at (v # vs') a = reprot base end' w x (v # vs) a"
      using s(5) skip by (auto simp: in_vad_def reprot_def)
    moreover have "vads_wf (v # vs')" using v(1) s(2) within_starts [OF s(3) v(2)] by simp
    moreover have "within (v # vs') (v # vs)" using s(3) by (auto simp: within_def)
    ultimately show ?thesis
      using s(1,4,6) skip Cons.prems(5) unfolding A by (simp del: prot_at_simps)
  next
    case stop
    have n: "prot_at (v # vs) a = None" if "a < end'" for a using that stop before [of a] v(1) by (auto simp: in_vad_def)
    have "reprotected w x ?P (touched base end' (v # vs)) st st" using Cons.prems(6,7) n by (intro reprotected_none) (auto simp: touched_def simp del: prot_at_simps)
    then show ?thesis
      using stop Cons.prems n by (auto simp: within_def reprot_def simp del: prot_at_simps)
  next
    case cut
    let ?lo = "max (vad_start v) base" and ?hi = "min (vad_end v) end'"
    let ?head = "if vad_start v < ?lo then [v\<lparr>vad_end := ?lo\<rparr>] else []"
    let ?mid = "v\<lparr>vad_start := ?lo, vad_end := ?hi, vad_writable := w, vad_executable := x\<rparr>"
    let ?pieces = "?head @ [?mid] @ (if ?hi < vad_end v then [v\<lparr>vad_start := ?hi\<rparr>] else [])"
    have al: "4096 dvd unat ?lo" "unat ?hi \<le> 2 ^ 64 - 4096"
      using Cons.prems(3,5) by (auto simp: aligned_below_def max_def min_def word_le_nat_alt)
    from protecting.over_range [of st, OF _ al, of w x] Cons.prems(6,7) obtain s1 where s1: "page_loop (\<lambda>p. mm_protect_user_page p w x) ?lo ?hi st = Some s1"
      "reprotected w x ?P (\<lambda>va. \<exists>p. ?lo \<le> p \<and> p < ?hi \<and> same_page 3 p va) st s1" by blast
    have P1: "current_pml4 s1 = ?P" using s1(2) by (auto simp: reprotected_def current_pml4_def)
    have "phys_offset s1 \<noteq> 0" "pt_tree (ram s1) (current_pml4 s1) 3" using s1(2) by (simp_all add: reprotected_def P1)
    note IH1 = IH [OF this, unfolded P1]
    have "\<exists>vs' s2. vad_protect_loop base end' w x (v # vs) st = Some (?pieces @ vs', s2) \<and> vads_wf vs' \<and> within vs' vs \<and>
      (\<forall>v \<in> set vs'. aligned_below v) \<and> (\<forall>a. prot_at vs' a = reprot base end' w x vs a) \<and> reprotected w x ?P (touched base end' vs) s1 s2"
    proof (cases "?hi < vad_end v")
      case True
      then have "end' < vad_end v" by (simp add: min_less_iff_disj)
      then have none: "prot_at vs a = None" if "a < end'" for a using before [of a] that by simp
      have "reprotected w x ?P (touched base end' vs) s1 s1"
        using s1(2) none by (intro reprotected_none) (auto simp: reprotected_def touched_def)
      moreover have "\<forall>a. prot_at vs a = reprot base end' w x vs a" using none by (auto simp: reprot_def)
      moreover have "vad_protect_loop base end' w x (v # vs) st = Some (?pieces @ vs, s1)"
        using cut [unfolded not_le [symmetric]] s1(1) True by (simp add: Let_def)
      moreover have "within vs vs" by (auto simp: within_def)
      ultimately show ?thesis using v(3,4) by blast
    next
      case False
      from IH1 obtain vs' s2 where s2: "vad_protect_loop base end' w x vs s1 = Some (vs', s2)" "vads_wf vs'" "within vs' vs" "\<forall>v \<in> set vs'. aligned_below v"
        "\<forall>a. prot_at vs' a = reprot base end' w x vs a" "reprotected w x ?P (touched base end' vs) s1 s2" by blast
      moreover have "vad_protect_loop base end' w x (v # vs) st = Some (?pieces @ vs', s2)"
        using cut [unfolded not_le [symmetric]] s1(1) s2(1) False by (simp add: Let_def)
      ultimately show ?thesis by blast
    qed
    then obtain vs' s2 where s2: "vad_protect_loop base end' w x (v # vs) st = Some (?pieces @ vs', s2)" "vads_wf vs'" "within vs' vs"
      "\<forall>v \<in> set vs'. aligned_below v" "\<forall>a. prot_at vs' a = reprot base end' w x vs a" "reprotected w x ?P (touched base end' vs) s1 s2" by blast
    note c = protect_vad [OF v(1) cut Cons.prems(2) v(2) s2(2) within_starts [OF s2(3) v(2)], of w x]
    have wf: "vads_wf (?pieces @ vs')" and pr: "\<forall>a. prot_at (?pieces @ vs') a = reprot base end' w x (v # vs) a"
      using c(1,2) s2(5) by blast+
    have pc: "vad_start v \<le> vad_start u \<and> vad_end u \<le> vad_end v \<and> aligned_below u" if "u \<in> set ?pieces" for u
      using c(3) [of u] that s2(5) Cons.prems(3,4,5) by (auto simp: aligned_below_def word_le_nat_alt)
    note wi = pieces_within [OF pc s2(3,4)]
    have "reprotected w x ?P (touched base end' (v # vs)) st s2" using reprotected_trans [OF s1(2) s2(6)] unfolding touched_cut .
    with s2(1) wf pr wi show ?thesis by blast
  qed
qed

section \<open>The fault path\<close>

lemma same_page_common: "same_page n p a \<Longrightarrow> same_page n p b \<Longrightarrow> same_page n a b"
  by (induction n) auto

lemma take_record_none: "(\<forall>s. (c, va, s) \<notin> set rs) \<Longrightarrow> take_record c va rs = None"
  by (induction rs) auto

lemma find_prot:
  "prot_at vs a = None \<longleftrightarrow> List.find (\<lambda>v. vad_start v \<le> a \<and> a < vad_end v) vs = None"
  "prot_at vs a = Some (w, x) \<Longrightarrow> \<exists>v. List.find (\<lambda>v. vad_start v \<le> a \<and> a < vad_end v) vs = Some v \<and> vad_writable v = w \<and> vad_executable v = x"
  by (auto simp: prot_at_def in_vad_def)

lemma debug_pte_resident:
  assumes "phys_offset st \<noteq> 0"
  shows "\<exists>e. mm_debug_pte st page = Some e \<and> (e = None \<longleftrightarrow> resident (ram st) (current_pml4 st) page = None)"
  using assms by (auto simp: mm_debug_pte_def leaf_pte_def leaf_pte_in_leaf_at entry_online resident_def page_of_def split: option.splits)

definition demand_zeroed :: "u64 \<Rightarrow> u64 \<Rightarrow> bool \<Rightarrow> bool \<Rightarrow> nat \<Rightarrow> 'a mm_state_scheme \<Rightarrow> 'a mm_state_scheme \<Rightarrow> bool" where
  "demand_zeroed P page w x i st st' \<longleftrightarrow>
     i \<notin> frames_used st \<and> frames_ok P st' \<and> frames_used st \<subseteq> frames_used st' \<and> (\<forall>j. ram st' i j = 0) \<and>
     (\<forall>va. walk (ram st') P 3 va = (if same_page 3 page va then Some (phys_word (from_pfn i) OR (va AND 0xFFF)) else walk (ram st) P 3 va)) \<and>
     leaf_entry (ram st') P page = Some (phys_word (from_pfn i) OR ENTRY_PRESENT OR ENTRY_USER OR (if w then ENTRY_RW else 0) OR (if x then 0 else ENTRY_NX)) \<and>
     (\<forall>q \<in> frames_used st - tables (ram st) P 3. ram st' q = ram st q) \<and>
     vads st' = vads st \<and> paged_out st' = paged_out st \<and> registry st' = registry st @ [(P, page)]"

lemma demand_zero_spec:
  assumes ok: "frames_ok P st" "frame_count st \<le> 2 ^ 40" and path: "no_large_path (ram st) P 3 page"
    and room: "4 \<le> mm_free_page_count st" "length (registry st) < REG_CAP"
  shows "\<exists>i s1 s2 st'. mm_allocate_page st = Some (Some (from_pfn i), s1) \<and>
    mm_map_user_range P page (phys_word (from_pfn i)) 1 w x s1 = Some s2 \<and> register_page P page s2 = Some st' \<and>
    demand_zeroed P page w x i st st'"
proof -
  from ok(1) have wf: "phys_wf st" and tree: "pt_tree (ram st) P 3" and tb: "tables (ram st) P 3 \<subseteq> frames_used st" by (simp_all add: frames_ok_def)
  have "0 < mm_free_page_count st" using room by simp
  then obtain i s1 where i: "mm_allocate_page st = Some (Some (from_pfn i), s1)" "i < frame_count st" "i \<notin> frames_used st"
    "frames_used s1 = insert i (frames_used st)" "frame_count s1 = frame_count st" "phys_wf s1"
    "ram s1 = (ram st)(i := (\<lambda>_. 0))" "mm_free_page_count s1 + 1 = mm_free_page_count st"
    "\<exists>db m. s1 = st\<lparr>pfn_db := db, ram := m\<rparr>" by (rule mm_allocate_page_free [OF wf])
  have "i < 2 ^ 40" using i(2) ok(2) by simp
  note pw = phys_word_frame [OF this]
  let ?pa = "phys_word (from_pfn i)"
  have keept: "\<forall>q \<in> tables (ram st) P 3. ram s1 q = ram st q" using tb i(3,7) by auto
  have tr: "pt_tree (ram s1) P 3" "tables (ram s1) P 3 = tables (ram st) P 3" "no_large_path (ram s1) P 3 page"
    using pt_tree_frame [OF keept] tables_frame [OF keept] no_large_frame [OF keept] tree path by simp_all
  have pre: "frame_count s1 \<le> 2 ^ 40" "tables (ram s1) P 3 \<subseteq> frames_used s1" "3 \<le> mm_free_page_count s1"
    using i ok(2) tr(2) tb room by auto
  define e where "e = (?pa AND ADDR_MASK) OR ENTRY_PRESENT OR ENTRY_USER OR (if w then ENTRY_RW else 0) OR (if x then 0 else ENTRY_NX)"
  from map_walk_spec [OF i(6) pre(1) tr(1) pre(2) tr(3) pre(3), of e]
  obtain s2 where s2: "map_user_page P page ?pa w x s1 = Some s2" "mapped_as 3 P page e s1 s2"
    by (auto simp: map_user_page_walk e_def)
  note M = s2(2) [unfolded mapped_as_def]
  note S = M [THEN conjunct1, unfolded updated_def]
  have "\<exists>db m. s2 = st\<lparr>pfn_db := db, ram := m\<rparr>" by (rule frames_only_trans [OF i(9)]) (use S in blast)
  then obtain db m where s2e: "s2 = st\<lparr>pfn_db := db, ram := m\<rparr>" by blast
  let ?st = "s2\<lparr>registry := registry s2 @ [(P, page)]\<rparr>"
  have reg: "register_page P page s2 = Some ?st" using room(2) by (simp add: register_page_def s2e)
  have pe: "present e" "e AND ADDR_MASK = ?pa" using leaf_flags_bits [of ?pa w x, folded e_def] pw(1) by simp_all
  have used: "frames_used ?st = frames_used s2" "phys_wf ?st" using phys_cong [of ?st s2] S by simp_all
  have itab: "i \<in> frames_used s1 - tables (ram s1) P 3" "i \<notin> tables (ram s2) P 3"
    using i(3,4) tb tr(2) S by auto
  have zero: "\<forall>j. ram ?st i j = 0"
  proof -
    have "ram s2 i = ram s1 i" using S itab(1) by blast
    then show ?thesis using i(7) by simp
  qed
  have wk: "\<forall>va. walk (ram ?st) P 3 va = (if same_page 3 page va then Some (?pa OR (va AND 0xFFF)) else walk (ram st) P 3 va)"
    using S walk_frame [OF keept] pe unfolding offset_masks by (simp add: leaf_value_def)
  have pg: "resident (ram ?st) P va = (if same_page 3 page va then Some ?pa else resident (ram st) P va)" for va
    using M page_of_frame [OF keept] pe by (simp add: resident_def)
  have lf: "leaf_entry (ram ?st) P page = Some e" using M by (auto simp: leaf_entry_def)
  have keep: "\<forall>q \<in> frames_used st - tables (ram st) P 3. ram ?st q = ram st q"
  proof
    fix q assume q: "q \<in> frames_used st - tables (ram st) P 3"
    then have "q \<in> frames_used s1 - tables (ram s1) P 3" using i(4) tr(2) by simp
    then have "ram s2 q = ram s1 q" using S by blast
    moreover have "q \<noteq> i" using q i(3) by auto
    ultimately show "ram ?st q = ram st q" using i(7) by simp
  qed
  have old: "frame_of f \<in> frames_used st - tables (ram st) P 3" "frame_of f \<noteq> i" if "resident (ram st) P va = Some f" for va f
    using ok(1) that i(3) by (auto simp: frames_ok_def)
  have sub: "frames_used st \<subseteq> frames_used s2" "tables (ram s2) P 3 \<subseteq> tables (ram st) P 3 \<union> (frames_used s2 - frames_used s1)" "i \<in> frames_used s2"
    using S i(4) tr(2) by auto
  have "frames_ok P ?st"
    unfolding frames_ok_def
  proof (intro conjI allI impI)
    show "phys_wf ?st" by (rule used(2))
    show "pt_tree (ram ?st) P 3" "tables (ram ?st) P 3 \<subseteq> frames_used ?st" using S used by simp_all
    show "frame_of f \<in> frames_used ?st - tables (ram ?st) P 3" if "resident (ram ?st) P va = Some f" for va f
      using that old [of va f] sub itab i(4) pw(2) unfolding pg used by (auto split: if_splits)
    show "same_page 3 va va'" if "resident (ram ?st) P va = Some f" "resident (ram ?st) P va' = Some f'" "frame_of f = frame_of f'" for va va' f f'
      using that old [of va f] old [of va' f'] ok(1) pw(2) unfolding pg frames_ok_def by (auto split: if_splits intro: same_page_common)
  qed
  then have "demand_zeroed P page w x i st ?st"
    unfolding demand_zeroed_def using i(3) sub(1) used zero wk lf keep pw(1) by (simp add: e_def s2e)
  with i(1) s2(1) reg show ?thesis using map_range_one by metis
qed



lemma demo_resident_pages: "resident demo_ram 0x1000 va = (if same_page 3 0 va then Some 0x5000 else None)"
proof -
  have e: "ent demo_ram 0x4000 i = (if i = 0 then 0x5007 else 0)" for i
    by (simp add: ent_def demo_frames) (simp add: demo_ram_def)
  have p: "present 0x5007" "(0x5007 :: u64) AND ADDR_MASK = 0x5000" by code_simp+
  have z: "pt_index 0 s = 0" for s by (simp add: pt_index_def)
  have "leaf_at demo_ram 0x1000 3 va = (if pt_index va 39 = 0 \<and> pt_index va 30 = 0 \<and> pt_index va 21 = 0 then Some (0x4000, pt_index va 12) else None)"
    by (simp add: numeral_3_eq_3 demo_children Let_def)
  moreover have "same_page 3 0 va \<longleftrightarrow> pt_index va 39 = 0 \<and> pt_index va 30 = 0 \<and> pt_index va 21 = 0 \<and> pt_index va 12 = 0"
    by (auto simp: numeral_3_eq_3 z)
  ultimately show ?thesis by (simp add: resident_def page_of_def e p)
qed

lemma demo_frames_ok: "frames_ok 0x1000 demo_vads"
  unfolding frames_ok_def demo_vads_simps demo_resident_pages
  by (auto simp: demo_vads_simps demo_tree demo_path demo_frames intro: same_page_common)


section \<open>Properties\<close>

text \<open>
  C12. Releasing a page-aligned range of the running process never panics and is exact: the addresses of the range are
  no longer committed and every other address keeps its protection; the resident pages of the range's descriptors
  are unmapped and their frames, and only those, freed; the pagefile records of the range are dropped; and the
  invariants of the descriptors, the frames and the slots are kept.
\<close>

theorem vad_free_correct:
  assumes ok: "frames_ok (current_pml4 st) st" "vads_ok (current_pml4 st) st" "find_space (current_pml4 st) (vads st) \<noteq> None"
    and slots: "slots_wf st" "\<forall>r \<in> set (paged_out st). snd (snd r) < slot_count st"
    and arg: "4096 dvd unat base" "4096 dvd unat len" "unat base + unat len < 2 ^ 64"
  shows "\<exists>st'. vad_free (current_pml4 st) base len st = Some (Inr (), st') \<and>
    frames_ok (current_pml4 st) st' \<and> vads_ok (current_pml4 st) st' \<and> slots_wf st' \<and>
    (\<forall>a. prot_at (vad_list (current_pml4 st) st') a =
      (if base \<le> a \<and> a < base + len then None else prot_at (vad_list (current_pml4 st) st) a)) \<and>
    (\<forall>q. q \<noteq> current_pml4 st \<longrightarrow> vad_list q st' = vad_list q st) \<and>
    (\<forall>va. resident (ram st') (current_pml4 st) va =
      (if touched base (base + len) (vad_list (current_pml4 st) st) va then None else resident (ram st) (current_pml4 st) va)) \<and>
    frames_used st' = frames_used st - {frame_of f |f. \<exists>va. touched base (base + len) (vad_list (current_pml4 st) st) va \<and>
      resident (ram st) (current_pml4 st) va = Some f} \<and>
    paged_out st' = filter (\<lambda>(c, va, s). \<not> (c = current_pml4 st \<and> base \<le> va \<and> va < base + len)) (paged_out st)"
proof -
  let ?P = "current_pml4 st" and ?e = "base + len"
  have ca: "checked_add base len = Some ?e" and e: "unat ?e = unat base + unat len"
    using arg(3) by (simp_all add: checked_add_def unat_word_ariths)
  have le: "base \<le> ?e" using e by (simp add: word_le_nat_alt)
  have sat: "saturating_add base len = ?e" using ca by (simp add: saturating_add_def)
  let ?Q = "\<lambda>(c, va, s :: nat). c = ?P \<and> base \<le> va \<and> va < ?e"
  from drop_records_spec [OF slots, of ?Q] obtain s0 mp h where s0: "drop_records ?Q (paged_out st) st = Some (filter (\<lambda>r. \<not> ?Q r) (paged_out st), s0)"
    "slots_wf s0" "s0 = st\<lparr>slot_map := mp, slot_hint := h\<rparr>" by blast
  define s1 where "s1 = s0\<lparr>paged_out := filter (\<lambda>r. \<not> ?Q r) (paged_out st)\<rparr>"
  have dr: "drop_range ?P base len st = Some s1" using s0(1) by (simp add: drop_range_def sat s1_def)
  have c1: "current_pml4 s1 = ?P" "vads s1 = vads st" "ram s1 = ram st" "frames_ok ?P s1" "frames_used s1 = frames_used st" "slots_wf s1"
    using ok(1) frames_ok_cong [of s1 st] phys_cong [of s1 st] s0(2) slots_cong [of s1 s0] by (simp_all add: s1_def s0(3) current_pml4_def)
  obtain vs where vs: "find_space ?P (vads st) = Some vs" using ok(3) by blast
  then have vl: "vad_list ?P st = vs" by (simp add: vad_list_def)
  have wf: "vads_wf vs" "\<forall>v \<in> set vs. USER_VAD_BASE \<le> vad_start v \<and> vad_end v \<le> USER_VAD_LIMIT" "\<forall>v \<in> set vs. aligned_below v"
    using ok(2) vl by (auto simp: vads_ok_def aligned_below_def word_le_nat_alt USER_VAD_LIMIT_def)
  have al: "4096 dvd unat ?e" using arg e by simp
  from vad_free_loop_spec [OF wf(1) le arg(1) al wf(3), of s1] c1(1,4) obtain vs' s2 where
    lp: "vad_free_loop base ?e vs s1 = Some (vs', s2)" "vads_wf vs'" "within vs' vs" "\<forall>v \<in> set vs'. aligned_below v"
      "\<forall>a. prot_at vs' a = (if base \<le> a \<and> a < ?e then None else prot_at vs a)"
      "released ?P (touched base ?e vs) s1 s2" by auto
  obtain db m where s2: "s2 = s1\<lparr>pfn_db := db, ram := m\<rparr>" using lp(6) by (auto simp: released_def)
  let ?st = "s2\<lparr>vads := store_space ?P vs' (vads s2)\<rparr>"
  have run: "vad_free ?P base len st = Some (Inr (), ?st)" using ca dr vs lp(1) c1(2) by (simp add: vad_free_def)
  have vl': "vad_list ?P ?st = vs'" "\<forall>q. q \<noteq> ?P \<longrightarrow> vad_list q ?st = vad_list q st"
    using vs c1(2) by (simp_all add: s2 vad_list_def space_list_simps)
  have vok: "vads_ok ?P ?st"
    by (rule vads_ok_within [OF ok(2) _ lp(2) _ lp(4)]) (simp_all add: vl vl' lp(3))
  have fok: "frames_ok ?P ?st" using lp(6) frames_ok_cong [of ?st s2] by (simp add: released_def)
  have sw: "slots_wf ?st" using c1(6) slots_cong [of ?st s1] by (simp add: s2)
  have rst: "ram ?st = ram s2" "frames_used ?st = frames_used s2" using phys_cong [of ?st s2] by simp_all
  have res: "\<forall>va. resident (ram ?st) ?P va = (if touched base ?e vs va then None else resident (ram st) ?P va)"
    using lp(6) unfolding released_def c1(3) rst by blast
  have fr: "frames_used ?st = frames_used st - {frame_of f |f. \<exists>va. touched base ?e vs va \<and> resident (ram st) ?P va = Some f}"
    using lp(6) unfolding released_def c1(3) c1(5) rst by blast
  have po: "paged_out ?st = filter (\<lambda>(c, va, s). \<not> (c = ?P \<and> base \<le> va \<and> va < ?e)) (paged_out st)"
    by (simp add: s2 s1_def case_prod_unfold)
  show ?thesis
    by (rule exI [of _ ?st]) (intro conjI; (unfold vl vl'(1))?; (rule run fok vok sw lp(5) vl'(2) res fr po))
qed

theorem vad_free_witness:
  "frames_ok 0x1000 demo_vads \<and> vads_ok 0x1000 demo_vads \<and> (\<exists>st'. vad_free 0x1000 0x700000001000 0x1000 demo_vads = Some (Inr (), st') \<and>
     prot_at (vad_list 0x1000 st') 0x700000001000 = None \<and> prot_at (vad_list 0x1000 st') 0x700000000FFF = Some (True, False))"
proof -
  have "prot_at (vad_list 0x1000 demo_vads) 0x700000000FFF = Some (True, False)"
    by (simp add: demo_vads_simps in_vad_def USER_VAD_BASE_def)
  with vad_free_correct [of demo_vads "0x700000001000" "0x1000"] show ?thesis
    by (auto simp: demo_vads_simps demo_frames_ok demo_vads_ok)
qed

text \<open>
  C24. Changing the protection of a page-aligned range never panics. If nothing in the range is committed it is refused
  and changes nothing. Otherwise the committed addresses of the range, and only those, get the new protection; no
  translation changes; and the leaf entries of the resident pages concerned get exactly the new write and
  no-execute bits, at once.
\<close>

theorem vad_protect_correct:
  assumes ok: "phys_offset st \<noteq> 0" "pt_tree (ram st) (current_pml4 st) 3" "vads_ok (current_pml4 st) st"
    and arg: "4096 dvd unat base" "4096 dvd unat len" "unat base + unat len < 2 ^ 64" "len \<noteq> 0"
  shows "\<exists>r st'. vad_protect (current_pml4 st) base len w x st = Some (r, st') \<and>
    (if \<exists>a. base \<le> a \<and> a < base + len \<and> prot_at (vad_list (current_pml4 st) st) a \<noteq> None
     then r = Inr () \<and> vads_ok (current_pml4 st) st' \<and> pt_tree (ram st') (current_pml4 st) 3 \<and>
       (\<forall>a. prot_at (vad_list (current_pml4 st) st') a = reprot base (base + len) w x (vad_list (current_pml4 st) st) a) \<and>
       (\<forall>va. walk (ram st') (current_pml4 st) 3 va = walk (ram st) (current_pml4 st) 3 va) \<and>
       (\<forall>va. leaf_entry (ram st') (current_pml4 st) va = map_option (\<lambda>e.
          if touched base (base + len) (vad_list (current_pml4 st) st) va \<and> present e then set_prot w x e else e)
          (leaf_entry (ram st) (current_pml4 st) va))
     else r = Inl STATUS_INVALID_PARAMETER \<and> st' = st)"
proof -
  let ?P = "current_pml4 st" and ?e = "base + len"
  have ca: "checked_add base len = Some ?e" and e: "unat ?e = unat base + unat len"
    using arg(3) by (simp_all add: checked_add_def unat_word_ariths)
  have "0 < unat len" using arg(4) by (simp add: unat_gt_0)
  then have lt: "base < ?e" using e by (simp add: word_less_nat_alt)
  show ?thesis
  proof (cases "find_space ?P (vads st)")
    case None
    then show ?thesis using ca lt by (simp add: vad_protect_def vad_list_def leD)
  next
    case (Some vs)
    then have vl: "vad_list ?P st = vs" by (simp add: vad_list_def)
    have wf: "vads_wf vs" "\<forall>v \<in> set vs. USER_VAD_BASE \<le> vad_start v \<and> vad_end v \<le> USER_VAD_LIMIT" "\<forall>v \<in> set vs. aligned_below v"
      using ok(3) vl by (auto simp: vads_ok_def aligned_below_def word_le_nat_alt USER_VAD_LIMIT_def)
    have al: "4096 dvd unat ?e" using arg e by simp
    have some: "(\<exists>v \<in> set vs. vad_start v < ?e \<and> base < vad_end v) \<longleftrightarrow> (\<exists>a. base \<le> a \<and> a < ?e \<and> prot_at vs a \<noteq> None)" (is "?L = ?R")
    proof
      assume ?L
      then obtain v where v: "v \<in> set vs" "vad_start v < ?e" "base < vad_end v" by blast
      have "in_vad v (max base (vad_start v))" using v vads_wf_nonempty [OF wf(1) v(1)] by (simp add: in_vad_def)
      then have "prot_at vs (max base (vad_start v)) \<noteq> None" using v(1) prot_at_None by blast
      moreover have "base \<le> max base (vad_start v)" "max base (vad_start v) < ?e" using v(2) lt by simp_all
      ultimately show ?R by blast
    next
      assume ?R
      then obtain a v where "base \<le> a" "a < ?e" "v \<in> set vs" "in_vad v a" using prot_at_None by metis
      then show ?L by (auto simp: in_vad_def intro!: bexI [of _ v])
    qed
    show ?thesis
    proof (cases "\<exists>v \<in> set vs. vad_start v < ?e \<and> base < vad_end v")
      case False
      then have run: "vad_protect ?P base len w x st = Some (Inl STATUS_INVALID_PARAMETER, st)"
        using ca lt [unfolded not_le [symmetric]] Some by (auto simp: vad_protect_def)
      have "\<not> (\<exists>a. base \<le> a \<and> a < ?e \<and> prot_at vs a \<noteq> None)" using some False by blast
      then show ?thesis unfolding vl using run by simp
    next
      case True
      from vad_protect_loop_spec [OF wf(1) lt arg(1) al wf(3) ok(1,2)] obtain vs' s2 where
        lp: "vad_protect_loop base ?e w x vs st = Some (vs', s2)" "vads_wf vs'" "within vs' vs" "\<forall>v \<in> set vs'. aligned_below v"
          "\<forall>a. prot_at vs' a = reprot base ?e w x vs a" "reprotected w x ?P (touched base ?e vs) st s2" by blast
      let ?st = "s2\<lparr>vads := store_space ?P vs' (vads s2)\<rparr>"
      have run: "vad_protect ?P base len w x st = Some (Inr (), ?st)" using ca lt [unfolded not_le [symmetric]] Some True lp(1) by (auto simp: vad_protect_def)
      obtain m where s2: "s2 = st\<lparr>ram := m\<rparr>" using lp(6) by (auto simp: reprotected_def)
      have vl': "vad_list ?P ?st = vs'" using Some by (simp add: s2 vad_list_def space_list_simps)
      have vok: "vads_ok ?P ?st"
        by (rule vads_ok_within [OF ok(3) _ lp(2) _ lp(4)]) (simp_all add: vl vl' lp(3))
      have st: "ram ?st = ram s2" by simp
      have "pt_tree (ram ?st) ?P 3" "\<forall>va. walk (ram ?st) ?P 3 va = walk (ram st) ?P 3 va"
        "\<forall>va. leaf_entry (ram ?st) ?P va = map_option (\<lambda>e. if touched base ?e vs va \<and> present e then set_prot w x e else e) (leaf_entry (ram st) ?P va)"
        using lp(6) unfolding reprotected_def st by blast+
      note eff = this
      have c: "\<exists>a. base \<le> a \<and> a < ?e \<and> prot_at vs a \<noteq> None" using some True by blast
      show ?thesis unfolding vl if_P [OF c]
        by (rule exI [of _ "Inr ()"], rule exI [of _ ?st]) (intro conjI; (unfold vl')?; (rule run refl vok lp(5) eff))
    qed
  qed
qed

theorem vad_protect_witness:
  "vads_ok 0x1000 demo_vads \<and> (\<exists>st'. vad_protect 0x1000 0x700000001000 0x1000 False True demo_vads = Some (Inr (), st') \<and>
     prot_at (vad_list 0x1000 st') 0x700000001000 = Some (False, True) \<and> prot_at (vad_list 0x1000 st') 0x700000000FFF = Some (True, False))"
proof -
  have p: "prot_at (vad_list 0x1000 demo_vads) 0x700000000FFF = Some (True, False)" "prot_at (vad_list 0x1000 demo_vads) 0x700000001000 = Some (True, False)"
    by (simp_all add: demo_vads_simps in_vad_def USER_VAD_BASE_def)
  then have "\<exists>a :: u64. 0x700000001000 \<le> a \<and> a < 0x700000001000 + 0x1000 \<and> prot_at (vad_list (current_pml4 demo_vads) demo_vads) a \<noteq> None"
    by (intro exI [of _ "0x700000001000"]) (simp add: demo_vads_simps(1))
  with vad_protect_correct [of demo_vads "0x700000001000" "0x1000" False True] p show ?thesis
    by (auto simp: demo_vads_simps(1-3) demo_tree demo_vads_ok reprot_def)
qed



end
