(* ===== verification/Crt_String.thy ===== *)
theory Crt_String
  imports Nk_Prelude "HOL-Library.Sublist"
begin

text \<open>
  Memory and string routines of the C runtime (\<^verbatim>\<open>msvcrt/src/lib.rs\<close>). User memory is a function from
  addresses to units, bytes for the narrow routines and UTF-16 units for the wide ones; a pointer is an address in
  units, 0 is null. A loop that runs to a terminator has no bound of its own and is a partial function, whose
  result on terminated strings is proved; the loops with a count are recursions on it. An \<open>i32\<close> difference of two units
  is an integer, which never leaves the range.
\<close>

type_synonym 'c mem = "nat \<Rightarrow> 'c"

section \<open>Memory blocks\<close>

fun copy_up :: "nat \<Rightarrow> nat \<Rightarrow> nat \<Rightarrow> nat \<Rightarrow> 'c mem \<Rightarrow> 'c mem" where
  "copy_up dst src i 0 m = m"
| "copy_up dst src i (Suc k) m = copy_up dst src (Suc i) k (m(dst + i := m (src + i)))"

fun copy_down :: "nat \<Rightarrow> nat \<Rightarrow> nat \<Rightarrow> 'c mem \<Rightarrow> 'c mem" where
  "copy_down dst src 0 m = m"
| "copy_down dst src (Suc k) m = copy_down dst src k (m(dst + k := m (src + k)))"

definition memcpy :: "nat \<Rightarrow> nat \<Rightarrow> nat \<Rightarrow> u8 mem \<Rightarrow> nat \<times> u8 mem" where
  "memcpy dst src n m = (dst, copy_up dst src 0 n m)"

fun fill_up :: "nat \<Rightarrow> 'c \<Rightarrow> nat \<Rightarrow> nat \<Rightarrow> 'c mem \<Rightarrow> 'c mem" where
  "fill_up dst b i 0 m = m"
| "fill_up dst b i (Suc k) m = fill_up dst b (Suc i) k (m(dst + i := b))"

definition memset :: "nat \<Rightarrow> u32 \<Rightarrow> nat \<Rightarrow> u8 mem \<Rightarrow> nat \<times> u8 mem" where
  "memset dst c n m = (dst, fill_up dst (ucast c) 0 n m)"

definition memmove :: "nat \<Rightarrow> nat \<Rightarrow> nat \<Rightarrow> u8 mem \<Rightarrow> nat \<times> u8 mem" where
  "memmove dst src n m = (dst, if dst < src then copy_up dst src 0 n m else copy_down dst src n m)"

fun memcmp_loop :: "(u8 \<Rightarrow> u8) \<Rightarrow> u8 mem \<Rightarrow> nat \<Rightarrow> nat \<Rightarrow> nat \<Rightarrow> nat \<Rightarrow> int" where
  "memcmp_loop f m a b i 0 = 0"
| "memcmp_loop f m a b i (Suc k) =
     (if f (m (a + i)) \<noteq> f (m (b + i)) then uint (f (m (a + i))) - uint (f (m (b + i)))
      else memcmp_loop f m a b (Suc i) k)"

definition memcmp :: "u8 mem \<Rightarrow> nat \<Rightarrow> nat \<Rightarrow> nat \<Rightarrow> int" where
  "memcmp m a b n = memcmp_loop (\<lambda>c. c) m a b 0 n"

text \<open>ASCII lower case of a unit of any width.\<close>

definition lower :: "'c::len word \<Rightarrow> 'c word" where
  "lower c = (if 0x41 \<le> c \<and> c \<le> 0x5A then c + 32 else c)"

definition memicmp :: "u8 mem \<Rightarrow> nat \<Rightarrow> nat \<Rightarrow> nat \<Rightarrow> int" where
  "memicmp m a b n = memcmp_loop lower m a b 0 n"

section \<open>Lengths and comparisons\<close>

partial_function (option) nul_scan :: "('c::len word) mem \<Rightarrow> nat \<Rightarrow> nat \<Rightarrow> nat option" where
  "nul_scan m s n = (if m (s + n) \<noteq> 0 then nul_scan m s (n + 1) else Some n)"

definition wcslen :: "u16 mem \<Rightarrow> nat \<Rightarrow> nat option" where
  "wcslen m s = nul_scan m s 0"

definition strlen :: "u8 mem \<Rightarrow> nat \<Rightarrow> nat option" where
  "strlen m s = (if s = 0 then Some 0 else nul_scan m s 0)"

text \<open>The loop that the comparison routines share: an optional limit, a fold of each unit, and a stop at the first difference.\<close>

partial_function (option) cmp_units :: "('c::len word \<Rightarrow> 'c word) \<Rightarrow> nat option \<Rightarrow> 'c word mem \<Rightarrow> nat \<Rightarrow> nat \<Rightarrow> nat \<Rightarrow> int option" where
  "cmp_units f limit m a b i =
     (if (case limit of Some n \<Rightarrow> n \<le> i | None \<Rightarrow> False) then Some 0
      else let ca = f (m (a + i)); cb = f (m (b + i)) in
        if ca \<noteq> cb then Some (uint ca - uint cb)
        else if ca = 0 then Some 0
        else cmp_units f limit m a b (i + 1))"

definition fold_case :: "bool \<Rightarrow> 'c::len word \<Rightarrow> 'c word" where
  "fold_case ci c = (if ci then lower c else c)"

definition cmp_bytes :: "u8 mem \<Rightarrow> nat \<Rightarrow> nat \<Rightarrow> bool \<Rightarrow> nat option \<Rightarrow> int option" where
  "cmp_bytes m a b ci limit = cmp_units (fold_case ci) limit m a b 0"

definition cmp_words :: "u16 mem \<Rightarrow> nat \<Rightarrow> nat \<Rightarrow> bool \<Rightarrow> nat option \<Rightarrow> int option" where
  "cmp_words m a b ci limit = cmp_units (fold_case ci) limit m a b 0"

definition strcoll :: "u8 mem \<Rightarrow> nat \<Rightarrow> nat \<Rightarrow> int option" where "strcoll m a b = cmp_bytes m a b False None"
definition stricoll :: "u8 mem \<Rightarrow> nat \<Rightarrow> nat \<Rightarrow> int option" where "stricoll m a b = cmp_bytes m a b True None"
definition strncoll :: "u8 mem \<Rightarrow> nat \<Rightarrow> nat \<Rightarrow> nat \<Rightarrow> int option" where "strncoll m a b n = cmp_bytes m a b False (Some n)"
definition strnicmp :: "u8 mem \<Rightarrow> nat \<Rightarrow> nat \<Rightarrow> nat \<Rightarrow> int option" where "strnicmp m a b n = cmp_bytes m a b True (Some n)"
definition strnicoll :: "u8 mem \<Rightarrow> nat \<Rightarrow> nat \<Rightarrow> nat \<Rightarrow> int option" where "strnicoll m a b n = cmp_bytes m a b True (Some n)"
definition wcscoll :: "u16 mem \<Rightarrow> nat \<Rightarrow> nat \<Rightarrow> int option" where "wcscoll m a b = cmp_words m a b False None"
definition wcsicoll :: "u16 mem \<Rightarrow> nat \<Rightarrow> nat \<Rightarrow> int option" where "wcsicoll m a b = cmp_words m a b True None"
definition wcsncoll :: "u16 mem \<Rightarrow> nat \<Rightarrow> nat \<Rightarrow> nat \<Rightarrow> int option" where "wcsncoll m a b n = cmp_words m a b False (Some n)"
definition wcsnicoll :: "u16 mem \<Rightarrow> nat \<Rightarrow> nat \<Rightarrow> nat \<Rightarrow> int option" where "wcsnicoll m a b n = cmp_words m a b True (Some n)"

definition towlower :: "u16 \<Rightarrow> u16" where "towlower c = lower c"

definition towupper :: "u16 \<Rightarrow> u16" where
  "towupper c = (if 0x61 \<le> c \<and> c \<le> 0x7A then c - 32 else c)"

definition wcscmp :: "u16 mem \<Rightarrow> nat \<Rightarrow> nat \<Rightarrow> int option" where "wcscmp m a b = cmp_units (\<lambda>c. c) None m a b 0"
definition wcsncmp :: "u16 mem \<Rightarrow> nat \<Rightarrow> nat \<Rightarrow> nat \<Rightarrow> int option" where "wcsncmp m a b n = cmp_units (\<lambda>c. c) (Some n) m a b 0"
definition wcsicmp :: "u16 mem \<Rightarrow> nat \<Rightarrow> nat \<Rightarrow> int option" where "wcsicmp m a b = cmp_units towlower None m a b 0"
definition wcsnicmp :: "u16 mem \<Rightarrow> nat \<Rightarrow> nat \<Rightarrow> nat \<Rightarrow> int option" where "wcsnicmp m a b n = cmp_units towlower (Some n) m a b 0"

section \<open>Character classes\<close>

definition iswalpha :: "u16 \<Rightarrow> bool" where
  "iswalpha c \<longleftrightarrow> 0x41 \<le> c \<and> c \<le> 0x5A \<or> 0x61 \<le> c \<and> c \<le> 0x7A"

definition iswdigit :: "u16 \<Rightarrow> bool" where
  "iswdigit c \<longleftrightarrow> 0x30 \<le> c \<and> c \<le> 0x39"

definition iswspace :: "u16 \<Rightarrow> bool" where
  "iswspace c \<longleftrightarrow> c \<in> {0x20, 0x09, 0x0A, 0x0B, 0x0C, 0x0D}"

definition iswxdigit :: "u16 \<Rightarrow> bool" where
  "iswxdigit c \<longleftrightarrow> 0x30 \<le> c \<and> c \<le> 0x39 \<or> 0x61 \<le> c \<and> c \<le> 0x66 \<or> 0x41 \<le> c \<and> c \<le> 0x46"

section \<open>Searching\<close>

text \<open>Whether \<open>c\<close> is in the terminated set at \<open>q\<close>: the inner loop of the span and token routines.\<close>

partial_function (option) in_set :: "('c::len word) mem \<Rightarrow> nat \<Rightarrow> 'c word \<Rightarrow> bool option" where
  "in_set m q c = (if m q = 0 then Some False else if m q = c then Some True else in_set m (q + 1) c)"

partial_function (option) span_loop :: "bool \<Rightarrow> ('c::len word) mem \<Rightarrow> nat \<Rightarrow> nat \<Rightarrow> nat \<Rightarrow> nat option" where
  "span_loop want m s q n =
     (if m (s + n) = 0 then Some n
      else do {
        b \<leftarrow> in_set m q (m (s + n));
        if b = want then span_loop want m s q (n + 1) else Some n
      })"

definition wcsspn :: "u16 mem \<Rightarrow> nat \<Rightarrow> nat \<Rightarrow> nat option" where "wcsspn m s q = span_loop True m s q 0"
definition wcscspn :: "u16 mem \<Rightarrow> nat \<Rightarrow> nat \<Rightarrow> nat option" where "wcscspn m s q = span_loop False m s q 0"
definition strcspn :: "u8 mem \<Rightarrow> nat \<Rightarrow> nat \<Rightarrow> nat option" where "strcspn m s q = span_loop False m s q 0"

text \<open>\<open>wcspbrk\<close> walks to the first unit of the set; 0 is the null it returns at the end of the string.\<close>

partial_function (option) wcspbrk :: "u16 mem \<Rightarrow> nat \<Rightarrow> nat \<Rightarrow> nat option" where
  "wcspbrk m p q =
     (if m p = 0 then Some 0
      else do { b \<leftarrow> in_set m q (m p); if b then Some p else wcspbrk m (p + 1) q })"

partial_function (option) chr_loop :: "('c::len word) mem \<Rightarrow> nat \<Rightarrow> 'c word \<Rightarrow> nat option" where
  "chr_loop m p c = (if m p = c then Some p else if m p = 0 then Some 0 else chr_loop m (p + 1) c)"

definition strchr :: "u8 mem \<Rightarrow> nat \<Rightarrow> u32 \<Rightarrow> nat option" where "strchr m s c = chr_loop m s (ucast c)"
definition wcschr :: "u16 mem \<Rightarrow> nat \<Rightarrow> u16 \<Rightarrow> nat option" where "wcschr m s c = chr_loop m s c"

partial_function (option) rchr_loop :: "('c::len word) mem \<Rightarrow> nat \<Rightarrow> 'c word \<Rightarrow> nat \<Rightarrow> nat option" where
  "rchr_loop m p c hit =
     (let hit = (if m p = c then p else hit) in if m p = 0 then Some hit else rchr_loop m (p + 1) c hit)"

definition wcsrchr :: "u16 mem \<Rightarrow> nat \<Rightarrow> u16 \<Rightarrow> nat option" where "wcsrchr m s c = rchr_loop m s c 0"

partial_function (option) match_len :: "u16 mem \<Rightarrow> nat \<Rightarrow> nat \<Rightarrow> nat \<Rightarrow> nat option" where
  "match_len m h nd j = (if m (nd + j) \<noteq> 0 \<and> m (h + j) = m (nd + j) then match_len m h nd (j + 1) else Some j)"

partial_function (option) wcsstr_loop :: "u16 mem \<Rightarrow> nat \<Rightarrow> nat \<Rightarrow> nat \<Rightarrow> nat option" where
  "wcsstr_loop m h nd i =
     (if m (h + i) = 0 then Some 0
      else do {
        j \<leftarrow> match_len m (h + i) nd 0;
        if m (nd + j) = 0 then Some (h + i) else wcsstr_loop m h nd (i + 1)
      })"

definition wcsstr :: "u16 mem \<Rightarrow> nat \<Rightarrow> nat \<Rightarrow> nat option" where
  "wcsstr m haystack needle = (if m needle = 0 then Some haystack else wcsstr_loop m haystack needle 0)"

section \<open>Writing strings\<close>

partial_function (option) case_loop :: "(u16 \<Rightarrow> u16) \<Rightarrow> nat \<Rightarrow> nat \<Rightarrow> u16 mem \<Rightarrow> u16 mem option" where
  "case_loop f s i m = (if m (s + i) \<noteq> 0 then case_loop f s (i + 1) (m(s + i := f (m (s + i)))) else Some m)"

definition wcslwr :: "nat \<Rightarrow> u16 mem \<Rightarrow> (nat \<times> u16 mem) option" where
  "wcslwr s m = do { m \<leftarrow> case_loop towlower s 0 m; Some (s, m) }"

definition wcsupr :: "nat \<Rightarrow> u16 mem \<Rightarrow> (nat \<times> u16 mem) option" where
  "wcsupr s m = do { m \<leftarrow> case_loop towupper s 0 m; Some (s, m) }"

partial_function (option) strcpy_loop :: "nat \<Rightarrow> nat \<Rightarrow> nat \<Rightarrow> nat \<Rightarrow> u8 mem \<Rightarrow> (int \<times> u8 mem) option" where
  "strcpy_loop dst dstsz src i m =
     (if dstsz \<le> i then Some (34, m(dst := 0))
      else let c = m (src + i); m = m(dst + i := c) in
        if c = 0 then Some (0, m) else strcpy_loop dst dstsz src (i + 1) m)"

definition strcpy_s :: "nat \<Rightarrow> nat \<Rightarrow> nat \<Rightarrow> u8 mem \<Rightarrow> (int \<times> u8 mem) option" where
  "strcpy_s dst dstsz src m = (if dst = 0 \<or> dstsz = 0 then Some (22, m) else strcpy_loop dst dstsz src 0 m)"

text \<open>The wide unit, when there is a place for it, and the bytes consumed.\<close>

definition mbtowc :: "u8 mem \<Rightarrow> nat \<Rightarrow> nat \<Rightarrow> nat \<Rightarrow> u16 mem \<Rightarrow> int \<times> u16 mem" where
  "mbtowc m pwc s n wm =
     (if s = 0 \<or> n = 0 then (0, wm)
      else let c = m s; wm = (if pwc \<noteq> 0 then wm(pwc := ucast c) else wm) in
        (if c = 0 then 0 else 1, wm))"

section \<open>Tokens\<close>

text \<open>\<open>wcstok\<close> keeps the position for the next call in \<open>state\<close>; it ends a token in place.\<close>

partial_function (option) skip_while :: "bool \<Rightarrow> u16 mem \<Rightarrow> nat \<Rightarrow> nat \<Rightarrow> nat option" where
  "skip_while want m p delim =
     (if m p = 0 then Some p
      else do { b \<leftarrow> in_set m delim (m p); if b = want then skip_while want m (p + 1) delim else Some p })"

definition wcstok :: "nat \<Rightarrow> nat \<Rightarrow> nat \<Rightarrow> u16 mem \<Rightarrow> (nat \<times> nat \<times> u16 mem) option" where
  "wcstok str delim state m =
     (let p = (if str = 0 then state else str) in
      if p = 0 then Some (0, state, m)
      else do {
        p \<leftarrow> skip_while True m p delim;
        if m p = 0 then Some (0, p, m)
        else do {
          let token = p;
          p \<leftarrow> skip_while False m p delim;
          if m p \<noteq> 0 then Some (token, p + 1, m(p := 0)) else Some (token, p, m)
        }
      })"

section \<open>Terminated strings\<close>

text \<open>\<open>cstr m s xs\<close>: the units at \<open>s\<close> are those of \<open>xs\<close>, none of them zero, and a terminator follows.\<close>

fun cstr :: "('c::len word) mem \<Rightarrow> nat \<Rightarrow> 'c word list \<Rightarrow> bool" where
  "cstr m s [] \<longleftrightarrow> m s = 0"
| "cstr m s (x # xs) \<longleftrightarrow> x \<noteq> 0 \<and> m s = x \<and> cstr m (Suc s) xs"

lemma cstr_append: "cstr m s (xs @ ys) \<longleftrightarrow> (\<forall>i<length xs. m (s + i) = xs ! i) \<and> 0 \<notin> set xs \<and> cstr m (s + length xs) ys"
proof (induction xs arbitrary: s)
  case (Cons x xs)
  then show ?case by (auto simp: less_Suc_eq_0_disj)
qed simp

lemma cstr_iff: "cstr m s xs \<longleftrightarrow> (\<forall>i<length xs. m (s + i) = xs ! i) \<and> 0 \<notin> set xs \<and> m (s + length xs) = 0"
  using cstr_append [of m s xs "[]"] by simp

lemma cstr_drop: "cstr m s xs \<Longrightarrow> k \<le> length xs \<Longrightarrow> cstr m (s + k) (drop k xs)"
  using cstr_append [of m s "take k xs" "drop k xs"] by (simp add: min_absorb2)

lemma cstr_other: "cstr m s xs \<Longrightarrow> p < s \<or> s + length xs < p \<Longrightarrow> cstr (m(p := c)) s xs"
  by (induction xs arbitrary: s) auto

lemma cstr_frame: "cstr m s xs \<Longrightarrow> (\<And>a. s \<le> a \<Longrightarrow> a \<le> s + length xs \<Longrightarrow> m' a = m a) \<Longrightarrow> cstr m' s xs"
  by (simp add: cstr_iff)

lemma nul_scan_cstr: "cstr m (s + n) xs \<Longrightarrow> nul_scan m s n = Some (n + length xs)"
proof (induction xs arbitrary: n)
  case Nil
  then show ?case by (subst nul_scan.simps) simp
next
  case (Cons x xs)
  then show ?case using Cons.IH [of "Suc n"] by (subst nul_scan.simps) simp
qed

lemma in_set_cstr: "cstr m q ys \<Longrightarrow> in_set m q c = Some (c \<in> set ys)"
proof (induction ys arbitrary: q)
  case Nil
  then show ?case by (subst in_set.simps) simp
next
  case (Cons y ys)
  then show ?case using Cons.IH [of "Suc q"] by (subst in_set.simps) auto
qed

subsection \<open>Comparison\<close>

fun lexdiff :: "'c::len word list \<Rightarrow> 'c word list \<Rightarrow> int" where
  "lexdiff [] [] = 0"
| "lexdiff [] (y # ys) = - uint y"
| "lexdiff (x # xs) [] = uint x"
| "lexdiff (x # xs) (y # ys) = (if x = y then lexdiff xs ys else uint x - uint y)"

lemma lexdiff_zero: "0 \<notin> set xs \<Longrightarrow> 0 \<notin> set ys \<Longrightarrow> lexdiff xs ys = 0 \<longleftrightarrow> xs = ys"
  by (induction xs ys rule: lexdiff.induct) (auto simp: uint_0_iff dest: word_uint_eq_iff [THEN iffD2])

lemma uint_pos: "x \<noteq> 0 \<Longrightarrow> 0 < uint (x :: 'c::len word)"
  by (simp add: order_less_le uint_0_iff)

lemma lexdiff_neg: "0 \<notin> set xs \<Longrightarrow> 0 \<notin> set ys \<Longrightarrow> lexdiff xs ys < 0 \<longleftrightarrow> ord_class.lexordp xs ys"
  by (induction xs ys rule: lexdiff.induct) (auto simp: word_less_def [symmetric] uint_pos)

definition key :: "('c::len word \<Rightarrow> 'c word) \<Rightarrow> nat option \<Rightarrow> 'c word list \<Rightarrow> 'c word list" where
  "key f limit xs = map f (case limit of Some n \<Rightarrow> take n xs | None \<Rightarrow> xs)"

text \<open>A fold that maps only zero to zero, as lower-casing does.\<close>

definition keeps_nul :: "('c::len word \<Rightarrow> 'c word) \<Rightarrow> bool" where
  "keeps_nul f \<longleftrightarrow> (\<forall>c. f c = 0 \<longleftrightarrow> c = 0)"

lemma keeps_nul_id [simp]: "keeps_nul (\<lambda>c. c)"
  by (simp add: keeps_nul_def)

lemma cmp_units_cstr:
  assumes f: "keeps_nul f"
  shows "cstr m (a + i) xs \<Longrightarrow> cstr m (b + i) ys \<Longrightarrow>
    cmp_units f limit m a b i = Some (lexdiff (key f (map_option (\<lambda>n. n - i) limit) xs) (key f (map_option (\<lambda>n. n - i) limit) ys))"
proof (induction xs ys arbitrary: i rule: list_induct2')
  have [simp]: "f c = 0 \<longleftrightarrow> c = 0" "0 = f c \<longleftrightarrow> c = 0" "f 0 = 0" for c
    using f unfolding keeps_nul_def by metis+
  note step = cmp_units.simps [of f limit m a b]
  {
  case (4 x xs y ys)
  have "key f (map_option (\<lambda>n. n - i) limit) (z # zs) =
    (if (case limit of Some n \<Rightarrow> n \<le> i | None \<Rightarrow> False) then [] else f z # key f (map_option (\<lambda>n. n - Suc i) limit) zs)" for z zs
    by (auto simp: key_def take_Cons' split: option.split)
  then show ?case
    using 4 (2-) "4.IH" [of "Suc i"] by (subst step) (auto simp: Let_def)
next
  case 1
  then show ?case by (subst step) (simp add: key_def split: option.split)
next
  case (2 x xs)
  then show ?case by (subst step) (simp add: key_def take_Cons' Let_def split: option.split)
next
  case (3 y ys)
  then show ?case by (subst step) (simp add: key_def take_Cons' Let_def split: option.split)
  }
qed

lemma key_nonzero: "keeps_nul f \<Longrightarrow> 0 \<notin> set xs \<Longrightarrow> 0 \<notin> set (key f limit xs)"
  by (auto simp: key_def keeps_nul_def dest: in_set_takeD split: option.splits)

subsection \<open>Search\<close>

lemma takeWhile_eq_want: "takeWhile (\<lambda>c. (c \<in> A) = True) xs = takeWhile (\<lambda>c. c \<in> A) xs" "takeWhile (\<lambda>c. (c \<in> A) = False) xs = takeWhile (\<lambda>c. c \<notin> A) xs"
  by simp_all

lemma span_loop_cstr:
  assumes q: "cstr m q ys"
  shows "cstr m (s + n) xs \<Longrightarrow> span_loop want m s q n = Some (n + length (takeWhile (\<lambda>c. (c \<in> set ys) = want) xs))"
proof (induction xs arbitrary: n)
  case Nil
  then show ?case by (subst span_loop.simps) simp
next
  case (Cons x xs)
  then show ?case using Cons.IH [of "Suc n"] q by (subst span_loop.simps) (simp add: in_set_cstr)
qed

lemma skip_while_cstr:
  assumes q: "cstr m q ys"
  shows "cstr m p xs \<Longrightarrow> skip_while want m p q = Some (p + length (takeWhile (\<lambda>c. (c \<in> set ys) = want) xs))"
proof (induction xs arbitrary: p)
  case Nil
  then show ?case by (subst skip_while.simps) simp
next
  case (Cons x xs)
  then show ?case using Cons.IH [of "Suc p"] q by (subst skip_while.simps) (simp add: in_set_cstr)
qed

lemma wcspbrk_cstr:
  assumes q: "cstr m q ys"
  shows "cstr m p xs \<Longrightarrow> wcspbrk m p q = Some (if set xs \<inter> set ys = {} then 0 else p + length (takeWhile (\<lambda>c. c \<notin> set ys) xs))"
proof (induction xs arbitrary: p)
  case Nil
  then show ?case by (subst wcspbrk.simps) simp
next
  case (Cons x xs)
  then show ?case using Cons.IH [of "Suc p"] q by (subst wcspbrk.simps) (auto simp: in_set_cstr)
qed

lemma chr_loop_cstr:
  "cstr m p xs \<Longrightarrow> chr_loop m p c = Some (if c = 0 \<or> c \<in> set xs then p + length (takeWhile (\<lambda>x. x \<noteq> c) xs) else 0)"
proof (induction xs arbitrary: p)
  case Nil
  then show ?case by (subst chr_loop.simps) simp
next
  case (Cons x xs)
  then show ?case using Cons.IH [of "Suc p"] by (subst chr_loop.simps) auto
qed

lemma rchr_loop_cstr:
  "cstr m p xs \<Longrightarrow> rchr_loop m p c hit = Some (last (hit # map fst (filter (\<lambda>(k, x). x = c) (enumerate p (xs @ [0])))))"
proof (induction xs arbitrary: p hit)
  case Nil
  then show ?case by (subst rchr_loop.simps) simp
next
  case (Cons x xs)
  then show ?case using Cons.IH [of "Suc p"] by (subst rchr_loop.simps) simp
qed

lemma match_len_cstr:
  "cstr m (nd + j) ys \<Longrightarrow> cstr m (h + j) xs \<Longrightarrow> \<exists>k. match_len m h nd j = Some k \<and> (m (nd + k) = 0 \<longleftrightarrow> prefix ys xs)"
proof (induction ys xs arbitrary: j rule: list_induct2')
  case (4 y ys x xs)
  then show ?case using "4.IH" [of "Suc j"] by (subst match_len.simps) auto
qed (subst match_len.simps, auto)+

definition find_sub :: "'a list \<Rightarrow> 'a list \<Rightarrow> nat option" where
  "find_sub xs ys = find (\<lambda>k. prefix ys (drop k xs)) [0..<Suc (length xs)]"

lemma wcsstr_loop_cstr:
  assumes nd: "cstr m nd ys" and ys: "ys \<noteq> []" and h: "cstr m h xs"
  shows "i \<le> length xs \<Longrightarrow> wcsstr_loop m h nd i =
    Some (case find (\<lambda>k. prefix ys (drop k xs)) [i..<Suc (length xs)] of Some k \<Rightarrow> h + k | None \<Rightarrow> 0)"
proof (induction "length xs - i" arbitrary: i)
  case 0
  then have "m (h + i) = 0" using h by (simp add: cstr_iff)
  then show ?case using 0 ys by (subst wcsstr_loop.simps) simp
next
  case (Suc d)
  then have i: "i < length xs" by simp
  then have nz: "m (h + i) \<noteq> 0" using h nth_mem [OF i] unfolding cstr_iff by metis
  obtain k where k: "match_len m (h + i) nd 0 = Some k" "m (nd + k) = 0 \<longleftrightarrow> prefix ys (drop i xs)"
    using match_len_cstr [of m nd 0 ys "h + i" "drop i xs"] nd cstr_drop [OF h, of i] i by auto
  show ?case using Suc i nz k by (subst wcsstr_loop.simps) (simp add: upt_conv_Cons del: upt_Suc)
qed

subsection \<open>Tokens\<close>

function tokens :: "'a list \<Rightarrow> 'a list \<Rightarrow> 'a list list" where
  "tokens ds xs = (case dropWhile (\<lambda>c. c \<in> set ds) xs of [] \<Rightarrow> []
     | t # ts \<Rightarrow> takeWhile (\<lambda>c. c \<notin> set ds) (t # ts) # tokens ds (tl (dropWhile (\<lambda>c. c \<notin> set ds) (t # ts))))"
  by pat_completeness auto
termination
proof (relation "measure (\<lambda>(ds, xs). length xs)")
  fix ds xs and t :: 'a and ts
  assume d: "dropWhile (\<lambda>c. c \<in> set ds) xs = t # ts"
  have "length (t # ts) \<le> length xs" using d length_dropWhile_le by metis
  moreover have "t \<notin> set ds" using d by (metis dropWhile_eq_Cons_conv)
  moreover have "length (dropWhile (\<lambda>c. c \<notin> set ds) ts) \<le> length ts" by (rule length_dropWhile_le)
  ultimately show "((ds, tl (dropWhile (\<lambda>c. c \<notin> set ds) (t # ts))), ds, xs) \<in> measure (\<lambda>(ds, xs). length xs)"
    by simp
qed simp

declare tokens.simps [simp del]

text \<open>A caller's loop: one call on the string, then calls on null until null is returned.\<close>

partial_function (option) wcstok_all :: "nat \<Rightarrow> nat \<Rightarrow> nat \<Rightarrow> u16 mem \<Rightarrow> (nat list \<times> u16 mem) option" where
  "wcstok_all str delim state m = do {
     (t, state, m) \<leftarrow> wcstok str delim state m;
     if t = 0 then Some ([], m) else do { (ts, m) \<leftarrow> wcstok_all 0 delim state m; Some (t # ts, m) } }"

end
