(* ===== verification/Crt_String_Laws.thy ===== *)
theory Crt_String_Laws
  imports Crt_String
begin

text \<open>
  What the memory and string routines of \<^verbatim>\<open>msvcrt/src/lib.rs\<close> promise: block copies under overlap, the order that the
  comparison routines compute, the positions that the search routines return, and the tokens of \<^verbatim>\<open>wcstok\<close>.
\<close>

section \<open>Tokens in place\<close>

lemma wcstok_cstr:
  assumes xs: "cstr m p xs" and ds: "cstr m d ds" and p: "p \<noteq> 0" "(if str = 0 then state else str) = p"
    and us: "takeWhile (\<lambda>c. c \<in> set ds) xs = us" and ts: "dropWhile (\<lambda>c. c \<in> set ds) xs = ts"
    and tk: "takeWhile (\<lambda>c. c \<notin> set ds) ts = tk"
  shows "wcstok str d state m =
    (if ts = [] then Some (0, p + length us, m)
     else if ts = tk then Some (p + length us, p + length us + length tk, m)
     else Some (p + length us, Suc (p + length us + length tk), m(p + length us + length tk := 0)))"
proof -
  have ut: "xs = us @ ts" using us ts takeWhile_dropWhile_id by metis
  then have cts: "cstr m (p + length us) ts" using xs cstr_append by metis
  have skip: "skip_while True m p d = Some (p + length us)" using skip_while_cstr [OF ds xs, of True] us by simp
  have skip2: "skip_while False m (p + length us) d = Some (p + length us + length tk)"
    using skip_while_cstr [OF ds cts, of False] tk by simp
  have end1: "m (p + length us) = 0 \<longleftrightarrow> ts = []" using cts by (cases ts) auto
  obtain vs where vs: "ts = tk @ vs" using tk takeWhile_dropWhile_id by metis
  then have "cstr m (p + length us + length tk) vs" using cts cstr_append by metis
  then have end2: "m (p + length us + length tk) = 0 \<longleftrightarrow> ts = tk" using vs by (cases vs) auto
  show ?thesis using p by (auto simp: wcstok_def skip skip2 end1 end2 Let_def)
qed

lemma wcstok_all_cstr:
  "cstr m p xs \<Longrightarrow> cstr m d ds \<Longrightarrow> d + length ds < p \<or> p + length xs \<le> d \<Longrightarrow> 0 < p \<Longrightarrow> (if str = 0 then state else str) = p \<Longrightarrow>
   \<exists>ps m'. wcstok_all str d state m = Some (ps, m') \<and> list_all2 (cstr m') ps (tokens ds xs) \<and>
     (\<forall>a. a < p \<or> p + length xs \<le> a \<longrightarrow> m' a = m a)"
proof (induction ds xs arbitrary: str state p m rule: tokens.induct)
  case (1 ds xs)
  define us ts where "us = takeWhile (\<lambda>c. c \<in> set ds) xs" and "ts = dropWhile (\<lambda>c. c \<in> set ds) xs"
  define tk vs where "tk = takeWhile (\<lambda>c. c \<notin> set ds) ts" and "vs = dropWhile (\<lambda>c. c \<notin> set ds) ts"
  have eqs: "xs = us @ ts" "ts = tk @ vs" by (simp_all add: us_def ts_def tk_def vs_def)
  note tok = wcstok_cstr [OF "1.prems"(1,2) _ "1.prems"(5) us_def [symmetric] ts_def [symmetric] tk_def [symmetric]]
  show ?case
  proof (cases ts)
    case Nil
    then have "tokens ds xs = []" by (subst tokens.simps) (simp add: ts_def [symmetric])
    then show ?thesis using Nil tok "1.prems"(4) by (subst wcstok_all.simps) simp
  next
    case (Cons t tl')
    have tks: "tokens ds xs = tk # tokens ds (tl vs)"
      using Cons by (subst tokens.simps) (simp add: ts_def [symmetric] tk_def vs_def)
    have ctk: "cstr m (p + length us) (tk @ vs)" using "1.prems"(1) eqs cstr_append by metis
    note ctk' = ctk [unfolded cstr_append]
    define m1 where "m1 = (if vs = [] then m else m(p + length us + length tk := 0))"
    define q where "q = p + length us + length tk + (if vs = [] then 0 else 1)"
    have lens: "length xs = length us + length tk + length vs" using eqs by simp
    have step: "wcstok str d state m = Some (p + length us, q, m1)"
      using tok "1.prems"(4) Cons eqs(2) by (auto simp: q_def m1_def)
    have m1: "m1 a = m a" if "a < p \<or> p + length xs \<le> a" for a
      using that lens by (cases vs) (auto simp: m1_def)
    have cq: "cstr m1 q (tl vs)"
      using ctk' by (cases vs) (auto simp: q_def m1_def intro!: cstr_other)
    have cd: "cstr m1 d ds" by (rule cstr_frame [OF "1.prems"(2)]) (use m1 "1.prems"(3) in auto)
    have c1: "cstr m1 (p + length us) tk" using ctk' by (cases vs) (auto simp: m1_def cstr_iff [of _ _ tk])
    have dq: "d + length ds < q \<or> q + length (tl vs) \<le> d" "q + length (tl vs) = p + length xs" "0 < q"
      using "1.prems"(3,4) lens by (cases vs; auto simp: q_def)+
    obtain ps m' where IH: "wcstok_all 0 d q m1 = Some (ps, m')" "list_all2 (cstr m') ps (tokens ds (tl vs))"
      "\<forall>a. a < q \<or> q + length (tl vs) \<le> a \<longrightarrow> m' a = m1 a"
      using "1.IH" [OF Cons [unfolded ts_def], of m1 q 0 q] cq cd dq Cons by (auto simp: vs_def)
    have "cstr m' (p + length us) tk"
    proof (rule cstr_frame [OF c1])
      fix a assume "p + length us \<le> a" "a \<le> p + length us + length tk"
      then show "m' a = m1 a" using IH(3) dq(2) lens by (cases vs) (auto simp: q_def)
    qed
    moreover have "m' a = m a" if "a < p \<or> p + length xs \<le> a" for a
      using that IH(3) m1 dq(2) lens by (cases vs) (auto simp: q_def)
    ultimately show ?thesis using step IH tks "1.prems"(4) by (subst wcstok_all.simps) auto
  qed
qed

section \<open>Block copies\<close>

lemma copy_up_eq:
  "dst \<le> src \<or> src + i + n \<le> dst + i \<Longrightarrow>
   copy_up dst src i n m a = (if dst + i \<le> a \<and> a < dst + i + n then m (src + (a - dst)) else m a)"
proof (induction n arbitrary: i m)
  case (Suc n)
  show ?case
    using Suc.prems by (subst copy_up.simps, subst Suc.IH) (auto simp: not_le le_less_Suc_eq)
qed auto

lemma copy_down_eq:
  "src \<le> dst \<or> dst + n \<le> src \<Longrightarrow> copy_down dst src n m a = (if dst \<le> a \<and> a < dst + n then m (src + (a - dst)) else m a)"
proof (induction n arbitrary: m)
  case (Suc n)
  show ?case
    using Suc.prems by (subst copy_down.simps, subst Suc.IH) (auto simp: not_le le_less_Suc_eq)
qed auto

lemma fill_up_eq: "fill_up dst b i n m a = (if dst + i \<le> a \<and> a < dst + i + n then b else m a)"
  by (induction n arbitrary: i m) auto

lemma memmove_eq: "memmove dst src n m = (dst, \<lambda>a. if dst \<le> a \<and> a < dst + n then m (src + (a - dst)) else m a)"
  by (auto simp: memmove_def fun_eq_iff copy_up_eq copy_down_eq)

lemma memcpy_eq:
  "src + n \<le> dst \<or> dst \<le> src \<Longrightarrow> memcpy dst src n m = (dst, \<lambda>a. if dst \<le> a \<and> a < dst + n then m (src + (a - dst)) else m a)"
  by (auto simp: memcpy_def fun_eq_iff copy_up_eq)

lemma lower8_eq_0: "lower (c :: u8) = 0 \<longleftrightarrow> c = 0"
  unfolding lower_def by (auto, unat_arith, simp)

lemma lower16_eq_0: "lower (c :: u16) = 0 \<longleftrightarrow> c = 0"
  unfolding lower_def by (auto, unat_arith, simp)

lemma keeps_nul_fold_case [simp]: "keeps_nul (fold_case ci :: u8 \<Rightarrow> u8)" "keeps_nul (fold_case ci :: u16 \<Rightarrow> u16)"
  by (simp_all add: keeps_nul_def fold_case_def lower8_eq_0 lower16_eq_0)

section \<open>Properties\<close>

lemma key_spec:
  assumes "keeps_nul f" "cstr m a xs" "cstr m b ys"
  shows "\<exists>d. cmp_units f limit m a b 0 = Some d \<and> (d < 0 \<longleftrightarrow> ord_class.lexordp (key f limit xs) (key f limit ys)) \<and>
    (d = 0 \<longleftrightarrow> key f limit xs = key f limit ys)"
  using assms cmp_units_cstr [of f m a 0 xs b ys limit] key_nonzero [of f xs limit] key_nonzero [of f ys limit]
  by (cases limit) (simp_all add: lexdiff_neg lexdiff_zero cstr_iff)

lemma fold_case_word: "fold_case False = (\<lambda>c :: u16. c)" "fold_case True = towlower"
  by (auto simp: fold_case_def towlower_def)


text \<open>A memory whose first cells are given and whose others are zero.\<close>

definition cells :: "'c::len word list \<Rightarrow> 'c word mem" where
  "cells xs = (\<lambda>p. if p < length xs then xs ! p else 0)"


text \<open>
  The search routines return on terminated strings and find what they are documented to find: the two spans are the
  longest prefixes inside and outside the set, \<^verbatim>\<open>wcspbrk\<close> the first unit in the set, \<^verbatim>\<open>strchr\<close> and \<^verbatim>\<open>wcschr\<close> the first
  occurrence and \<^verbatim>\<open>wcsrchr\<close> the last one, the terminator included, and \<^verbatim>\<open>wcsstr\<close> the leftmost occurrence of the needle.
\<close>

theorem crt_search_correct:
  assumes s: "cstr m s xs" and q: "cstr m q ys"
  shows "wcsspn m s q = Some (length (takeWhile (\<lambda>c. c \<in> set ys) xs)) \<and>
    wcscspn m s q = Some (length (takeWhile (\<lambda>c. c \<notin> set ys) xs)) \<and>
    wcspbrk m s q = Some (if set xs \<inter> set ys = {} then 0 else s + length (takeWhile (\<lambda>c. c \<notin> set ys) xs)) \<and>
    wcschr m s c = Some (if c = 0 \<or> c \<in> set xs then s + length (takeWhile (\<lambda>x. x \<noteq> c) xs) else 0) \<and>
    wcsrchr m s c = Some (last (0 # map fst (filter (\<lambda>(k, x). x = c) (enumerate s (xs @ [0]))))) \<and>
    wcsstr m s q = Some (case find_sub xs ys of Some k \<Rightarrow> s + k | None \<Rightarrow> 0)"
proof (intro conjI)
  show "wcsspn m s q = Some (length (takeWhile (\<lambda>c. c \<in> set ys) xs))"
    using span_loop_cstr [OF q, of s 0 xs True] s by (simp add: wcsspn_def)
  show "wcscspn m s q = Some (length (takeWhile (\<lambda>c. c \<notin> set ys) xs))"
    using span_loop_cstr [OF q, of s 0 xs False] s by (simp add: wcscspn_def)
  show "wcspbrk m s q = Some (if set xs \<inter> set ys = {} then 0 else s + length (takeWhile (\<lambda>c. c \<notin> set ys) xs))"
    by (rule wcspbrk_cstr [OF q s])
  show "wcschr m s c = Some (if c = 0 \<or> c \<in> set xs then s + length (takeWhile (\<lambda>x. x \<noteq> c) xs) else 0)"
    by (simp add: wcschr_def chr_loop_cstr [OF s])
  show "wcsrchr m s c = Some (last (0 # map fst (filter (\<lambda>(k, x). x = c) (enumerate s (xs @ [0])))))"
    by (simp only: wcsrchr_def rchr_loop_cstr [OF s])
  show "wcsstr m s q = Some (case find_sub xs ys of Some k \<Rightarrow> s + k | None \<Rightarrow> 0)"
    using q wcsstr_loop_cstr [OF q _ s, of 0]
    by (cases ys) (simp_all add: wcsstr_def find_sub_def upt_conv_Cons del: upt_Suc)
qed

theorem crt_search_witness:
  "wcsspn (cells [0, 0x61, 0x62, 0x63, 0, 0x62, 0x63]) 1 5 = Some 0 \<and>
   wcsstr (cells [0, 0x61, 0x62, 0x63, 0, 0x62, 0x63]) 1 5 = Some 2 \<and>
   wcschr (cells [0, 0x61, 0x62, 0x63, 0, 0x62, 0x63]) 1 0x63 = Some 3"
  using crt_search_correct [of "cells [0, 0x61, 0x62, 0x63, 0, 0x62, 0x63]" 1 "[0x61, 0x62, 0x63]" 5 "[0x62, 0x63]" "0x63"]
  by (simp add: cells_def find_sub_def upt_conv_Cons)

text \<open>
  C32. Calling \<^verbatim>\<open>wcstok\<close> on a terminated string and then on null until it answers null comes to an end and yields every
  token of the string, in order: in the final memory each returned pointer leads to its token, ended in place, and nothing
  outside the string has changed. The delimiter string lies outside the text.
\<close>

theorem wcstok_yields_every_token:
  assumes "cstr m s xs" "cstr m d ds" "d + length ds < s \<or> s + length xs \<le> d" "0 < s"
  shows "\<exists>ps m'. wcstok_all s d state m = Some (ps, m') \<and> list_all2 (cstr m') ps (tokens ds xs) \<and>
    (\<forall>a. a < s \<or> s + length xs \<le> a \<longrightarrow> m' a = m a)"
  using wcstok_all_cstr [OF assms, of s state] assms(4) by simp

theorem wcstok_witness:
  "\<exists>ps m'. wcstok_all 1 7 0 (cells [0, 0x2C, 0x61, 0x62, 0x2C, 0x63, 0, 0x2C]) = Some (ps, m') \<and>
     list_all2 (cstr m') ps [[0x61, 0x62], [0x63]]"
  using wcstok_yields_every_token [of "cells [0, 0x2C, 0x61, 0x62, 0x2C, 0x63, 0, 0x2C]" 1 "[0x2C, 0x61, 0x62, 0x2C, 0x63]" 7 "[0x2C]" 0]
  by (auto simp: cells_def tokens.simps)

end
