(* ===== verification/Crt_Sort.thy ===== *)
theory Crt_Sort
  imports Crt_String_Laws "HOL-Library.Multiset"
begin

text \<open>
  \<^verbatim>\<open>qsort\<close> of \<^verbatim>\<open>msvcrt/src/lib.rs\<close>: an insertion sort over blocks of bytes, with a scratch element of 256 bytes on the
  stack. The callback is a parameter, a function of the bytes of the two elements its pointers lead to; \<open>stack\<close> is what
  the scratch and the memory behind it hold on entry.
\<close>

section \<open>Model\<close>

definition view :: "u8 mem \<Rightarrow> nat \<Rightarrow> nat \<Rightarrow> u8 list" where
  "view m p n = map (\<lambda>k. m (p + k)) [0..<n]"

text \<open>\<^verbatim>\<open>memcpy\<close> from one object to another: the scratch array is not part of the caller's memory.\<close>

definition copy_between :: "u8 mem \<Rightarrow> nat \<Rightarrow> u8 mem \<Rightarrow> nat \<Rightarrow> nat \<Rightarrow> u8 mem" where
  "copy_between m dst n src len = (\<lambda>a. if dst \<le> a \<and> a < dst + len then n (src + (a - dst)) else m a)"

fun qsort_shift :: "(u8 list \<Rightarrow> u8 list \<Rightarrow> int) \<Rightarrow> nat \<Rightarrow> nat \<Rightarrow> nat \<Rightarrow> u8 mem \<Rightarrow> nat \<Rightarrow> u8 mem \<Rightarrow> nat \<times> u8 mem" where
  "qsort_shift cmp base esz sz tmp 0 m = (0, m)"
| "qsort_shift cmp base esz sz tmp (Suc j) m =
     (if cmp (view m (base + j * esz) esz) (view tmp 0 esz) > 0
      then qsort_shift cmp base esz sz tmp j (snd (memcpy (base + Suc j * esz) (base + j * esz) sz m))
      else (Suc j, m))"

definition qsort_step :: "(u8 list \<Rightarrow> u8 list \<Rightarrow> int) \<Rightarrow> nat \<Rightarrow> nat \<Rightarrow> nat \<Rightarrow> nat \<Rightarrow> u8 mem \<times> u8 mem \<Rightarrow> u8 mem \<times> u8 mem" where
  "qsort_step cmp base esz sz i s =
     (let (m, tmp) = s;
          tmp = copy_between tmp 0 m (base + i * esz) sz;
          (j, m) = qsort_shift cmp base esz sz tmp i m
      in (copy_between m (base + j * esz) tmp 0 sz, tmp))"

definition qsort :: "(u8 list \<Rightarrow> u8 list \<Rightarrow> int) \<Rightarrow> u8 mem \<Rightarrow> nat \<Rightarrow> nat \<Rightarrow> nat \<Rightarrow> u8 mem \<Rightarrow> u8 mem" where
  "qsort cmp stack base num esz m =
     (if num < 2 \<or> esz = 0 then m
      else fst (fold (qsort_step cmp base esz (min esz 256)) [1..<num] (m, stack)))"

section \<open>Insertion sort on lists\<close>

definition elems :: "u8 mem \<Rightarrow> nat \<Rightarrow> nat \<Rightarrow> nat \<Rightarrow> u8 list list" where
  "elems m base num esz = map (\<lambda>i. view m (base + i * esz) esz) [0..<num]"

definition place :: "('a \<Rightarrow> 'a \<Rightarrow> int) \<Rightarrow> 'a \<Rightarrow> 'a list \<Rightarrow> 'a list" where
  "place cmp x ys = (let n = length ys - length (takeWhile (\<lambda>y. cmp y x > 0) (rev ys)) in take n ys @ x # drop n ys)"

definition sort_order :: "('a \<Rightarrow> 'a \<Rightarrow> int) \<Rightarrow> bool" where
  "sort_order cmp \<longleftrightarrow> (\<forall>x y. cmp x y > 0 \<longrightarrow> cmp y x \<le> 0) \<and> (\<forall>x y z. cmp x y \<le> 0 \<longrightarrow> cmp y z \<le> 0 \<longrightarrow> cmp x z \<le> 0)"

lemma mset_take_drop: "mset (take n ys @ x # drop n ys) = add_mset x (mset ys)"
  using mset_append [of "take n ys" "drop n ys"] by simp

lemma place_mset: "mset (place cmp x ys) = add_mset x (mset ys)"
  unfolding place_def Let_def by (rule mset_take_drop)

lemma place_split:
  obtains us vs where "ys = us @ vs" "place cmp x ys = us @ x # vs" "\<forall>v\<in>set vs. cmp v x > 0" "us \<noteq> [] \<longrightarrow> cmp (last us) x \<le> 0"
proof -
  let ?P = "\<lambda>y. cmp y x > 0"
  obtain n where n: "n = length ys - length (takeWhile ?P (rev ys))" by simp
  have d: "dropWhile ?P (rev ys) = rev (take n ys)" "takeWhile ?P (rev ys) = rev (drop n ys)"
    unfolding n drop_rev [symmetric] take_rev [symmetric] by (rule dropWhile_eq_drop, rule takeWhile_eq_take)
  have pl: "place cmp x ys = take n ys @ x # drop n ys" by (simp add: place_def n Let_def)
  have "\<forall>v\<in>set (drop n ys). cmp v x > 0" using set_takeWhileD [of _ ?P "rev ys"] unfolding d(2) by auto
  moreover have "cmp (last (take n ys)) x \<le> 0" if "take n ys \<noteq> []"
    using hd_dropWhile [of ?P "rev ys"] that unfolding d(1) by (simp add: hd_rev not_less)
  ultimately show thesis using that [of "take n ys" "drop n ys"] pl by simp
qed

lemma place_sorted:
  assumes c: "sort_order cmp" and s: "sorted_wrt (\<lambda>x y. cmp x y \<le> 0) ys"
  shows "sorted_wrt (\<lambda>x y. cmp x y \<le> 0) (place cmp x ys)"
proof -
  obtain us vs where p: "ys = us @ vs" "place cmp x ys = us @ x # vs" "\<forall>v\<in>set vs. cmp v x > 0"
    "us \<noteq> [] \<longrightarrow> cmp (last us) x \<le> 0"
    by (rule place_split)
  have "cmp u x \<le> 0" if u: "u \<in> set us" for u
  proof (cases "u = last us")
    case False
    have us: "us = butlast us @ [last us]" using u by (cases us rule: rev_cases) auto
    then have "u \<in> set (butlast us)" using u False by (metis in_set_butlastD insertE list.simps(15) list.set(1) empty_iff set_append Un_iff)
    then have "cmp u (last us) \<le> 0" using s p(1) us by (metis list.set_intros(1) sorted_wrt_append)
    then show ?thesis using p(4) u c unfolding sort_order_def by fastforce
  qed (use p(4) u in auto)
  then show ?thesis using p s c unfolding sort_order_def by (auto simp: sorted_wrt_append)
qed

lemma fold_place:
  assumes "sort_order cmp"
  shows "sorted_wrt (\<lambda>x y. cmp x y \<le> 0) ys \<Longrightarrow> sorted_wrt (\<lambda>x y. cmp x y \<le> 0) (fold (place cmp) xs ys)"
    and "mset (fold (place cmp) xs ys) = mset xs + mset ys"
  by (induction xs arbitrary: ys) (auto simp: place_sorted [OF assms] place_mset)

section \<open>The blocks in memory\<close>

lemma block_iff: "(t :: nat) < esz \<Longrightarrow> (base + i * esz \<le> base + k * esz + t \<and> base + k * esz + t < base + i * esz + esz) \<longleftrightarrow> k = i"
proof
  assume t: "t < esz" and b: "base + i * esz \<le> base + k * esz + t \<and> base + k * esz + t < base + i * esz + esz"
  then have "(k * esz + t) div esz = i"
    by (intro div_nat_eqI) (simp_all add: algebra_simps)
  then show "k = i" using t by simp
qed simp

lemma view_copy_between:
  "view (copy_between m (base + i * esz) n src esz) (base + k * esz) esz = (if k = i then view n src esz else view m (base + k * esz) esz)"
proof -
  have "(if base + i * esz \<le> base + k * esz + t \<and> base + k * esz + t < base + i * esz + esz
      then n (src + (base + k * esz + t - (base + i * esz))) else m (base + k * esz + t)) =
    (if k = i then n (src + t) else m (base + k * esz + t))" if "t < esz" for t
    using block_iff [OF that, of base i k] by (cases "k = i") auto
  then show ?thesis by (simp add: view_def copy_between_def)
qed

lemma memcpy_next: "sz \<le> esz \<Longrightarrow> snd (memcpy (base + Suc j * esz) (base + j * esz) sz m) = copy_between m (base + Suc j * esz) m (base + j * esz) sz"
  by (simp add: memcpy_eq copy_between_def)

lemma qsort_shift_spec:
  "qsort_shift cmp base esz esz tmp j m = (j', m') \<Longrightarrow>
   j' = j - length (takeWhile (\<lambda>y. cmp y (view tmp 0 esz) > 0) (rev (elems m base j esz))) \<and>
   (\<forall>k. view m' (base + k * esz) esz = (if j' < k \<and> k \<le> j then view m (base + (k - 1) * esz) esz else view m (base + k * esz) esz))"
proof (induction j arbitrary: m)
  case (Suc j)
  let ?m = "copy_between m (base + Suc j * esz) m (base + j * esz) esz"
  have vm: "view ?m (base + i * esz) esz = (if i = Suc j then view m (base + j * esz) esz else view m (base + i * esz) esz)" for i
    by (rule view_copy_between)
  have em: "elems ?m base j esz = elems m base j esz" by (simp add: elems_def vm del: mult_Suc)
  have es: "rev (elems m base (Suc j) esz) = view m (base + j * esz) esz # rev (elems m base j esz)" by (simp add: elems_def)
  have mc: "snd (memcpy (base + Suc j * esz) (base + j * esz) esz m) = ?m" by (rule memcpy_next) simp
  show ?case
  proof (cases "cmp (view m (base + j * esz) esz) (view tmp 0 esz) > 0")
    case True
    then have q: "qsort_shift cmp base esz esz tmp j ?m = (j', m')" using Suc.prems by (simp only: qsort_shift.simps mc if_True)
    note IH = Suc.IH [OF q]
    then have "j' \<le> j" by simp
    then have "view m' (base + k * esz) esz =
        (if j' < k \<and> k \<le> Suc j then view m (base + (k - 1) * esz) esz else view m (base + k * esz) esz)" for k
      using conjunct2 [OF IH, rule_format, of k] by (cases "k = Suc j") (auto simp: vm simp del: mult_Suc)
    then show ?thesis using IH True unfolding es em by simp
  next
    case False
    then show ?thesis using Suc.prems unfolding es by auto
  qed
qed simp

lemma elems_nth: "i < num \<Longrightarrow> elems m base num esz ! i = view m (base + i * esz) esz"
  by (simp add: elems_def)

lemma length_elems [simp]: "length (elems m base num esz) = num"
  by (simp add: elems_def)

lemma place_nth:
  assumes "n = length ys - length (takeWhile (\<lambda>y. cmp y x > 0) (rev ys))" "k \<le> length ys"
  shows "place cmp x ys ! k = (if k = n then x else if n < k then ys ! (k - 1) else ys ! k)"
  using assms by (auto simp: place_def Let_def nth_append nth_Cons' min_def)

lemma qsort_step_elems:
  assumes "qsort_step cmp base esz esz i (m, tmp) = (m', tmp')" "i < num"
  shows "elems m' base num esz = place cmp (elems m base num esz ! i) (take i (elems m base num esz)) @ drop (Suc i) (elems m base num esz)"
proof -
  define t where "t = copy_between tmp 0 m (base + i * esz) esz"
  have vt: "view t 0 esz = view m (base + i * esz) esz" by (simp add: t_def view_def copy_between_def)
  obtain j n where s: "qsort_shift cmp base esz esz t i m = (j, n)" by fastforce
  have m': "m' = copy_between n (base + j * esz) t 0 esz"
    using assms(1) s by (auto simp: qsort_step_def Let_def t_def [symmetric])
  note sp = conjunct1 [OF qsort_shift_spec [OF s, unfolded vt]] conjunct2 [OF qsort_shift_spec [OF s, unfolded vt], rule_format]
  have tk: "take i (elems m base num esz) = elems m base i esz" using assms(2) by (simp add: elems_def take_map)
  have pl: "place cmp (view m (base + i * esz) esz) (elems m base i esz) ! k =
      (if k = j then view m (base + i * esz) esz else if j < k then elems m base i esz ! (k - 1) else elems m base i esz ! k)" if "k \<le> i" for k
    by (rule place_nth) (use sp(1) that in auto)
  have lp: "length (place cmp x ys) = Suc (length ys)" for x ys by (metis place_mset size_add_mset size_mset)
  have "j \<le> i" using sp(1) by simp
  show ?thesis
  proof (rule nth_equalityI)
    fix k assume "k < length (elems m' base num esz)"
    then have k: "k < num" by simp
    show "elems m' base num esz ! k = (place cmp (elems m base num esz ! i) (take i (elems m base num esz)) @ drop (Suc i) (elems m base num esz)) ! k"
      using k assms(2) \<open>j \<le> i\<close> pl [of k] sp(2) [of k] unfolding tk m'
      by (auto simp: elems_nth view_copy_between nth_append lp vt)
  qed (use assms(2) in \<open>simp add: lp tk\<close>)
qed

lemma place_length [simp]: "length (place cmp x ys) = Suc (length ys)"
  by (metis place_mset size_add_mset size_mset)

lemma fold_place_length [simp]: "length (fold (place cmp) xs ys) = length xs + length ys"
  by (induction xs arbitrary: ys) simp_all

lemma fold_place_set: "set (fold (place cmp) xs ys) = set xs \<union> set ys"
proof (induction xs arbitrary: ys)
  case (Cons x xs)
  have "set (place cmp x ys) = insert x (set ys)" by (metis place_mset set_mset_mset set_mset_add_mset_insert)
  then show ?case using Cons by auto
qed simp

lemma fold_place_trivial: "length xs < 2 \<or> (\<forall>x\<in>set xs. x = c) \<Longrightarrow> fold (place cmp) xs [] = xs"
proof (elim disjE)
  assume "length xs < 2"
  then show "fold (place cmp) xs [] = xs" by (cases xs; cases "tl xs") (auto simp: place_def)
next
  assume c: "\<forall>x\<in>set xs. x = c"
  then have "fold (place cmp) xs [] = replicate (length xs) c" by (intro replicate_eqI) (auto simp: fold_place_set)
  then show "fold (place cmp) xs [] = xs" using c by (metis replicate_length_same)
qed

lemma qsort_fold_elems:
  "i \<le> num \<Longrightarrow> 0 < i \<Longrightarrow> elems (fst (fold (qsort_step cmp base esz esz) [1..<i] (m, tmp))) base num esz =
     fold (place cmp) (take i (elems m base num esz)) [] @ drop i (elems m base num esz)"
proof (induction i)
  case (Suc i)
  let ?xs = "elems m base num esz"
  show ?case
  proof (cases "i = 0")
    case True
    then show ?thesis using Suc.prems by (cases ?xs) (auto simp: place_def elems_def)
  next
    case False
    obtain n t where f: "fold (qsort_step cmp base esz esz) [1..<i] (m, tmp) = (n, t)" by fastforce
    obtain n' t' where s: "qsort_step cmp base esz esz i (n, t) = (n', t')" by fastforce
    have IH: "elems n base num esz = fold (place cmp) (take i ?xs) [] @ drop i ?xs" using Suc f False by simp
    have "elems n' base num esz = place cmp (?xs ! i) (fold (place cmp) (take i ?xs) []) @ drop (Suc i) ?xs"
      using qsort_step_elems [OF s, of num] Suc.prems unfolding IH by (simp add: nth_append min_def)
    then show ?thesis using Suc.prems False f s by (simp add: take_Suc_conv_app_nth)
  qed
qed simp

definition touched :: "nat \<Rightarrow> nat \<Rightarrow> nat \<Rightarrow> nat \<Rightarrow> nat \<Rightarrow> bool" where
  "touched base num esz sz a \<longleftrightarrow> (\<exists>j<num. base + j * esz \<le> a \<and> a < base + j * esz + sz)"

lemma qsort_shift_frame:
  "sz \<le> esz \<Longrightarrow> j < num \<Longrightarrow> \<not> touched base num esz sz a \<Longrightarrow> qsort_shift cmp base esz sz tmp j m = (j', m') \<Longrightarrow> m' a = m a \<and> j' \<le> j"
proof (induction j arbitrary: m)
  case (Suc j)
  have "copy_between m (base + Suc j * esz) m (base + j * esz) sz a = m a"
    using Suc.prems(2,3) unfolding touched_def copy_between_def by meson
  then show ?case
    using Suc.prems Suc.IH [of "copy_between m (base + Suc j * esz) m (base + j * esz) sz"]
    by (auto simp: memcpy_next simp del: mult_Suc split: if_splits)
qed simp

lemma qsort_step_frame:
  assumes "sz \<le> esz" "i < num" "\<not> touched base num esz sz a"
  shows "fst (qsort_step cmp base esz sz i (m, tmp)) a = m a"
proof -
  obtain j n where s: "qsort_shift cmp base esz sz (copy_between tmp 0 m (base + i * esz) sz) i m = (j, n)" by fastforce
  then have "n a = m a" "j < num" using qsort_shift_frame [OF assms s] assms(2) by auto
  moreover have "copy_between n (base + j * esz) (copy_between tmp 0 m (base + i * esz) sz) 0 sz a = n a"
    using assms(3) \<open>j < num\<close> unfolding touched_def copy_between_def by meson
  ultimately show ?thesis using s by (simp add: qsort_step_def Let_def)
qed

lemma qsort_fold_frame:
  assumes "sz \<le> esz" "\<not> touched base num esz sz a"
  shows "i \<le> num \<Longrightarrow> fst (fold (qsort_step cmp base esz sz) [1..<i] (m, tmp)) a = m a"
proof (induction i)
  case (Suc i)
  obtain n t where f: "fold (qsort_step cmp base esz sz) [1..<i] (m, tmp) = (n, t)" by fastforce
  show ?case using Suc f qsort_step_frame [OF assms(1) _ assms(2), of i cmp n t] by (cases "i = 0") simp_all
qed simp

lemma touched_outside:
  assumes "a < base \<or> base + num * esz \<le> a"
  shows "\<not> touched base num esz (min esz 256) a"
proof
  assume "touched base num esz (min esz 256) a"
  then obtain j where j: "j < num" "base + j * esz \<le> a" "a < base + j * esz + esz" unfolding touched_def by fastforce
  have "Suc j * esz \<le> num * esz" using j(1) by (intro mult_le_mono1) simp
  then show False using assms j by simp
qed

lemma touched_tail:
  assumes "k < esz" "256 \<le> k"
  shows "\<not> touched base num esz (min esz 256) (base + j * esz + k)"
proof
  assume "touched base num esz (min esz 256) (base + j * esz + k)"
  then obtain i where i: "base + i * esz \<le> base + j * esz + k" "base + j * esz + k < base + i * esz + min esz 256"
    unfolding touched_def by blast
  then have "j = i" using block_iff [OF assms(1), of base i j] by linarith
  then show False using i assms by simp
qed

text \<open>
  C33. With a callback that is a total order on the elements, \<^verbatim>\<open>qsort\<close> leaves a sorted permutation of elements of up to
  256 bytes, the one that inserting them in turn behind their equals gives, and changes no byte outside the array.
  For longer elements only the first 256 bytes of each are ever moved: the rest stay where they were.
\<close>

theorem qsort_correct:
  assumes cmp: "sort_order cmp"
  shows "(if esz \<le> 256
      then elems (qsort cmp stack base num esz m) base num esz = fold (place cmp) (elems m base num esz) [] \<and>
        sorted_wrt (\<lambda>x y. cmp x y \<le> 0) (elems (qsort cmp stack base num esz m) base num esz) \<and>
        mset (elems (qsort cmp stack base num esz m) base num esz) = mset (elems m base num esz)
      else (\<forall>j<num. \<forall>k<esz. 256 \<le> k \<longrightarrow> qsort cmp stack base num esz m (base + j * esz + k) = m (base + j * esz + k))) \<and>
    (\<forall>a. a < base \<or> base + num * esz \<le> a \<longrightarrow> qsort cmp stack base num esz m a = m a)"
proof -
  let ?r = "qsort cmp stack base num esz m"
  have frame: "?r a = m a" if "\<not> touched base num esz (min esz 256) a" for a
    using qsort_fold_frame [OF _ that, of num cmp m stack] by (simp add: qsort_def)
  have el: "elems ?r base num esz = fold (place cmp) (elems m base num esz) []" if e: "esz \<le> 256"
  proof (cases "num < 2 \<or> esz = 0")
    case True
    then show ?thesis
      using fold_place_trivial [of "elems m base num esz" "[]" cmp] by (auto simp: qsort_def elems_def view_def)
  next
    case False
    then show ?thesis using qsort_fold_elems [of num num cmp base esz m stack] e by (simp add: qsort_def min_def)
  qed
  have "?r a = m a" if "a < base \<or> base + num * esz \<le> a" for a by (rule frame [OF touched_outside [OF that]])
  moreover have "?r (base + j * esz + k) = m (base + j * esz + k)" if "k < esz" "256 \<le> k" for j k
    by (rule frame [OF touched_tail [OF that]])
  ultimately show ?thesis
    using el fold_place(1) [OF cmp, of "[]" "elems m base num esz"] fold_place(2) [OF cmp, of "elems m base num esz" "[]"] by simp
qed

definition byte_order :: "u8 list \<Rightarrow> u8 list \<Rightarrow> int" where
  "byte_order x y = uint (hd x) - uint (hd y)"

theorem qsort_witness:
  "sort_order byte_order \<and>
   elems (qsort byte_order (\<lambda>_. 0) 1 3 2 (cells [7, 3, 9, 1, 8, 2, 7])) 1 3 2 = [[1, 8], [2, 7], [3, 9]]"
proof -
  have o: "sort_order byte_order" by (auto simp: sort_order_def byte_order_def)
  then show ?thesis
    using qsort_correct [OF o, of 2 "\<lambda>_. 0" 1 3 "cells [7, 3, 9, 1, 8, 2, 7]"]
    by (simp add: elems_def view_def cells_def upt_conv_Cons place_def byte_order_def Let_def)
qed

end
