(* ===== verification/Crt_Start.thy ===== *)
theory Crt_Start
  imports Crt_String_Laws
begin

text \<open>
  Start-up of the C runtime (\<^verbatim>\<open>msvcrt/src/lib.rs\<close>): the command line is fetched into a buffer of 256 units and split at its
  blanks in place, \<^verbatim>\<open>build_argv\<close> for bytes and \<^verbatim>\<open>__wgetmainargs\<close> for the widened line, and the initialiser tables are
  run. A pointer into the buffer is an index; the answer of the command-line service is a parameter.
\<close>

section \<open>Splitting the command line\<close>

definition MAX_ARGS :: nat where "MAX_ARGS = 32"

function arg_blanks :: "nat \<Rightarrow> nat \<Rightarrow> ('c::len word) mem \<Rightarrow> nat \<times> 'c word mem" where
  "arg_blanks n i buf = (if i < n \<and> buf i = 0x20 then arg_blanks n (i + 1) (buf(i := 0)) else (i, buf))"
  by pat_completeness auto
termination by (relation "measure (\<lambda>(n, i, buf). n - i)") auto

function arg_word :: "nat \<Rightarrow> nat \<Rightarrow> ('c::len word) mem \<Rightarrow> nat" where
  "arg_word n i buf = (if i < n \<and> buf i \<noteq> 0 \<and> buf i \<noteq> 0x20 then arg_word n (i + 1) buf else i)"
  by pat_completeness auto
termination by (relation "measure (\<lambda>(n, i, buf). n - i)") auto

declare arg_blanks.simps [simp del] arg_word.simps [simp del]

lemma arg_blanks_ge: "i \<le> fst (arg_blanks n i buf)"
proof (induction n i buf rule: arg_blanks.induct)
  case (1 n i buf)
  then show ?case by (subst arg_blanks.simps) (auto simp: fun_upd_def dest: Suc_leD)
qed

lemma arg_blanks_stop: "arg_blanks n i buf = (j, buf') \<Longrightarrow> j < n \<Longrightarrow> buf' j \<noteq> 0x20"
proof (induction n i buf rule: arg_blanks.induct)
  case (1 n i buf)
  then show ?case by (subst (asm) (2) arg_blanks.simps) (auto simp: fun_upd_def split: if_splits)
qed

lemma arg_word_ge: "i \<le> arg_word n i buf"
proof (induction n i buf rule: arg_word.induct)
  case (1 n i buf)
  then show ?case by (subst arg_word.simps) (auto dest: Suc_leD)
qed

lemma arg_word_gt: "i < n \<Longrightarrow> buf i \<noteq> 0 \<Longrightarrow> buf i \<noteq> 0x20 \<Longrightarrow> i < arg_word n i buf"
  using arg_word_ge [of "Suc i" n buf] by (subst arg_word.simps) simp

function arg_loop :: "nat \<Rightarrow> nat \<Rightarrow> ('c::len word) mem \<Rightarrow> nat list \<Rightarrow> 'c word mem \<times> nat list" where
  "arg_loop n i buf argv =
     (if i < n \<and> buf i \<noteq> 0 then
        let b = arg_blanks n i buf in
        if n \<le> fst b \<or> snd b (fst b) = 0 then (snd b, argv)
        else arg_loop n (arg_word n (fst b) (snd b)) (snd b) (if length argv < MAX_ARGS then argv @ [fst b] else argv)
      else (buf, argv))"
  by pat_completeness auto
termination
proof (relation "measure (\<lambda>(n, i, buf, argv). n - i)")
  fix n i and buf :: "'a word mem" and argv b
  assume a: "i < n \<and> buf i \<noteq> 0" "b = arg_blanks n i buf" "\<not> (n \<le> fst b \<or> snd b (fst b) = 0)"
  have "snd b (fst b) \<noteq> 0x20" using arg_blanks_stop [of n i buf "fst b" "snd b"] a by simp
  then have "fst b < arg_word n (fst b) (snd b)" using arg_word_gt [of "fst b" n "snd b"] a by simp
  moreover have "i \<le> fst b" using arg_blanks_ge [of i n buf] a(2) by simp
  ultimately show "((n, arg_word n (fst b) (snd b), snd b, if length argv < MAX_ARGS then argv @ [fst b] else argv), n, i, buf, argv)
      \<in> measure (\<lambda>(n, i, buf, argv). n - i)" using a(1) by auto
qed simp

declare arg_loop.simps [simp del]

text \<open>
  \<open>fetched\<close> is the buffer as the service left it and \<open>got\<close> the count it returned. The result is the buffer, the argument
  pointers and \<open>argc\<close>; a null follows the last pointer.
\<close>

definition build_argv :: "u8 mem \<Rightarrow> nat \<Rightarrow> u8 mem \<times> nat list \<times> nat" where
  "build_argv fetched got =
     (let n = min got 255; (buf, argv) = arg_loop n 0 (fetched(n := 0)) [] in (buf, argv, length argv))"

definition getmainargs :: "u8 mem \<Rightarrow> nat \<Rightarrow> bool \<times> bool \<Rightarrow> u8 mem \<times> nat option \<times> nat list option" where
  "getmainargs fetched got nulls =
     (let (buf, argv, argc) = build_argv fetched got in
      (buf, if fst nulls then None else Some argc, if snd nulls then None else Some argv))"

text \<open>The wide buffer keeps what earlier calls left behind the copied part.\<close>

fun widen :: "nat \<Rightarrow> nat \<Rightarrow> u8 mem \<Rightarrow> u16 mem \<Rightarrow> u16 mem" where
  "widen i 0 bytes buf = buf"
| "widen i (Suc k) bytes buf = widen (Suc i) k bytes (buf(i := ucast (bytes i)))"

definition wgetmainargs :: "u8 mem \<Rightarrow> nat \<Rightarrow> bool \<times> bool \<Rightarrow> u16 mem \<Rightarrow> u16 mem \<times> nat option \<times> nat list option" where
  "wgetmainargs fetched got nulls wbuf =
     (let n = min got 255; (buf, argv) = arg_loop n 0 ((widen 0 n fetched wbuf)(n := 0)) [] in
      (buf, if fst nulls then None else Some (length argv), if snd nulls then None else Some argv))"

section \<open>Initialiser tables\<close>

text \<open>An entry is null or a function on the state of the program.\<close>

fun initterm :: "('s \<Rightarrow> 's) option list \<Rightarrow> 's \<Rightarrow> 's" where
  "initterm [] s = s"
| "initterm (None # fs) s = initterm fs s"
| "initterm (Some f # fs) s = initterm fs (f s)"

fun initterm_e :: "('s \<Rightarrow> int \<times> 's) option list \<Rightarrow> 's \<Rightarrow> int \<times> 's" where
  "initterm_e [] s = (0, s)"
| "initterm_e (None # fs) s = initterm_e fs s"
| "initterm_e (Some f # fs) s = (let (r, s) = f s in if r \<noteq> 0 then (r, s) else initterm_e fs s)"

section \<open>The words of the command line\<close>

lemma arg_blanks_cstr:
  assumes z: "(0x20 :: 'c::len word) \<noteq> 0"
  shows "cstr buf i xs \<Longrightarrow> i + length xs \<le> n \<Longrightarrow>
    arg_blanks n i buf = (i + length (takeWhile (\<lambda>c. c = 0x20) xs),
      \<lambda>a. if i \<le> a \<and> a < i + length (takeWhile (\<lambda>c. c = (0x20 :: 'c word)) xs) then 0 else buf a)"
proof (induction xs arbitrary: i buf)
  case Nil
  then show ?case using z by (subst arg_blanks.simps) (auto simp: fun_eq_iff)
next
  case (Cons x xs)
  show ?case
  proof (cases "x = 0x20")
    case True
    have "cstr (buf(i := 0)) (Suc i) xs" using Cons.prems by (auto intro: cstr_other)
    then have "arg_blanks n (Suc i) (buf(i := 0)) = (Suc i + length (takeWhile (\<lambda>c. c = 0x20) xs),
      \<lambda>a. if Suc i \<le> a \<and> a < Suc i + length (takeWhile (\<lambda>c. c = (0x20 :: 'c word)) xs) then 0 else (buf(i := 0)) a)"
      by (rule Cons.IH) (use Cons.prems in simp)
    then show ?thesis using True Cons.prems by (subst arg_blanks.simps) (auto simp: fun_eq_iff)
  next
    case False
    then show ?thesis using Cons.prems by (subst arg_blanks.simps) (auto simp: fun_eq_iff)
  qed
qed

lemma arg_word_cstr:
  "cstr buf i xs \<Longrightarrow> i + length xs \<le> n \<Longrightarrow> arg_word n i buf = i + length (takeWhile (\<lambda>c. c \<noteq> (0x20 :: 'c::len word)) xs)"
proof (induction xs arbitrary: i)
  case Nil
  then show ?case by (subst arg_word.simps) simp
next
  case (Cons x xs)
  then show ?case using Cons.IH [of "Suc i"] by (subst arg_word.simps) auto
qed

lemma tokens_sep: "d \<in> set ds \<Longrightarrow> tokens ds (d # xs) = tokens ds xs"
  by (subst (1 2) tokens.simps) simp

lemma tokens_tl: "vs = [] \<or> hd vs \<in> set ds \<Longrightarrow> tokens ds (tl vs) = tokens ds vs"
  by (cases vs) (simp_all add: tokens_sep)

lemma cstr_frame_from: "cstr m s xs \<Longrightarrow> (\<And>a. s \<le> a \<Longrightarrow> m' a = m a) \<Longrightarrow> cstr m' s xs"
  by (rule cstr_frame) auto

lemma arg_loop_cstr:
  assumes z: "(0x20 :: 'c::len word) \<noteq> 0"
  shows "cstr buf i xs \<Longrightarrow> i + length xs \<le> n \<Longrightarrow>
    \<exists>ps buf'. arg_loop n i buf argv = (buf', argv @ take (MAX_ARGS - length argv) ps) \<and>
      list_all2 (cstr buf') ps (tokens [0x20 :: 'c word] xs) \<and>
      (\<forall>a. a < i \<or> i + length xs \<le> a \<longrightarrow> buf' a = buf a) \<and> (xs \<noteq> [] \<longrightarrow> hd xs = 0x20 \<longrightarrow> buf' i = 0)"
proof (induction "length xs" arbitrary: xs i buf argv rule: less_induct)
  case less
  define us ts where "us = takeWhile (\<lambda>c. c = 0x20) xs" and "ts = dropWhile (\<lambda>c. c = 0x20) xs"
  define tk vs where "tk = takeWhile (\<lambda>c. c \<noteq> 0x20) ts" and "vs = dropWhile (\<lambda>c. c \<noteq> 0x20) ts"
  have eqs: "xs = us @ tk @ vs" "ts = tk @ vs" by (simp_all add: us_def ts_def tk_def vs_def)
  have cs: "cstr buf (i + length us) ts" using less.prems(1) eqs cstr_append by metis
  define b1 where "b1 = (\<lambda>a. if i \<le> a \<and> a < i + length us then 0 else buf a)"
  have ab: "arg_blanks n i buf = (i + length us, b1)" using arg_blanks_cstr [OF z less.prems] by (simp add: us_def b1_def)
  have c1: "cstr b1 (i + length us) ts" by (rule cstr_frame_from [OF cs]) (simp add: b1_def)
  have hd0: "xs \<noteq> [] \<Longrightarrow> hd xs = 0x20 \<Longrightarrow> us \<noteq> []" by (cases xs) (simp_all add: us_def)
  show ?case
  proof (cases xs)
    case Nil
    then show ?thesis using less.prems by (subst arg_loop.simps) (auto simp: tokens.simps)
  next
    case (Cons x xs')
    then have go: "i < n \<and> buf i \<noteq> 0" using less.prems by auto
    show ?thesis
    proof (cases ts)
      case Nil
      then have "tokens [0x20] xs = []" by (subst tokens.simps) (simp add: ts_def [symmetric])
      moreover have "b1 (i + length us) = 0" using c1 unfolding Nil cstr.simps .
      moreover have "arg_loop n i buf argv = (b1, argv)"
        by (subst arg_loop.simps) (simp only: ab Let_def fst_conv snd_conv go calculation if_True simp_thms)
      moreover have "\<forall>a. a < i \<or> i + length xs \<le> a \<longrightarrow> b1 a = buf a" using eqs by (simp add: b1_def)
      moreover have "xs \<noteq> [] \<longrightarrow> hd xs = 0x20 \<longrightarrow> b1 i = 0" using hd0 by (simp add: b1_def)
      ultimately show ?thesis by (intro exI [of _ "[]"] exI [of _ b1]) simp
    next
      case (Cons t ts')
      have t: "t \<noteq> 0x20" using hd_dropWhile [of "\<lambda>c. c = 0x20" xs] Cons by (simp add: ts_def [symmetric])
      then have tkne: "tk \<noteq> []" using Cons by (simp add: tk_def)
      have len: "length vs < length xs" "i + length us + length tk + length vs \<le> n" using eqs tkne less.prems(2) by auto
      have stop: "\<not> (n \<le> i + length us \<or> b1 (i + length us) = 0)" using c1 Cons len tkne by (cases tk) auto
      have aw: "arg_word n (i + length us) b1 = i + length us + length tk"
      proof -
        have "length ts = length tk + length vs" by (simp add: eqs(2))
        then show ?thesis using arg_word_cstr [OF c1, of n] len(2) by (simp add: tk_def [symmetric])
      qed
      have cv: "cstr b1 (i + length us + length tk) vs" and ctk: "\<forall>k<length tk. b1 (i + length us + k) = tk ! k" "0 \<notin> set tk"
        using c1 unfolding eqs(2) cstr_append by auto
      let ?argv = "if length argv < MAX_ARGS then argv @ [i + length us] else argv"
      obtain ps buf' where IH: "arg_loop n (i + length us + length tk) b1 ?argv = (buf', ?argv @ take (MAX_ARGS - length ?argv) ps)"
        "list_all2 (cstr buf') ps (tokens [0x20] vs)"
        "\<forall>a. a < i + length us + length tk \<or> i + length us + length tk + length vs \<le> a \<longrightarrow> buf' a = b1 a"
        "vs \<noteq> [] \<longrightarrow> hd vs = 0x20 \<longrightarrow> buf' (i + length us + length tk) = 0"
        using less.hyps [OF len(1) cv, of ?argv] len(2) by blast
      have hv: "vs = [] \<or> hd vs = 0x20" using hd_dropWhile [of "\<lambda>c. c \<noteq> 0x20" ts] by (auto simp: vs_def)
      have tok: "tokens [0x20] xs = tk # tokens [0x20] vs"
      proof -
        have "tokens [0x20] xs = tk # tokens [0x20] (tl vs)"
          by (subst tokens.simps) (simp add: ts_def [symmetric] tk_def vs_def Cons t)
        then show ?thesis using tokens_tl [of vs "[0x20]"] hv by simp
      qed
      have "buf' (i + length us + length tk) = 0" using IH(3,4) hv cv by (cases vs) auto
      then have "cstr buf' (i + length us) tk" using ctk IH(3) by (simp add: cstr_iff)
      moreover have "arg_loop n i buf argv = (buf', argv @ take (MAX_ARGS - length argv) ((i + length us) # ps))"
        using go ab stop aw IH(1) by (subst arg_loop.simps) (auto simp: Let_def take_Cons')
      moreover have "\<forall>a. a < i \<or> i + length xs \<le> a \<longrightarrow> buf' a = buf a" using IH(3) eqs(1) tkne by (auto simp: b1_def)
      moreover have "xs \<noteq> [] \<longrightarrow> hd xs = 0x20 \<longrightarrow> buf' i = 0" using IH(3) hd0 tkne by (auto simp: b1_def)
      ultimately show ?thesis using tok IH(2) by (intro exI [of _ "(i + length us) # ps"] exI [of _ buf']) simp
    qed
  qed
qed

lemma cstr_takeWhile:
  "cstr (\<lambda>a. if a = n then 0 else f a) i (takeWhile (\<lambda>c. c \<noteq> 0) (map f [i..<n]))" if "i \<le> n"
  using that
proof (induction "n - i" arbitrary: i)
  case (Suc k)
  then have i: "i < n" by simp
  have "cstr (\<lambda>a. if a = n then 0 else f a) (Suc i) (takeWhile (\<lambda>c. c \<noteq> 0) (map f [Suc i..<n]))"
    by (rule Suc.hyps(1)) (use Suc.hyps(2) i in auto)
  then show ?case using i by (simp add: upt_conv_Cons)
qed simp

lemma ucast8_eq_0: "ucast c = (0 :: u16) \<longleftrightarrow> c = 0" for c :: u8
  by (transfer, simp add: take_bit_take_bit)

lemma widen_eq: "widen i k bytes buf a = (if i \<le> a \<and> a < i + k then ucast (bytes a) else buf a)"
  by (induction k arbitrary: i buf) auto

lemma arg_loop_line:
  assumes z: "(0x20 :: 'c::len word) \<noteq> 0"
  shows "\<exists>ps buf. arg_loop n 0 (f(n := 0)) [] = (buf, take MAX_ARGS ps) \<and>
    list_all2 (cstr buf) ps (tokens [0x20 :: 'c word] (takeWhile (\<lambda>c. c \<noteq> 0) (map f [0..<n])))"
proof -
  let ?line = "takeWhile (\<lambda>c. c \<noteq> 0) (map f [0..<n])"
  have "cstr (f(n := 0)) 0 ?line" using cstr_takeWhile [of 0 n f] by (simp add: fun_upd_def)
  moreover have "length ?line \<le> n" using length_takeWhile_le [of "\<lambda>c. c \<noteq> 0" "map f [0..<n]"] by simp
  ultimately show ?thesis using arg_loop_cstr [OF z, of "f(n := 0)" 0 ?line n "[]"] by auto
qed

text \<open>
  C38. \<^verbatim>\<open>build_argv\<close> and \<^verbatim>\<open>__wgetmainargs\<close> split the fetched command line, cut to 255 units and ended at its first null, into
  its blank-separated words: the argument pointers lead to the first 32 of them in order, each ended in place in the
  buffer, and the count is theirs.
\<close>

theorem command_line_words:
  "(\<exists>buf ps. build_argv fetched got = (buf, take 32 ps, length (take 32 ps)) \<and>
      list_all2 (cstr buf) ps (tokens [0x20] (takeWhile (\<lambda>c. c \<noteq> 0) (map fetched [0..<min got 255])))) \<and>
   (\<exists>buf ps. wgetmainargs fetched got (False, False) wbuf = (buf, Some (length (take 32 ps)), Some (take 32 ps)) \<and>
      list_all2 (cstr buf) ps (tokens [0x20] (map ucast (takeWhile (\<lambda>c. c \<noteq> 0) (map fetched [0..<min got 255])))))"
proof
  obtain ps buf where a: "arg_loop (min got 255) 0 (fetched(min got 255 := 0)) [] = (buf, take MAX_ARGS ps)" and
    l: "list_all2 (cstr buf) ps (tokens [0x20] (takeWhile (\<lambda>c. c \<noteq> 0) (map fetched [0..<min got 255])))"
    using arg_loop_line [of "min got 255" fetched] by auto
  have b: "build_argv fetched got = (buf, take 32 ps, length (take 32 ps))"
    by (simp only: build_argv_def Let_def a MAX_ARGS_def prod.case)
  show "\<exists>buf ps. build_argv fetched got = (buf, take 32 ps, length (take 32 ps)) \<and>
      list_all2 (cstr buf) ps (tokens [0x20] (takeWhile (\<lambda>c. c \<noteq> 0) (map fetched [0..<min got 255])))"
    using b l by blast
  let ?w = "widen 0 (min got 255) fetched wbuf"
  have e: "map ?w [0..<min got 255] = map (\<lambda>i. ucast (fetched i)) [0..<min got 255]" by (simp add: widen_eq)
  have line: "takeWhile (\<lambda>c. c \<noteq> 0) (map ?w [0..<min got 255]) = map ucast (takeWhile (\<lambda>c. c \<noteq> 0) (map fetched [0..<min got 255]))"
    unfolding e by (simp add: takeWhile_map comp_def ucast8_eq_0)
  obtain ps buf where a: "arg_loop (min got 255) 0 (?w(min got 255 := 0)) [] = (buf, take MAX_ARGS ps)" and
    l: "list_all2 (cstr buf) ps (tokens [0x20] (takeWhile (\<lambda>c. c \<noteq> 0) (map ?w [0..<min got 255])))"
    using arg_loop_line [of "min got 255" ?w] by auto
  have b: "wgetmainargs fetched got (False, False) wbuf = (buf, Some (length (take 32 ps)), Some (take 32 ps))"
    by (simp only: wgetmainargs_def Let_def a MAX_ARGS_def prod.case fst_conv snd_conv if_False)
  show "\<exists>buf ps. wgetmainargs fetched got (False, False) wbuf = (buf, Some (length (take 32 ps)), Some (take 32 ps)) \<and>
      list_all2 (cstr buf) ps (tokens [0x20] (map ucast (takeWhile (\<lambda>c. c \<noteq> 0) (map fetched [0..<min got 255]))))"
    using b l unfolding line by blast
qed

end
