(* ===== verification/Crt_Heap.thy ===== *)
theory Crt_Heap
  imports Crt_String_Laws
begin

unbundle bit_operations_syntax

text \<open>
  The C heap (\<^verbatim>\<open>msvcrt/src/lib.rs\<close>): \<^verbatim>\<open>malloc\<close>, \<^verbatim>\<open>free\<close>, \<^verbatim>\<open>calloc\<close> and \<^verbatim>\<open>realloc\<close> over a bump region and a first-fit free
  list. A block starts with a header of two words, its total size and the link of the free list; the headers and the
  bytes behind them are kept apart, and addresses wrap as they do in a release build. The kernel service that gives new
  regions is a parameter.
\<close>

section \<open>Model\<close>

record 'k crt_heap =
  bump :: u64
  bump_end :: u64
  free_head :: u64
  hsize :: "u64 \<Rightarrow> u64"
  hnext :: "u64 \<Rightarrow> u64"
  contents :: "u8 mem"
  vm_state :: 'k

definition HEAP_CHUNK :: u64 where "HEAP_CHUNK = 0x10000"

definition align16 :: "u64 \<Rightarrow> u64" where
  "align16 x = (x + 15) AND NOT 15"

text \<open>The first block of the free list that is large enough and the node whose link leads to it, none for the list head.\<close>

partial_function (option) fit_loop :: "'k crt_heap \<Rightarrow> u64 \<Rightarrow> u64 option \<Rightarrow> u64 \<Rightarrow> (u64 option \<times> u64) option option" where
  "fit_loop h want prev cur =
     (if cur = 0 then Some None
      else if want \<le> hsize h cur then Some (Some (prev, cur))
      else fit_loop h want (Some cur) (hnext h cur))"

definition unlink_block :: "u64 option \<Rightarrow> u64 \<Rightarrow> 'k crt_heap \<Rightarrow> 'k crt_heap" where
  "unlink_block prev cur h =
     (case prev of
        None \<Rightarrow> h\<lparr>free_head := hnext h cur\<rparr>
      | Some p \<Rightarrow> h\<lparr>hnext := (hnext h)(p := hnext h cur)\<rparr>)"

definition bump_alloc :: "u64 \<Rightarrow> 'k crt_heap \<Rightarrow> u64 \<times> 'k crt_heap" where
  "bump_alloc want h =
     (let hdr = bump h in (hdr + 16, h\<lparr>bump := hdr + want, hsize := (hsize h)(hdr := want)\<rparr>))"

definition malloc :: "(u64 \<Rightarrow> 'k \<Rightarrow> u64 \<times> 'k) \<Rightarrow> u64 \<Rightarrow> 'k crt_heap \<Rightarrow> (u64 \<times> 'k crt_heap) option" where
  "malloc vm n h = do {
     let want = align16 (n + 16);
     fit \<leftarrow> fit_loop h want None (free_head h);
     (case fit of
        Some (prev, cur) \<Rightarrow> Some (cur + 16, unlink_block prev cur h)
      | None \<Rightarrow>
          if bump_end h < bump h + want then
            let chunk = (if HEAP_CHUNK < want then align16 want else HEAP_CHUNK);
                (base, k) = vm chunk (vm_state h);
                h = h\<lparr>vm_state := k\<rparr>
            in if base = 0 then Some (0, h)
               else Some (bump_alloc want (h\<lparr>bump := base, bump_end := base + chunk\<rparr>))
          else Some (bump_alloc want h))
   }"

definition free :: "u64 \<Rightarrow> 'k crt_heap \<Rightarrow> 'k crt_heap" where
  "free p h =
     (if p = 0 then h
      else let hdr = p - 16 in h\<lparr>hnext := (hnext h)(hdr := free_head h), free_head := hdr\<rparr>)"

definition calloc :: "(u64 \<Rightarrow> 'k \<Rightarrow> u64 \<times> 'k) \<Rightarrow> u64 \<Rightarrow> u64 \<Rightarrow> 'k crt_heap \<Rightarrow> (u64 \<times> 'k crt_heap) option" where
  "calloc vm count n h = do {
     let n = count * n;
     (p, h) \<leftarrow> malloc vm n h;
     Some (p, if p \<noteq> 0 then h\<lparr>contents := fill_up (unat p) 0 0 (unat n) (contents h)\<rparr> else h)
   }"

definition realloc :: "(u64 \<Rightarrow> 'k \<Rightarrow> u64 \<times> 'k) \<Rightarrow> u64 \<Rightarrow> u64 \<Rightarrow> 'k crt_heap \<Rightarrow> (u64 \<times> 'k crt_heap) option" where
  "realloc vm p n h =
     (if p = 0 then malloc vm n h
      else do {
        let old_cap = unat (hsize h (p - 16)) - 16;
        (np, h) \<leftarrow> malloc vm n h;
        Some (np, if np \<noteq> 0
          then free p (h\<lparr>contents := snd (memcpy (unat np) (unat p) (min old_cap (unat n)) (contents h))\<rparr>)
          else h)
      })"

section \<open>Blocks\<close>

fun chain :: "(u64 \<Rightarrow> u64) \<Rightarrow> u64 \<Rightarrow> u64 list \<Rightarrow> bool" where
  "chain nx p [] \<longleftrightarrow> p = 0"
| "chain nx p (x # xs) \<longleftrightarrow> p = x \<and> x \<noteq> 0 \<and> chain nx (nx x) xs"

definition region :: "'k crt_heap \<Rightarrow> u64 \<Rightarrow> nat set" where
  "region h b = {unat b..<unat b + unat (hsize h b)}"

definition fresh_part :: "'k crt_heap \<Rightarrow> nat set" where
  "fresh_part h = {unat (bump h)..<unat (bump_end h)}"

definition block_fits :: "('k \<Rightarrow> nat set) \<Rightarrow> 'k crt_heap \<Rightarrow> u64 \<Rightarrow> bool" where
  "block_fits taken h b \<longleftrightarrow> b \<noteq> 0 \<and> 16 \<le> unat (hsize h b) \<and> unat b + unat (hsize h b) < 2 ^ 63 \<and>
     region h b \<subseteq> taken (vm_state h) \<and> region h b \<inter> fresh_part h = {}"

definition blocks_ok :: "('k \<Rightarrow> nat set) \<Rightarrow> 'k crt_heap \<Rightarrow> u64 set \<Rightarrow> bool" where
  "blocks_ok taken h S \<longleftrightarrow> (\<forall>b\<in>S. block_fits taken h b) \<and> (\<forall>b\<in>S. \<forall>c\<in>S. b \<noteq> c \<longrightarrow> region h b \<inter> region h c = {}) \<and>
     fresh_part h \<subseteq> taken (vm_state h) \<and> bump h \<le> bump_end h \<and> unat (bump_end h) < 2 ^ 63 \<and> (bump h = 0 \<longrightarrow> bump_end h = 0)"

text \<open>\<open>fs\<close> are the free blocks in list order and \<open>ls\<close> the live ones.\<close>

definition heap_ok :: "('k \<Rightarrow> nat set) \<Rightarrow> 'k crt_heap \<Rightarrow> u64 list \<Rightarrow> u64 list \<Rightarrow> bool" where
  "heap_ok taken h fs ls \<longleftrightarrow> chain (hnext h) (free_head h) fs \<and> distinct (fs @ ls) \<and> blocks_ok taken h (set fs \<union> set ls)"

text \<open>
  What the region service is documented to do: a region it gives is not null, does not wrap and is disjoint from what it gave
  before. User addresses are in the lower half.
\<close>

definition gives_regions :: "(u64 \<Rightarrow> 'k \<Rightarrow> u64 \<times> 'k) \<Rightarrow> ('k \<Rightarrow> nat set) \<Rightarrow> bool" where
  "gives_regions vm taken \<longleftrightarrow> (\<forall>n k. case vm n k of (base, k') \<Rightarrow>
     if base = 0 then taken k' = taken k
     else {unat base..<unat base + unat n} \<inter> taken k = {} \<and> taken k' = taken k \<union> {unat base..<unat base + unat n} \<and>
       unat base + unat n < 2 ^ 63)"

lemma and_not_15: "unat (y AND NOT 15 :: u64) = unat y div 16 * 16"
proof -
  have m: "(15 :: u64) = mask 4" by (simp add: mask_eq_exp_minus_1)
  have "y AND NOT 15 = push_bit 4 (drop_bit 4 y)"
    unfolding m by (rule bit_eqI) (auto simp: bit_simps)
  moreover have "take_bit 64 (unat y) = unat y"
    by (rule take_bit_nat_eq_self) (use unsigned_less [of y, where ?'a = nat] in simp)
  ultimately have "unat (y AND NOT 15) = take_bit 64 (push_bit 4 (drop_bit 4 (unat y)))"
    by (simp add: unsigned_push_bit_eq unsigned_drop_bit_eq)
  also have "\<dots> = take_bit 64 (unat y div 16 * 16)" by (simp add: push_bit_eq_mult drop_bit_eq_div)
  also have "\<dots> = unat y div 16 * 16"
    by (rule take_bit_nat_eq_self) (use unsigned_less [of y, where ?'a = nat] in simp)
  finally show ?thesis .
qed

lemma align16_bounds:
  assumes "unat (x :: u64) < 2 ^ 64 - 16"
  shows "unat x \<le> unat (align16 x)" "unat (align16 x) < unat x + 16"
proof -
  have "unat (x + 15) = unat x + 15" using assms by (simp add: unat_word_ariths)
  then show "unat x \<le> unat (align16 x)" "unat (align16 x) < unat x + 16"
    unfolding align16_def and_not_15 by presburger+
qed

end
