(* ===== verification/Crt_Heap_Laws.thy ===== *)
theory Crt_Heap_Laws
  imports Crt_Heap
begin

text \<open>
  What the C heap of \<^verbatim>\<open>msvcrt/src/lib.rs\<close> promises: the blocks stay disjoint through \<^verbatim>\<open>malloc\<close>, \<^verbatim>\<open>free\<close> and \<^verbatim>\<open>realloc\<close>,
  on the free list and on the bump region.
\<close>

section \<open>The free list and the bump region\<close>

lemma fit_loop_chain:
  "chain (hnext h) cur xs \<Longrightarrow> \<exists>r. fit_loop h want prev cur = Some r \<and>
     (case r of None \<Rightarrow> True
      | Some (p, c) \<Rightarrow> \<exists>us vs. xs = us @ c # vs \<and> p = (if us = [] then prev else Some (last us)) \<and> want \<le> hsize h c)"
proof (induction xs arbitrary: prev cur)
  case Nil
  then show ?case by (subst fit_loop.simps) simp
next
  case (Cons x xs)
  show ?case
  proof (cases "want \<le> hsize h x")
    case True
    then show ?thesis using Cons.prems by (subst fit_loop.simps) auto
  next
    case False
    obtain r where r: "fit_loop h want (Some x) (hnext h x) = Some r"
      "case r of None \<Rightarrow> True | Some (p, c) \<Rightarrow> \<exists>us vs. xs = us @ c # vs \<and> p = (if us = [] then Some x else Some (last us)) \<and> want \<le> hsize h c"
      using Cons.IH [of "hnext h x" "Some x"] Cons.prems by auto
    have "fit_loop h want prev cur = Some r" using Cons.prems False r(1) by (subst fit_loop.simps) simp
    moreover have "case r of None \<Rightarrow> True
        | Some (p, c) \<Rightarrow> \<exists>us vs. x # xs = us @ c # vs \<and> p = (if us = [] then prev else Some (last us)) \<and> want \<le> hsize h c"
    proof (cases r)
      case (Some q)
      obtain p c where q: "q = (p, c)" by (cases q)
      then obtain us vs where "xs = us @ c # vs" "p = (if us = [] then Some x else Some (last us))" "want \<le> hsize h c"
        using r(2) Some by auto
      then have "x # xs = (x # us) @ c # vs \<and> p = (if x # us = [] then prev else Some (last (x # us))) \<and> want \<le> hsize h c" by simp
      then show ?thesis using Some q by (simp only: option.case prod.case) blast
    qed simp
    ultimately show ?thesis by blast
  qed
qed

lemma chain_other: "x \<notin> set xs \<Longrightarrow> chain (nx(x := v)) p xs = chain nx p xs"
  by (induction xs arbitrary: p) auto

lemma chain_unlink:
  "chain nx p (us @ c # vs) \<Longrightarrow> distinct (us @ c # vs) \<Longrightarrow> us \<noteq> [] \<Longrightarrow> chain (nx(last us := nx c)) p (us @ vs)"
proof (induction us arbitrary: p)
  case (Cons u us)
  show ?case
  proof (cases "us = []")
    case True
    then show ?thesis using Cons.prems chain_other [of u vs nx "nx c" "nx c"] by (auto simp: fun_upd_def)
  next
    case False
    then have "last us \<noteq> u" using Cons.prems(2) by auto
    then show ?thesis using Cons False by auto
  qed
qed simp

lemma unlink_fields [simp]:
  "hsize (unlink_block prev cur h) = hsize h" "bump (unlink_block prev cur h) = bump h" "bump_end (unlink_block prev cur h) = bump_end h"
  "vm_state (unlink_block prev cur h) = vm_state h" "contents (unlink_block prev cur h) = contents h"
  by (simp_all add: unlink_block_def split: option.split)

lemma blocks_ok_cong:
  assumes "hsize h' = hsize h" "bump h' = bump h" "bump_end h' = bump_end h" "vm_state h' = vm_state h"
  shows "blocks_ok taken h' S = blocks_ok taken h S"
  using assms by (simp add: blocks_ok_def region_def fresh_part_def block_fits_def)

lemma unlink_ok:
  assumes ok: "heap_ok taken h fs ls" and fs: "fs = us @ c # vs" and p: "prev = (if us = [] then None else Some (last us))"
  shows "heap_ok taken (unlink_block prev c h) (us @ vs) (c # ls)"
proof -
  have ch: "chain (hnext h) (free_head h) (us @ c # vs)" and dl: "distinct ((us @ c # vs) @ ls)" using ok fs by (simp_all add: heap_ok_def)
  then have d: "distinct (us @ c # vs)" using distinct_append by blast
  have "chain (hnext (unlink_block prev c h)) (free_head (unlink_block prev c h)) (us @ vs)"
    using ch chain_unlink [OF ch d] p by (cases us) (simp_all add: unlink_block_def)
  moreover have "set (us @ vs) \<union> set (c # ls) = set fs \<union> set ls" using fs by auto
  moreover have "distinct ((us @ vs) @ c # ls)" using dl by (auto simp: Int_Un_distrib)
  moreover have "blocks_ok taken (unlink_block prev c h) (set fs \<union> set ls)"
    using ok blocks_ok_cong [of "unlink_block prev c h" h] by (simp add: heap_ok_def)
  ultimately show ?thesis unfolding heap_ok_def by metis
qed

lemma free_ok:
  assumes ok: "heap_ok taken h fs ls" and b: "b \<in> set ls" and p: "p = b + 16" "p \<noteq> 0"
  shows "heap_ok taken (free p h) (b # fs) (remove1 b ls)"
proof -
  have h': "free p h = h\<lparr>hnext := (hnext h)(b := free_head h), free_head := b\<rparr>" using p by (simp add: free_def Let_def)
  have nz: "b \<noteq> 0" using ok b by (simp add: heap_ok_def blocks_ok_def block_fits_def)
  have dl: "distinct (fs @ ls)" and ch: "chain (hnext h) (free_head h) fs" using ok by (simp_all add: heap_ok_def)
  then have nb: "b \<notin> set fs" using b by auto
  have "chain (hnext (free p h)) (free_head (free p h)) (b # fs)"
    using ch chain_other [OF nb, of "hnext h" "free_head h" "free_head h"] nz by (simp add: h')
  moreover have "set (b # fs) \<union> set (remove1 b ls) = set fs \<union> set ls" "distinct ((b # fs) @ remove1 b ls)"
    using dl b nb by auto
  moreover have "blocks_ok taken (free p h) (set fs \<union> set ls)"
    using ok blocks_ok_cong [of "free p h" h] by (simp add: heap_ok_def h')
  ultimately show ?thesis unfolding heap_ok_def by metis
qed

lemma bump_alloc_ok:
  assumes ok: "heap_ok taken h fs ls" and w: "16 \<le> unat want" "unat (bump h) + unat want \<le> unat (bump_end h)" "bump h \<noteq> 0"
    and r: "bump_alloc want h = (p, h')"
  shows "p = bump h + 16 \<and> heap_ok taken h' fs (bump h # ls) \<and> hsize h' (bump h) = want \<and> vm_state h' = vm_state h \<and> contents h' = contents h \<and>
    (\<forall>b\<in>set fs \<union> set ls. hsize h' b = hsize h b)"
proof -
  let ?B = "bump h" and ?S = "set fs \<union> set ls"
  have bk: "blocks_ok taken h ?S" and ch: "chain (hnext h) (free_head h) fs" and dl: "distinct (fs @ ls)" using ok by (simp_all add: heap_ok_def)
  have e: "unat (bump_end h) < 2 ^ 63" using bk by (simp add: blocks_ok_def)
  have h': "p = ?B + 16" "h' = h\<lparr>bump := ?B + want, hsize := (hsize h)(?B := want)\<rparr>" using r by (simp_all add: bump_alloc_def Let_def)
  have u: "unat (?B + want) = unat ?B + unat want" using w(2) e by (simp add: unat_word_ariths)
  have inB: "unat ?B \<in> fresh_part h" using w(1,2) by (simp add: fresh_part_def)
  have "b \<noteq> ?B" if "b \<in> ?S" for b
  proof
    assume "b = ?B"
    moreover have "block_fits taken h b" using bk that by (simp add: blocks_ok_def)
    ultimately have "unat ?B \<in> region h b" "region h b \<inter> fresh_part h = {}" by (auto simp: block_fits_def region_def)
    then show False using inB by blast
  qed
  then have notin: "?B \<notin> ?S" by blast
  have reg: "region h' b = region h b" "hsize h' b = hsize h b" if "b \<in> ?S" for b
    using that notin by (auto simp: region_def h'(2))
  have regB: "region h' ?B = {unat ?B..<unat ?B + unat want}" by (simp add: region_def h'(2))
  have fp: "fresh_part h' = {unat ?B + unat want..<unat (bump_end h)}" by (simp add: fresh_part_def h'(2) u)
  have sub: "region h' ?B \<subseteq> fresh_part h" "fresh_part h' \<subseteq> fresh_part h" "region h' ?B \<inter> fresh_part h' = {}"
    using w(2) unfolding regB fp by (auto simp: fresh_part_def)
  have old: "block_fits taken h b" "region h b \<inter> fresh_part h = {}" if "b \<in> ?S" for b
    using bk that by (simp_all add: blocks_ok_def block_fits_def)
  have tk: "fresh_part h \<subseteq> taken (vm_state h)" using bk by (simp add: blocks_ok_def)
  have fits: "block_fits taken h' b" if "b \<in> ?S" for b
    using old [OF that] reg [OF that] sub(2) by (auto simp: block_fits_def h'(2))
  have fitB: "block_fits taken h' ?B"
    using w sub tk e by (auto simp: block_fits_def h'(2))
  have disB: "region h' b \<inter> region h' ?B = {}" if "b \<in> ?S" for b
    using old(2) [OF that] reg(1) [OF that] sub(1) by blast
  have dis: "region h' b \<inter> region h' c = {}" if "b \<in> insert ?B ?S" "c \<in> insert ?B ?S" "b \<noteq> c" for b c
  proof (cases "b = ?B \<or> c = ?B")
    case True
    then show ?thesis using disB that by blast
  next
    case False
    then show ?thesis using that reg(1) bk unfolding blocks_ok_def by auto
  qed
  have "fresh_part h' \<subseteq> taken (vm_state h')" using sub(2) tk by (auto simp: h'(2))
  moreover have "bump h' \<le> bump_end h'" "bump h' \<noteq> 0"
    using u w by (simp_all add: h'(2) word_le_nat_alt unat_eq_0 [symmetric] del: unat_eq_0)
  ultimately have "blocks_ok taken h' (insert ?B ?S)"
    unfolding blocks_ok_def using fits fitB dis e by (auto simp: h'(2))
  moreover have "set fs \<union> set (?B # ls) = insert ?B ?S" by simp
  moreover have "chain (hnext h') (free_head h') fs" using ch by (simp add: h'(2))
  moreover have "distinct (fs @ ?B # ls)" using dl notin by simp
  ultimately have "heap_ok taken h' fs (?B # ls)" unfolding heap_ok_def by metis
  then show ?thesis using h' reg(2) by (simp add: h'(2))
qed

text \<open>A block of at least \<open>n\<close> bytes behind its header has become live; \<open>p\<close> points to the bytes.\<close>

definition allocated :: "('k \<Rightarrow> nat set) \<Rightarrow> u64 \<Rightarrow> u64 \<Rightarrow> u64 list \<Rightarrow> 'k crt_heap \<Rightarrow> 'k crt_heap \<Rightarrow> bool" where
  "allocated taken n p ls h h' \<longleftrightarrow> (\<exists>b fs'. p = b + 16 \<and> b \<notin> set ls \<and> heap_ok taken h' fs' (b # ls) \<and>
     unat n + 16 \<le> unat (hsize h' b) \<and> (\<forall>c\<in>set ls. hsize h' c = hsize h c))"

lemma live_nonnull:
  assumes "heap_ok taken h fs ls" "b \<in> set ls"
  shows "unat (b + 16) = unat b + 16" "b + 16 \<noteq> 0"
proof -
  have "unat b + unat (hsize h b) < 2 ^ 63" "16 \<le> unat (hsize h b)"
    using assms by (simp_all add: heap_ok_def blocks_ok_def block_fits_def)
  then show u: "unat (b + 16) = unat b + 16" by (simp add: unat_word_ariths)
  show "b + 16 \<noteq> 0" using u by (metis add_is_0 unat_0 zero_neq_numeral)
qed

lemma want_bounds:
  assumes "unat n < 2 ^ 62"
  shows "unat n + 16 \<le> unat (align16 (n + 16))" "unat (align16 (n + 16)) < 2 ^ 62 + 32"
proof -
  have "unat (n + 16) = unat n + 16" using assms by (simp add: unat_word_ariths)
  then show "unat n + 16 \<le> unat (align16 (n + 16))" "unat (align16 (n + 16)) < 2 ^ 62 + 32"
    using align16_bounds [of "n + 16"] assms by auto
qed

lemma new_region_ok:
  assumes ok: "heap_ok taken h fs ls" and g: "gives_regions vm taken" and v: "vm chunk (vm_state h) = (base, k)" "base \<noteq> 0"
  shows "heap_ok taken (h\<lparr>vm_state := k, bump := base, bump_end := base + chunk\<rparr>) fs ls \<and> unat (base + chunk) = unat base + unat chunk"
proof -
  let ?h = "h\<lparr>vm_state := k, bump := base, bump_end := base + chunk\<rparr>" and ?S = "set fs \<union> set ls"
  have r: "{unat base..<unat base + unat chunk} \<inter> taken (vm_state h) = {}"
    "taken k = taken (vm_state h) \<union> {unat base..<unat base + unat chunk}" "unat base + unat chunk < 2 ^ 63"
    using spec [OF spec [OF g [unfolded gives_regions_def], of chunk], of "vm_state h"] v by simp_all
  have u: "unat (base + chunk) = unat base + unat chunk" using r(3) by (simp add: unat_word_ariths)
  have bk: "blocks_ok taken h ?S" using ok by (simp add: heap_ok_def)
  have fp: "fresh_part ?h = {unat base..<unat base + unat chunk}" and reg: "region ?h = region h"
    by (simp_all add: fresh_part_def u region_def fun_eq_iff)
  have "block_fits taken ?h b" if "b \<in> ?S" for b
  proof -
    have "block_fits taken h b" using bk that by (simp add: blocks_ok_def)
    then show ?thesis using r(1,2) unfolding block_fits_def fp reg by auto
  qed
  then have "blocks_ok taken ?h ?S"
    using bk r(2,3) v(2) unfolding blocks_ok_def fp reg by (auto simp: u word_le_nat_alt)
  then show ?thesis using ok u by (simp add: heap_ok_def)
qed

lemma bump_allocated:
  assumes ok: "heap_ok taken h fs ls" and w: "unat n + 16 \<le> unat want" "unat (bump h) + unat want \<le> unat (bump_end h)" "bump h \<noteq> 0"
    and r: "bump_alloc want h = (p, h')"
  shows "p \<noteq> 0 \<and> contents h' = contents h \<and> allocated taken n p ls h h'"
proof -
  have s: "p = bump h + 16" "heap_ok taken h' fs (bump h # ls)" "hsize h' (bump h) = want" "contents h' = contents h"
    "\<forall>b\<in>set fs \<union> set ls. hsize h' b = hsize h b"
    using bump_alloc_ok [OF ok _ w(2,3) r] w(1) by auto
  moreover have "bump h \<notin> set ls" using s(2) by (simp add: heap_ok_def)
  ultimately show ?thesis using live_nonnull [OF s(2), of "bump h"] w(1) unfolding allocated_def by auto
qed

lemma malloc_spec:
  assumes ok: "heap_ok taken h fs ls" and g: "gives_regions vm taken" and n: "unat n < 2 ^ 62"
  shows "\<exists>p h'. malloc vm n h = Some (p, h') \<and> contents h' = contents h \<and>
    (if p = 0 then heap_ok taken h' fs ls \<and> hsize h' = hsize h else allocated taken n p ls h h')"
proof -
  let ?w = "align16 (n + 16)"
  note wb = want_bounds [OF n]
  obtain r where r: "fit_loop h ?w None (free_head h) = Some r"
    "case r of None \<Rightarrow> True | Some (p, c) \<Rightarrow> \<exists>us vs. fs = us @ c # vs \<and> p = (if us = [] then None else Some (last us)) \<and> ?w \<le> hsize h c"
    using fit_loop_chain [of h "free_head h" fs ?w None] ok by (auto simp: heap_ok_def)
  show ?thesis
  proof (cases r)
    case (Some q)
    obtain prev c where q: "q = (prev, c)" by (cases q)
    obtain us vs where f: "fs = us @ c # vs" "prev = (if us = [] then None else Some (last us))" "?w \<le> hsize h c" using r(2) Some q by auto
    note ok' = unlink_ok [OF ok f(1,2)]
    have "allocated taken n (c + 16) ls h (unlink_block prev c h)"
      unfolding allocated_def
    proof (intro exI conjI)
      show "heap_ok taken (unlink_block prev c h) (us @ vs) (c # ls)" by (rule ok')
      then show "c \<notin> set ls" by (simp add: heap_ok_def)
      show "unat n + 16 \<le> unat (hsize (unlink_block prev c h) c)" using f(3) wb(1) by (simp add: word_le_nat_alt)
    qed simp_all
    then show ?thesis using live_nonnull(2) [OF ok', of c] r(1) Some q by (simp add: malloc_def Let_def)
  next
    case None
    have b: "unat (bump h) \<le> unat (bump_end h)" "unat (bump_end h) < 2 ^ 63" "bump h = 0 \<Longrightarrow> bump_end h = 0"
      using ok by (simp_all add: heap_ok_def blocks_ok_def word_le_nat_alt)
    have u: "unat (bump h + ?w) = unat (bump h) + unat ?w" using b wb(2) by (simp add: unat_word_ariths)
    show ?thesis
    proof (cases "bump_end h < bump h + ?w")
      case False
      then have "unat (bump h) + unat ?w \<le> unat (bump_end h)" using u by (simp add: word_less_nat_alt)
      moreover then have "bump h \<noteq> 0" using b(3) wb(1) by auto
      ultimately show ?thesis
        using bump_allocated [OF ok wb(1)] r(1) None False by (cases "bump_alloc ?w h") (auto simp: malloc_def Let_def)
    next
      case True
      let ?chunk = "if HEAP_CHUNK < ?w then align16 ?w else HEAP_CHUNK"
      obtain base k where v: "vm ?chunk (vm_state h) = (base, k)" by fastforce
      show ?thesis
      proof (cases "base = 0")
        case True
        have "taken k = taken (vm_state h)" using spec [OF spec [OF g [unfolded gives_regions_def], of ?chunk], of "vm_state h"] v True by simp
        then have "heap_ok taken (h\<lparr>vm_state := k\<rparr>) fs ls"
          using ok by (simp add: heap_ok_def blocks_ok_def block_fits_def fresh_part_def region_def)
        then show ?thesis using r(1) None \<open>bump_end h < bump h + ?w\<close> v True by (simp add: malloc_def Let_def)
      next
        case False
        let ?h = "h\<lparr>vm_state := k, bump := base, bump_end := base + ?chunk\<rparr>"
        note nr = new_region_ok [OF ok g v False]
        have "unat ?w \<le> unat ?chunk"
          using align16_bounds(1) [of ?w] wb(2) by (auto simp: word_less_nat_alt HEAP_CHUNK_def)
        then have fit: "unat (bump ?h) + unat ?w \<le> unat (bump_end ?h)" "bump ?h \<noteq> 0" using nr False by simp_all
        obtain p h' where ba: "bump_alloc ?w ?h = (p, h')" by fastforce
        have "malloc vm n h = Some (p, h')"
          using r(1) None \<open>bump_end h < bump h + ?w\<close> v False ba by (simp add: malloc_def Let_def)
        then show ?thesis
          using bump_allocated [OF conjunct1 [OF nr] wb(1) fit ba] by (auto simp: allocated_def)
      qed
    qed
  qed
qed

section \<open>Properties\<close>

lemma heap_ok_contents: "heap_ok taken (h\<lparr>contents := m\<rparr>) fs ls = heap_ok taken h fs ls"
  using blocks_ok_cong [of "h\<lparr>contents := m\<rparr>" h] by (simp add: heap_ok_def)

lemma free_contents [simp]: "contents (free p h) = contents h" "hsize (free p h) = hsize h"
  by (simp_all add: free_def Let_def)

lemma live_copy:
  assumes ok: "heap_ok taken h fs ls" and b: "b \<in> set ls" and c: "c \<in> set ls" "b \<noteq> c"
    and k: "16 + k \<le> unat (hsize h b)" "16 + k \<le> unat (hsize h c)" and i: "i < k"
  shows "snd (memcpy (unat (c + 16)) (unat (b + 16)) k m) (unat (c + 16) + i) = m (unat (b + 16) + i)"
proof -
  have "region h b \<inter> region h c = {}" using ok b c by (simp add: heap_ok_def blocks_ok_def)
  moreover have "unat c \<in> region h c" using k(2) by (simp add: region_def)
  ultimately have "unat c \<notin> region h b" by blast
  then have "unat (b + 16) + k \<le> unat (c + 16) \<or> unat (c + 16) \<le> unat (b + 16)"
    using k(1) live_nonnull(1) [OF ok b] live_nonnull(1) [OF ok c(1)] by (auto simp: region_def)
  then show ?thesis using i by (simp add: memcpy_eq)
qed

lemma realloc_spec:
  assumes ok: "heap_ok taken h fs ls" and g: "gives_regions vm taken" and n: "unat n < 2 ^ 62" and b: "b \<in> set ls"
  shows "\<exists>np h'. realloc vm (b + 16) n h = Some (np, h') \<and>
    (if np = 0 then heap_ok taken h' fs ls \<and> contents h' = contents h
     else (\<exists>c fs'. np = c + 16 \<and> heap_ok taken h' fs' (c # remove1 b ls) \<and> unat n + 16 \<le> unat (hsize h' c) \<and>
       (\<forall>i<min (unat (hsize h b) - 16) (unat n). contents h' (unat np + i) = contents h (unat (b + 16) + i))))"
proof -
  obtain np h1 where m: "malloc vm n h = Some (np, h1)" "contents h1 = contents h"
    "if np = 0 then heap_ok taken h1 fs ls \<and> hsize h1 = hsize h else allocated taken n np ls h h1"
    using malloc_spec [OF ok g n] by blast
  have nz: "b + 16 \<noteq> 0" by (rule live_nonnull(2) [OF ok b])
  show ?thesis
  proof (cases "np = 0")
    case True
    then show ?thesis using m nz by (simp add: realloc_def)
  next
    case False
    then obtain c fs' where c: "np = c + 16" "c \<notin> set ls" "heap_ok taken h1 fs' (c # ls)" "unat n + 16 \<le> unat (hsize h1 c)"
      "\<forall>c\<in>set ls. hsize h1 c = hsize h c" using m(3) by (auto simp: allocated_def)
    let ?k = "min (unat (hsize h b) - 16) (unat n)"
    let ?h = "h1\<lparr>contents := snd (memcpy (unat np) (unat (b + 16)) ?k (contents h1))\<rparr>"
    have r: "realloc vm (b + 16) n h = Some (np, free (b + 16) ?h)" using m(1) nz False by (simp add: realloc_def Let_def)
    have "heap_ok taken (free (b + 16) ?h) (b # fs') (remove1 b (c # ls))"
      by (rule free_ok [OF _ _ refl nz]) (use c(3) b in \<open>simp_all add: heap_ok_contents\<close>)
    then have ok': "heap_ok taken (free (b + 16) ?h) (b # fs') (c # remove1 b ls)" using c(2) b by (cases "b = c") auto
    have sz: "16 \<le> unat (hsize h b)" using ok b by (simp add: heap_ok_def blocks_ok_def block_fits_def)
    have "contents (free (b + 16) ?h) (unat np + i) = contents h (unat (b + 16) + i)" if "i < ?k" for i
    proof -
      have "16 + ?k \<le> unat (hsize h1 b)" "16 + ?k \<le> unat (hsize h1 c)" "b \<noteq> c" using b c sz by auto
      then show ?thesis using live_copy [OF c(3), of b c ?k i "contents h1"] b c(1) that m(2) by simp
    qed
    then show ?thesis using r ok' c(1,4) False by auto
  qed
qed


text \<open>A region service that hands out one stretch of addresses after the other.\<close>

definition demo_vm :: "u64 \<Rightarrow> u64 \<Rightarrow> u64 \<times> u64" where
  "demo_vm n k = (if k = 0 \<or> 2 ^ 63 \<le> unat k + unat n then (0, k) else (k, k + n))"

lemma demo_vm_ok: "gives_regions demo_vm (\<lambda>k. {..<unat k})"
proof -
  have "unat (k + n) = unat k + unat n" if "unat k + unat n < 2 ^ 63" for k n :: u64
    using that by (simp add: unat_word_ariths)
  then show ?thesis by (auto simp: gives_regions_def demo_vm_def)
qed

definition demo_heap :: "u64 crt_heap" where
  "demo_heap = \<lparr>bump = 0x11020, bump_end = 0x21000, free_head = 0, hsize = (\<lambda>_. 32), hnext = (\<lambda>_. 0), contents = (\<lambda>_. 7), vm_state = 0x21000\<rparr>"


end
