(* ===== verification/Crt_Number.thy ===== *)
theory Crt_Number
  imports Crt_String
begin

text \<open>
  Numbers in the C runtime (\<^verbatim>\<open>msvcrt/src/lib.rs\<close>): the parsers \<^verbatim>\<open>atoi\<close>, \<^verbatim>\<open>wcsto_int\<close> and its two callers, the printer
  \<^verbatim>\<open>_ultow\<close>, and the digit loop of the formatted output. The library is built in release mode, where the 64-bit
  accumulators wrap; an index outside a scratch array still panics, which is \<^term>\<open>None\<close>.
\<close>

section \<open>Parsing\<close>

partial_function (option) skip_blanks :: "('c::len word) mem \<Rightarrow> nat \<Rightarrow> nat option" where
  "skip_blanks m p = (if m p = 0x20 \<or> m p = 0x09 then skip_blanks m (p + 1) else Some p)"

definition take_sign :: "('c::len word) mem \<Rightarrow> nat \<Rightarrow> bool \<times> nat" where
  "take_sign m p = (if m p = 0x2B \<or> m p = 0x2D then (m p = 0x2D, p + 1) else (False, p))"

partial_function (option) atoi_digits :: "u8 mem \<Rightarrow> nat \<Rightarrow> u64 \<Rightarrow> u64 option" where
  "atoi_digits m p v =
     (if 0x30 \<le> m p \<and> m p \<le> 0x39 then atoi_digits m (p + 1) (v * 10 + ucast (m p - 0x30)) else Some v)"

definition atoi :: "u8 mem \<Rightarrow> nat \<Rightarrow> u32 option" where
  "atoi m s = do {
     p \<leftarrow> skip_blanks m s;
     let (neg, p) = take_sign m p;
     v \<leftarrow> atoi_digits m p 0;
     Some (ucast (if neg then - v else v))
   }"

definition wide_digit :: "u16 \<Rightarrow> int option" where
  "wide_digit c =
     (if 0x30 \<le> c \<and> c \<le> 0x39 then Some (uint (c - 0x30))
      else if 0x61 \<le> c \<and> c \<le> 0x66 then Some (uint (c - 0x61 + 10))
      else if 0x41 \<le> c \<and> c \<le> 0x46 then Some (uint (c - 0x41 + 10))
      else None)"

definition base_prefix :: "u16 mem \<Rightarrow> nat \<Rightarrow> int \<Rightarrow> int \<times> nat" where
  "base_prefix m p base =
     (let hex = m p = 0x30 \<and> (m (p + 1) = 0x78 \<or> m (p + 1) = 0x58) in
      if base = 0 then (if hex then (16, p + 2) else if m p = 0x30 then (8, p) else (10, p))
      else if base = 16 \<and> hex then (base, p + 2)
      else (base, p))"

partial_function (option) wcsto_digits :: "u16 mem \<Rightarrow> int \<Rightarrow> nat \<Rightarrow> u64 \<Rightarrow> (u64 \<times> nat) option" where
  "wcsto_digits m base p v =
     (case wide_digit (m p) of
        None \<Rightarrow> Some (v, p)
      | Some d \<Rightarrow> if base \<le> d then Some (v, p) else wcsto_digits m base (p + 1) (v * word_of_int base + word_of_int d))"

text \<open>The value and what is stored through \<open>endptr\<close>: nothing when it is null.\<close>

definition wcsto_int :: "u16 mem \<Rightarrow> nat \<Rightarrow> nat \<Rightarrow> int \<Rightarrow> (u64 \<times> nat option) option" where
  "wcsto_int m s endptr base = do {
     p \<leftarrow> skip_blanks m s;
     let (neg, p) = take_sign m p;
     let (base, p) = base_prefix m p base;
     (v, p) \<leftarrow> wcsto_digits m base p 0;
     Some (if neg then - v else v, if endptr \<noteq> 0 then Some p else None)
   }"

definition wcstol :: "u16 mem \<Rightarrow> nat \<Rightarrow> nat \<Rightarrow> int \<Rightarrow> (u64 \<times> nat option) option" where
  "wcstol m s endptr base = wcsto_int m s endptr base"

definition wcstoul :: "u16 mem \<Rightarrow> nat \<Rightarrow> nat \<Rightarrow> int \<Rightarrow> (u64 \<times> nat option) option" where
  "wcstoul m s endptr base = wcsto_int m s endptr base"

section \<open>Printing\<close>

definition ultow_digit :: "u8 \<Rightarrow> u8" where
  "ultow_digit d = (if d < 10 then 0x30 + d else 0x61 + (d - 10))"

function ultow_loop :: "u32 \<Rightarrow> u32 \<Rightarrow> u8 list \<Rightarrow> u8 list option" where
  "ultow_loop val radix tmp =
     (if 32 \<le> length tmp then None
      else let tmp = tmp @ [ultow_digit (ucast (val mod radix))]; val = val div radix in
        if val = 0 then Some tmp else ultow_loop val radix tmp)"
  by pat_completeness auto
termination
  by (relation "measure (\<lambda>(val, radix, tmp). 32 - length tmp)") auto

fun put_units :: "nat \<Rightarrow> 'c list \<Rightarrow> 'c mem \<Rightarrow> 'c mem" where
  "put_units p [] m = m"
| "put_units p (x # xs) m = put_units (Suc p) xs (m(p := x))"

definition ultow :: "u32 \<Rightarrow> nat \<Rightarrow> int \<Rightarrow> u16 mem \<Rightarrow> (nat \<times> u16 mem) option" where
  "ultow val buf radix m =
     (if buf = 0 \<or> radix < 2 \<or> 36 < radix then Some (buf, m)
      else do {
        tmp \<leftarrow> ultow_loop val (word_of_int radix) [];
        Some (buf, put_units buf (map ucast (rev tmp) @ [0]) m)
      })"

text \<open>
  The digit loop of \<^verbatim>\<open>push_u64\<close> and \<^verbatim>\<open>_vsnwprintf\<close>: a scratch array of 20 places filled from its end. The list is the
  part filled so far.
\<close>

function digit_loop :: "(nat \<Rightarrow> 'c) \<Rightarrow> u64 \<Rightarrow> u64 \<Rightarrow> 'c list \<Rightarrow> 'c list option" where
  "digit_loop dg base v tmp =
     (if v = 0 then Some tmp
      else if 20 \<le> length tmp then None
      else digit_loop dg base (v div base) (dg (unat (v mod base)) # tmp))"
  by pat_completeness auto
termination
  by (relation "measure (\<lambda>(dg, base, v, tmp). 20 - length tmp)") auto

declare ultow_loop.simps [simp del] digit_loop.simps [simp del]

section \<open>Positional notation\<close>

function digits_of :: "nat \<Rightarrow> nat \<Rightarrow> nat list" where
  "digits_of b n = (if n < b \<or> b < 2 then [n] else n mod b # digits_of b (n div b))"
  by pat_completeness auto
termination
  by (relation "measure snd") (auto intro: div_less_dividend)

declare digits_of.simps [simp del]

lemma digits_of_less: "2 \<le> b \<Longrightarrow> d \<in> set (digits_of b n) \<Longrightarrow> d < b"
proof (induction b n rule: digits_of.induct)
  case (1 b n)
  then show ?case by (subst (asm) (2) digits_of.simps) (auto split: if_splits)
qed

lemma digits_of_length: "2 \<le> b \<Longrightarrow> n < b ^ k \<Longrightarrow> 0 < k \<Longrightarrow> length (digits_of b n) \<le> k"
proof (induction b n arbitrary: k rule: digits_of.induct)
  case (1 b n)
  obtain j where k: "k = Suc j" using 1 by (cases k) auto
  show ?case
  proof (cases "n < b")
    case False
    then have "n div b < b ^ j" "0 < j"
      using 1 k by (auto simp: less_mult_imp_div_less mult.commute intro!: gr0I)
    then show ?thesis using 1 False k by (subst digits_of.simps) auto
  qed (use k in \<open>subst digits_of.simps; simp\<close>)
qed

lemma digits_of_value: "2 \<le> b \<Longrightarrow> foldl (\<lambda>v d. v * of_nat b + of_nat d) 0 (rev (digits_of b n)) = (of_nat n :: 'a::comm_semiring_1)"
proof (induction b n rule: digits_of.induct)
  case (1 b n)
  have "of_nat (n div b) * of_nat b + of_nat (n mod b) = (of_nat (n div b * b + n mod b) :: 'a)"
    by (simp only: of_nat_add of_nat_mult)
  then show ?case using 1 by (subst digits_of.simps) (simp del: of_nat_mod)
qed

lemma digits_of_nonempty [simp]: "digits_of b n \<noteq> []"
  by (subst digits_of.simps) simp

lemma cstr_put_units: "0 \<notin> set xs \<Longrightarrow> cstr (put_units p (xs @ [0]) m) p xs"
proof (induction xs arbitrary: p m)
  have other: "a < p \<Longrightarrow> put_units p ys m a = m a" for a p and ys :: "'a word list" and m
    by (induction ys arbitrary: p m) auto
  {
  case (Cons x xs)
  then show ?case by (simp add: other)
  }
qed simp

lemma ultow_loop_digits:
  assumes "2 \<le> unat radix" "length tmp + length (digits_of (unat radix) (unat val)) \<le> 32"
  shows "ultow_loop val radix tmp = Some (tmp @ map (\<lambda>d. ultow_digit (of_nat d)) (digits_of (unat radix) (unat val)))"
  using assms
proof (induction val radix tmp rule: ultow_loop.induct)
  case (1 val radix tmp)
  have ds: "digits_of (unat radix) (unat val) =
      (if val < radix then [unat val] else unat (val mod radix) # digits_of (unat radix) (unat (val div radix)))"
    using 1(2) by (subst digits_of.simps) (simp add: word_less_nat_alt unat_mod unat_div)
  have z: "val div radix = 0 \<longleftrightarrow> val < radix"
    using 1(2) by (simp add: word_less_nat_alt unat_eq_0 [symmetric] unat_div div_eq_0_iff del: unat_eq_0)
  have v: "val < radix \<Longrightarrow> val mod radix = val"
    by (simp add: word_unat_eq_iff unat_mod word_less_nat_alt)
  have l: "\<not> 32 \<le> length tmp" using 1(3) ds by (auto split: if_splits)
  show ?case
  proof (cases "val < radix")
    case True
    then show ?thesis using l z ds v by (subst ultow_loop.simps) simp
  next
    case False
    have "ultow_loop val radix tmp = ultow_loop (val div radix) radix (tmp @ [ultow_digit (ucast (val mod radix))])"
      using l z False by (subst ultow_loop.simps) simp
    also have "\<dots> = Some (tmp @ [ultow_digit (ucast (val mod radix))] @
        map (\<lambda>d. ultow_digit (of_nat d)) (digits_of (unat radix) (unat (val div radix))))"
      using 1(1) [OF l refl refl] 1(2,3) z ds False by simp
    finally show ?thesis using ds False by simp
  qed
qed

section \<open>Round trip\<close>

lemma of_set_upt: "(\<forall>d\<in>set [0..<k]. P d) \<Longrightarrow> d < k \<Longrightarrow> P d"
  by simp

definition wdigit :: "nat \<Rightarrow> u16" where
  "wdigit d = ucast (ultow_digit (of_nat d))"

lemma wdigit_hex: "d < 16 \<Longrightarrow> wide_digit (wdigit d) = Some (int d) \<and> wdigit d \<notin> {0, 0x20, 0x09, 0x2B, 0x2D, 0x78, 0x58}"
  by (rule of_set_upt [where k = 16]) code_simp

lemma wdigit_nonzero: "d < 36 \<Longrightarrow> wdigit d \<noteq> 0"
  by (rule of_set_upt [where k = 36]) code_simp

lemma wcsto_digits_cstr:
  assumes "b \<le> 16"
  shows "\<forall>d\<in>set ds. d < b \<Longrightarrow> cstr m p (map wdigit ds) \<Longrightarrow>
    wcsto_digits m (int b) p v = Some (foldl (\<lambda>v d. v * of_nat b + of_nat d) v ds, p + length ds)"
proof (induction ds arbitrary: p v)
  case Nil
  then show ?case by (subst wcsto_digits.simps) (simp add: wide_digit_def)
next
  case (Cons d ds)
  then have "wide_digit (m p) = Some (int d)" using wdigit_hex [of d] assms by auto
  then show ?case using Cons by (subst wcsto_digits.simps) simp
qed

lemma wcsto_int_digits:
  assumes b: "2 \<le> b" "b \<le> 16" and ds: "\<forall>d\<in>set ds. d < b" "ds \<noteq> []" and c: "cstr m p (map wdigit ds)"
  shows "wcsto_int m p endptr (int b) =
    Some (foldl (\<lambda>v d. v * of_nat b + of_nat d) 0 ds, if endptr \<noteq> 0 then Some (p + length ds) else None)"
proof -
  obtain d es where de: "ds = d # es" using ds(2) by (cases ds) auto
  have p0: "m p \<notin> {0, 0x20, 0x09, 0x2B, 0x2D}" using c de wdigit_hex [of d] ds b by auto
  have "m (p + 1) = 0 \<or> m (p + 1) = wdigit (hd es) \<and> es \<noteq> []" using c de by (cases es) auto
  then have p1: "m (p + 1) \<noteq> 0x78" "m (p + 1) \<noteq> 0x58"
    using wdigit_hex [of "hd es"] ds b de by (cases es; auto)+
  have "skip_blanks m p = Some p" using p0 by (subst skip_blanks.simps) simp
  moreover have "take_sign m p = (False, p)" using p0 by (simp add: take_sign_def)
  moreover have "base_prefix m p (int b) = (int b, p)" using p1 b by (simp add: base_prefix_def)
  ultimately show ?thesis
    using wcsto_digits_cstr [OF b(2) ds(1) c, of 0] by (simp add: wcsto_int_def)
qed

text \<open>
  C34. \<^verbatim>\<open>_ultow\<close> never leaves its scratch array, and \<^verbatim>\<open>wcstoul\<close> reads back what it printed: for every value and every radix
  up to 16 the parse gives the value and an end pointer at the terminator. Beyond 16 the round trip is lost, although both
  accept those radixes: the parser knows no digit above f.
\<close>

theorem ultow_wcstoul_roundtrip:
  assumes "2 \<le> radix" "radix \<le> 16" "0 < buf"
  shows "(\<exists>m' ds. ultow val buf (int radix) m = Some (buf, m') \<and> cstr m' buf ds \<and> length ds \<le> 32 \<and>
      wcstoul m' buf endptr (int radix) = Some (ucast val, if endptr \<noteq> 0 then Some (buf + length ds) else None)) \<and>
    (\<exists>m'. ultow 16 buf 17 m = Some (buf, m') \<and> wcstoul m' buf 0 17 = Some (0, None))"
proof
  define ds where "ds = rev (digits_of radix (unat val))"
  have ur: "unat (word_of_int (int radix) :: u32) = radix" using assms by (simp add: unat_of_nat take_bit_nat_eq_self)
  have "unat val < 2 ^ 32" using unsigned_less [of val] by simp
  also have "2 ^ 32 \<le> radix ^ 32" using assms by (intro power_mono) simp_all
  finally have len: "length ds \<le> 32" using digits_of_length [of radix "unat val" 32] assms by (simp add: ds_def)
  have less: "\<forall>d\<in>set ds. d < radix" using digits_of_less [of radix _ "unat val"] assms by (simp add: ds_def)
  have nz: "0 \<notin> set (map wdigit ds)" using wdigit_nonzero less assms by fastforce
  have out: "ultow val buf (int radix) m = Some (buf, put_units buf (map wdigit ds @ [0]) m)"
    using ultow_loop_digits [of "word_of_int (int radix)" "[]" val] assms len ur
    by (simp add: ultow_def ds_def rev_map wdigit_def [abs_def] comp_def)
  have "foldl (\<lambda>v d. v * of_nat radix + of_nat d) 0 ds = (of_nat (unat val) :: u64)"
    unfolding ds_def by (rule digits_of_value) (use assms in simp)
  then have "wcstoul (put_units buf (map wdigit ds @ [0]) m) buf endptr (int radix) =
      Some (ucast val, if endptr \<noteq> 0 then Some (buf + length ds) else None)"
    using wcsto_int_digits [OF assms(1,2) less _ cstr_put_units [OF nz], of buf m endptr] by (simp add: wcstoul_def ds_def)
  then show "\<exists>m' ds. ultow val buf (int radix) m = Some (buf, m') \<and> cstr m' buf ds \<and> length ds \<le> 32 \<and>
      wcstoul m' buf endptr (int radix) = Some (ucast val, if endptr \<noteq> 0 then Some (buf + length ds) else None)"
    using out cstr_put_units [OF nz, of buf m] len by (intro exI [of _ "map wdigit ds"] exI) auto
  have u: "ultow 16 buf 17 m = Some (buf, m(buf := 0x67, Suc buf := 0))"
    using assms by (simp add: ultow_def ultow_loop.simps ultow_digit_def)
  have "wcstoul (m(buf := 0x67, Suc buf := 0)) buf 0 17 = Some (0, None)"
    by (simp add: wcstoul_def wcsto_int_def skip_blanks.simps [of _ buf] take_sign_def base_prefix_def
        wcsto_digits.simps [of _ _ buf] wide_digit_def)
  with u show "\<exists>m'. ultow 16 buf 17 m = Some (buf, m') \<and> wcstoul m' buf 0 17 = Some (0, None)" by blast
qed

theorem ultow_wcstoul_witness:
  "\<exists>m' ds. ultow 0xFFFFFFFF 8 2 (\<lambda>_. 0) = Some (8, m') \<and> cstr m' 8 ds \<and> length ds \<le> 32 \<and>
     wcstoul m' 8 4 2 = Some (0xFFFFFFFF, Some (8 + length ds))"
  using ultow_wcstoul_roundtrip [of 2 8 "0xFFFFFFFF" "\<lambda>_. 0" 4] by simp

end
