(* ===== verification/Crt_Format.thy ===== *)
theory Crt_Format
  imports Crt_Number
begin

text \<open>
  Formatted output of the C runtime (\<^verbatim>\<open>msvcrt/src/lib.rs\<close>): the bounded byte sink \<^verbatim>\<open>FmtBuf\<close>, the narrow engine behind
  \<^verbatim>\<open>fprintf\<close> and \<^verbatim>\<open>__stdio_common_vfprintf\<close>, and the wide engine \<^verbatim>\<open>_vsnwprintf\<close> with its ucrt entry points. Bytes and
  UTF-16 units live in two memories; a wide pointer is a unit address, so a pointer taken from an argument slot is halved.
  The argument slots are a function of the index.
\<close>

section \<open>The byte sink\<close>

text \<open>The part of \<^verbatim>\<open>FmtBuf\<close> below \<open>len\<close>.\<close>

type_synonym fmt_buf = "u8 list"

definition push :: "u8 \<Rightarrow> fmt_buf \<Rightarrow> fmt_buf" where
  "push b out = (if length out < 1024 then out @ [b] else out)"

definition push_bytes :: "u8 list \<Rightarrow> fmt_buf \<Rightarrow> fmt_buf" where
  "push_bytes s out = fold push s out"

definition hex_digits :: "bool \<Rightarrow> u8 list" where
  "hex_digits upper =
     (if upper then [0x30, 0x31, 0x32, 0x33, 0x34, 0x35, 0x36, 0x37, 0x38, 0x39, 0x41, 0x42, 0x43, 0x44, 0x45, 0x46]
      else [0x30, 0x31, 0x32, 0x33, 0x34, 0x35, 0x36, 0x37, 0x38, 0x39, 0x61, 0x62, 0x63, 0x64, 0x65, 0x66])"

definition push_u64 :: "u64 \<Rightarrow> u64 \<Rightarrow> bool \<Rightarrow> fmt_buf \<Rightarrow> fmt_buf option" where
  "push_u64 v base upper out =
     (if v = 0 then Some (push 0x30 out)
      else do { tmp \<leftarrow> digit_loop (\<lambda>d. hex_digits upper ! d) base v []; Some (push_bytes tmp out) })"

definition push_i64 :: "u64 \<Rightarrow> fmt_buf \<Rightarrow> fmt_buf option" where
  "push_i64 v out = (if sint v < 0 then push_u64 (- v) 10 False (push 0x2D out) else push_u64 v 10 False out)"

section \<open>The narrow engine\<close>

partial_function (option) fmt_flags :: "u8 mem \<Rightarrow> nat \<Rightarrow> u8 \<Rightarrow> (nat \<times> u8) option" where
  "fmt_flags m p long =
     (if m p \<in> {0x2D, 0x2B, 0x20, 0x23, 0x2E, 0x2A} \<or> 0x30 \<le> m p \<and> m p \<le> 0x39 then fmt_flags m (p + 1) long
      else if m p = 0x6C then fmt_flags m (p + 1) (long + 1)
      else if m p \<in> {0x68, 0x7A, 0x74} then fmt_flags m (p + 1) long
      else Some (p, long))"

definition low32 :: "u64 \<Rightarrow> u64" where
  "low32 raw = ucast (ucast raw :: u32)"

definition slow32 :: "u64 \<Rightarrow> u64" where
  "slow32 raw = scast (ucast raw :: u32)"

definition narrow_string :: "u8 mem \<Rightarrow> nat \<Rightarrow> fmt_buf \<Rightarrow> fmt_buf option" where
  "narrow_string m s out = do { n \<leftarrow> nul_scan m s 0; Some (push_bytes (map (\<lambda>i. m (s + i)) [0..<n]) out) }"

definition wide_string :: "u16 mem \<Rightarrow> nat \<Rightarrow> fmt_buf \<Rightarrow> fmt_buf option" where
  "wide_string w s out = do {
     n \<leftarrow> nul_scan w s 0;
     Some (push_bytes (map (\<lambda>i. if w (s + i) < 0x80 then ucast (w (s + i)) else 0x3F) [0..<n]) out) }"

text \<open>
  One conversion: the letter, the count of \<open>l\<close> modifiers, and the argument it may take. \<open>str\<close> is what \<open>%s\<close> does with the
  pointer, the one point where the two callers differ.
\<close>

definition fmt_conv :: "(u8 \<Rightarrow> u64 \<Rightarrow> fmt_buf \<Rightarrow> fmt_buf option) \<Rightarrow> (nat \<Rightarrow> u64) \<Rightarrow> u8 \<Rightarrow> u8 \<Rightarrow> nat \<Rightarrow> fmt_buf \<Rightarrow> (nat \<times> fmt_buf) option" where
  "fmt_conv str next_arg conv long argi out =
     (let raw = next_arg argi; one = (\<lambda>r. do { out \<leftarrow> r; Some (argi + 1, out) }) in
      if conv = 0x64 \<or> conv = 0x69 then one (push_i64 (if 1 \<le> long then raw else slow32 raw) out)
      else if conv = 0x75 then one (push_u64 (if 1 \<le> long then raw else low32 raw) 10 False out)
      else if conv = 0x78 \<or> conv = 0x58 then one (push_u64 (if 1 \<le> long then raw else low32 raw) 16 (conv = 0x58) out)
      else if conv = 0x70 then one (push_u64 raw 16 False (push_bytes [0x30, 0x78] out))
      else if conv = 0x63 then one (Some (push (ucast raw) out))
      else if conv = 0x73 then one (if raw \<noteq> 0 then str long raw out else Some out)
      else if conv = 0x25 then Some (argi, push 0x25 out)
      else Some (argi, push conv (push 0x25 out)))"

partial_function (option) fmt_loop ::
  "(u8 \<Rightarrow> u64 \<Rightarrow> fmt_buf \<Rightarrow> fmt_buf option) \<Rightarrow> (nat \<Rightarrow> u64) \<Rightarrow> u8 mem \<Rightarrow> nat \<Rightarrow> nat \<Rightarrow> fmt_buf \<Rightarrow> fmt_buf option" where
  "fmt_loop str next_arg m p argi out =
     (if m p = 0 then Some out
      else if m p \<noteq> 0x25 then fmt_loop str next_arg m (p + 1) argi (push (m p) out)
      else do {
        (p, long) \<leftarrow> fmt_flags m (p + 1) 0;
        if m p = 0 then Some out
        else do {
          (argi, out) \<leftarrow> fmt_conv str next_arg (m p) long argi out;
          fmt_loop str next_arg m (p + 1) argi out
        }
      })"

text \<open>What is written to the console, and the count returned.\<close>

definition fprintf :: "u8 mem \<Rightarrow> nat \<Rightarrow> u64 \<Rightarrow> u64 \<Rightarrow> u64 \<Rightarrow> (u8 list \<times> int) option" where
  "fprintf m fmt a0 a1 a2 = do {
     out \<leftarrow> fmt_loop (\<lambda>long raw. narrow_string m (unat raw)) (\<lambda>i. if i < 3 then [a0, a1, a2] ! i else 0) m fmt 0 [];
     Some (out, int (length out))
   }"

definition stdio_common_vfprintf :: "u8 mem \<Rightarrow> u16 mem \<Rightarrow> nat \<Rightarrow> (nat \<Rightarrow> u64) option \<Rightarrow> (u8 list \<times> int) option" where
  "stdio_common_vfprintf m w format valist =
     (if format = 0 then Some ([], -1)
      else do {
        out \<leftarrow> fmt_loop (\<lambda>long raw. if 1 \<le> long then wide_string w (unat raw div 2) else narrow_string m (unat raw))
          (case valist of None \<Rightarrow> (\<lambda>_. 0) | Some va \<Rightarrow> va) m format 0 [];
        Some (out, int (length out))
      })"

section \<open>The wide engine\<close>

text \<open>The output state: the memory of units and the count of units put so far, those that did not fit included.\<close>

type_synonym wout = "u16 mem \<times> nat"

definition put :: "nat \<Rightarrow> nat \<Rightarrow> u16 \<Rightarrow> wout \<Rightarrow> wout" where
  "put buffer count c s = (case s of (w, out) \<Rightarrow> (if out + 1 < count then w(buffer + out := c) else w, out + 1))"

text \<open>The format is matched on the low byte of each unit.\<close>

definition byte_at :: "u16 mem \<Rightarrow> nat \<Rightarrow> u8" where
  "byte_at w f = ucast (w f)"

partial_function (option) w_flags :: "u16 mem \<Rightarrow> nat \<Rightarrow> bool \<Rightarrow> (nat \<times> bool) option" where
  "w_flags w f zero_pad =
     (if byte_at w f = 0x30 then w_flags w (f + 1) True
      else if byte_at w f \<in> {0x2D, 0x2B, 0x20, 0x23} then w_flags w (f + 1) zero_pad
      else Some (f, zero_pad))"

partial_function (option) w_width :: "u16 mem \<Rightarrow> nat \<Rightarrow> u64 \<Rightarrow> (nat \<times> u64) option" where
  "w_width w f width =
     (if 0x30 \<le> byte_at w f \<and> byte_at w f \<le> 0x39
      then w_width w (f + 1) (width * 10 + ucast (byte_at w f - 0x30))
      else Some (f, width))"

text \<open>The precision is skipped.\<close>

definition w_precision :: "u16 mem \<Rightarrow> nat \<Rightarrow> nat option" where
  "w_precision w f = (if byte_at w f = 0x2E then do { (f, _) \<leftarrow> w_width w (f + 1) 0; Some f } else Some f)"

partial_function (option) w_length :: "u16 mem \<Rightarrow> nat \<Rightarrow> bool \<Rightarrow> (nat \<times> bool) option" where
  "w_length w f narrow =
     (if byte_at w f = 0x6C then w_length w (f + 1) narrow
      else if byte_at w f = 0x68 then w_length w (f + 1) True
      else Some (f, narrow))"

definition w_digits :: "(nat \<Rightarrow> u16) \<Rightarrow> u64 \<Rightarrow> u64 \<Rightarrow> u16 list option" where
  "w_digits dg base v = (if v = 0 then Some [0x30] else digit_loop dg base v [])"

definition w_signed :: "bool \<Rightarrow> u64 \<Rightarrow> u64 \<Rightarrow> u16 list option" where
  "w_signed zero_pad width raw = do {
     let v = slow32 raw;
     let neg = sint v < 0;
     tmp \<leftarrow> w_digits (\<lambda>d. 0x30 + of_nat d) 10 (if neg then - v else v);
     let padn = unat width - (length tmp + (if neg then 1 else 0));
     let sign = (if neg then [0x2D] else []);
     Some (if zero_pad then sign @ replicate padn 0x30 @ tmp else replicate padn 0x20 @ sign @ tmp)
   }"

definition w_unsigned :: "bool \<Rightarrow> u64 \<Rightarrow> u8 \<Rightarrow> u64 \<Rightarrow> u16 list option" where
  "w_unsigned zero_pad width conv raw = do {
     tmp \<leftarrow> w_digits (\<lambda>d. ucast (hex_digits (conv = 0x58) ! d)) (if conv = 0x75 then 10 else 16) (low32 raw);
     let padn = unat width - length tmp;
     Some (replicate padn (if zero_pad then 0x30 else 0x20) @ tmp)
   }"

text \<open>A wide argument is read unit by unit while the buffer is written.\<close>

partial_function (option) put_wide :: "nat \<Rightarrow> nat \<Rightarrow> nat \<Rightarrow> wout \<Rightarrow> wout option" where
  "put_wide buffer count s st = (if fst st s \<noteq> 0 then put_wide buffer count (s + 1) (put buffer count (fst st s) st) else Some st)"

definition put_narrow :: "nat \<Rightarrow> nat \<Rightarrow> u8 mem \<Rightarrow> nat \<Rightarrow> wout \<Rightarrow> wout option" where
  "put_narrow buffer count m s st = do {
     n \<leftarrow> nul_scan m s 0;
     Some (fold (put buffer count) (map (\<lambda>i. ucast (m (s + i))) [0..<n]) st)
   }"

definition w_conv :: "nat \<Rightarrow> nat \<Rightarrow> u8 mem \<Rightarrow> (nat \<Rightarrow> u64) \<Rightarrow> bool \<Rightarrow> u64 \<Rightarrow> bool \<Rightarrow> u8 \<Rightarrow> nat \<Rightarrow> wout \<Rightarrow> (nat \<times> wout) option" where
  "w_conv buffer count m valist zero_pad width narrow conv ai st =
     (if conv = 0x64 \<or> conv = 0x69 then do {
        us \<leftarrow> w_signed zero_pad width (valist ai); Some (ai + 1, fold (put buffer count) us st) }
      else if conv = 0x75 \<or> conv = 0x78 \<or> conv = 0x58 then do {
        us \<leftarrow> w_unsigned zero_pad width conv (valist ai); Some (ai + 1, fold (put buffer count) us st) }
      else if conv = 0x63 then Some (ai + 1, put buffer count (ucast (valist ai)) st)
      else if conv = 0x73 \<or> conv = 0x53 then do {
        let p = valist ai;
        st \<leftarrow> (if p = 0 then Some st
               else if narrow \<or> conv = 0x53 then put_narrow buffer count m (unat p) st
               else put_wide buffer count (unat p div 2) st);
        Some (ai + 1, st) }
      else if conv = 0x25 then Some (ai, put buffer count 0x25 st)
      else Some (ai, put buffer count (ucast conv) (put buffer count 0x25 st)))"

partial_function (option) w_loop :: "nat \<Rightarrow> nat \<Rightarrow> u8 mem \<Rightarrow> (nat \<Rightarrow> u64) \<Rightarrow> nat \<Rightarrow> nat \<Rightarrow> wout \<Rightarrow> wout option" where
  "w_loop buffer count m valist f ai st =
     (if fst st f = 0 then Some st
      else if fst st f \<noteq> 0x25 then w_loop buffer count m valist (f + 1) ai (put buffer count (fst st f) st)
      else do {
        (f, zero_pad) \<leftarrow> w_flags (fst st) (f + 1) False;
        (f, width) \<leftarrow> w_width (fst st) f 0;
        f \<leftarrow> w_precision (fst st) f;
        (f, narrow) \<leftarrow> w_length (fst st) f False;
        let conv = byte_at (fst st) f;
        if conv = 0 then Some st
        else do {
          (ai, st) \<leftarrow> w_conv buffer count m valist zero_pad width narrow conv ai st;
          w_loop buffer count m valist (f + 1) ai st
        }
      })"

definition vsnwprintf :: "nat \<Rightarrow> nat \<Rightarrow> nat \<Rightarrow> (nat \<Rightarrow> u64) \<Rightarrow> u8 mem \<Rightarrow> u16 mem \<Rightarrow> (u32 \<times> u16 mem) option" where
  "vsnwprintf buffer count format valist m w = do {
     (w, out) \<leftarrow> w_loop buffer count m valist format 0 (w, 0);
     let w = (if 0 < count then w(buffer + min out (count - 1) := 0) else w);
     Some (if out < count then of_nat out else - 1, w)
   }"

definition stdio_common_vswprintf :: "nat \<Rightarrow> nat \<Rightarrow> nat \<Rightarrow> (nat \<Rightarrow> u64) \<Rightarrow> u8 mem \<Rightarrow> u16 mem \<Rightarrow> (u32 \<times> u16 mem) option" where
  "stdio_common_vswprintf buffer count format valist m w =
     (if buffer = 0 \<or> format = 0 then Some (- 1, w)
      else vsnwprintf buffer (if count = 0 then 1 else count) format valist m w)"

definition stdio_common_vswprintf_s :: "nat \<Rightarrow> nat \<Rightarrow> nat \<Rightarrow> (nat \<Rightarrow> u64) \<Rightarrow> u8 mem \<Rightarrow> u16 mem \<Rightarrow> (u32 \<times> u16 mem) option" where
  "stdio_common_vswprintf_s buffer count format valist m w = stdio_common_vswprintf buffer count format valist m w"

definition stdio_common_vsnwprintf_s :: "nat \<Rightarrow> nat \<Rightarrow> nat \<Rightarrow> nat \<Rightarrow> (nat \<Rightarrow> u64) \<Rightarrow> u8 mem \<Rightarrow> u16 mem \<Rightarrow> (u32 \<times> u16 mem) option" where
  "stdio_common_vsnwprintf_s buffer count max_count format valist m w = stdio_common_vswprintf buffer count format valist m w"

end
