(* ===== verification/Crt_Format_Laws.thy ===== *)
theory Crt_Format_Laws
  imports Crt_Format
begin

text \<open>
  What formatted output promises (\<^verbatim>\<open>msvcrt/src/lib.rs\<close>): the wide engine only ever puts units, so what it leaves in the buffer
  is a prefix of the rendering; and it returns on terminated strings, since each scan stops at the terminator and the
  digits of a number fit the scratch array.
\<close>

section \<open>Every output is a sequence of puts\<close>

lemma fold_put:
  "fold (put buffer count) us (w, out) =
     (\<lambda>a. if buffer + out \<le> a \<and> a < buffer + min (out + length us) (count - 1) then us ! (a - buffer - out) else w a, out + length us)"
proof (induction us arbitrary: w out)
  case (Cons u us)
  have "fold (put buffer count) (u # us) (w, out) =
      fold (put buffer count) us (if out + 1 < count then w(buffer + out := u) else w, Suc out)"
    by (simp add: put_def)
  also have "\<dots> = (\<lambda>a. if buffer + out \<le> a \<and> a < buffer + min (out + length (u # us)) (count - 1)
      then (u # us) ! (a - buffer - out) else w a, out + length (u # us))"
    unfolding Cons.IH
    by (auto simp: fun_eq_iff nth_Cons' Suc_le_eq le_less min_def)
  finally show ?case .
qed (auto simp: fun_eq_iff)

definition emits :: "nat \<Rightarrow> nat \<Rightarrow> wout \<Rightarrow> wout \<Rightarrow> bool" where
  "emits buffer count st st' \<longleftrightarrow> (\<exists>us. st' = fold (put buffer count) us st)"

lemma emits_refl [simp]: "emits buffer count st st"
  unfolding emits_def by (intro exI [of _ "[]"]) simp

lemma emits_fold [simp]: "emits buffer count st (fold (put buffer count) us st)"
  unfolding emits_def by blast

lemma emits_put [simp]: "emits buffer count st (put buffer count c st)"
  unfolding emits_def by (intro exI [of _ "[c]"]) simp

lemma emits_trans [trans]: "emits buffer count st st' \<Longrightarrow> emits buffer count st' st'' \<Longrightarrow> emits buffer count st st''"
  unfolding emits_def by (metis fold_append o_apply)

lemma put_wide_emits: "put_wide buffer count s st = Some st' \<Longrightarrow> emits buffer count st st'"
proof (rule put_wide.raw_induct [where P = "\<lambda>buffer count s st st'. emits buffer count st st'"])
  fix rec buffer count s st st'
  assume IH: "\<And>buffer count s st st'. rec buffer count s st = Some st' \<Longrightarrow> emits buffer count st st'"
    and b: "(if fst st s \<noteq> 0 then rec buffer count (s + 1) (put buffer count (fst st s) st) else Some st) = Some st'"
  show "emits buffer count st st'" using b by (auto split: if_splits dest!: IH intro: emits_trans [OF emits_put])
qed

lemma put_narrow_emits: "put_narrow buffer count m s st = Some st' \<Longrightarrow> emits buffer count st st'"
  unfolding put_narrow_def Option.bind_eq_Some_conv by (metis emits_fold option.inject)

lemma w_conv_emits: "w_conv buffer count m valist z width narrow conv ai st = Some (ai', st') \<Longrightarrow> emits buffer count st st'"
  unfolding w_conv_def
  by (auto simp: Option.bind_eq_Some_conv put_narrow_emits put_wide_emits Let_def intro: emits_trans [OF emits_put emits_put] split: if_splits)

lemma w_loop_emits: "w_loop buffer count m valist f ai st = Some st' \<Longrightarrow> emits buffer count st st'"
proof (rule w_loop.raw_induct [where P = "\<lambda>buffer count m valist f ai st st'. emits buffer count st st'"], goal_cases)
  case (1 rec buffer count m valist f ai st st')
  show ?case
    using 1(3) by (auto simp: Option.bind_eq_Some_conv Let_def split: if_splits dest!: 1(2) w_conv_emits intro: emits_trans [OF emits_put] emits_trans)
qed

section \<open>Formatting returns\<close>

lemma digit_loop_digits:
  assumes "2 \<le> unat base" "v \<noteq> 0" "length tmp + length (digits_of (unat base) (unat v)) \<le> 20"
  shows "digit_loop dg base v tmp = Some (map dg (rev (digits_of (unat base) (unat v))) @ tmp)"
  using assms
proof (induction dg base v tmp rule: digit_loop.induct)
  case (1 dg base v tmp)
  have ds: "digits_of (unat base) (unat v) =
      (if v < base then [unat v] else unat (v mod base) # digits_of (unat base) (unat (v div base)))"
    using 1(2) by (subst digits_of.simps) (simp add: word_less_nat_alt unat_mod unat_div)
  have z: "v div base = 0 \<longleftrightarrow> v < base"
    using 1(2) by (simp add: word_less_nat_alt unat_eq_0 [symmetric] unat_div div_eq_0_iff del: unat_eq_0)
  have v: "v < base \<Longrightarrow> v mod base = v"
    by (simp add: word_unat_eq_iff unat_mod word_less_nat_alt)
  have l: "\<not> 20 \<le> length tmp" using 1(4) ds by (auto split: if_splits)
  have step: "digit_loop dg base v tmp = digit_loop dg base (v div base) (dg (unat (v mod base)) # tmp)"
    using l 1(3) by (subst digit_loop.simps) simp
  show ?case
  proof (cases "v < base")
    case True
    then show ?thesis using step z v ds by (subst (asm) (2) digit_loop.simps) simp
  next
    case False
    then show ?thesis using 1(1) [OF 1(3) l] 1(2,4) step z ds by simp
  qed
qed

lemma digit_loop_returns:
  assumes "10 \<le> unat base"
  obtains tmp where "digit_loop dg base v [] = Some tmp"
proof (cases "v = 0")
  case False
  have "unat v < 10 ^ 20" using unsigned_less [of v, where ?'a = nat] by simp
  also have "(10 :: nat) ^ 20 \<le> unat base ^ 20" using assms by (rule power_mono) simp
  finally have "length (digits_of (unat base) (unat v)) \<le> 20"
    using digits_of_length [of "unat base" "unat v" 20] assms by simp
  then show thesis using that digit_loop_digits [OF _ False, where tmp = "[]" and dg = dg and base = base] assms by simp
qed (use that in \<open>simp add: digit_loop.simps\<close>)

lemma w_digits_returns: "10 \<le> unat base \<Longrightarrow> \<exists>tmp. w_digits dg base v = Some tmp"
  using digit_loop_returns [of base dg v] by (auto simp: w_digits_def)

lemma scan_step: "\<exists>k z'. X = Some (Suc f + k, z') \<and> k \<le> length xs \<Longrightarrow> \<exists>k z'. X = Some (f + k, z') \<and> k \<le> length (x # xs)"
  by (metis Suc_le_mono add_Suc_shift length_Cons)

lemma w_flags_cstr: "cstr w f xs \<Longrightarrow> \<exists>k z'. w_flags w f z = Some (f + k, z') \<and> k \<le> length xs"
proof (induction xs arbitrary: f z)
  case Nil
  then show ?case by (subst w_flags.simps) (simp add: byte_at_def)
next
  case (Cons x xs)
  have "\<exists>k z'. w_flags w (Suc f) z = Some (f + k, z') \<and> k \<le> length (x # xs)" for z
    by (rule scan_step [OF Cons.IH]) (use Cons.prems in simp)
  then show ?case by (subst w_flags.simps) auto
qed

lemma w_width_cstr: "cstr w f xs \<Longrightarrow> \<exists>k v'. w_width w f v = Some (f + k, v') \<and> k \<le> length xs"
proof (induction xs arbitrary: f v)
  case Nil
  then show ?case by (subst w_width.simps) (simp add: byte_at_def)
next
  case (Cons x xs)
  have "\<exists>k z'. w_width w (Suc f) z = Some (f + k, z') \<and> k \<le> length (x # xs)" for z
    by (rule scan_step [OF Cons.IH]) (use Cons.prems in simp)
  then show ?case by (subst w_width.simps) auto
qed

lemma w_length_cstr: "cstr w f xs \<Longrightarrow> \<exists>k z'. w_length w f z = Some (f + k, z') \<and> k \<le> length xs"
proof (induction xs arbitrary: f z)
  case Nil
  then show ?case by (subst w_length.simps) (simp add: byte_at_def)
next
  case (Cons x xs)
  have "\<exists>k z'. w_length w (Suc f) z = Some (f + k, z') \<and> k \<le> length (x # xs)" for z
    by (rule scan_step [OF Cons.IH]) (use Cons.prems in simp)
  then show ?case by (subst w_length.simps) auto
qed

lemma w_precision_cstr: "cstr w f xs \<Longrightarrow> \<exists>k. w_precision w f = Some (f + k) \<and> k \<le> length xs"
proof (cases xs)
  case (Cons x ys)
  assume c: "cstr w f xs"
  then obtain k v where "w_width w (Suc f) 0 = Some (Suc f + k, v)" "k \<le> length ys"
    using w_width_cstr [of w "Suc f" ys 0] Cons by auto
  then show ?thesis using Cons by (auto simp: w_precision_def intro: exI [of _ "Suc k"] exI [of _ 0])
qed (simp add: w_precision_def byte_at_def)

lemma emits_frame:
  assumes "emits buffer count st st'" "a < buffer \<or> buffer + count \<le> a"
  shows "fst st' a = fst st a"
  using assms by (cases st) (auto simp: emits_def fold_put)

text \<open>Where the arguments lead: to terminated strings, the wide ones apart from the buffer.\<close>

definition args_ok :: "nat \<Rightarrow> nat \<Rightarrow> u8 mem \<Rightarrow> u16 mem \<Rightarrow> (nat \<Rightarrow> u64) \<Rightarrow> bool" where
  "args_ok buffer count m w valist \<longleftrightarrow>
     (\<forall>i. valist i \<noteq> 0 \<longrightarrow> (\<exists>bs. cstr m (unat (valist i)) bs) \<and>
       (\<exists>us. cstr w (unat (valist i) div 2) us \<and>
         (unat (valist i) div 2 + length us < buffer \<or> buffer + count \<le> unat (valist i) div 2)))"

lemma cstr_emits:
  assumes "cstr (fst st) s us" "s + length us < buffer \<or> buffer + count \<le> s" "emits buffer count st st'"
  shows "cstr (fst st') s us"
  by (rule cstr_frame [OF assms(1)]) (use emits_frame [OF assms(3)] assms(2) in auto)

lemma args_ok_emits: "args_ok buffer count m (fst st) valist \<Longrightarrow> emits buffer count st st' \<Longrightarrow> args_ok buffer count m (fst st') valist"
  unfolding args_ok_def using cstr_emits by meson

lemma put_wide_returns:
  "cstr (fst st) s us \<Longrightarrow> s + length us < buffer \<or> buffer + count \<le> s \<Longrightarrow> \<exists>st'. put_wide buffer count s st = Some st'"
proof (induction us arbitrary: s st)
  case Nil
  then show ?case by (subst put_wide.simps) simp
next
  case (Cons u us)
  have "\<exists>st'. put_wide buffer count (Suc s) (put buffer count (fst st s) st) = Some st'"
    by (rule Cons.IH [OF cstr_emits [OF _ _ emits_put]]) (use Cons.prems in auto)
  then show ?case using Cons.prems by (subst put_wide.simps) auto
qed

lemma bind_returns: "\<exists>t. x = Some t \<Longrightarrow> (\<And>t. x = Some t \<Longrightarrow> \<exists>u. g t = Some u) \<Longrightarrow> \<exists>u. Option.bind x g = Some u"
  by auto

lemma w_conv_returns:
  assumes "args_ok buffer count m (fst st) valist"
  shows "\<exists>ai' st'. w_conv buffer count m valist z width narrow conv ai st = Some (ai', st')"
proof -
  have ds: "\<exists>tmp. w_digits dg 10 v = Some tmp" "\<exists>tmp. w_digits dg 16 v = Some tmp" for dg v
    by (simp_all add: w_digits_returns)
  have "\<exists>us. w_signed z width (valist ai) = Some us"
    unfolding w_signed_def Let_def by (rule bind_returns [OF ds(1)]) simp
  moreover have "\<exists>us. w_unsigned z width conv (valist ai) = Some us"
    unfolding w_unsigned_def Let_def by (rule bind_returns) (auto simp: ds)
  moreover have "valist ai \<noteq> 0 \<Longrightarrow> \<exists>st'. put_narrow buffer count m (unat (valist ai)) st = Some st'"
    using assms nul_scan_cstr [of m _ 0] by (fastforce simp: put_narrow_def args_ok_def)
  moreover have "valist ai \<noteq> 0 \<Longrightarrow> \<exists>st'. put_wide buffer count (unat (valist ai) div 2) st = Some st'"
    using assms put_wide_returns unfolding args_ok_def by blast
  ultimately show ?thesis by (auto simp: w_conv_def Let_def)
qed

lemma w_loop_returns:
  "cstr (fst st) f xs \<Longrightarrow> f + length xs < buffer \<or> buffer + count \<le> f \<Longrightarrow> args_ok buffer count m (fst st) valist \<Longrightarrow>
   \<exists>st'. w_loop buffer count m valist f ai st = Some st'"
proof (induction "length xs" arbitrary: xs f ai st rule: less_induct)
  case less
  note c = less.prems(1) and d = less.prems(2) and ok = less.prems(3)
  show ?case
  proof (cases xs)
    case Nil
    then show ?thesis using c by (subst w_loop.simps) simp
  next
    case (Cons x ys)
    have cy: "cstr (fst st) (Suc f) ys" and x: "fst st f = x" "x \<noteq> 0" using c Cons by auto
    have next_step: "\<exists>st'. w_loop buffer count m valist (Suc (Suc f + k)) ai' st'' = Some st'"
      if k: "k < length ys" and e: "emits buffer count st st''" for k ai' st''
    proof -
      have "cstr (fst st) (Suc f + Suc k) (drop (Suc k) ys)" by (rule cstr_drop [OF cy]) (use k in simp)
      then show ?thesis
        using less.hyps [of "drop (Suc k) ys" st'' "Suc (Suc f + k)" ai'] Cons k d args_ok_emits [OF ok e]
          cstr_emits [OF _ _ e] by auto
    qed
    show ?thesis
    proof (cases "x = 0x25")
      case False
      have "\<exists>st'. w_loop buffer count m valist (Suc f) ai (put buffer count x st) = Some st'"
        using less.hyps [of ys "put buffer count x st" "Suc f" ai] Cons d cstr_emits [OF cy _ emits_put] args_ok_emits [OF ok emits_put] by auto
      then show ?thesis using False x by (subst w_loop.simps) simp
    next
      case True
      obtain k1 z where 1: "w_flags (fst st) (Suc f) False = Some (Suc f + k1, z)" "k1 \<le> length ys"
        using w_flags_cstr [OF cy] by blast
      obtain k2 v where 2: "w_width (fst st) (Suc f + k1) 0 = Some (Suc f + k1 + k2, v)" "k1 + k2 \<le> length ys"
        using w_width_cstr [OF cstr_drop [OF cy 1(2)], of 0] 1(2) by fastforce
      obtain k3 where 3: "w_precision (fst st) (Suc f + k1 + k2) = Some (Suc f + k1 + k2 + k3)" "k1 + k2 + k3 \<le> length ys"
        using w_precision_cstr [OF cstr_drop [OF cy 2(2)]] 2(2) by (fastforce simp: add.assoc)
      obtain k4 n where 4: "w_length (fst st) (Suc f + k1 + k2 + k3) False = Some (Suc f + (k1 + k2 + k3 + k4), n)" "k1 + k2 + k3 + k4 \<le> length ys"
        using w_length_cstr [OF cstr_drop [OF cy 3(2)], of False] 3(2) by (fastforce simp: add.assoc)
      let ?f = "Suc f + (k1 + k2 + k3 + k4)"
      have "byte_at (fst st) ?f = 0" if "\<not> k1 + k2 + k3 + k4 < length ys"
        using that 4(2) cstr_drop [OF cy 4(2)] by (simp add: byte_at_def)
      moreover obtain ai' st'' where "w_conv buffer count m valist z v n (byte_at (fst st) ?f) ai st = Some (ai', st'')"
        using w_conv_returns [OF ok] by blast
      ultimately show ?thesis
        using True x 1(1) 2(1) 3(1) 4(1) next_step [of "k1 + k2 + k3 + k4" st'' ai'] w_conv_emits
        by (subst w_loop.simps) (auto simp: Let_def)
    qed
  qed
qed

section \<open>Properties\<close>

lemma w_loop_literal:
  "cstr (fst st) f xs \<Longrightarrow> 0x25 \<notin> set xs \<Longrightarrow> f + length xs < buffer \<or> buffer + count \<le> f \<Longrightarrow>
   w_loop buffer count m valist f ai st = Some (fold (put buffer count) xs st)"
proof (induction xs arbitrary: f st)
  case Nil
  then show ?case by (subst w_loop.simps) simp
next
  case (Cons x xs)
  have "w_loop buffer count m valist (Suc f) ai (put buffer count x st) = Some (fold (put buffer count) xs (put buffer count x st))"
    by (rule Cons.IH [OF cstr_emits [OF _ _ emits_put]]) (use Cons.prems in auto)
  then show ?case using Cons.prems by (subst w_loop.simps) auto
qed

lemma vsnwprintf_emits:
  assumes "w_loop buffer count m valist format 0 (w, 0) = Some (fold (put buffer count) us (w, 0))"
  shows "\<exists>w'. vsnwprintf buffer count format valist m w = Some (if length us < count then of_nat (length us) else - 1, w') \<and>
    (\<forall>i<min (length us) (count - 1). w' (buffer + i) = us ! i) \<and>
    (0 < count \<longrightarrow> w' (buffer + min (length us) (count - 1)) = 0) \<and>
    (\<forall>a. a < buffer \<or> buffer + count \<le> a \<longrightarrow> w' a = w a)"
  using assms by (auto simp: vsnwprintf_def fold_put)

lemma args_ok_mono: "args_ok buffer count m w valist \<Longrightarrow> count' \<le> count \<Longrightarrow> args_ok buffer count' m w valist"
  unfolding args_ok_def using order_trans [of "buffer + count'" "buffer + count"] by (meson add_left_mono)

lemma w_loop_units:
  assumes "cstr w format xs" "format + length xs < buffer \<or> buffer + count \<le> format" "args_ok buffer count m w valist"
  obtains us where "w_loop buffer count m valist format 0 (w, 0) = Some (fold (put buffer count) us (w, 0))" "0x25 \<notin> set xs \<longrightarrow> us = xs"
proof (cases "0x25 \<in> set xs")
  case True
  obtain st where st: "w_loop buffer count m valist format 0 (w, 0) = Some st"
    using w_loop_returns [of "(w, 0)" format xs buffer count m valist 0] assms by auto
  then show thesis using that True w_loop_emits [OF st] by (auto simp: emits_def)
next
  case False
  then show thesis using that w_loop_literal [of "(w, 0)" format xs buffer count m valist 0] assms by simp
qed

text \<open>
  C35. \<^verbatim>\<open>_vsnwprintf\<close> returns on a terminated format and terminated string arguments that lie apart from the buffer. It
  renders some sequence of units, the format itself when there is no conversion in it, and stores the first \<open>count - 1\<close> of
  them and a terminator; it returns their number, or -1 when they and the terminator do not fit, and never writes outside
  the \<open>count\<close> units of the buffer. The ucrt entry point, by contrast, stores a terminator even in a buffer of no units.
\<close>

theorem vsnwprintf_bounds:
  assumes f: "cstr w format xs" and d: "format + length xs < buffer \<or> buffer + max 1 count \<le> format"
    and a: "args_ok buffer (max 1 count) m w valist"
  shows "(\<exists>us w'. vsnwprintf buffer count format valist m w = Some (if length us < count then of_nat (length us) else - 1, w') \<and>
      (0x25 \<notin> set xs \<longrightarrow> us = xs) \<and>
      (\<forall>i<min (length us) (count - 1). w' (buffer + i) = us ! i) \<and>
      (0 < count \<longrightarrow> w' (buffer + min (length us) (count - 1)) = 0) \<and>
      (\<forall>a. a < buffer \<or> buffer + count \<le> a \<longrightarrow> w' a = w a)) \<and>
    (0 < buffer \<longrightarrow> 0 < format \<longrightarrow> (\<exists>r w'. stdio_common_vswprintf buffer 0 format valist m w = Some (r, w') \<and> w' buffer = 0))"
proof (intro conjI impI)
  have d': "format + length xs < buffer \<or> buffer + count \<le> format" and a': "args_ok buffer count m w valist"
    using d args_ok_mono [OF a] by auto
  obtain us where us: "w_loop buffer count m valist format 0 (w, 0) = Some (fold (put buffer count) us (w, 0))" "0x25 \<notin> set xs \<longrightarrow> us = xs"
    by (rule w_loop_units [OF f d' a'])
  show "\<exists>us w'. vsnwprintf buffer count format valist m w = Some (if length us < count then of_nat (length us) else - 1, w') \<and>
      (0x25 \<notin> set xs \<longrightarrow> us = xs) \<and>
      (\<forall>i<min (length us) (count - 1). w' (buffer + i) = us ! i) \<and>
      (0 < count \<longrightarrow> w' (buffer + min (length us) (count - 1)) = 0) \<and>
      (\<forall>a. a < buffer \<or> buffer + count \<le> a \<longrightarrow> w' a = w a)"
    using vsnwprintf_emits [OF us(1)] us(2) by blast
next
  assume p: "0 < buffer" "0 < format"
  have d': "format + length xs < buffer \<or> buffer + 1 \<le> format" and a': "args_ok buffer 1 m w valist"
    using d args_ok_mono [OF a] by auto
  obtain us where us: "w_loop buffer 1 m valist format 0 (w, 0) = Some (fold (put buffer 1) us (w, 0))"
    by (rule w_loop_units [OF f d' a'])
  show "\<exists>r w'. stdio_common_vswprintf buffer 0 format valist m w = Some (r, w') \<and> w' buffer = 0"
    using vsnwprintf_emits [OF us] p by (auto simp: stdio_common_vswprintf_def)
qed

theorem vsnwprintf_witness:
  "\<exists>w'. vsnwprintf 8 3 1 (\<lambda>_. 0) (\<lambda>_. 0) ((\<lambda>_. 0)(1 := 0x61, 2 := 0x62, 3 := 0x63, 8 := 7, 11 := 9)) = Some (- 1, w') \<and>
     w' 8 = 0x61 \<and> w' 9 = 0x62 \<and> w' 10 = 0 \<and> w' 11 = 9"
proof -
  let ?w = "(\<lambda>_. 0)(1 := 0x61, 2 := 0x62, 3 := 0x63, 8 := 7, 11 := 9)"
  obtain us w' where r: "vsnwprintf 8 3 1 (\<lambda>_. 0) (\<lambda>_. 0) ?w = Some (if length us < 3 then of_nat (length us) else - 1, w')"
    "us = [0x61, 0x62, 0x63]" "\<forall>i<min (length us) (3 - 1). w' (8 + i) = us ! i" "w' (8 + min (length us) (3 - 1)) = 0"
    "\<forall>a. a < 8 \<or> 8 + 3 \<le> a \<longrightarrow> w' a = ?w a"
    using vsnwprintf_bounds [of ?w 1 "[0x61, 0x62, 0x63]" 8 3 "\<lambda>_. 0" "\<lambda>_. 0"] by (auto simp: args_ok_def)
  then show ?thesis using r(3) [rule_format, of 0] r(3) [rule_format, of 1] by auto
qed

end
