(* ===== verification/Mm_Pool.thy ===== *)
theory Mm_Pool
  imports Mm_Map Rtl_Status
begin

text \<open>
  NonPagedPool (\<^verbatim>\<open>kernel/src/mm/pool.rs\<close>) and the executive's wrappers (\<^verbatim>\<open>kernel/src/ex/mod.rs\<close>). The pool
  lives in the physical-memory window, so its headers and free-list links are the qwords of \<open>ram\<close>: the two
  qwords at a block's address hold the size and the tag, and the free-list link or the page count, which
  overlay one another as in the source. A virtual address is a natural number, 0 is null.

  The first-fit search follows links read from memory and the allocator calls itself after growing the
  pool, so both are partial functions; that they return is proved in the theory of the pool's safety. Here
  are the operations, and the free list in memory as a list of blocks: the search is a \<open>dropWhile\<close> on it.
\<close>

section \<open>Memory\<close>

record pool_state = mm_state +
  free_list :: nat
  bytes_in_use :: nat
  allocations :: nat
  pool_frees :: nat

definition load :: "'a phys_state_scheme \<Rightarrow> nat \<Rightarrow> u64 option" where
  "load st va = do {
     off \<leftarrow> sub_nat va (phys_offset st);
     Some (ram st (off div PAGE_SIZE) (off mod PAGE_SIZE div 8))
   }"

definition store :: "nat \<Rightarrow> u64 \<Rightarrow> 'a phys_state_scheme \<Rightarrow> 'a phys_state_scheme option" where
  "store va v st = do {
     off \<leftarrow> sub_nat va (phys_offset st);
     let p = off div PAGE_SIZE;
     Some (st\<lparr>ram := (ram st)(p := (ram st p)(off mod PAGE_SIZE div 8 := v))\<rparr>)
   }"

text \<open>The two 32-bit fields of a qword.\<close>

definition lo32 :: "u64 \<Rightarrow> u32" where "lo32 q = ucast q"
definition hi32 :: "u64 \<Rightarrow> u32" where "hi32 q = ucast (drop_bit 32 q)"
definition mk64 :: "u32 \<Rightarrow> u32 \<Rightarrow> u64" where "mk64 l h = push_bit 32 (ucast h) OR ucast l"

definition blk_size :: "'a phys_state_scheme \<Rightarrow> nat \<Rightarrow> nat option" where
  "blk_size st p = do { q \<leftarrow> load st p; Some (unat (lo32 q)) }"

definition blk_tag :: "'a phys_state_scheme \<Rightarrow> nat \<Rightarrow> u32 option" where
  "blk_tag st p = do { q \<leftarrow> load st p; Some (hi32 q) }"

definition large_pages :: "'a phys_state_scheme \<Rightarrow> nat \<Rightarrow> u32 option" where
  "large_pages st p = do { q \<leftarrow> load st (p + 8); Some (lo32 q) }"

definition blk_next :: "'a phys_state_scheme \<Rightarrow> nat \<Rightarrow> nat option" where
  "blk_next st p = do { q \<leftarrow> load st (p + 8); Some (unat q) }"

definition set_blk_size :: "nat \<Rightarrow> nat \<Rightarrow> 'a phys_state_scheme \<Rightarrow> 'a phys_state_scheme option" where
  "set_blk_size p n st = do { q \<leftarrow> load st p; store p (mk64 (of_nat n) (hi32 q)) st }"

definition set_blk_tag :: "nat \<Rightarrow> u32 \<Rightarrow> 'a phys_state_scheme \<Rightarrow> 'a phys_state_scheme option" where
  "set_blk_tag p tag st = do { q \<leftarrow> load st p; store p (mk64 (lo32 q) tag) st }"

definition set_large_pages :: "nat \<Rightarrow> u32 \<Rightarrow> 'a phys_state_scheme \<Rightarrow> 'a phys_state_scheme option" where
  "set_large_pages p n st = do { q \<leftarrow> load st (p + 8); store (p + 8) (mk64 n (hi32 q)) st }"

definition set_blk_next :: "nat \<Rightarrow> nat \<Rightarrow> 'a phys_state_scheme \<Rightarrow> 'a phys_state_scheme option" where
  "set_blk_next p n st = store (p + 8) (of_nat n) st"

section \<open>The allocator\<close>

definition POOL_ALIGN :: nat where "POOL_ALIGN = 16"
definition SLAB_PAGES :: nat where "SLAB_PAGES = 16"
definition LARGE_THRESHOLD :: nat where "LARGE_THRESHOLD = PAGE_SIZE - POOL_ALIGN"
definition HEADER_BYTES :: nat where "HEADER_BYTES = 16"

definition pool_tag :: "u8 \<Rightarrow> u8 \<Rightarrow> u8 \<Rightarrow> u8 \<Rightarrow> u32" where
  "pool_tag a b c d = ucast a OR push_bit 8 (ucast b) OR push_bit 16 (ucast c) OR push_bit 24 (ucast d)"

text \<open>\<open>x & !(POOL_ALIGN - 1)\<close> on the small sizes this is called with.\<close>

definition block_size_for :: "nat \<Rightarrow> nat" where
  "block_size_for payload = (payload + HEADER_BYTES + POOL_ALIGN - 1) div POOL_ALIGN * POOL_ALIGN"

text \<open>The search's \<open>prev: *mut *mut FreeBlock\<close> points to the list head or to a block's link.\<close>

datatype link = Head | NextOf nat

definition get_link :: "'a pool_state_scheme \<Rightarrow> link \<Rightarrow> nat option" where
  "get_link st l = (case l of Head \<Rightarrow> Some (free_list st) | NextOf b \<Rightarrow> blk_next st b)"

definition set_link :: "link \<Rightarrow> nat \<Rightarrow> 'a pool_state_scheme \<Rightarrow> 'a pool_state_scheme option" where
  "set_link l v st = (case l of Head \<Rightarrow> Some (st\<lparr>free_list := v\<rparr>) | NextOf b \<Rightarrow> set_blk_next b v st)"

partial_function (option) find_fit :: "nat \<Rightarrow> link \<Rightarrow> 'a pool_state_scheme \<Rightarrow> (link \<times> nat) option option" where
  "find_fit want prev st = do {
     fb \<leftarrow> get_link st prev;
     if fb = 0 then Some None
     else do {
       bsize \<leftarrow> blk_size st fb;
       if want \<le> bsize then Some (Some (prev, fb)) else find_fit want (NextOf fb) st
     }
   }"

definition take_fit :: "nat \<Rightarrow> u32 \<Rightarrow> link \<Rightarrow> nat \<Rightarrow> 'a pool_state_scheme \<Rightarrow> (nat \<times> 'a pool_state_scheme) option" where
  "take_fit want tag prev fb st = do {
     bsize \<leftarrow> blk_size st fb;
     leftover \<leftarrow> sub_nat bsize want;
     nxt \<leftarrow> blk_next st fb;
     st \<leftarrow> (if block_size_for POOL_ALIGN \<le> leftover then do {
              let rest = fb + want;
              st \<leftarrow> set_blk_size rest leftover st;
              st \<leftarrow> set_blk_next rest nxt st;
              set_link prev rest st
            } else set_link prev nxt st);
     st \<leftarrow> set_blk_size fb (if block_size_for POOL_ALIGN \<le> leftover then want else bsize) st;
     st \<leftarrow> set_blk_tag fb tag st;
     st \<leftarrow> set_large_pages fb (- 1) st;
     n \<leftarrow> blk_size st fb;
     Some (fb + HEADER_BYTES, st\<lparr>bytes_in_use := bytes_in_use st + n, allocations := allocations st + 1\<rparr>)
   }"

definition pool_alloc_large :: "nat \<Rightarrow> u32 \<Rightarrow> 'a pool_state_scheme \<Rightarrow> (nat \<times> 'a pool_state_scheme) option" where
  "pool_alloc_large payload tag st = do {
     require (payload + HEADER_BYTES < 2 ^ 64);
     let pages = (payload + HEADER_BYTES + PAGE_SIZE - 1) div PAGE_SIZE;
     (r, st) \<leftarrow> mm_allocate_contiguous_pages pages st;
     (case r of
        None \<Rightarrow> Some (0, st)
      | Some pa \<Rightarrow> do {
          hdr \<leftarrow> phys_to_virt st pa;
          st \<leftarrow> set_blk_size hdr (pages * PAGE_SIZE) st;
          st \<leftarrow> set_blk_tag hdr tag st;
          st \<leftarrow> set_large_pages hdr (of_nat pages) st;
          Some (hdr + HEADER_BYTES,
                st\<lparr>bytes_in_use := bytes_in_use st + pages * PAGE_SIZE, allocations := allocations st + 1\<rparr>)
        })
   }"

definition free_block_insert :: "nat \<Rightarrow> nat \<Rightarrow> 'a pool_state_scheme \<Rightarrow> 'a pool_state_scheme option" where
  "free_block_insert at bsize st = do {
     st \<leftarrow> set_blk_size at bsize st;
     st \<leftarrow> set_blk_next at (free_list st) st;
     Some (st\<lparr>free_list := at\<rparr>)
   }"

partial_function (option) pool_alloc :: "nat \<Rightarrow> u32 \<Rightarrow> 'a pool_state_scheme \<Rightarrow> (nat \<times> 'a pool_state_scheme) option" where
  "pool_alloc payload tag st =
     (if payload = 0 then Some (0, st)
      else if LARGE_THRESHOLD \<le> payload then pool_alloc_large payload tag st
      else do {
        let want = block_size_for payload;
        fit \<leftarrow> find_fit want Head st;
        (case fit of
           Some (prev, fb) \<Rightarrow> take_fit want tag prev fb st
         | None \<Rightarrow> do {
             (r, st) \<leftarrow> mm_allocate_contiguous_pages SLAB_PAGES st;
             (case r of
                None \<Rightarrow> Some (0, st)
              | Some pa \<Rightarrow> do {
                  va \<leftarrow> phys_to_virt st pa;
                  st \<leftarrow> free_block_insert va (SLAB_PAGES * PAGE_SIZE) st;
                  pool_alloc payload tag st
                })
           })
      })"

definition pool_free :: "nat \<Rightarrow> u32 \<Rightarrow> 'a pool_state_scheme \<Rightarrow> 'a pool_state_scheme option" where
  "pool_free ptr tag st =
     (if ptr = 0 then Some st
      else do {
        hdr \<leftarrow> sub_nat ptr HEADER_BYTES;
        t \<leftarrow> blk_tag st hdr;
        require (t = tag);
        bsize \<leftarrow> blk_size st hdr;
        used \<leftarrow> sub_nat (bytes_in_use st) bsize;
        let st = st\<lparr>bytes_in_use := used, pool_frees := pool_frees st + 1\<rparr>;
        lp \<leftarrow> large_pages st hdr;
        if lp \<noteq> - 1 then do {
          base \<leftarrow> phys_to_virt st 0;
          off \<leftarrow> sub_nat hdr base;
          mm_free_contiguous_pages off (unat lp) st
        } else free_block_insert hdr bsize st
      })"

definition pool_free_any :: "nat \<Rightarrow> 'a pool_state_scheme \<Rightarrow> 'a pool_state_scheme option" where
  "pool_free_any ptr st =
     (if ptr = 0 then Some st
      else do {
        hdr \<leftarrow> sub_nat ptr HEADER_BYTES;
        tag \<leftarrow> blk_tag st hdr;
        pool_free ptr tag st
      })"

definition pool_bytes_in_use :: "'a pool_state_scheme \<Rightarrow> nat" where
  "pool_bytes_in_use st = bytes_in_use st"

definition pool_alloc_checked :: "nat \<Rightarrow> u32 \<Rightarrow> 'a pool_state_scheme \<Rightarrow> ((nt_status + nat) \<times> 'a pool_state_scheme) option" where
  "pool_alloc_checked bsize tag st = do {
     (p, st) \<leftarrow> pool_alloc bsize tag st;
     if p = 0 then Some (Inl STATUS_INSUFFICIENT_RESOURCES, st) else Some (Inr p, st)
   }"

section \<open>The Rust global allocator\<close>

definition RUST_TAG :: u32 where "RUST_TAG = pool_tag 0x52 0x75 0x73 0x74"

text \<open>\<open>align_offset\<close> of a pointer for a power of two.\<close>

definition align_offset :: "nat \<Rightarrow> nat \<Rightarrow> nat" where
  "align_offset p align = (align - p mod align) mod align"

definition global_alloc :: "nat \<Rightarrow> nat \<Rightarrow> 'a pool_state_scheme \<Rightarrow> (nat \<times> 'a pool_state_scheme) option" where
  "global_alloc bytes align st =
     (if align \<le> POOL_ALIGN then pool_alloc (max bytes 1) RUST_TAG st
      else do {
        require (bytes + align + 8 < 2 ^ 64);
        (raw, st) \<leftarrow> pool_alloc (bytes + align + 8) RUST_TAG st;
        if raw = 0 then Some (raw, st)
        else do {
          let payload = raw + 8;
          let aligned = payload + align_offset payload align;
          st \<leftarrow> store (aligned - 8) (of_nat raw) st;
          Some (aligned, st)
        }
      })"

definition global_dealloc :: "nat \<Rightarrow> nat \<Rightarrow> 'a pool_state_scheme \<Rightarrow> 'a pool_state_scheme option" where
  "global_dealloc ptr align st =
     (if align \<le> POOL_ALIGN then pool_free ptr RUST_TAG st
      else do {
        slot \<leftarrow> sub_nat ptr 8;
        raw \<leftarrow> load st slot;
        pool_free (unat raw) RUST_TAG st
      })"

section \<open>Reading and writing qwords\<close>

definition rd :: "ram \<Rightarrow> nat \<Rightarrow> u64" where
  "rd m off = m (off div PAGE_SIZE) (off mod PAGE_SIZE div 8)"

definition wr :: "ram \<Rightarrow> nat \<Rightarrow> u64 \<Rightarrow> ram" where
  "wr m off v = m(off div PAGE_SIZE := (m (off div PAGE_SIZE))(off mod PAGE_SIZE div 8 := v))"

lemma qword_cell:
  "off div PAGE_SIZE = off' div PAGE_SIZE \<and> off mod PAGE_SIZE div 8 = off' mod PAGE_SIZE div 8 \<longleftrightarrow> off div 8 = off' div 8"
proof -
  have a: "x div PAGE_SIZE = x div 8 div 512" for x by (simp add: PAGE_SIZE_def div_mult2_eq [symmetric])
  have b: "x mod PAGE_SIZE div 8 = x div 8 mod 512" for x using mod_mult2_eq [of x 8 512] by (simp add: PAGE_SIZE_def)
  show ?thesis unfolding a b by (metis div_mult_mod_eq)
qed

lemma rd_wr: "rd (wr m off v) off' = (if off div 8 = off' div 8 then v else rd m off')"
  using qword_cell [of off off'] by (auto simp: rd_def wr_def)

lemma rd_wr_same [simp]: "rd (wr m off v) off = v"
  by (simp add: rd_wr)

lemma load_rd: "phys_offset st \<le> va \<Longrightarrow> load st va = Some (rd (ram st) (va - phys_offset st))"
  by (simp add: load_def rd_def)

lemma store_wr: "phys_offset st \<le> va \<Longrightarrow> store va v st = Some (st\<lparr>ram := wr (ram st) (va - phys_offset st) v\<rparr>)"
  by (simp add: store_def wr_def Let_def)

lemma lo32_mk64 [simp]: "lo32 (mk64 l h) = l"
  by (rule bit_word_eqI) (auto simp: lo32_def mk64_def bit_simps)

lemma hi32_mk64 [simp]: "hi32 (mk64 l h) = h"
  by (rule bit_word_eqI) (auto simp: hi32_def mk64_def bit_simps dest: bit_imp_le_length)

lemma rd_wr_other: "8 dvd off \<Longrightarrow> 8 dvd off' \<Longrightarrow> off \<noteq> off' \<Longrightarrow> rd (wr m off v) off' = rd m off'"
  by (auto simp: rd_wr elim!: dvdE)

lemma wr_wr [simp]: "wr (wr m off u) off v = wr m off v"
  by (simp add: wr_def)

text \<open>Writing a pool header.\<close>

definition stamped :: "ram \<Rightarrow> nat \<Rightarrow> nat \<Rightarrow> u32 \<Rightarrow> u32 \<Rightarrow> ram" where
  "stamped m off n tag lp = wr (wr m off (mk64 (of_nat n) tag)) (off + 8) (mk64 lp (hi32 (rd m (off + 8))))"

lemma stamp_header:
  assumes "phys_offset st \<le> a" "8 dvd (a - phys_offset st)"
  shows "do { st \<leftarrow> set_blk_size a n st; st \<leftarrow> set_blk_tag a tag st; st \<leftarrow> set_large_pages a lp st; f st } =
    f (st\<lparr>ram := stamped (ram st) (a - phys_offset st) n tag lp\<rparr>)"
proof -
  from assms obtain k where k: "a = phys_offset st + k" "8 dvd k" using le_Suc_ex by fastforce
  from k(2) have "8 dvd (k + 8)" by simp
  with k show ?thesis
    by (simp add: set_blk_size_def set_blk_tag_def set_large_pages_def load_rd store_wr stamped_def rd_wr_other add.assoc)
qed

lemma rd_stamped:
  assumes "8 dvd off"
  shows "rd (stamped m off n tag lp) off = mk64 (of_nat n) tag" "lo32 (rd (stamped m off n tag lp) (off + 8)) = lp"
    "8 dvd off' \<Longrightarrow> off' \<noteq> off \<Longrightarrow> off' \<noteq> off + 8 \<Longrightarrow> rd (stamped m off n tag lp) off' = rd m off'"
  using assms by (simp_all add: stamped_def rd_wr_other)

section \<open>Blocks and the free list\<close>

lemma runs_union_append [simp]: "runs_union (xs @ ys) = runs_union xs \<union> runs_union ys"
  by (auto simp: runs_union_def)

lemma disjoint_runs_append:
  "disjoint_runs (xs @ ys) \<longleftrightarrow> disjoint_runs xs \<and> disjoint_runs ys \<and> runs_union xs \<inter> runs_union ys = {}"
  by (induction xs rule: disjoint_runs.induct) auto

fun free_chain :: "ram \<Rightarrow> nat \<Rightarrow> nat \<Rightarrow> (nat \<times> nat) list \<Rightarrow> bool" where
  "free_chain m base p [] \<longleftrightarrow> p = 0"
| "free_chain m base p ((a, n) # bs) \<longleftrightarrow> p = a \<and> a \<noteq> 0 \<and> base \<le> a \<and> unat (lo32 (rd m (a - base))) = n \<and>
     free_chain m base (unat (rd m (a + 8 - base))) bs"

definition block_ok :: "nat \<Rightarrow> nat \<times> nat \<Rightarrow> bool" where
  "block_ok base b \<longleftrightarrow> base \<noteq> 0 \<and> base \<le> fst b \<and> 16 dvd (fst b - base) \<and> 16 dvd snd b \<and> 32 \<le> snd b \<and> snd b < 2 ^ 32 \<and>
     fst b + snd b \<le> 2 ^ 64"

lemma chain_splice:
  assumes "free_chain m base p (xs @ ys)" "free_chain m' base q zs"
    "\<And>a n. (a, n) \<in> set xs \<Longrightarrow> rd m' (a - base) = rd m (a - base)"
    "\<And>a n. (a, n) \<in> set (butlast xs) \<Longrightarrow> rd m' (a + 8 - base) = rd m (a + 8 - base)"
    "xs \<noteq> [] \<Longrightarrow> unat (rd m' (fst (last xs) + 8 - base)) = q"
  shows "free_chain m' base (if xs = [] then q else p) (xs @ zs)"
  using assms
proof (induction xs arbitrary: p)
  case (Cons b xs)
  obtain a n where b: "b = (a, n)" by (cases b)
  have "free_chain m' base (if xs = [] then q else unat (rd m (a + 8 - base))) (xs @ zs)"
  proof (rule Cons.IH)
    show "free_chain m base (unat (rd m (a + 8 - base))) (xs @ ys)" using Cons.prems(1) by (simp add: b)
    show "free_chain m' base q zs" by fact
    show "rd m' (a' - base) = rd m (a' - base)" if "(a', n') \<in> set xs" for a' n' using that by (intro Cons.prems(3) [of a' n']) simp
    show "rd m' (a' + 8 - base) = rd m (a' + 8 - base)" if "(a', n') \<in> set (butlast xs)" for a' n'
      using that by (intro Cons.prems(4) [of a' n']) (cases xs; simp)
    show "unat (rd m' (fst (last xs) + 8 - base)) = q" if "xs \<noteq> []" using that Cons.prems(5) by simp
  qed
  moreover have "rd m' (a - base) = rd m (a - base)" using Cons.prems(3) [of a n] b by simp
  moreover have "unat (rd m' (a + 8 - base)) = q" if "xs = []" using that Cons.prems(5) b by simp
  moreover have "rd m' (a + 8 - base) = rd m (a + 8 - base)" if "xs \<noteq> []" using that Cons.prems(4) [of a n] b by simp
  ultimately show ?case using Cons.prems(1) b by (cases "xs = []") auto
qed auto

lemma chain_frame:
  assumes "free_chain m base p bs"
    "\<And>a n. (a, n) \<in> set bs \<Longrightarrow> rd m' (a - base) = rd m (a - base) \<and> rd m' (a + 8 - base) = rd m (a + 8 - base)"
  shows "free_chain m' base p bs"
  using assms
proof (induction bs arbitrary: p)
  case (Cons b bs)
  obtain a n where b: "b = (a, n)" by (cases b)
  have "free_chain m' base (unat (rd m (a + 8 - base))) bs"
    by (rule Cons.IH) (use Cons.prems b in auto)
  with Cons.prems(1) Cons.prems(2) [of a n] b show ?case by simp
qed simp

definition link_to :: "(nat \<times> nat) list \<Rightarrow> link" where
  "link_to xs = (if xs = [] then Head else NextOf (fst (last xs)))"

lemma chain_link:
  assumes "free_chain (ram st) (phys_offset st) (free_list st) (xs @ ys)"
  obtains q where "get_link st (link_to xs) = Some q" "free_chain (ram st) (phys_offset st) q ys"
proof (cases xs rule: rev_cases)
  case Nil
  with assms that show thesis by (simp add: link_to_def get_link_def)
next
  case (snoc zs b)
  obtain a n where b: "b = (a, n)" by (cases b)
  have "free_chain (ram st) (phys_offset st) p (zs @ (a, n) # ys) \<Longrightarrow>
      phys_offset st \<le> a \<and> free_chain (ram st) (phys_offset st) (unat (rd (ram st) (a + 8 - phys_offset st))) ys" for p
    by (induction zs arbitrary: p) auto
  with assms snoc b have "phys_offset st \<le> a" "free_chain (ram st) (phys_offset st) (unat (rd (ram st) (a + 8 - phys_offset st))) ys"
    by simp_all
  with snoc b that show thesis by (simp add: link_to_def get_link_def blk_next_def load_rd)
qed

lemma find_fit_spec:
  assumes "free_chain (ram st) (phys_offset st) (free_list st) (xs @ ys)"
    "\<forall>b \<in> set xs. snd b < want"
  shows "find_fit want (link_to xs) st = Some (case dropWhile (\<lambda>b. snd b < want) ys of [] \<Rightarrow> None
     | b # _ \<Rightarrow> Some (link_to (xs @ takeWhile (\<lambda>b. snd b < want) ys), fst b))"
  using assms
proof (induction ys arbitrary: xs)
  case Nil
  obtain q where "get_link st (link_to xs) = Some q" "free_chain (ram st) (phys_offset st) q []"
    by (rule chain_link [OF Nil(1)])
  then show ?case by (subst find_fit.simps) simp
next
  case (Cons b ys)
  obtain a n where b: "b = (a, n)" by (cases b)
  obtain q where q: "get_link st (link_to xs) = Some q" "free_chain (ram st) (phys_offset st) q (b # ys)"
    by (rule chain_link [OF Cons.prems(1)])
  have g: "get_link st (link_to xs) = Some a" "a \<noteq> 0" "blk_size st a = Some n"
    using q b by (auto simp: blk_size_def load_rd)
  show ?case
  proof (cases "n < want")
    case True
    have "find_fit want (NextOf a) st = find_fit want (link_to (xs @ [b])) st" by (simp add: link_to_def b)
    also have "\<dots> = Some (case dropWhile (\<lambda>b. snd b < want) ys of [] \<Rightarrow> None
     | c # _ \<Rightarrow> Some (link_to ((xs @ [b]) @ takeWhile (\<lambda>b. snd b < want) ys), fst c))"
      using Cons.prems b True by (intro Cons.IH) auto
    also have "(xs @ [b]) @ takeWhile (\<lambda>b. snd b < want) ys = xs @ takeWhile (\<lambda>b. snd b < want) (b # ys)"
      using True b by simp
    finally show ?thesis using g True b by (subst find_fit.simps) simp
  next
    case False
    then show ?thesis using g b by (subst find_fit.simps) (simp add: not_less)
  qed
qed

lemma block_size_for_bounds:
  "0 < payload \<Longrightarrow> 16 dvd block_size_for payload \<and> 32 \<le> block_size_for payload \<and>
     payload + 16 \<le> block_size_for payload \<and> block_size_for payload < payload + 32"
  by (simp add: block_size_for_def HEADER_BYTES_def POOL_ALIGN_def) linarith

lemma block_size_for_align [simp]: "block_size_for POOL_ALIGN = 32"
  by (simp add: block_size_for_def HEADER_BYTES_def POOL_ALIGN_def)

lemma block_ok_base: 
  assumes "block_ok base (a, n)"
  obtains k where "a = base + k" "8 dvd k" "16 dvd k" "16 dvd n" "32 \<le> n" "n < 2 ^ 32" "base + k + n \<le> 2 ^ 64" "base \<noteq> 0"
proof -
  from assms have "a = base + (a - base)" "16 dvd (a - base)" by (simp_all add: block_ok_def)
  moreover from this(2) have "8 dvd (a - base)" by (rule dvd_trans [rotated]) simp
  ultimately show thesis using assms by (intro that [of "a - base"]) (auto simp: block_ok_def)
qed

definition carve :: "nat \<Rightarrow> nat \<times> nat \<Rightarrow> (nat \<times> nat) list" where
  "carve want b = (if 32 \<le> snd b - want then [(fst b + want, snd b - want)] else [])"

definition carved :: "nat \<Rightarrow> nat \<times> nat \<Rightarrow> nat" where
  "carved want b = (if 32 \<le> snd b - want then want else snd b)"

lemma header_cells:
  assumes "block_ok base (a, n)"
  shows "8 dvd (a - base)" "8 dvd (a + 8 - base)" "a \<in> units_of (a, n)" "a + 8 \<in> units_of (a, n)" "base \<le> a" "a < 2 ^ 64"
  using assms by (rule block_ok_base; auto simp: units_of_def add.assoc)+

lemma run_notin: "b \<in> set bs \<Longrightarrow> x \<notin> runs_union bs \<Longrightarrow> x \<notin> units_of b"
  using units_of_subset by blast

lemma chain_keep:
  assumes "free_chain m base p bs" "\<forall>b \<in> set bs. block_ok base b"
    "\<And>off. 8 dvd off \<Longrightarrow> base + off \<in> runs_union bs \<Longrightarrow> rd m' off = rd m off"
  shows "free_chain m' base p bs"
proof (rule chain_frame [OF assms(1)])
  fix a n assume b: "(a, n) \<in> set bs"
  with assms(2) have "block_ok base (a, n)" by blast
  note h = header_cells [OF this]
  with units_of_subset [OF b] have "a \<in> runs_union bs" "a + 8 \<in> runs_union bs" by auto
  with h show "rd m' (a - base) = rd m (a - base) \<and> rd m' (a + 8 - base) = rd m (a + 8 - base)"
    by (auto intro!: assms(3))
qed

lemma set_link_chain:
  assumes chain: "free_chain (ram st) (phys_offset st) (free_list st) (xs @ ws)" "free_chain (ram st) (phys_offset st) q zs"
    and ok: "\<forall>b \<in> set (xs @ zs). block_ok (phys_offset st) b" and dj: "disjoint_runs (xs @ zs)"
  obtains m h where "set_link (link_to xs) q st = Some (st\<lparr>ram := m, free_list := h\<rparr>)"
    "free_chain m (phys_offset st) h (xs @ zs)"
    "\<forall>off. 8 dvd off \<longrightarrow> phys_offset st + off \<notin> runs_union xs \<longrightarrow> rd m off = rd (ram st) off"
proof (cases xs rule: rev_cases)
  case Nil
  with chain(2) show thesis by (intro that [of q "ram st"]) (simp_all add: link_to_def set_link_def)
next
  case (snoc us b)
  let ?base = "phys_offset st"
  obtain c l where b: "b = (c, l)" by (cases b)
  have q: "q < 2 ^ 64"
  proof (cases zs)
    case (Cons z zs')
    then have "block_ok ?base z" using ok by simp
    with header_cells(6) [of ?base "fst z" "snd z"] chain(2) Cons show ?thesis by (cases z) auto
  qed (use chain(2) in simp)
  have okc: "block_ok ?base (c, l)" using ok snoc b by simp
  note h = header_cells [OF okc]
  define k where "k = c - ?base"
  from h have k: "c = ?base + k" "8 dvd k" "8 dvd (k + 8)" by (simp_all add: k_def)
  let ?m = "wr (ram st) (k + 8) (of_nat q)"
  have unch: "rd ?m off = rd (ram st) off" if "8 dvd off" "?base + off \<noteq> c + 8" for off
    using that k by (auto simp: rd_wr_other)
  have dj': "units_of b \<inter> runs_union us = {}" "units_of b \<inter> runs_union zs = {}"
    using dj snoc by (auto simp: disjoint_runs_append units_of_def b)
  have us: "rd ?m (a - ?base) = rd (ram st) (a - ?base) \<and> rd ?m (a + 8 - ?base) = rd (ram st) (a + 8 - ?base)"
    if "(a, n) \<in> set us" for a n
  proof -
    have "block_ok ?base (a, n)" using ok snoc that by simp
    note h' = header_cells [OF this]
    from units_of_subset [OF that] dj'(1) h' h b have "a \<noteq> c + 8" "a + 8 \<noteq> c + 8" by auto
    with h' show ?thesis by (auto intro!: unch)
  qed
  have c0: "rd ?m (c - ?base) = rd (ram st) (c - ?base)" using h by (intro unch) auto
  have zs: "free_chain ?m ?base q zs"
  proof (rule chain_keep [OF chain(2)])
    show "\<forall>b \<in> set zs. block_ok ?base b" using ok by simp
    fix off assume "8 dvd off" "?base + off \<in> runs_union zs"
    with dj'(2) h(4) b show "rd ?m off = rd (ram st) off" by (intro unch) auto
  qed
  have "free_chain ?m ?base (if xs = [] then q else free_list st) (xs @ zs)"
  proof (rule chain_splice [OF chain(1) zs])
    show "rd ?m (a - ?base) = rd (ram st) (a - ?base)" if "(a, n) \<in> set xs" for a n
      using that us c0 snoc b by auto
    show "rd ?m (a + 8 - ?base) = rd (ram st) (a + 8 - ?base)" if "(a, n) \<in> set (butlast xs)" for a n
      using that us snoc by auto
    show "unat (rd ?m (fst (last xs) + 8 - ?base)) = q"
      using snoc b k q by (simp add: add.assoc unat_of_nat take_bit_nat_eq_self)
  qed
  moreover have "set_link (link_to xs) q st = Some (st\<lparr>ram := ?m, free_list := free_list st\<rparr>)"
    using snoc b k by (simp add: link_to_def set_link_def set_blk_next_def store_wr add.assoc)
  moreover have "c + 8 \<in> runs_union xs" using h(4) units_of_subset [of b xs] snoc b by auto
  then have "\<forall>off. 8 dvd off \<longrightarrow> ?base + off \<notin> runs_union xs \<longrightarrow> rd ?m off = rd (ram st) off"
    using unch by metis
  ultimately show thesis using snoc by (intro that [of "free_list st" ?m]) simp_all
qed

text \<open>Writing a free block's header.\<close>

definition linked_header :: "ram \<Rightarrow> nat \<Rightarrow> nat \<Rightarrow> nat \<Rightarrow> ram" where
  "linked_header m off n q = wr (wr m off (mk64 (of_nat n) (hi32 (rd m off)))) (off + 8) (of_nat q)"

lemma link_header:
  assumes "phys_offset st \<le> a" "8 dvd (a - phys_offset st)"
  shows "do { st \<leftarrow> set_blk_size a n st; st \<leftarrow> set_blk_next a q st; f st } =
    f (st\<lparr>ram := linked_header (ram st) (a - phys_offset st) n q\<rparr>)"
proof -
  from assms obtain k where k: "a = phys_offset st + k" "8 dvd k" using le_Suc_ex by fastforce
  from k(2) have "8 dvd (k + 8)" by simp
  with k show ?thesis
    by (simp add: set_blk_size_def set_blk_next_def load_rd store_wr linked_header_def add.assoc)
qed

lemma rd_linked_header:
  assumes "8 dvd off"
  shows "lo32 (rd (linked_header m off n q) off) = of_nat n" "rd (linked_header m off n q) (off + 8) = of_nat q"
    "8 dvd off' \<Longrightarrow> off' \<noteq> off \<Longrightarrow> off' \<noteq> off + 8 \<Longrightarrow> rd (linked_header m off n q) off' = rd m off'"
  using assms by (simp_all add: linked_header_def rd_wr_other)

lemma unat_size32: "n < 2 ^ 32 \<Longrightarrow> unat (of_nat n :: u32) = n"
  by (simp add: unat_of_nat take_bit_nat_eq_self)

lemma unat_addr: "n < 2 ^ 64 \<Longrightarrow> unat (of_nat n :: u64) = n"
  by (simp add: unat_of_nat take_bit_nat_eq_self)

lemma linked_header_chain:
  assumes "block_ok base (a, n)" "free_chain m base q bs" "\<forall>b \<in> set bs. block_ok base b" "units_of (a, n) \<inter> runs_union bs = {}"
    "q < 2 ^ 64"
  shows "free_chain (linked_header m (a - base) n q) base a ((a, n) # bs)"
proof -
  note h = header_cells [OF assms(1)]
  then have ab: "a + 8 - base = a - base + 8" by simp
  have "free_chain (linked_header m (a - base) n q) base q bs"
  proof (rule chain_keep [OF assms(2,3)])
    fix off assume o: "8 dvd off" "base + off \<in> runs_union bs"
    then have "base + off \<noteq> a" "base + off \<noteq> a + 8" using assms(4) h by auto
    with o h show "rd (linked_header m (a - base) n q) off = rd m off" by (intro rd_linked_header(3)) auto
  qed
  moreover have "a \<noteq> 0" "n < 2 ^ 32" using assms(1) by (auto simp: block_ok_def)
  ultimately show ?thesis using h assms(5)
    by (simp only: free_chain.simps rd_linked_header ab unat_addr unat_size32 refl simp_thms)
qed

end
