(* ===== verification/Mm_Pool_Safety.thy ===== *)
theory Mm_Pool_Safety
  imports Mm_Pool
begin

text \<open>
  Safety of the pool. The abstraction is a pair of lists of blocks, free and live: \<open>pool_ok\<close> says that the free
  list in memory is the first one, that all blocks are aligned, lie in allocated frames and are
  disjoint, that the live ones carry their size and page count, and that the statistics count them. Every
  operation is shown to keep it; a history is an inductive sequence of calls.
\<close>

section \<open>The invariant\<close>

definition frames_of :: "nat \<Rightarrow> nat \<times> nat \<Rightarrow> nat set" where
  "frames_of base b = (\<lambda>x. (x - base) div PAGE_SIZE) ` units_of b"

definition live_header :: "ram \<Rightarrow> nat \<Rightarrow> nat \<times> nat \<Rightarrow> bool" where
  "live_header m base b \<longleftrightarrow> unat (lo32 (rd m (fst b - base))) = snd b \<and>
     (let lp = lo32 (rd m (fst b + 8 - base)) in
      lp = - 1 \<or> PAGE_SIZE dvd (fst b - base) \<and> snd b = unat lp * PAGE_SIZE)"

definition pool_ok :: "'a pool_state_scheme \<Rightarrow> (nat \<times> nat) list \<Rightarrow> (nat \<times> nat) list \<Rightarrow> bool" where
  "pool_ok st fs ls \<longleftrightarrow> phys_wf st \<and> phys_offset st + frame_count st * PAGE_SIZE \<le> 2 ^ 64 \<and>
     free_chain (ram st) (phys_offset st) (free_list st) fs \<and>
     (\<forall>b \<in> set (fs @ ls). block_ok (phys_offset st) b \<and> frames_of (phys_offset st) b \<subseteq> frames_used st) \<and>
     disjoint_runs (fs @ ls) \<and> (\<forall>b \<in> set ls. live_header (ram st) (phys_offset st) b) \<and>
     bytes_in_use st = sum_list (map snd ls)"

text \<open>Memory of the given blocks, and every state outside the memory manager and the pool, is not disturbed.\<close>

definition undisturbed :: "(nat \<times> nat) list \<Rightarrow> 'a pool_state_scheme \<Rightarrow> 'a pool_state_scheme \<Rightarrow> bool" where
  "undisturbed ls st st' \<longleftrightarrow> phys_offset st' = phys_offset st \<and> geom st' = geom st \<and> pool_state.more st' = pool_state.more st \<and>
     (\<forall>off. 8 dvd off \<longrightarrow> phys_offset st + off \<in> runs_union ls \<longrightarrow> rd (ram st') off = rd (ram st) off)"

lemma live_header_keep:
  assumes "live_header m base b" "block_ok base b" "b \<in> set bs"
    "\<And>off. 8 dvd off \<Longrightarrow> base + off \<in> runs_union bs \<Longrightarrow> rd m' off = rd m off"
  shows "live_header m' base b"
proof -
  obtain a n where b: "b = (a, n)" by (cases b)
  note h = header_cells [OF assms(2) [unfolded b]]
  from units_of_subset [OF assms(3)] h b have "rd m' (a - base) = rd m (a - base)" "rd m' (a + 8 - base) = rd m (a + 8 - base)"
    by (auto intro!: assms(4))
  with assms(1) b show ?thesis by (simp add: live_header_def)
qed

lemma carve_ok:
  assumes "block_ok base (a, n)" "16 dvd want" "32 \<le> want" "want \<le> n"
  shows "\<forall>b \<in> set ((a, carved want (a, n)) # carve want (a, n)). block_ok base b \<and> units_of b \<subseteq> units_of (a, n)"
    "disjoint_runs ((a, carved want (a, n)) # carve want (a, n))"
    "runs_union ((a, carved want (a, n)) # carve want (a, n)) = units_of (a, n)"
proof -
  from assms(1) obtain k where k: "a = base + k" "8 dvd k" "16 dvd k" "16 dvd n" "32 \<le> n" "n < 2 ^ 32" "base + k + n \<le> 2 ^ 64" "base \<noteq> 0"
    by (rule block_ok_base)
  from k assms(2-4) show "\<forall>b \<in> set ((a, carved want (a, n)) # carve want (a, n)). block_ok base b \<and> units_of b \<subseteq> units_of (a, n)"
    by (auto simp: carve_def carved_def block_ok_def units_of_def)
  from k assms(2-4) show "disjoint_runs ((a, carved want (a, n)) # carve want (a, n))"
    by (auto simp: carve_def carved_def)
  from k assms(2-4) show "runs_union ((a, carved want (a, n)) # carve want (a, n)) = units_of (a, n)"
    by (auto simp: carve_def carved_def units_of_def)
qed

lemma pool_okD:
  assumes "pool_ok st fs ls"
  shows "phys_wf st" "phys_offset st + frame_count st * PAGE_SIZE \<le> 2 ^ 64"
    "free_chain (ram st) (phys_offset st) (free_list st) fs" "\<forall>b \<in> set (fs @ ls). block_ok (phys_offset st) b"
    "\<forall>b \<in> set (fs @ ls). frames_of (phys_offset st) b \<subseteq> frames_used st" "disjoint_runs (fs @ ls)"
    "\<forall>b \<in> set ls. live_header (ram st) (phys_offset st) b" "bytes_in_use st = sum_list (map snd ls)"
  using assms by (auto simp: pool_ok_def)

lemma chain_at:
  "free_chain m base p (xs @ (a, n) # ys) \<Longrightarrow>
     base \<le> a \<and> unat (lo32 (rd m (a - base))) = n \<and> free_chain m base (unat (rd m (a + 8 - base))) ys"
  by (induction xs arbitrary: p) auto

lemma frames_of_mono: "units_of b \<subseteq> units_of c \<Longrightarrow> frames_of base b \<subseteq> frames_of base c"
  by (auto simp: frames_of_def)

text \<open>Taking a block out of the list, the part that is split off staying in its place.\<close>

lemma relink:
  assumes chain: "free_chain (ram st) (phys_offset st) (free_list st) (xs @ (a, n) # ys)"
    and ok: "\<forall>b \<in> set (xs @ (a, n) # ys). block_ok (phys_offset st) b"
    and dj: "disjoint_runs (xs @ (a, n) # ys)" and want: "16 dvd want" "32 \<le> want" "want \<le> n"
  obtains m h where "do { nxt \<leftarrow> blk_next st a;
          st \<leftarrow> (if 32 \<le> n - want then do {
              st \<leftarrow> set_blk_size (a + want) (n - want) st;
              st \<leftarrow> set_blk_next (a + want) nxt st;
              set_link (link_to xs) (a + want) st
            } else set_link (link_to xs) nxt st);
          f st } = f (st\<lparr>ram := m, free_list := h\<rparr>)"
    "free_chain m (phys_offset st) h (xs @ carve want (a, n) @ ys)"
    "\<forall>off. 8 dvd off \<longrightarrow> phys_offset st + off \<notin> runs_union (xs @ carve want (a, n)) \<longrightarrow> rd m off = rd (ram st) off"
proof -
  let ?base = "phys_offset st" and ?m = "ram st" and ?zs = "carve want (a, n) @ ys"
  let ?q = "unat (rd ?m (a + 8 - ?base))" and ?r = "(a + want, n - want)"
  note at = chain_at [OF chain]
  have oka: "block_ok ?base (a, n)" using ok by simp
  note c = carve_ok [OF oka want]
  have nx: "blk_next st a = Some ?q" using at by (simp add: blk_next_def load_rd)
  have dj2: "disjoint_runs (xs @ ?zs)" using dj c(2,3) by (auto simp: disjoint_runs_append units_of_def)
  have ok2: "\<forall>b \<in> set (xs @ ?zs). block_ok ?base b" using ok c(1) by auto
  show thesis
  proof (cases "32 \<le> n - want")
    case False
    then have cv: "carve want (a, n) = []" by (simp add: carve_def)
    obtain m h where "set_link (link_to xs) ?q st = Some (st\<lparr>ram := m, free_list := h\<rparr>)" "free_chain m ?base h (xs @ ys)"
      "\<forall>off. 8 dvd off \<longrightarrow> ?base + off \<notin> runs_union xs \<longrightarrow> rd m off = rd ?m off"
      by (rule set_link_chain [OF chain]) (use at ok2 dj2 cv in auto)
    with nx False cv show thesis by (intro that [of h m]) auto
  next
    case True
    then have cv: "carve want (a, n) = [?r]" by (simp add: carve_def)
    have okr: "block_ok ?base ?r" using c(1) cv by simp
    note h = header_cells [OF okr]
    have djr: "units_of ?r \<inter> runs_union (xs @ ys) = {}" using dj2 cv by (auto simp: disjoint_runs_append units_of_def)
    let ?m1 = "linked_header ?m (a + want - ?base) (n - want) ?q"
    let ?s1 = "st\<lparr>ram := ?m1\<rparr>"
    have ch1: "free_chain ?m1 ?base (a + want) (?r # ys)"
      by (rule linked_header_chain [OF okr]) (use at ok djr unsigned_less [of "rd ?m (a + 8 - ?base)", where ?'a = nat] in auto)
    have out: "rd ?m1 off = rd ?m off" if "8 dvd off" "?base + off \<notin> units_of ?r" for off
      by (rule rd_linked_header(3)) (use that h in auto)
    have ch0: "free_chain ?m1 ?base (free_list st) (xs @ (a, n) # ys)"
    proof (rule chain_frame [OF chain])
      fix b l assume bl: "(b, l) \<in> set (xs @ (a, n) # ys)"
      then have "block_ok ?base (b, l)" using ok by blast
      note hb = header_cells [OF this]
      have "b \<notin> units_of ?r \<and> b + 8 \<notin> units_of ?r"
      proof (cases "(b, l) = (a, n)")
        case False
        then have "(b, l) \<in> set (xs @ ys)" using bl by auto
        from units_of_subset [OF this] djr hb show ?thesis by blast
      qed (use want in \<open>auto simp: units_of_def\<close>)
      with hb show "rd ?m1 (b - ?base) = rd ?m (b - ?base) \<and> rd ?m1 (b + 8 - ?base) = rd ?m (b + 8 - ?base)"
        by (auto intro!: out)
    qed
    obtain m h where l: "set_link (link_to xs) (a + want) ?s1 = Some (?s1\<lparr>ram := m, free_list := h\<rparr>)" "free_chain m ?base h (xs @ ?r # ys)"
      "\<forall>off. 8 dvd off \<longrightarrow> ?base + off \<notin> runs_union xs \<longrightarrow> rd m off = rd ?m1 off"
      by (rule set_link_chain [of ?s1 xs "(a, n) # ys" "a + want" "?r # ys"]) (use ch0 ch1 ok2 dj2 cv in auto)
    have "rd m off = rd ?m off" if "8 dvd off" "?base + off \<notin> runs_union (xs @ carve want (a, n))" for off
      using that l(3) out [of off] cv by (auto simp: units_of_def)
    with nx True cv l(1,2) link_header [OF h(5,1), of "n - want" ?q "\<lambda>st. Option.bind (set_link (link_to xs) (a + want) st) f"] show thesis
      by (intro that [of h m]) simp_all
  qed
qed

lemma take_fit_spec:
  assumes ok: "pool_ok st (xs @ (a, n) # ys) ls" and want: "16 dvd want" "32 \<le> want" "want \<le> n"
  obtains st' where "take_fit want tag (link_to xs) a st = Some (a + 16, st')"
    "pool_ok st' (xs @ carve want (a, n) @ ys) ((a, carved want (a, n)) # ls)" "blk_tag st' a = Some tag"
    "undisturbed ls st st'"
proof -
  let ?base = "phys_offset st"
  note p = pool_okD [OF ok]
  have dj: "disjoint_runs (xs @ (a, n) # ys)" "runs_union (xs @ (a, n) # ys) \<inter> runs_union ls = {}" "disjoint_runs ls"
    using p(6) disjoint_runs_append [of "xs @ (a, n) # ys" ls] by simp_all
  have okf: "\<forall>b \<in> set (xs @ (a, n) # ys). block_ok ?base b" using p(4) by auto
  have oka: "block_ok ?base (a, n)" using okf by simp
  note h = header_cells [OF oka] and c = carve_ok [OF oka want] and at = chain_at [OF p(3)]
  let ?k = "carved want (a, n)"
  let ?f = "\<lambda>st. do {
     st \<leftarrow> set_blk_size a ?k st;
     st \<leftarrow> set_blk_tag a tag st;
     st \<leftarrow> set_large_pages a (- 1) st;
     n \<leftarrow> blk_size st a;
     Some (a + HEADER_BYTES, st\<lparr>bytes_in_use := bytes_in_use st + n, allocations := allocations st + 1\<rparr>) }"
  obtain m hd where r: "do { nxt \<leftarrow> blk_next st a;
          st \<leftarrow> (if 32 \<le> n - want then do {
              st \<leftarrow> set_blk_size (a + want) (n - want) st;
              st \<leftarrow> set_blk_next (a + want) nxt st;
              set_link (link_to xs) (a + want) st
            } else set_link (link_to xs) nxt st);
          ?f st } = ?f (st\<lparr>ram := m, free_list := hd\<rparr>)"
    "free_chain m ?base hd (xs @ carve want (a, n) @ ys)"
    "\<forall>off. 8 dvd off \<longrightarrow> ?base + off \<notin> runs_union (xs @ carve want (a, n)) \<longrightarrow> rd m off = rd (ram st) off"
    by (rule relink [OF p(3) okf dj(1) want, where f = ?f])
  have bs: "blk_size st a = Some n" using at by (simp add: blk_size_def load_rd)
  let ?m = "stamped m (a - ?base) ?k tag (- 1)"
  let ?st = "st\<lparr>ram := ?m, free_list := hd, bytes_in_use := bytes_in_use st + ?k, allocations := allocations st + 1\<rparr>"
  have k32: "?k < 2 ^ 32" using oka want by (auto simp: carved_def block_ok_def)
  have "take_fit want tag (link_to xs) a st = ?f (st\<lparr>ram := m, free_list := hd\<rparr>)"
    using r(1) bs want by (simp add: take_fit_def carved_def Let_def cong: if_cong)
  also have "\<dots> = Some (a + 16, ?st)"
    using h(1,5) rd_stamped(1) [OF h(1)] k32
    by (subst stamp_header) (simp_all add: blk_size_def load_rd HEADER_BYTES_def unat_size32)
  finally have t: "take_fit want tag (link_to xs) a st = Some (a + 16, ?st)" .
  have out: "rd ?m off = rd (ram st) off" if "8 dvd off" "?base + off \<in> runs_union ls" for off
  proof -
    have "?base + off \<notin> runs_union (xs @ carve want (a, n))" "?base + off \<notin> units_of (a, n)"
      using that(2) dj(2) c(3) by (auto simp: units_of_def)
    with that(1) h r(3) rd_stamped(3) [OF h(1) that(1)] show ?thesis by force
  qed
  have chain: "free_chain ?m ?base hd (xs @ carve want (a, n) @ ys)"
  proof (rule chain_keep [OF r(2)])
    show "\<forall>b \<in> set (xs @ carve want (a, n) @ ys). block_ok ?base b" using okf c(1) by auto
    fix off assume o: "8 dvd off" "?base + off \<in> runs_union (xs @ carve want (a, n) @ ys)"
    have "?base + off \<notin> {a..<a + ?k}" using o(2) dj(1) c(2,3) by (auto simp: disjoint_runs_append units_of_def)
    moreover have "32 \<le> ?k" using want by (simp add: carved_def)
    ultimately show "rd ?m off = rd m off" using o(1) h by (intro rd_stamped(3)) auto
  qed
  have hdr: "live_header ?m ?base (a, ?k)" using rd_stamped [OF h(1)] h(5) k32 by (simp add: live_header_def unat_size32)
  have "pool_ok ?st (xs @ carve want (a, n) @ ys) ((a, ?k) # ls)"
    unfolding pool_ok_def
  proof (intro conjI)
    show "phys_wf ?st" using p(1) phys_cong(1) [of ?st st] by simp
    show "free_chain (ram ?st) (phys_offset ?st) (free_list ?st) (xs @ carve want (a, n) @ ys)" using chain by simp
    show "phys_offset ?st + frame_count ?st * PAGE_SIZE \<le> 2 ^ 64" using p(2) by (simp add: frame_count_def)
    have "frames_of ?base b \<subseteq> frames_used st" if "units_of b \<subseteq> units_of (a, n)" for b
      using frames_of_mono [OF that] p(5) by fastforce
    then have "\<forall>b \<in> set ((a, ?k) # carve want (a, n)). frames_of ?base b \<subseteq> frames_used st" using c(1) by blast
    moreover have "frames_used ?st = frames_used st" by (rule phys_cong) simp_all
    ultimately show "\<forall>b \<in> set ((xs @ carve want (a, n) @ ys) @ (a, ?k) # ls). block_ok (phys_offset ?st) b \<and> frames_of (phys_offset ?st) b \<subseteq> frames_used ?st"
      using p(4,5) c(1) by auto
    show "disjoint_runs ((xs @ carve want (a, n) @ ys) @ (a, ?k) # ls)"
      using p(6) c(2,3) by (auto simp: disjoint_runs_append units_of_def)
    show "\<forall>b \<in> set ((a, ?k) # ls). live_header (ram ?st) (phys_offset ?st) b"
      using hdr p(4,7) live_header_keep [OF _ _ _ out] by auto
    show "bytes_in_use ?st = sum_list (map snd ((a, ?k) # ls))" using p(8) by simp
  qed
  moreover have "blk_tag ?st a = Some tag" using rd_stamped(1) [OF h(1)] h(5) by (simp add: blk_tag_def load_rd)
  moreover have "undisturbed ls st ?st" using out by (simp add: undisturbed_def)
  ultimately show thesis using t that by blast
qed

lemma frame_of_cell:
  assumes "phys_offset st + off \<in> runs_union bs" "\<forall>b \<in> set bs. frames_of (phys_offset st) b \<subseteq> U"
  shows "off div PAGE_SIZE \<in> U"
proof -
  from assms(1) obtain b where "b \<in> set bs" "phys_offset st + off \<in> units_of b" by (auto simp: runs_union_def units_of_def)
  with assms(2) show ?thesis by (fastforce simp: frames_of_def)
qed

lemma insert_free:
  assumes ok: "pool_ok st fs ls" and b: "block_ok (phys_offset st) (a, n)" "frames_of (phys_offset st) (a, n) \<subseteq> frames_used st"
    "units_of (a, n) \<inter> runs_union (fs @ ls) = {}"
  obtains st' where "free_block_insert a n st = Some st'" "pool_ok st' ((a, n) # fs) ls" "undisturbed ls st st'"
    "pfn_db st' = pfn_db st" "phys_offset st' = phys_offset st"
proof -
  let ?base = "phys_offset st"
  note p = pool_okD [OF ok] and h = header_cells [OF b(1)]
  let ?m = "linked_header (ram st) (a - ?base) n (free_list st)"
  let ?st = "st\<lparr>ram := ?m, free_list := a\<rparr>"
  have q: "free_list st < 2 ^ 64"
  proof (cases fs)
    case (Cons c fs')
    with p(3,4) header_cells(6) [of ?base "fst c" "snd c"] show ?thesis by (cases c) auto
  qed (use p(3) in simp)
  have f: "free_block_insert a n st = Some ?st"
    using link_header [OF h(5,1), of n "free_list st" "\<lambda>st. Some (st\<lparr>free_list := a\<rparr>)"] h
    by (simp add: free_block_insert_def set_blk_size_def store_wr load_rd)
  have out: "rd ?m off = rd (ram st) off" if "8 dvd off" "?base + off \<in> runs_union ls" for off
    by (rule rd_linked_header(3)) (use that h b(3) in auto)
  have "pool_ok ?st ((a, n) # fs) ls"
    unfolding pool_ok_def
  proof (intro conjI)
    show "phys_wf ?st" using p(1) phys_cong(1) [of ?st st] by simp
    show "phys_offset ?st + frame_count ?st * PAGE_SIZE \<le> 2 ^ 64" using p(2) by (simp add: frame_count_def)
    show "free_chain (ram ?st) (phys_offset ?st) (free_list ?st) ((a, n) # fs)"
      using linked_header_chain [OF b(1) p(3) _ _ q] p(4) b(3) by auto
    have "frames_used ?st = frames_used st" by (rule phys_cong) simp_all
    then show "\<forall>c \<in> set (((a, n) # fs) @ ls). block_ok (phys_offset ?st) c \<and> frames_of (phys_offset ?st) c \<subseteq> frames_used ?st"
      using p(4,5) b by auto
    show "disjoint_runs (((a, n) # fs) @ ls)" using p(6) b(1,3) by (auto simp: units_of_def block_ok_def)
    show "\<forall>c \<in> set ls. live_header (ram ?st) (phys_offset ?st) c" using p(4,7) live_header_keep [OF _ _ _ out] by auto
    show "bytes_in_use ?st = sum_list (map snd ls)" using p(8) by simp
  qed
  with f out show thesis by (intro that [of ?st]) (auto simp: undisturbed_def)
qed

text \<open>
  Frames are at hand when the frame allocator alone decides the request: there is a free run, or no pager
  to ask for one.
\<close>

definition frames_at_hand :: "nat \<Rightarrow> 'a mm_state_scheme \<Rightarrow> bool" where
  "frames_at_hand n st \<longleftrightarrow> \<not> online st \<or> (\<exists>i. i + n \<le> frame_count st \<and> {i..<i + n} \<inter> frames_used st = {})"

lemma div_run: "x div PAGE_SIZE \<in> {i..<i + n} \<longleftrightarrow> from_pfn i \<le> x \<and> x < from_pfn i + n * PAGE_SIZE"
  by (auto simp: from_pfn_def less_eq_div_iff_mult_less_eq div_less_iff_less_mult PAGE_SIZE_def algebra_simps)

lemma frames_of_run: "frames_of base (base + from_pfn i, n * PAGE_SIZE) = {i..<i + n}"
proof -
  note x = div_run [of _ i n]
  show "frames_of base (base + from_pfn i, n * PAGE_SIZE) = {i..<i + n}" (is "?F = _")
  proof (intro set_eqI iffI)
    fix y assume "y \<in> ?F"
    then obtain v where v: "y = (v - base) div PAGE_SIZE" "base + from_pfn i \<le> v" "v < base + from_pfn i + n * PAGE_SIZE"
      by (auto simp: frames_of_def units_of_def)
    with x [of "v - base"] show "y \<in> {i..<i + n}" by auto
  next
    fix y assume y: "y \<in> {i..<i + n}"
    have "from_pfn y div PAGE_SIZE = y" by (simp add: from_pfn_def PAGE_SIZE_def)
    with x [of "from_pfn y"] y show "y \<in> ?F"
      by (auto simp: frames_of_def units_of_def intro!: image_eqI [of _ _ "base + from_pfn y"])
  qed
qed

lemma frame_block:
  assumes ok: "pool_ok st fs ls" and i: "i + n \<le> frame_count st" "0 < n" "n * PAGE_SIZE < 2 ^ 32"
  shows "block_ok (phys_offset st) (phys_offset st + from_pfn i, n * PAGE_SIZE)"
    "frames_of (phys_offset st) (phys_offset st + from_pfn i, n * PAGE_SIZE) = {i..<i + n}"
proof -
  from phys_wfE [OF pool_okD(1) [OF ok]] have base: "phys_offset st \<noteq> 0" by blast
  have "from_pfn i + n * PAGE_SIZE \<le> frame_count st * PAGE_SIZE"
    using i(1) by (simp add: from_pfn_def flip: distrib_right)
  with pool_okD(2) [OF ok] have "phys_offset st + from_pfn i + n * PAGE_SIZE \<le> 2 ^ 64" by linarith
  moreover have "16 dvd from_pfn i" "16 dvd n * PAGE_SIZE" by (simp_all add: from_pfn_def PAGE_SIZE_def)
  moreover have "32 \<le> n * PAGE_SIZE" using i(2) by (simp add: PAGE_SIZE_def)
  ultimately show "block_ok (phys_offset st) (phys_offset st + from_pfn i, n * PAGE_SIZE)"
    using base i(3) by (simp add: block_ok_def)
  show "frames_of (phys_offset st) (phys_offset st + from_pfn i, n * PAGE_SIZE) = {i..<i + n}" by (rule frames_of_run)
qed

lemma grow:
  assumes ok: "pool_ok st fs ls" and n: "0 < n" "n * PAGE_SIZE < 2 ^ 32" and hand: "frames_at_hand n st"
  obtains (full) "mm_allocate_contiguous_pages n st = Some (None, st)" 
      "\<forall>i. i + n \<le> frame_count st \<longrightarrow> {i..<i + n} \<inter> frames_used st \<noteq> {}"
  | (got) i st' where "mm_allocate_contiguous_pages n st = Some (Some (from_pfn i), st')" "pool_ok st' fs ls"
      "block_ok (phys_offset st) (phys_offset st + from_pfn i, n * PAGE_SIZE)"
      "frames_of (phys_offset st) (phys_offset st + from_pfn i, n * PAGE_SIZE) \<subseteq> frames_used st'"
      "units_of (phys_offset st + from_pfn i, n * PAGE_SIZE) \<inter> runs_union (fs @ ls) = {}"
      "undisturbed (fs @ ls) st st'"
proof (rule try_alloc_spec [OF pool_okD(1) [OF ok], of n])
  note p = pool_okD [OF ok]
  let ?base = "phys_offset st"
  fix r st'
  assume t: "try_alloc n st = Some (r, st')" and
    post: "case r of
       None \<Rightarrow> st' = st \<and> (n = 0 \<or> (\<forall>i. i + n \<le> frame_count st \<longrightarrow> {i..<i + n} \<inter> frames_used st \<noteq> {}))
     | Some pa \<Rightarrow> (\<exists>i. pa = from_pfn i \<and> 0 < n \<and> i + n \<le> frame_count st \<and> {i..<i + n} \<inter> frames_used st = {} \<and>
         frames_used st' = frames_used st \<union> {i..<i + n} \<and> frame_count st' = frame_count st \<and> phys_wf st' \<and>
         free_pages (pfn_db st') + n = free_pages (pfn_db st) \<and> ram st' = zero_frames (ram st) i n)"
  show thesis
  proof (cases r)
    case None
    with post n(1) have "st' = st" "\<forall>i. i + n \<le> frame_count st \<longrightarrow> {i..<i + n} \<inter> frames_used st \<noteq> {}" by auto
    with t None hand show thesis
      by (intro full) (auto simp: mm_allocate_contiguous_pages_def frames_at_hand_def)
  next
    case (Some pa)
    with post obtain i where i: "pa = from_pfn i" "i + n \<le> frame_count st" "{i..<i + n} \<inter> frames_used st = {}"
      "frames_used st' = frames_used st \<union> {i..<i + n}" "frame_count st' = frame_count st" "phys_wf st'"
      "ram st' = zero_frames (ram st) i n" by auto
    from try_alloc_only [OF t] obtain db m where s: "st' = st\<lparr>pfn_db := db, ram := m\<rparr>" by blast
    note fb = frame_block [OF ok i(2) n]
    have out: "rd (ram st') off = rd (ram st) off" if "?base + off \<in> runs_union (fs @ ls)" for off
      using frame_of_cell [OF that p(5)] i(3,7) by (auto simp: rd_def zero_frames_def)
    have "pool_ok st' fs ls"
      unfolding pool_ok_def
    proof (intro conjI)
      show "phys_wf st'" by fact
      show "phys_offset st' + frame_count st' * PAGE_SIZE \<le> 2 ^ 64" using p(2) i(5) s by simp
      show "free_chain (ram st') (phys_offset st') (free_list st') fs"
        using chain_keep [OF p(3), of "ram st'"] p(4) out s by auto
      show "\<forall>b \<in> set (fs @ ls). block_ok (phys_offset st') b \<and> frames_of (phys_offset st') b \<subseteq> frames_used st'"
        using p(4,5) i(4) s by auto
      show "disjoint_runs (fs @ ls)" by fact
      show "\<forall>b \<in> set ls. live_header (ram st') (phys_offset st') b"
        using p(4,7) live_header_keep [of "ram st" ?base _ "fs @ ls" "ram st'"] out s by auto
      show "bytes_in_use st' = sum_list (map snd ls)" using p(8) s by simp
    qed
    moreover have "units_of (?base + from_pfn i, n * PAGE_SIZE) \<inter> runs_union (fs @ ls) = {}"
    proof (rule ccontr)
      assume "\<not> ?thesis"
      then obtain x where x: "x \<in> units_of (?base + from_pfn i, n * PAGE_SIZE)" "x \<in> runs_union (fs @ ls)" by blast
      then have "?base + (x - ?base) = x" by (simp add: units_of_def)
      with x(2) frame_of_cell [of st "x - ?base" "fs @ ls", OF _ p(5)] have "(x - ?base) div PAGE_SIZE \<in> frames_used st" by simp
      with x(1) fb(2) i(3) show False by (auto simp: frames_of_def)
    qed
    moreover have "undisturbed (fs @ ls) st st'" using out s by (simp add: undisturbed_def)
    ultimately show thesis using t Some i(1,4) fb
      by (intro got [of i st']) (simp_all add: mm_allocate_contiguous_pages_def)
  qed
qed

text \<open>The frames a request may need: whole pages for a large one, a slab for the others.\<close>

definition frames_needed :: "nat \<Rightarrow> nat" where
  "frames_needed payload = (if LARGE_THRESHOLD \<le> payload then (payload + HEADER_BYTES + PAGE_SIZE - 1) div PAGE_SIZE else SLAB_PAGES)"

definition pool_allocated :: "nat \<Rightarrow> u32 \<Rightarrow> (nat \<times> nat) list \<Rightarrow> 'a pool_state_scheme \<Rightarrow> nat \<Rightarrow> 'a pool_state_scheme \<Rightarrow> bool" where
  "pool_allocated payload tag ls st p st' \<longleftrightarrow> (\<exists>a n fs'. p = a + HEADER_BYTES \<and> 16 dvd (p - phys_offset st) \<and> payload + HEADER_BYTES \<le> n \<and>
     pool_ok st' fs' ((a, n) # ls) \<and> blk_tag st' a = Some tag \<and> undisturbed ls st st')"

lemma frames_needed_bounds:
  assumes "0 < payload" "payload < 2 ^ 31"
  shows "0 < frames_needed payload" "frames_needed payload * PAGE_SIZE < 2 ^ 32"
    "LARGE_THRESHOLD \<le> payload \<Longrightarrow> payload + HEADER_BYTES \<le> frames_needed payload * PAGE_SIZE"
proof -
  let ?p = "(payload + 4111) div 4096"
  have "?p * 4096 \<le> payload + 4111" "payload + 16 \<le> ?p * 4096" "0 < ?p" by simp_all
  with assms show "0 < frames_needed payload" "frames_needed payload * PAGE_SIZE < 2 ^ 32"
    "LARGE_THRESHOLD \<le> payload \<Longrightarrow> payload + HEADER_BYTES \<le> frames_needed payload * PAGE_SIZE"
    by (auto simp: frames_needed_def HEADER_BYTES_def PAGE_SIZE_def SLAB_PAGES_def)
qed

lemma alloc_fit:
  assumes ok: "pool_ok st fs ls" and pay: "0 < payload" "payload < LARGE_THRESHOLD"
    and fit: "\<exists>b \<in> set fs. block_size_for payload \<le> snd b"
  shows "\<exists>p st'. pool_alloc payload tag st = Some (p, st') \<and> p \<noteq> 0 \<and> pool_allocated payload tag ls st p st'"
proof -
  let ?w = "block_size_for payload"
  let ?xs = "takeWhile (\<lambda>b. snd b < ?w) fs"
  note w = block_size_for_bounds [OF pay(1)]
  obtain a n ys where d: "dropWhile (\<lambda>b. snd b < ?w) fs = (a, n) # ys"
    using fit by (metis dropWhile_eq_Nil_conv linorder_not_less list.exhaust surj_pair)
  have fs: "fs = ?xs @ (a, n) # ys" using takeWhile_dropWhile_id [of "\<lambda>b. snd b < ?w" fs] d by simp
  have n: "?w \<le> n" using hd_dropWhile [of "\<lambda>b. snd b < ?w" fs] d by simp
  have "find_fit ?w Head st = Some (Some (link_to ?xs, a))"
    using find_fit_spec [of st "[]" fs ?w] pool_okD(3) [OF ok] d by (simp add: link_to_def [of "[]"])
  moreover have ok': "pool_ok st (?xs @ (a, n) # ys) ls" using ok fs by simp
  obtain st' where t: "take_fit ?w tag (link_to ?xs) a st = Some (a + 16, st')"
    "pool_ok st' (?xs @ carve ?w (a, n) @ ys) ((a, carved ?w (a, n)) # ls)" "blk_tag st' a = Some tag" "undisturbed ls st st'"
    by (rule take_fit_spec [OF ok']) (use w n in auto)
  have "block_ok (phys_offset st) (a, n)" using pool_okD(4) [OF ok'] by simp
  then have "16 dvd (a + 16 - phys_offset st)" by (rule block_ok_base) simp
  moreover have "payload + 16 \<le> carved ?w (a, n)" using w n by (simp add: carved_def)
  ultimately show ?thesis using pay t
    by (subst pool_alloc.simps) (auto simp: pool_allocated_def HEADER_BYTES_def not_le)
qed

lemma no_fit:
  assumes "pool_ok st fs ls" "\<forall>b \<in> set fs. snd b < want"
  shows "find_fit want Head st = Some None"
  using find_fit_spec [of st "[]" fs want] pool_okD(3) [OF assms(1)] assms(2)
  by (simp add: link_to_def [of "[]"] dropWhile_eq_Nil_conv [THEN iffD2])

lemma undisturbed_trans:
  "undisturbed (fs @ ls) st st1 \<Longrightarrow> undisturbed ls st1 st2 \<Longrightarrow> undisturbed ls st st2"
  by (simp add: undisturbed_def)

lemma phys_to_virt_pool: "pool_ok st fs ls \<Longrightarrow> phys_to_virt st pa = Some (phys_offset st + pa)"
  using phys_wfE [OF pool_okD(1)] by (simp add: phys_to_virt_def) blast

lemma alloc_grow:
  assumes ok: "pool_ok st fs ls" and pay: "0 < payload" "payload < LARGE_THRESHOLD"
    and nofit: "\<forall>b \<in> set fs. snd b < block_size_for payload" and hand: "frames_at_hand SLAB_PAGES st"
  shows "\<exists>p st'. pool_alloc payload tag st = Some (p, st') \<and>
    (if p = 0 then st' = st \<and> (\<forall>i. i + SLAB_PAGES \<le> frame_count st \<longrightarrow> {i..<i + SLAB_PAGES} \<inter> frames_used st \<noteq> {})
     else pool_allocated payload tag ls st p st')"
proof -
  have s: "0 < SLAB_PAGES" "SLAB_PAGES * PAGE_SIZE < 2 ^ 32" by (simp_all add: SLAB_PAGES_def PAGE_SIZE_def)
  note ff = no_fit [OF ok nofit]
  have lt: "\<not> LARGE_THRESHOLD \<le> payload" using pay(2) by simp
  show ?thesis
  proof (rule grow [OF ok s hand])
    assume f: "mm_allocate_contiguous_pages SLAB_PAGES st = Some (None, st)"
      "\<forall>i. i + SLAB_PAGES \<le> frame_count st \<longrightarrow> {i..<i + SLAB_PAGES} \<inter> frames_used st \<noteq> {}"
    then have "pool_alloc payload tag st = Some (0, st)"
      using ff pay lt by (subst pool_alloc.simps) simp
    with f(2) show ?thesis by simp
  next
    fix i st1
    let ?a = "phys_offset st + from_pfn i" and ?n = "SLAB_PAGES * PAGE_SIZE"
    assume g: "mm_allocate_contiguous_pages SLAB_PAGES st = Some (Some (from_pfn i), st1)" "pool_ok st1 fs ls"
      "block_ok (phys_offset st) (?a, ?n)" "frames_of (phys_offset st) (?a, ?n) \<subseteq> frames_used st1"
      "units_of (?a, ?n) \<inter> runs_union (fs @ ls) = {}" "undisturbed (fs @ ls) st st1"
    from g(6) have b: "phys_offset st1 = phys_offset st" by (simp add: undisturbed_def)
    obtain st2 where i: "free_block_insert ?a ?n st1 = Some st2" "pool_ok st2 ((?a, ?n) # fs) ls" "undisturbed ls st1 st2"
      by (rule insert_free [OF g(2)]) (use g b in auto)
    have "pool_alloc payload tag st = pool_alloc payload tag st2"
      using ff pay lt g(1) i(1) phys_to_virt_pool [OF g(2)] b
      by (subst pool_alloc.simps) simp
    moreover have "block_size_for payload \<le> ?n"
      using block_size_for_bounds [OF pay(1)] pay(2) by (simp add: LARGE_THRESHOLD_def SLAB_PAGES_def PAGE_SIZE_def POOL_ALIGN_def)
    then have "\<exists>p st'. pool_alloc payload tag st2 = Some (p, st') \<and> p \<noteq> 0 \<and> pool_allocated payload tag ls st2 p st'"
      by (intro alloc_fit [OF i(2) pay]) auto
    moreover note u = undisturbed_trans [OF g(6) i(3)]
    moreover from u have "phys_offset st2 = phys_offset st" by (simp add: undisturbed_def)
    moreover have "undisturbed ls st st'" if "undisturbed ls st2 st'" for st'
      using that u by (simp add: undisturbed_def)
    ultimately show ?thesis by (fastforce simp: pool_allocated_def)
  qed
qed

lemma alloc_large:
  assumes ok: "pool_ok st fs ls" and pay: "LARGE_THRESHOLD \<le> payload" "payload < 2 ^ 31"
    and hand: "frames_at_hand (frames_needed payload) st"
  shows "\<exists>p st'. pool_alloc payload tag st = Some (p, st') \<and>
    (if p = 0 then st' = st \<and> (\<forall>i. i + frames_needed payload \<le> frame_count st \<longrightarrow> {i..<i + frames_needed payload} \<inter> frames_used st \<noteq> {})
     else pool_allocated payload tag ls st p st')"
proof -
  let ?n = "frames_needed payload"
  have pos: "0 < payload" using pay(1) by (simp add: LARGE_THRESHOLD_def PAGE_SIZE_def POOL_ALIGN_def)
  note nb = frames_needed_bounds [OF pos pay(2)]
  have n: "(payload + HEADER_BYTES + PAGE_SIZE - 1) div PAGE_SIZE = ?n" using pay(1) by (simp add: frames_needed_def)
  have e: "pool_alloc payload tag st = pool_alloc_large payload tag st" using pay(1) pos by (subst pool_alloc.simps) simp
  have sz: "payload + HEADER_BYTES < 2 ^ 64" using pay(2) by (simp add: HEADER_BYTES_def)
  note d = pool_alloc_large_def [of payload tag st, unfolded n Let_def]
  show ?thesis
  proof (rule grow [OF ok nb(1,2) hand])
    assume f: "mm_allocate_contiguous_pages ?n st = Some (None, st)"
      "\<forall>i. i + ?n \<le> frame_count st \<longrightarrow> {i..<i + ?n} \<inter> frames_used st \<noteq> {}"
    then show ?thesis using e sz by (simp add: d)
  next
    fix i st1
    let ?base = "phys_offset st" and ?a = "phys_offset st + from_pfn i" and ?l = "?n * PAGE_SIZE"
    assume g: "mm_allocate_contiguous_pages ?n st = Some (Some (from_pfn i), st1)" "pool_ok st1 fs ls"
      "block_ok ?base (?a, ?l)" "frames_of ?base (?a, ?l) \<subseteq> frames_used st1"
      "units_of (?a, ?l) \<inter> runs_union (fs @ ls) = {}" "undisturbed (fs @ ls) st st1"
    note p = pool_okD [OF g(2)] and h = header_cells [OF g(3)]
    from g(6) have b: "phys_offset st1 = ?base" by (simp add: undisturbed_def)
    let ?m = "stamped (ram st1) (from_pfn i) ?l tag (of_nat ?n)"
    let ?st = "st1\<lparr>ram := ?m, bytes_in_use := bytes_in_use st1 + ?l, allocations := allocations st1 + 1\<rparr>"
    have off: "8 dvd from_pfn i" using h(1) by simp
    have "pool_alloc payload tag st = Some (?a + HEADER_BYTES, ?st)"
      unfolding e d using g(1) sz off phys_to_virt_pool [OF g(2)] b
      by (simp add: stamp_header)
    moreover have out: "rd ?m x = rd (ram st1) x" if "8 dvd x" "?base + x \<in> runs_union (fs @ ls)" for x
    proof (rule rd_stamped(3) [OF off that(1)])
      show "x \<noteq> from_pfn i" "x \<noteq> from_pfn i + 8" using that(2) g(5) h(3,4) by (auto simp: add.assoc)
    qed
    have "pool_ok ?st fs ((?a, ?l) # ls)"
      unfolding pool_ok_def
    proof (intro conjI)
      show "phys_wf ?st" using p(1) phys_cong(1) [of ?st st1] by simp
      show "phys_offset ?st + frame_count ?st * PAGE_SIZE \<le> 2 ^ 64" using p(2) by (simp add: frame_count_def)
      show "free_chain (ram ?st) (phys_offset ?st) (free_list ?st) fs"
        using chain_keep [OF p(3), of ?m] p(4) out b by auto
      have "frames_used ?st = frames_used st1" by (rule phys_cong) simp_all
      then show "\<forall>c \<in> set (fs @ (?a, ?l) # ls). block_ok (phys_offset ?st) c \<and> frames_of (phys_offset ?st) c \<subseteq> frames_used ?st"
        using p(4,5) g(3,4) b by auto
      show "disjoint_runs (fs @ (?a, ?l) # ls)"
        using p(6) g(3,5) by (auto simp: disjoint_runs_append units_of_def block_ok_def)
      have "?l < 2 ^ 32" "?n < 2 ^ 32" using nb(2) by (simp_all add: PAGE_SIZE_def)
      then have "live_header ?m ?base (?a, ?l)" using rd_stamped [OF off]
        by (simp add: live_header_def unat_size32 add.assoc from_pfn_def del: of_nat_mult)
      then show "\<forall>c \<in> set ((?a, ?l) # ls). live_header (ram ?st) (phys_offset ?st) c"
        using p(4,7) live_header_keep [of "ram st1" ?base _ "fs @ ls" ?m] out b by auto
      show "bytes_in_use ?st = sum_list (map snd ((?a, ?l) # ls))" using p(8) by simp
    qed
    moreover have "blk_tag ?st ?a = Some tag" using rd_stamped(1) [OF off] b by (simp add: blk_tag_def load_rd)
    moreover have "undisturbed ls st ?st" using g(6) out b by (simp add: undisturbed_def)
    moreover have "16 dvd (?a + HEADER_BYTES - ?base)" using g(3) by (auto simp: block_ok_def HEADER_BYTES_def)
    ultimately show ?thesis using nb(3) [OF pay(1)] by (auto simp: pool_allocated_def HEADER_BYTES_def)
  qed
qed

lemma pool_alloc_spec:
  assumes ok: "pool_ok st fs ls" and pay: "0 < payload" "payload < 2 ^ 31" and hand: "frames_at_hand (frames_needed payload) st"
  shows "\<exists>p st'. pool_alloc payload tag st = Some (p, st') \<and>
    (if p = 0 then st' = st \<and> (\<forall>i. i + frames_needed payload \<le> frame_count st \<longrightarrow> {i..<i + frames_needed payload} \<inter> frames_used st \<noteq> {})
     else pool_allocated payload tag ls st p st')"
proof (cases "LARGE_THRESHOLD \<le> payload")
  case True
  with alloc_large [OF ok True pay(2) hand] show ?thesis by simp
next
  case False
  then have lt: "payload < LARGE_THRESHOLD" and n: "frames_needed payload = SLAB_PAGES" by (simp_all add: frames_needed_def)
  show ?thesis
  proof (cases "\<exists>b \<in> set fs. block_size_for payload \<le> snd b")
    case True
    from alloc_fit [OF ok pay(1) lt True, of tag] obtain p st' where "pool_alloc payload tag st = Some (p, st')" "p \<noteq> 0"
      "pool_allocated payload tag ls st p st'" by blast
    then show ?thesis by (intro exI [of _ p] exI [of _ st']) simp
  next
    case False
    then have "\<forall>b \<in> set fs. snd b < block_size_for payload" by (simp add: not_le)
    from alloc_grow [OF ok pay(1) lt this hand [unfolded n]] show ?thesis unfolding n .
  qed
qed

lemma remove_live:
  assumes ok: "pool_ok st fs ls" and b: "b \<in> set ls" and st': "st' = st\<lparr>bytes_in_use := bytes_in_use st - snd b, pool_frees := k\<rparr>"
  shows "pool_ok st' fs (remove1 b ls)" "units_of b \<inter> runs_union (fs @ remove1 b ls) = {}" "snd b \<le> bytes_in_use st"
proof -
  note p = pool_okD [OF ok]
  have dj: "disjoint_runs fs" "disjoint_runs ls" "runs_union fs \<inter> runs_union ls = {}"
    using p(6) by (simp_all add: disjoint_runs_append)
  note r = disjoint_runs_remove1 [OF dj(2) b]
  have sum: "sum_list (map snd ls) = snd b + sum_list (map snd (remove1 b ls))"
    using sum_list_map_remove1 [OF b, of snd] by simp
  then show "snd b \<le> bytes_in_use st" using p(8) by simp
  show "units_of b \<inter> runs_union (fs @ remove1 b ls) = {}" using r dj(3) by (auto simp: units_of_def)
  have "phys_wf st'" "frames_used st' = frames_used st" "frame_count st' = frame_count st"
    using p(1) phys_cong [of st' st] st' by simp_all
  moreover have "\<forall>c \<in> set (fs @ remove1 b ls). c \<in> set (fs @ ls)" by (auto dest: notin_set_remove1)
  moreover have "disjoint_runs (fs @ remove1 b ls)" using dj r by (auto simp: disjoint_runs_append)
  ultimately show "pool_ok st' fs (remove1 b ls)"
    using p sum st' by (auto simp: pool_ok_def dest: notin_set_remove1)
qed

lemma pool_free_spec:
  assumes ok: "pool_ok st fs ls" and live: "(a, n) \<in> set ls" and tag: "blk_tag st a = Some tag"
  shows "\<exists>st' fs'. pool_free (a + HEADER_BYTES) tag st = Some st' \<and> pool_ok st' fs' (remove1 (a, n) ls) \<and>
    undisturbed (remove1 (a, n) ls) st st' \<and>
    (if large_pages st a = Some (- 1) then fs' = (a, n) # fs \<and> frames_used st' = frames_used st
     else fs' = fs \<and> frames_used st' = frames_used st - frames_of (phys_offset st) (a, n))"
proof -
  note p = pool_okD [OF ok]
  let ?base = "phys_offset st" and ?ls = "remove1 (a, n) ls" and ?s1 = "st\<lparr>bytes_in_use := bytes_in_use st - n, pool_frees := pool_frees st + 1\<rparr>"
  have r: "pool_ok ?s1 fs ?ls" "units_of (a, n) \<inter> runs_union (fs @ ?ls) = {}" "n \<le> bytes_in_use st"
    using remove_live [OF ok live, of ?s1] by auto
  have bk: "block_ok ?base (a, n)" and fr: "frames_of ?base (a, n) \<subseteq> frames_used st" using p(4,5) live by auto
  note h = header_cells [OF bk]
  have lh: "live_header (ram st) ?base (a, n)" using p(7) live by blast
  define lp where "lp = lo32 (rd (ram st) (a + 8 - ?base))"
  have g: "blk_size st a = Some n" "large_pages st a = Some lp" "large_pages ?s1 a = Some lp"
    using lh h(5) by (simp_all add: blk_size_def large_pages_def load_rd lp_def live_header_def Let_def)
  have cut: "pool_free (a + HEADER_BYTES) tag st = (if lp \<noteq> - 1 then do {
          base \<leftarrow> phys_to_virt ?s1 0;
          off \<leftarrow> sub_nat a base;
          mm_free_contiguous_pages off (unat lp) ?s1
        } else free_block_insert a n ?s1)"
    using g tag r(3) by (simp add: pool_free_def HEADER_BYTES_def Let_def del: bind_assoc)
  have fu: "frames_used ?s1 = frames_used st" by (rule phys_cong) simp_all
  show ?thesis
  proof (cases "lp = - 1")
    case True
    obtain st' where i: "free_block_insert a n ?s1 = Some st'" "pool_ok st' ((a, n) # fs) ?ls" "undisturbed ?ls ?s1 st'"
      "pfn_db st' = pfn_db ?s1" "phys_offset st' = phys_offset ?s1"
      by (rule insert_free [OF r(1), of a n]) (use bk fr fu r(2) in simp_all)
    then have "frames_used st' = frames_used st" "undisturbed ?ls st st'" using phys_cong(2) [of st' st] by (auto simp: undisturbed_def)
    with True g cut i show ?thesis by simp
  next
    case False
    with lh have pg: "PAGE_SIZE dvd (a - ?base)" "n = unat lp * PAGE_SIZE" by (simp_all add: live_header_def lp_def Let_def)
    have i: "a - ?base = from_pfn ((a - ?base) div PAGE_SIZE)" using pg(1) by (simp add: from_pfn_def)
    define i where "i = (a - ?base) div PAGE_SIZE"
    note i = i [folded i_def]
    have pos: "0 < unat lp" using pg(2) bk by (auto simp: block_ok_def intro!: Nat.gr0I)
    have a: "a = ?base + from_pfn i" using i h(5) by simp
    have run: "frames_of ?base (a, n) = {i..<i + unat lp}" using frames_of_run [of ?base i "unat lp"] pg(2) a by simp
    obtain st' where f: "mm_free_contiguous_pages (from_pfn i) (unat lp) ?s1 = Some st'"
      "frames_used st' = frames_used ?s1 - {i..<i + unat lp}" "frame_count st' = frame_count ?s1" "phys_wf st'"
      by (rule mm_free_spec [of ?s1 i "unat lp"]) (use pool_okD(1) [OF r(1)] fr run fu pos in auto)
    obtain db where s: "st' = ?s1\<lparr>pfn_db := db\<rparr>" by (rule mm_free_only_db [OF f(1)])
    have keep: "frames_of ?base c \<subseteq> frames_used st'" if c: "c \<in> set (fs @ ?ls)" for c
    proof
      fix y assume y: "y \<in> frames_of ?base c"
      then obtain x where x: "x \<in> units_of c" "y = (x - ?base) div PAGE_SIZE" by (auto simp: frames_of_def)
      have "x \<notin> units_of (a, n)" using r(2) units_of_subset [OF c] x(1) by blast
      moreover have "?base \<le> fst c" using pool_okD(4) [OF r(1)] c by (auto simp: block_ok_def)
      then have "?base \<le> x" using x(1) by (simp add: units_of_def)
      ultimately have "y \<notin> {i..<i + unat lp}" using x(2) i h(5) pg(2) div_run by (fastforce simp: units_of_def)
      moreover have "y \<in> frames_used ?s1" using pool_okD(5) [OF r(1)] c y by auto
      ultimately show "y \<in> frames_used st'" using f(2) by simp
    qed
    have "pool_ok st' fs ?ls"
      using pool_okD [OF r(1)] f(3,4) keep s by (auto simp: pool_ok_def)
    moreover have "undisturbed ?ls st st'" using s by (simp add: undisturbed_def)
    moreover have "pool_free (a + HEADER_BYTES) tag st = Some st'"
      using cut False phys_to_virt_pool [OF r(1)] h(5) i f(1) by simp
    ultimately show ?thesis using False g(2) f(2) fu run by auto
  qed
qed

section \<open>Histories\<close>

text \<open>
  A history of pool calls while the pager is not attached, with the live blocks after it. Any live
  block may be freed.
\<close>

inductive pool_history :: "'a pool_state_scheme \<Rightarrow> 'a pool_state_scheme \<Rightarrow> (nat \<times> nat) list \<Rightarrow> bool" for st0 where
  start: "pool_history st0 st0 []"
| refused: "pool_history st0 st ls \<Longrightarrow> payload < 2 ^ 31 \<Longrightarrow> pool_alloc payload tag st = Some (0, st') \<Longrightarrow> pool_history st0 st' ls"
| granted: "pool_history st0 st ls \<Longrightarrow> payload < 2 ^ 31 \<Longrightarrow> pool_alloc payload tag st = Some (a + HEADER_BYTES, st') \<Longrightarrow>
     blk_size st' a = Some n \<Longrightarrow> pool_history st0 st' ((a, n) # ls)"
| freed: "pool_history st0 st ls \<Longrightarrow> (a, n) \<in> set ls \<Longrightarrow> pool_free_any (a + HEADER_BYTES) st = Some st' \<Longrightarrow>
     pool_history st0 st' (remove1 (a, n) ls)"

lemma pool_allocated_size:
  assumes "pool_allocated payload tag ls st (a + HEADER_BYTES) st'" "blk_size st' a = Some n"
  shows "\<exists>fs. pool_ok st' fs ((a, n) # ls)"
proof -
  from assms(1) obtain k fs where "pool_ok st' fs ((a, k) # ls)"
    by (auto simp: pool_allocated_def)
  moreover from pool_okD(4,7) [OF this] have "blk_size st' a = Some k"
    by (simp add: blk_size_def live_header_def load_rd block_ok_def)
  ultimately show ?thesis using assms(2) by auto
qed

lemma pool_free_any_spec:
  assumes "pool_ok st fs ls" "(a, n) \<in> set ls"
  obtains tag where "blk_tag st a = Some tag" "pool_free_any (a + HEADER_BYTES) st = pool_free (a + HEADER_BYTES) tag st"
proof -
  from pool_okD(4) [OF assms(1)] assms(2) have "block_ok (phys_offset st) (a, n)" by auto
  from header_cells(5) [OF this] have "blk_tag st a = Some (hi32 (rd (ram st) (a - phys_offset st)))"
    by (simp add: blk_tag_def load_rd)
  then show thesis by (intro that) (simp_all add: pool_free_any_def HEADER_BYTES_def)
qed

lemma at_hand_offline: "\<not> online st \<Longrightarrow> frames_at_hand n st"
  by (simp add: frames_at_hand_def)

lemma undisturbed_online: "undisturbed ls st st' \<Longrightarrow> online st' = online st"
  by (simp add: undisturbed_def online_def slot_count_def)

lemma pool_history_ok:
  assumes "pool_history st0 st ls" "pool_ok st0 fs0 []" "\<not> online st0"
  shows "(\<exists>fs. pool_ok st fs ls) \<and> \<not> online st"
  using assms
proof (induction rule: pool_history.induct)
  case start
  then show ?case by blast
next
  case (refused st ls payload tag st')
  then obtain fs where ok: "pool_ok st fs ls" and off: "\<not> online st" by blast
  show ?case
  proof (cases "payload = 0")
    case True
    with refused.hyps(3) have "st' = st" by (simp add: pool_alloc.simps)
    with ok off show ?thesis by blast
  next
    case False
    with pool_alloc_spec [OF ok _ refused.hyps(2) at_hand_offline [OF off], of tag] refused.hyps(3) have "st' = st" by auto
    with ok off show ?thesis by blast
  qed
next
  case (granted st ls payload tag a st' n)
  then obtain fs where ok: "pool_ok st fs ls" and off: "\<not> online st" by blast
  have pos: "0 < payload" using granted.hyps(3) by (auto simp: pool_alloc.simps HEADER_BYTES_def intro!: Nat.gr0I)
  from pool_alloc_spec [OF ok pos granted.hyps(2) at_hand_offline [OF off], of tag] granted.hyps(3)
  have "pool_allocated payload tag ls st (a + HEADER_BYTES) st'" by (auto simp: HEADER_BYTES_def)
  with pool_allocated_size [OF this granted.hyps(4)] off show ?case
    by (auto simp: pool_allocated_def dest: undisturbed_online)
next
  case (freed st ls a n st')
  then obtain fs where ok: "pool_ok st fs ls" and off: "\<not> online st" by blast
  obtain tag where t: "blk_tag st a = Some tag" "pool_free_any (a + HEADER_BYTES) st = pool_free (a + HEADER_BYTES) tag st"
    by (rule pool_free_any_spec [OF ok freed.hyps(2)])
  from pool_free_spec [OF ok freed.hyps(2) t(1)] freed.hyps(3) t(2) off show ?case
    by (auto dest: undisturbed_online)
qed

section \<open>Properties\<close>

definition demo_pool :: pool_state where
  "demo_pool = mm_state.extend (demo_mm\<lparr>geom := (0, 0)\<rparr>) (pool_state.fields 0 0 0 0)"

lemma demo_pool_ok: "pool_ok demo_pool [] []" "\<not> online demo_pool" "frames_used demo_pool = {..<6}" "frame_count demo_pool = 64"
proof -
  have s: "phys_offset demo_pool = phys_offset demo_mm" "pfn_db demo_pool = pfn_db demo_mm"
    "free_list demo_pool = 0" "bytes_in_use demo_pool = 0" "geom demo_pool = (0, 0)"
    by (simp_all add: demo_pool_def mm_state.defs pool_state.defs demo_mm_def)
  from s demo_mm_wf show "frames_used demo_pool = {..<6}" by (simp add: frames_used_def)
  from s show fc: "frame_count demo_pool = 64" by (simp add: frame_count_def demo_mm_def)
  have "phys_wf demo_pool" using demo_mm_wf(1) s by (simp add: phys_wf_def)
  with s fc show "pool_ok demo_pool [] []" by (simp add: pool_ok_def demo_mm_def PAGE_SIZE_def)
  from s show "\<not> online demo_pool" by (simp add: online_def slot_count_def)
qed

text \<open>
  C26. Allocation. On a well-formed pool, with frames at hand, \<open>pool_alloc\<close> returns, although it follows links read
  from memory and calls itself. It returns null only when there is no free run of the frames it needs, and then
  changes nothing. Otherwise the pointer is 16-aligned in the window, its block has room for the payload and the
  header, carries the tag, is disjoint from every live block, the pool is well-formed again, and no qword of a
  live block has changed.
\<close>

theorem pool_alloc_correct:
  assumes "pool_ok st fs ls" "0 < payload" "payload < 2 ^ 31" "frames_at_hand (frames_needed payload) st"
  shows "\<exists>p st'. pool_alloc payload tag st = Some (p, st') \<and>
    (if p = 0 then st' = st \<and> (\<forall>i. i + frames_needed payload \<le> frame_count st \<longrightarrow> {i..<i + frames_needed payload} \<inter> frames_used st \<noteq> {})
     else \<exists>a n fs'. p = a + HEADER_BYTES \<and> 16 dvd (p - phys_offset st) \<and> payload + HEADER_BYTES \<le> n \<and>
       pool_ok st' fs' ((a, n) # ls) \<and> blk_tag st' a = Some tag \<and> undisturbed ls st st')"
  using pool_alloc_spec [OF assms, of tag] by (simp add: pool_allocated_def cong: if_cong)

theorem pool_alloc_witness:
  "pool_ok demo_pool [] [] \<and> frames_at_hand (frames_needed 100) demo_pool \<and> (\<exists>p st'. pool_alloc 100 7 demo_pool = Some (p, st'))"
  using pool_alloc_correct [OF demo_pool_ok(1), of 100 7] at_hand_offline [OF demo_pool_ok(2)] demo_pool_ok(1) by auto

text \<open>
  C27. Release. Freeing a live block under its own tag succeeds and under any other tag is a bugcheck. A list block is
  pushed on the free list as it is, without merging it with a neighbour; a large block gives back exactly its
  frames. The other live blocks keep their contents and the pool stays well-formed, so the bytes in use drop by
  the block's size.
\<close>

theorem pool_free_correct:
  assumes "pool_ok st fs ls" "(a, n) \<in> set ls" "blk_tag st a = Some t"
  shows "(t \<noteq> tag \<longrightarrow> pool_free (a + HEADER_BYTES) tag st = None) \<and>
    (\<exists>st' fs'. pool_free (a + HEADER_BYTES) t st = Some st' \<and> pool_ok st' fs' (remove1 (a, n) ls) \<and>
      undisturbed (remove1 (a, n) ls) st st' \<and>
      (if large_pages st a = Some (- 1) then fs' = (a, n) # fs \<and> frames_used st' = frames_used st
       else fs' = fs \<and> frames_used st' = frames_used st - frames_of (phys_offset st) (a, n)))"
  using pool_free_spec [OF assms] assms(3) by (simp add: pool_free_def HEADER_BYTES_def)

theorem pool_free_witness:
  "\<exists>p st' a fs n. pool_alloc 100 7 demo_pool = Some (p, st') \<and> p = a + HEADER_BYTES \<and> pool_ok st' fs [(a, n)] \<and>
    (\<exists>st''. pool_free p 7 st' = Some st'') \<and> pool_free p 8 st' = None"
proof -
  have "\<exists>i. i + 16 \<le> (64 :: nat) \<and> {i..<i + 16} \<inter> {..<6 :: nat} = {}" by (intro exI [of _ 6]) auto
  then have "\<not> (\<forall>i. i + frames_needed 100 \<le> frame_count demo_pool \<longrightarrow> {i..<i + frames_needed 100} \<inter> frames_used demo_pool \<noteq> {})"
    by (simp add: frames_needed_def LARGE_THRESHOLD_def PAGE_SIZE_def POOL_ALIGN_def SLAB_PAGES_def demo_pool_ok(3,4))
  with pool_alloc_spec [OF demo_pool_ok(1), of 100 7] at_hand_offline [OF demo_pool_ok(2)]
  obtain p st' where p: "pool_alloc 100 7 demo_pool = Some (p, st')" "pool_allocated 100 7 [] demo_pool p st'"
    by (auto split: if_splits)
  then obtain a n fs where a: "p = a + HEADER_BYTES" "pool_ok st' fs [(a, n)]" "blk_tag st' a = Some 7"
    by (auto simp: pool_allocated_def)
  have "(a, n) \<in> set [(a, n)]" by simp
  from pool_free_correct [OF a(2) this a(3), of 8] a(1,2) p(1) show ?thesis by auto
qed

text \<open>
  C5. Any history. From an empty well-formed pool, whatever allocations and frees are made in whatever order while no
  pager is attached, the live blocks never overlap, they lie in allocated frames, their sizes add up to the
  bytes in use, and each of them can be freed.
\<close>

theorem pool_history_safe:
  assumes "pool_history st0 st ls" "pool_ok st0 fs0 []" "\<not> online st0"
  shows "disjoint_runs ls \<and> pool_bytes_in_use st = sum_list (map snd ls) \<and>
    (\<forall>b \<in> set ls. block_ok (phys_offset st) b \<and> frames_of (phys_offset st) b \<subseteq> frames_used st \<and>
       (\<exists>st'. pool_free_any (fst b + HEADER_BYTES) st = Some st'))"
proof -
  from pool_history_ok [OF assms] obtain fs where ok: "pool_ok st fs ls" by blast
  note p = pool_okD [OF ok]
  have "\<exists>st'. pool_free_any (fst b + HEADER_BYTES) st = Some st'" if "b \<in> set ls" for b
  proof -
    from that have b: "(fst b, snd b) \<in> set ls" by simp
    obtain tag where "blk_tag st (fst b) = Some tag" "pool_free_any (fst b + HEADER_BYTES) st = pool_free (fst b + HEADER_BYTES) tag st"
      by (rule pool_free_any_spec [OF ok b])
    with pool_free_spec [OF ok b] show ?thesis by auto
  qed
  with p show ?thesis by (simp add: pool_bytes_in_use_def disjoint_runs_append)
qed

theorem pool_history_witness:
  "\<exists>p st' ls. pool_alloc 100 7 demo_pool = Some (p, st') \<and> pool_history demo_pool st' ls \<and> disjoint_runs ls"
proof -
  from pool_alloc_spec [OF demo_pool_ok(1), of 100 7] at_hand_offline [OF demo_pool_ok(2)]
  obtain p st' where p: "pool_alloc 100 7 demo_pool = Some (p, st')" "p \<noteq> 0 \<Longrightarrow> pool_allocated 100 7 [] demo_pool p st'" by (auto split: if_splits)
  have "\<exists>ls. pool_history demo_pool st' ls"
  proof (cases "p = 0")
    case True
    with p(1) show ?thesis using pool_history.refused [OF pool_history.start, of 100] by auto
  next
    case False
    with p(2) obtain a n fs where a: "p = a + HEADER_BYTES" "pool_ok st' fs [(a, n)]" by (auto simp: pool_allocated_def)
    from pool_okD(4,7) [OF a(2)] have "blk_size st' a = Some n" by (simp add: blk_size_def live_header_def load_rd block_ok_def)
    with p(1) a(1) have "pool_history demo_pool st' [(a, n)]" by (intro pool_history.granted [OF pool_history.start, of 100 7]) simp_all
    then show ?thesis ..
  qed
  then obtain ls where "pool_history demo_pool st' ls" ..
  with pool_history_safe [OF this demo_pool_ok(1,2)] p(1) show ?thesis by blast
qed

end
