(* ===== verification/Ob.thy ===== *)
theory Ob
  imports Mm_Pool_Safety
begin

text \<open>
  The object manager (\<^verbatim>\<open>kernel/src/ob/mod.rs\<close>) and the per-process handle tables
  (\<^verbatim>\<open>kernel/src/ob/handle.rs\<close>). Objects live in pool blocks; their headers are kept in a typed store
  beside the pool's memory, by the address of the body. An object type is an identity, compared as the
  source compares the descriptor's address, and \<open>types\<close> gives its descriptor; the descriptor's callbacks
  act on the whole state, because a type may keep accounts of its own. The two fixed-size arrays of the handle
  tables are functions of the index, which the source's loops and guards keep in range.

  The calling thread is the one whose address space \<open>thread_cr3\<close> holds, or none early in boot. The
  spin lock around the tables is the model's atomicity of an operation.
\<close>

section \<open>Objects\<close>

record 's object_type =
  type_name :: "u16 list"
  type_delete :: "(nat \<Rightarrow> 's \<Rightarrow> 's option) option"
  on_reference :: "(nat \<Rightarrow> 's \<Rightarrow> 's option) option"
  on_dereference :: "(nat \<Rightarrow> 's \<Rightarrow> 's option) option"

record 'ty object_header =
  ref_count :: int
  header_type :: 'ty
  total_size :: u32

record handle_entry =
  h_object :: nat
  granted_access :: u32
  h_refs :: u32

record table_slot =
  slot_cr3 :: u64
  in_use :: bool
  entries :: "nat \<Rightarrow> handle_entry option"

record 'ty ob_state = pool_state +
  objects :: "nat \<rightharpoonup> 'ty object_header"
  htables :: "nat \<Rightarrow> table_slot"
  thread_cr3 :: "u64 option"

definition TAG_OBJECT :: u32 where "TAG_OBJECT = pool_tag 0x4F 0x62 0x6A 0x65"

definition HEADER_SIZE :: nat where "HEADER_SIZE = 24"

definition body_to_header :: "nat \<Rightarrow> nat option" where
  "body_to_header body = sub_nat body HEADER_SIZE"

text \<open>The body's bytes belong to the type: \<open>write_body\<close> is the move of the initial body into the fresh block.\<close>

definition ob_create_object ::
    "'ty \<Rightarrow> nat \<Rightarrow> (nat \<Rightarrow> ('ty, 'a) ob_state_scheme \<Rightarrow> ('ty, 'a) ob_state_scheme) \<Rightarrow> ('ty, 'a) ob_state_scheme \<Rightarrow>
     ((nt_status + nat) \<times> ('ty, 'a) ob_state_scheme) option" where
  "ob_create_object ty body_size write_body st = do {
     let total = HEADER_SIZE + body_size;
     (r, st) \<leftarrow> pool_alloc_checked total TAG_OBJECT st;
     (case r of
        Inl status \<Rightarrow> Some (Inl status, st)
      | Inr raw \<Rightarrow> do {
          let body = raw + HEADER_SIZE;
          let st = st\<lparr>objects := (objects st)(body \<mapsto> \<lparr>ref_count = 1, header_type = ty, total_size = of_nat total\<rparr>)\<rparr>;
          Some (Inr body, write_body body st)
        })
   }"

definition set_ref_count :: "nat \<Rightarrow> int \<Rightarrow> ('ty, 'a) ob_state_scheme \<Rightarrow> ('ty, 'a) ob_state_scheme option" where
  "set_ref_count body n st = do {
     h \<leftarrow> objects st body;
     Some (st\<lparr>objects := (objects st)(body \<mapsto> h\<lparr>ref_count := n\<rparr>)\<rparr>)
   }"

definition run_hook :: "(nat \<Rightarrow> 's \<Rightarrow> 's option) option \<Rightarrow> nat \<Rightarrow> 's \<Rightarrow> 's option" where
  "run_hook hook body st = (case hook of None \<Rightarrow> Some st | Some f \<Rightarrow> f body st)"

definition ob_reference_object ::
    "('ty \<Rightarrow> ('ty, 'a) ob_state_scheme object_type) \<Rightarrow> nat \<Rightarrow> ('ty, 'a) ob_state_scheme \<Rightarrow> ('ty, 'a) ob_state_scheme option" where
  "ob_reference_object types body st = do {
     h \<leftarrow> objects st body;
     st \<leftarrow> set_ref_count body (ref_count h + 1) st;
     require (ref_count h > 0);
     run_hook (on_reference (types (header_type h))) body st
   }"

definition ob_dereference_object ::
    "('ty \<Rightarrow> ('ty, 'a) ob_state_scheme object_type) \<Rightarrow> nat \<Rightarrow> ('ty, 'a) ob_state_scheme \<Rightarrow> ('ty, 'a) ob_state_scheme option" where
  "ob_dereference_object types body st = do {
     hdr \<leftarrow> body_to_header body;
     h \<leftarrow> objects st body;
     st \<leftarrow> run_hook (on_dereference (types (header_type h))) body st;
     h \<leftarrow> objects st body;
     st \<leftarrow> set_ref_count body (ref_count h - 1) st;
     require (ref_count h > 0);
     if ref_count h = 1 then do {
       st \<leftarrow> run_hook (type_delete (types (header_type h))) body st;
       st \<leftarrow> pool_free hdr TAG_OBJECT st;
       Some (st\<lparr>objects := (objects st)(body := None)\<rparr>)
     } else Some st
   }"

definition ob_check_type :: "('ty, 'a) ob_state_scheme \<Rightarrow> nat \<Rightarrow> 'ty \<Rightarrow> (nt_status + unit) option" where
  "ob_check_type st body expected = do {
     h \<leftarrow> objects st body;
     Some (if header_type h = expected then Inr () else Inl STATUS_OBJECT_TYPE_MISMATCH)
   }"

definition ob_ref_count :: "('ty, 'a) ob_state_scheme \<Rightarrow> nat \<Rightarrow> int option" where
  "ob_ref_count st body = map_option ref_count (objects st body)"

section \<open>Handle tables\<close>

definition MAX_HANDLES :: nat where "MAX_HANDLES = 256"
definition MAX_TABLES :: nat where "MAX_TABLES = 16"

definition index_to_handle :: "nat \<Rightarrow> u64" where
  "index_to_handle i = push_bit 2 (of_nat i)"

definition handle_to_index :: "u64 \<Rightarrow> nat" where
  "handle_to_index h = unat (drop_bit 2 h)"

definition current_cr3 :: "('ty, 'a) ob_state_scheme \<Rightarrow> u64" where
  "current_cr3 st = (case thread_cr3 st of None \<Rightarrow> 0 | Some c \<Rightarrow> c)"

text \<open>The table of an address space: the first slot in use under its key.\<close>

definition find_slot :: "('ty, 'a) ob_state_scheme \<Rightarrow> u64 \<Rightarrow> nat option" where
  "find_slot st c = List.find (\<lambda>s. in_use (htables st s) \<and> slot_cr3 (htables st s) = c) [0..<MAX_TABLES]"

definition slot_for :: "u64 \<Rightarrow> ('ty, 'a) ob_state_scheme \<Rightarrow> nat option \<times> ('ty, 'a) ob_state_scheme" where
  "slot_for c st =
     (case find_slot st c of
        Some s \<Rightarrow> (Some s, st)
      | None \<Rightarrow>
          (case List.find (\<lambda>s. \<not> in_use (htables st s)) [0..<MAX_TABLES] of
             Some s \<Rightarrow> (Some s, st\<lparr>htables := (htables st)(s := \<lparr>slot_cr3 = c, in_use = True, entries = (\<lambda>_. None)\<rparr>)\<rparr>)
           | None \<Rightarrow> (None, st)))"

definition set_entry :: "nat \<Rightarrow> nat \<Rightarrow> handle_entry option \<Rightarrow> ('ty, 'a) ob_state_scheme \<Rightarrow> ('ty, 'a) ob_state_scheme" where
  "set_entry s i e st = st\<lparr>htables := (htables st)(s := (htables st s)\<lparr>entries := (entries (htables st s))(i := e)\<rparr>)\<rparr>"

definition create_in ::
    "('ty \<Rightarrow> ('ty, 'a) ob_state_scheme object_type) \<Rightarrow> u64 \<Rightarrow> nat \<Rightarrow> u32 \<Rightarrow> ('ty, 'a) ob_state_scheme \<Rightarrow>
     (u64 \<times> ('ty, 'a) ob_state_scheme) option" where
  "create_in types c object access st =
     (case slot_for c st of
        (None, st) \<Rightarrow> Some (0, st)
      | (Some s, st) \<Rightarrow>
          (case List.find (\<lambda>i. entries (htables st s) i = None) [1..<MAX_HANDLES] of
             None \<Rightarrow> Some (0, st)
           | Some i \<Rightarrow> do {
               let st = set_entry s i (Some \<lparr>h_object = object, granted_access = access, h_refs = 1\<rparr>) st;
               st \<leftarrow> ob_reference_object types object st;
               Some (index_to_handle i, st)
             }))"

definition ob_create_handle ::
    "('ty \<Rightarrow> ('ty, 'a) ob_state_scheme object_type) \<Rightarrow> nat \<Rightarrow> u32 \<Rightarrow> ('ty, 'a) ob_state_scheme \<Rightarrow> (u64 \<times> ('ty, 'a) ob_state_scheme) option" where
  "ob_create_handle types object access st = create_in types (current_cr3 st) object access st"

definition ob_create_handle_in ::
    "('ty \<Rightarrow> ('ty, 'a) ob_state_scheme object_type) \<Rightarrow> u64 \<Rightarrow> nat \<Rightarrow> u32 \<Rightarrow> ('ty, 'a) ob_state_scheme \<Rightarrow> (u64 \<times> ('ty, 'a) ob_state_scheme) option" where
  "ob_create_handle_in types c object access st = create_in types c object access st"

text \<open>
  The entry a handle names in the calling process's table. The three operations below share this
  scan: the index guard, the first matching slot, and the entry, with \<open>break\<close> when it is empty.
\<close>

definition locate :: "('ty, 'a) ob_state_scheme \<Rightarrow> u64 \<Rightarrow> (nat \<times> nat \<times> handle_entry) option" where
  "locate st handle = (let i = handle_to_index handle in
     if 1 \<le> i \<and> i < MAX_HANDLES then do {
       s \<leftarrow> find_slot st (current_cr3 st);
       e \<leftarrow> entries (htables st s) i;
       Some (s, i, e)
     } else None)"

definition ob_reference_object_by_handle :: "('ty, 'a) ob_state_scheme \<Rightarrow> u64 \<Rightarrow> nt_status + nat" where
  "ob_reference_object_by_handle st handle =
     (case locate st handle of Some (s, i, e) \<Rightarrow> Inr (h_object e) | None \<Rightarrow> Inl STATUS_INVALID_HANDLE)"

definition duplicate_handle ::
    "('ty \<Rightarrow> ('ty, 'a) ob_state_scheme object_type) \<Rightarrow> u64 \<Rightarrow> ('ty, 'a) ob_state_scheme \<Rightarrow> (u64 \<times> ('ty, 'a) ob_state_scheme) option" where
  "duplicate_handle types handle st =
     (case locate st handle of
        Some (s, i, e) \<Rightarrow> do {
          require (unat (h_refs e) + 1 < 2 ^ 32);
          let st = set_entry s i (Some (e\<lparr>h_refs := h_refs e + 1\<rparr>)) st;
          st \<leftarrow> ob_reference_object types (h_object e) st;
          Some (handle, st)
        }
      | None \<Rightarrow> Some (0, st))"

definition ob_close_handle ::
    "('ty \<Rightarrow> ('ty, 'a) ob_state_scheme object_type) \<Rightarrow> u64 \<Rightarrow> ('ty, 'a) ob_state_scheme \<Rightarrow> (nt_status \<times> ('ty, 'a) ob_state_scheme) option" where
  "ob_close_handle types handle st =
     (case locate st handle of
        Some (s, i, e) \<Rightarrow> do {
          let st = (if h_refs e > 1 then set_entry s i (Some (e\<lparr>h_refs := h_refs e - 1\<rparr>)) st
                    else set_entry s i None st);
          st \<leftarrow> ob_dereference_object types (h_object e) st;
          Some (STATUS_SUCCESS, st)
        }
      | None \<Rightarrow> Some (STATUS_INVALID_HANDLE, st))"

definition ob_free_table ::
    "('ty \<Rightarrow> ('ty, 'a) ob_state_scheme object_type) \<Rightarrow> u64 \<Rightarrow> ('ty, 'a) ob_state_scheme \<Rightarrow> ('ty, 'a) ob_state_scheme option" where
  "ob_free_table types c st =
     (if c = 0 then Some st
      else
        (case find_slot st c of
           None \<Rightarrow> Some st
         | Some s \<Rightarrow> do {
             let es = entries (htables st s);
             let objs = map h_object (List.map_filter es [1..<MAX_HANDLES]);
             let st = st\<lparr>htables := (htables st)(s := \<lparr>slot_cr3 = 0, in_use = False,
                                    entries = (\<lambda>i. if 1 \<le> i \<and> i < MAX_HANDLES then None else es i)\<rparr>)\<rparr>;
             foreach (ob_dereference_object types) objs st
           }))"

end
