(* ===== verification/Ob_Refs.thy ===== *)
theory Ob_Refs
  imports Ob
begin

text \<open>
  Reference accounting of the object manager. \<open>hrefs\<close> counts the references the handle tables hold on an
  object, \<open>ext\<close> those its other holders have; \<open>ob_ok\<close> says that every object's count is their sum and is
  positive, that nothing refers to a dead object, and that every object's header is in a live pool block. The
  object manager relies on the pool through \<open>object_heap\<close>, and on the callbacks of the object
  types through \<open>object_types\<close>; its lemmas are proved in the second and used through its interpretation on the
  kernel's types.
\<close>

section \<open>What the object manager needs of the pool\<close>

locale object_heap =
  fixes heap_ok :: "'s \<Rightarrow> nat set \<Rightarrow> bool"
    and heap_alloc :: "nat \<Rightarrow> 's \<Rightarrow> ((nt_status + nat) \<times> 's) option"
    and heap_free :: "nat \<Rightarrow> 's \<Rightarrow> 's option"
    and heap_ready :: "nat \<Rightarrow> 's \<Rightarrow> bool"
    and heap_only :: "'s \<Rightarrow> 's \<Rightarrow> bool"
  assumes alloc_law: "heap_ok s B \<Longrightarrow> 0 < n \<Longrightarrow> n < 2 ^ 31 \<Longrightarrow> heap_ready n s \<Longrightarrow>
      \<exists>r s'. heap_alloc n s = Some (r, s') \<and> heap_only s s' \<and>
        (case r of Inl e \<Rightarrow> e = STATUS_INSUFFICIENT_RESOURCES \<and> s' = s | Inr p \<Rightarrow> p \<notin> B \<and> heap_ok s' (insert p B))"
    and free_law: "heap_ok s B \<Longrightarrow> p \<in> B \<Longrightarrow> \<exists>s'. heap_free p s = Some s' \<and> heap_only s s' \<and> heap_ok s' (B - {p})"
begin

text \<open>A block that is allocated can be freed again, which leaves the other blocks as they were.\<close>

lemma alloc_free:
  assumes "heap_ok s B" "0 < n" "n < 2 ^ 31" "heap_ready n s" "heap_alloc n s = Some (Inr p, s')"
  shows "\<exists>s''. heap_free p s' = Some s'' \<and> heap_ok s'' B"
proof -
  from alloc_law [OF assms(1-4)] assms(5) have p: "p \<notin> B" "heap_ok s' (insert p B)" by auto
  from free_law [OF p(2), of p] have "\<exists>s''. heap_free p s' = Some s'' \<and> heap_ok s'' (insert p B - {p})" by auto
  with p(1) show ?thesis by simp
qed

end

definition pool_heap_ok :: "u32 \<Rightarrow> 'a pool_state_scheme \<Rightarrow> nat set \<Rightarrow> bool" where
  "pool_heap_ok tag st B \<longleftrightarrow> (\<exists>fs ls. pool_ok st fs ls \<and>
     (\<forall>p \<in> B. \<exists>a n. (a, n) \<in> set ls \<and> p = a + HEADER_BYTES \<and> blk_tag st a = Some tag))"

definition pool_only :: "'a pool_state_scheme \<Rightarrow> 'a pool_state_scheme \<Rightarrow> bool" where
  "pool_only st st' \<longleftrightarrow> pool_state.more st' = pool_state.more st"

lemma undisturbed_tag:
  assumes "undisturbed ls st st'" "pool_ok st fs ks" "(a, n) \<in> set ls" "(a, n) \<in> set ks"
  shows "blk_tag st' a = blk_tag st a"
proof -
  have "block_ok (phys_offset st) (a, n)" using pool_okD(4) [OF assms(2)] assms(4) by auto
  note h = header_cells [OF this]
  have "a \<in> runs_union ls" using h(3) units_of_subset [OF assms(3)] by blast
  with assms(1) h(1,5) show ?thesis by (simp add: undisturbed_def blk_tag_def load_rd)
qed

lemma pool_heap_alloc:
  assumes ok: "pool_heap_ok tag st B" and n: "0 < n" "n < 2 ^ 31" "frames_at_hand (frames_needed n) st"
  shows "\<exists>r st'. pool_alloc_checked n tag st = Some (r, st') \<and> pool_only st st' \<and>
    (case r of Inl e \<Rightarrow> e = STATUS_INSUFFICIENT_RESOURCES \<and> st' = st | Inr p \<Rightarrow> p \<notin> B \<and> pool_heap_ok tag st' (insert p B))"
proof -
  from ok obtain fs ls where l: "pool_ok st fs ls" "\<forall>p \<in> B. \<exists>a n. (a, n) \<in> set ls \<and> p = a + HEADER_BYTES \<and> blk_tag st a = Some tag"
    by (auto simp: pool_heap_ok_def)
  from pool_alloc_spec [OF l(1) n, of tag] obtain p st' where p: "pool_alloc n tag st = Some (p, st')"
    "p = 0 \<Longrightarrow> st' = st" "p \<noteq> 0 \<Longrightarrow> pool_allocated n tag ls st p st'" by (auto split: if_splits)
  show ?thesis
  proof (cases "p = 0")
    case True
    with p show ?thesis by (simp add: pool_alloc_checked_def pool_only_def)
  next
    case False
    with p(3) obtain a k fs' where a: "p = a + HEADER_BYTES" "pool_ok st' fs' ((a, k) # ls)" "blk_tag st' a = Some tag" "undisturbed ls st st'"
      by (auto simp: pool_allocated_def)
    have keep: "blk_tag st' c = blk_tag st c" if "(c, m) \<in> set ls" for c m
      using undisturbed_tag [OF a(4) l(1) that that] .
    have "a \<noteq> c" if "(c, m) \<in> set ls" for c m
    proof
      assume "a = c"
      have d: "disjoint_runs ((a, k) # ls)" using pool_okD(6) [OF a(2)] by (simp add: disjoint_runs_append)
      have "block_ok (phys_offset st) (c, m)" using pool_okD(4) [OF l(1)] that by auto
      then have "0 < m" by (simp add: block_ok_def)
      with units_of_subset [OF that] have "c \<in> runs_union ls" by (auto simp: units_of_def)
      moreover have "c \<in> {a..<a + k}" using d \<open>a = c\<close> by simp
      ultimately show False using d by auto
    qed
    then have "p \<notin> B" using l(2) a(1) by fastforce
    moreover have "pool_heap_ok tag st' (insert p B)"
      unfolding pool_heap_ok_def using a(1-3) l(2) keep by (intro exI [of _ fs'] exI [of _ "(a, k) # ls"]) fastforce
    ultimately show ?thesis using p(1) False a(4) by (simp add: pool_alloc_checked_def pool_only_def undisturbed_def)
  qed
qed

lemma pool_heap_free:
  assumes ok: "pool_heap_ok tag st B" and p: "p \<in> B"
  shows "\<exists>st'. pool_free p tag st = Some st' \<and> pool_only st st' \<and> pool_heap_ok tag st' (B - {p})"
proof -
  from ok obtain fs ls where l: "pool_ok st fs ls" "\<forall>p \<in> B. \<exists>a n. (a, n) \<in> set ls \<and> p = a + HEADER_BYTES \<and> blk_tag st a = Some tag"
    by (auto simp: pool_heap_ok_def)
  from l(2) p obtain a n where a: "(a, n) \<in> set ls" "p = a + HEADER_BYTES" "blk_tag st a = Some tag" by blast
  from pool_free_spec [OF l(1) a(1,3)] obtain st' fs' where f: "pool_free p tag st = Some st'" "pool_ok st' fs' (remove1 (a, n) ls)"
    "undisturbed (remove1 (a, n) ls) st st'" using a(2) by auto
  have "\<exists>c m. (c, m) \<in> set (remove1 (a, n) ls) \<and> q = c + HEADER_BYTES \<and> blk_tag st' c = Some tag" if "q \<in> B - {p}" for q
  proof -
    from that l(2) obtain c m where c: "(c, m) \<in> set ls" "q = c + HEADER_BYTES" "blk_tag st c = Some tag" by blast
    from that c(2) a(2) have "(c, m) \<noteq> (a, n)" by auto
    with c(1) have r: "(c, m) \<in> set (remove1 (a, n) ls)" by (simp add: in_set_remove1)
    from undisturbed_tag [OF f(3) l(1) r c(1)] c r show ?thesis by auto
  qed
  with f(2) have "pool_heap_ok tag st' (B - {p})"
    unfolding pool_heap_ok_def by (intro exI [of _ fs'] exI [of _ "remove1 (a, n) ls"]) blast
  with f(1,3) show ?thesis by (simp add: pool_only_def undisturbed_def)
qed

interpretation pool_heap: object_heap "pool_heap_ok TAG_OBJECT" "\<lambda>n. pool_alloc_checked n TAG_OBJECT" "\<lambda>p. pool_free p TAG_OBJECT"
  "\<lambda>n. frames_at_hand (frames_needed n)" pool_only
  using pool_heap_alloc pool_heap_free by unfold_locales blast+

section \<open>References held by handles\<close>

definition entry_refs :: "nat \<Rightarrow> handle_entry option \<Rightarrow> nat" where
  "entry_refs b e = (case e of None \<Rightarrow> 0 | Some e \<Rightarrow> if h_object e = b then unat (h_refs e) else 0)"

definition slot_refs :: "nat \<Rightarrow> table_slot \<Rightarrow> nat" where
  "slot_refs b t = (if in_use t then \<Sum>i = 1..<MAX_HANDLES. entry_refs b (entries t i) else 0)"

definition hrefs :: "('ty, 'a) ob_state_scheme \<Rightarrow> nat \<Rightarrow> nat" where
  "hrefs st b = (\<Sum>s < MAX_TABLES. slot_refs b (htables st s))"

lemma sum_upd:
  fixes g :: "'i \<Rightarrow> nat"
  assumes "finite S" "s \<in> S"
  shows "sum (g(s := v)) S + g s = sum g S + v"
proof -
  have "sum (g(s := v)) S = v + sum g (S - {s})" using assms by (simp add: sum.remove)
  moreover have "sum g S = g s + sum g (S - {s})" using assms by (simp add: sum.remove)
  ultimately show ?thesis by simp
qed

lemma hrefs_set_slot:
  assumes "s < MAX_TABLES"
  shows "hrefs (st\<lparr>htables := (htables st)(s := t)\<rparr>) b + slot_refs b (htables st s) = hrefs st b + slot_refs b t"
proof -
  have "(\<lambda>i. slot_refs b (((htables st)(s := t)) i)) = (\<lambda>i. slot_refs b (htables st i))(s := slot_refs b t)" by auto
  with sum_upd [of "{..<MAX_TABLES}" s "\<lambda>i. slot_refs b (htables st i)" "slot_refs b t"] assms show ?thesis
    by (simp add: hrefs_def if_distrib [of "slot_refs b"])
qed

lemma slot_refs_entry:
  assumes "in_use t" "1 \<le> i" "i < MAX_HANDLES"
  shows "slot_refs b (t\<lparr>entries := (entries t)(i := e)\<rparr>) + entry_refs b (entries t i) = slot_refs b t + entry_refs b e"
proof -
  have "(\<lambda>j. entry_refs b (((entries t)(i := e)) j)) = (\<lambda>j. entry_refs b (entries t j))(i := entry_refs b e)" by auto
  with sum_upd [of "{1..<MAX_HANDLES}" i "\<lambda>j. entry_refs b (entries t j)" "entry_refs b e"] assms show ?thesis
    by (simp add: slot_refs_def if_distrib [of "entry_refs b"])
qed

lemma hrefs_set_entry:
  assumes "s < MAX_TABLES" "in_use (htables st s)" "1 \<le> i" "i < MAX_HANDLES"
  shows "hrefs (set_entry s i e st) b + entry_refs b (entries (htables st s) i) = hrefs st b + entry_refs b e"
  using hrefs_set_slot [OF assms(1), of st "(htables st s)\<lparr>entries := (entries (htables st s))(i := e)\<rparr>" b]
    slot_refs_entry [OF assms(2-4), of b e]
  by (simp add: set_entry_def)

lemma slot_refs_unused [simp]: "\<not> in_use t \<Longrightarrow> slot_refs b t = 0"
  by (simp add: slot_refs_def)

lemma slot_refs_empty [simp]: "slot_refs b \<lparr>slot_cr3 = c, in_use = u, entries = (\<lambda>_. None)\<rparr> = 0"
  by (simp add: slot_refs_def entry_refs_def)

section \<open>The invariant\<close>

definition tables_ok :: "('ty, 'a) ob_state_scheme \<Rightarrow> bool" where
  "tables_ok st \<longleftrightarrow>
     (\<forall>s < MAX_TABLES. in_use (htables st s) \<longrightarrow> (\<forall>i e. entries (htables st s) i = Some e \<longrightarrow> h_refs e \<noteq> 0)) \<and>
     (\<forall>s < MAX_TABLES. \<forall>t < MAX_TABLES. in_use (htables st s) \<longrightarrow> in_use (htables st t) \<longrightarrow>
        slot_cr3 (htables st s) = slot_cr3 (htables st t) \<longrightarrow> s = t)"

definition count_of :: "('ty, 'a) ob_state_scheme \<Rightarrow> nat \<Rightarrow> int" where
  "count_of st b = (case objects st b of Some h \<Rightarrow> ref_count h | None \<Rightarrow> 0)"

definition ref_ok :: "(nat \<Rightarrow> int) \<Rightarrow> ('ty, 'a) ob_state_scheme \<Rightarrow> nat \<Rightarrow> bool" where
  "ref_ok ext st b \<longleftrightarrow> count_of st b = int (hrefs st b) + ext b \<and> (b \<in> dom (objects st) \<longrightarrow> 0 < count_of st b)"

definition headers :: "('ty, 'a) ob_state_scheme \<Rightarrow> nat set" where
  "headers st = {p. p + HEADER_SIZE \<in> dom (objects st)}"

definition ob_ok :: "(nat \<Rightarrow> int) \<Rightarrow> ('ty, 'a) ob_state_scheme \<Rightarrow> bool" where
  "ob_ok ext st \<longleftrightarrow> pool_heap_ok TAG_OBJECT st (headers st) \<and> (\<forall>b \<in> dom (objects st). HEADER_SIZE \<le> b) \<and>
     (\<forall>b. ref_ok ext st b) \<and> tables_ok st"

text \<open>Everything but the state of the type callbacks.\<close>

definition same_ob :: "('ty, 'a) ob_state_scheme \<Rightarrow> ('ty, 'a) ob_state_scheme \<Rightarrow> bool" where
  "same_ob st st' \<longleftrightarrow> ob_state.truncate st' = ob_state.truncate st"

lemma same_ob_simps:
  assumes "same_ob st st'"
  shows "objects st' = objects st" "htables st' = htables st" "thread_cr3 st' = thread_cr3 st"
    "pool_heap_ok tag st' B = pool_heap_ok tag st B"
proof -
  from assms show "objects st' = objects st" "htables st' = htables st" "thread_cr3 st' = thread_cr3 st"
    by (simp_all add: same_ob_def ob_state.truncate_def)
  have "pfn_db st' = pfn_db st" "phys_offset st' = phys_offset st" "ram st' = ram st" "free_list st' = free_list st" "bytes_in_use st' = bytes_in_use st"
    using assms by (simp_all add: same_ob_def ob_state.truncate_def)
  note f = this and c = phys_cong [OF this(1,2)]
  have "pool_ok st' = pool_ok st" by (simp add: pool_ok_def f c fun_eq_iff)
  moreover have "blk_tag st' = blk_tag st" by (simp add: blk_tag_def load_def f fun_eq_iff)
  ultimately show "pool_heap_ok tag st' B = pool_heap_ok tag st B" by (simp add: pool_heap_ok_def)
qed

section \<open>References and callbacks\<close>

text \<open>What a change of the object manager's state must keep of the headers for the callbacks' invariant to stay.\<close>

definition no_new_objects :: "('ty, 'a) ob_state_scheme \<Rightarrow> ('ty, 'a) ob_state_scheme \<Rightarrow> bool" where
  "no_new_objects st st' \<longleftrightarrow> ob_state.more st' = ob_state.more st \<and>
     (\<forall>b h'. objects st' b = Some h' \<longrightarrow> (\<exists>h. objects st b = Some h \<and> header_type h = header_type h'))"

definition is_hook :: "'s object_type \<Rightarrow> (nat \<Rightarrow> 's \<Rightarrow> 's option) \<Rightarrow> bool" where
  "is_hook t f \<longleftrightarrow> type_delete t = Some f \<or> on_reference t = Some f \<or> on_dereference t = Some f"

locale object_types =
  fixes types :: "'ty \<Rightarrow> ('ty, 'a) ob_state_scheme object_type"
    and hook_inv :: "('ty, 'a) ob_state_scheme \<Rightarrow> bool"
  assumes hook_runs: "hook_inv st \<Longrightarrow> objects st b = Some h \<Longrightarrow> is_hook (types (header_type h)) f \<Longrightarrow>
      \<exists>st'. f b st = Some st' \<and> same_ob st st' \<and> hook_inv st'"
    and hook_inv_mono: "hook_inv st \<Longrightarrow> no_new_objects st st' \<Longrightarrow> hook_inv st'"
begin

lemma run_hook_spec:
  assumes "hook_inv st" "objects st b = Some h"
    "hook = type_delete (types (header_type h)) \<or> hook = on_reference (types (header_type h)) \<or> hook = on_dereference (types (header_type h))"
  obtains st' where "run_hook hook b st = Some st'" "same_ob st st'" "hook_inv st'"
proof (cases hook)
  case None
  with assms(1) that show thesis by (simp add: run_hook_def same_ob_def)
next
  case (Some f)
  with assms(3) have "is_hook (types (header_type h)) f" by (auto simp: is_hook_def)
  from hook_runs [OF assms(1,2) this] Some that show thesis by (auto simp: run_hook_def)
qed

end

lemma hrefs_cong: "htables st' = htables st \<Longrightarrow> hrefs st' b = hrefs st b"
  by (simp add: hrefs_def)

lemma same_ob_ok: "same_ob st st' \<Longrightarrow> ob_ok ext st' = ob_ok ext st"
  using same_ob_simps [of st st'] hrefs_cong [of st' st]
  by (simp add: ob_ok_def headers_def ref_ok_def count_of_def tables_ok_def)

lemma ob_set_objects:
  assumes "ob_ok ext st" "dom m = dom (objects st)" "\<forall>b. ref_ok ext' (st\<lparr>objects := m\<rparr>) b"
  shows "ob_ok ext' (st\<lparr>objects := m\<rparr>)"
proof -
  have "pool_heap_ok TAG_OBJECT (st\<lparr>objects := m\<rparr>) B = pool_heap_ok TAG_OBJECT st B" for B
    by (simp add: pool_heap_ok_def pool_ok_def phys_wf_def frames_used_def frame_count_def blk_tag_def load_def)
  with assms show ?thesis by (simp add: ob_ok_def headers_def tables_ok_def)
qed

lemma same_objects: "no_new_objects st (st\<lparr>htables := t\<rparr>)"
  by (simp add: no_new_objects_def)

context object_types
begin

lemma reference_spec:
  assumes ok: "ob_ok ext st" "hook_inv st" and live: "b \<in> dom (objects st)"
  obtains st' where "ob_reference_object types b st = Some st'" "hook_inv st'" "ob_ok (ext(b := ext b + 1)) st'"
    "dom (objects st') = dom (objects st)" "htables st' = htables st" "thread_cr3 st' = thread_cr3 st"
proof -
  from live obtain h where h: "objects st b = Some h" by blast
  let ?h = "h\<lparr>ref_count := ref_count h + 1\<rparr>" let ?m = "(objects st)(b \<mapsto> ?h)"
  let ?st = "st\<lparr>objects := ?m\<rparr>"
  have r: "\<forall>c. ref_ok ext st c" using ok(1) by (simp add: ob_ok_def)
  then have pos: "0 < ref_count h" using h by (auto simp: ref_ok_def count_of_def dest!: spec [of _ b])
  have "ob_ok (ext(b := ext b + 1)) ?st"
  proof (rule ob_set_objects [OF ok(1)])
    show "dom ?m = dom (objects st)" using live by auto
    show "\<forall>c. ref_ok (ext(b := ext b + 1)) ?st c"
      using r h by (auto simp: ref_ok_def count_of_def hrefs_cong [of ?st st] domIff dest: spec [of _ b])
  qed
  have "no_new_objects st ?st" using h by (auto simp: no_new_objects_def)
  with ok(2) have "hook_inv ?st" by (rule hook_inv_mono)
  then obtain st' where "run_hook (on_reference (types (header_type h))) b ?st = Some st'" "same_ob ?st st'" "hook_inv st'"
    by (rule run_hook_spec [of ?st b ?h "on_reference (types (header_type h))"]) simp_all
  with h pos \<open>ob_ok _ ?st\<close> same_ob_simps [of ?st st'] same_ob_ok [of ?st st'] live show thesis
    by (intro that [of st']) (auto simp: ob_reference_object_def set_ref_count_def)
qed

end

lemma pool_only_ob:
  assumes "pool_only st st'"
  shows "objects st' = objects st" "htables st' = htables st" "thread_cr3 st' = thread_cr3 st" "ob_state.more st' = ob_state.more st"
  using assms by (cases st; cases st'; simp add: pool_only_def)+

lemma heap_objects:
  "pool_heap_ok tag (st\<lparr>objects := m\<rparr>) B = pool_heap_ok tag st B" "pool_heap_ok tag (st\<lparr>htables := t\<rparr>) B = pool_heap_ok tag st B"
  by (simp_all add: pool_heap_ok_def pool_ok_def phys_wf_def frames_used_def frame_count_def blk_tag_def load_def)

lemma headers_remove: "HEADER_SIZE \<le> b \<Longrightarrow> headers (st\<lparr>objects := (objects st)(b := None)\<rparr>) = headers st - {b - HEADER_SIZE}"
  by (auto simp: headers_def)

context object_types
begin

lemma dereference_spec:
  assumes ok: "ob_ok ext st" "hook_inv st" and live: "b \<in> dom (objects st)"
  obtains st' where "ob_dereference_object types b st = Some st'" "hook_inv st'" "ob_ok (ext(b := ext b - 1)) st'"
    "dom (objects st') = dom (objects st) - (if count_of st b = 1 then {b} else {})" "htables st' = htables st" "thread_cr3 st' = thread_cr3 st"
proof -
  from live obtain h where h: "objects st b = Some h" by blast
  from ok(1) live have r: "\<forall>c. ref_ok ext st c" and sz: "HEADER_SIZE \<le> b" by (auto simp: ob_ok_def)
  then have pos: "0 < ref_count h" using h by (auto simp: ref_ok_def count_of_def dest!: spec [of _ b])
  obtain st1 where s1: "run_hook (on_dereference (types (header_type h))) b st = Some st1" "same_ob st st1" "hook_inv st1"
    by (rule run_hook_spec [OF ok(2) h, of "on_dereference (types (header_type h))"]) simp_all
  note o1 = same_ob_simps [OF s1(2)]
  let ?h = "h\<lparr>ref_count := ref_count h - 1\<rparr>"
  let ?st2 = "st1\<lparr>objects := (objects st1)(b \<mapsto> ?h)\<rparr>"
  have "no_new_objects st1 ?st2" using h o1 by (auto simp: no_new_objects_def)
  with s1(3) have inv2: "hook_inv ?st2" by (rule hook_inv_mono)
  have cnt: "count_of st b = ref_count h" using h by (simp add: count_of_def)
  show thesis
  proof (cases "ref_count h = 1")
    case False
    have "ob_ok (ext(b := ext b - 1)) ?st2"
    proof (rule ob_set_objects [of ext])
      show "ob_ok ext st1" using ok(1) same_ob_ok [OF s1(2)] by simp
      show "dom ((objects st1)(b \<mapsto> ?h)) = dom (objects st1)" using live o1 by auto
      have "hrefs ?st2 = hrefs st" using hrefs_cong [of ?st2 st] o1 by auto
      then show "\<forall>c. ref_ok (ext(b := ext b - 1)) ?st2 c"
        using r h False pos o1 by (auto simp: ref_ok_def count_of_def domIff dest: spec [of _ b])
    qed
    moreover have "ob_dereference_object types b st = Some ?st2"
      using h s1(1) o1 pos False sz by (simp add: ob_dereference_object_def body_to_header_def set_ref_count_def)
    ultimately show thesis using inv2 live o1 False cnt by (intro that [of ?st2]) auto
  next
    case True
    obtain st3 where s3: "run_hook (type_delete (types (header_type h))) b ?st2 = Some st3" "same_ob ?st2 st3" "hook_inv st3"
      by (rule run_hook_spec [OF inv2, of b ?h "type_delete (types (header_type h))"]) simp_all
    note o3 = same_ob_simps [OF s3(2)]
    have hd: "headers st3 = headers st" using o3(1) o1(1) h by (auto simp: headers_def)
    have "pool_heap_ok TAG_OBJECT st3 (headers st)"
      using ok(1) o1(4) o3(4) by (simp add: ob_ok_def heap_objects)
    moreover have "b - HEADER_SIZE \<in> headers st" using live sz by (simp add: headers_def)
    ultimately obtain st4 where s4: "pool_free (b - HEADER_SIZE) TAG_OBJECT st3 = Some st4" "pool_only st3 st4"
      "pool_heap_ok TAG_OBJECT st4 (headers st - {b - HEADER_SIZE})"
      using pool_heap.free_law by blast
    note o4 = pool_only_ob [OF s4(2)]
    let ?st5 = "st4\<lparr>objects := (objects st4)(b := None)\<rparr>"
    have t: "htables ?st5 = htables st" "objects ?st5 = (objects st)(b := None)" "thread_cr3 ?st5 = thread_cr3 st"
      using o1 o3 o4 by auto
    have "ob_ok (ext(b := ext b - 1)) ?st5"
      unfolding ob_ok_def
    proof (intro conjI)
      have "headers ?st5 = headers st - {b - HEADER_SIZE}"
        using t(2) sz by (auto simp: headers_def)
      then show "pool_heap_ok TAG_OBJECT ?st5 (headers ?st5)" using s4(3) by (simp add: heap_objects)
      show "\<forall>c \<in> dom (objects ?st5). HEADER_SIZE \<le> c" using ok(1) t(2) by (auto simp: ob_ok_def)
      have "hrefs ?st5 = hrefs st" using hrefs_cong [OF t(1)] by auto
      then show "\<forall>c. ref_ok (ext(b := ext b - 1)) ?st5 c"
        using r h True t(2) by (auto simp: ref_ok_def count_of_def domIff dest: spec [of _ b])
      show "tables_ok ?st5" using ok(1) t(1) by (simp add: ob_ok_def tables_ok_def)
    qed
    moreover have "no_new_objects st3 ?st5" using o4 by (auto simp: no_new_objects_def)
    with s3(3) have "hook_inv ?st5" by (rule hook_inv_mono)
    moreover have "ob_dereference_object types b st = Some ?st5"
      using h s1(1) o1 pos True sz s3(1) s4(1) by (simp add: ob_dereference_object_def body_to_header_def set_ref_count_def)
    ultimately show thesis using t True cnt by (intro that [of ?st5]) auto
  qed
qed

end

end
