(* ===== verification/Ob_Handles.thy ===== *)
theory Ob_Handles
  imports Ob_Refs
begin

text \<open>
  The handle tables as one map from address spaces and indices to entries, what each handle operation
  does to that map and to the reference accounts, and the invariant over every history of
  object-manager calls.
\<close>

section \<open>The tables as one map\<close>

definition hview :: "('ty, 'a) ob_state_scheme \<Rightarrow> u64 \<times> nat \<Rightarrow> handle_entry option" where
  "hview st k = (if 1 \<le> snd k \<and> snd k < MAX_HANDLES
     then case find_slot st (fst k) of None \<Rightarrow> None | Some s \<Rightarrow> entries (htables st s) (snd k) else None)"

lemma find_slot_Some:
  assumes "find_slot st c = Some s"
  shows "s < MAX_TABLES" "in_use (htables st s)" "slot_cr3 (htables st s) = c"
  using assms by (auto simp: find_slot_def find_Some_iff)

lemma find_slot_cong: "htables st' = htables st \<Longrightarrow> find_slot st' c = find_slot st c"
  by (simp add: find_slot_def)

lemma hview_cong: "htables st' = htables st \<Longrightarrow> hview st' = hview st"
  by (simp add: hview_def fun_eq_iff find_slot_cong [of st' st] split: option.split)

lemma find_slot_set_entry [simp]: "find_slot (set_entry s i e st) c = find_slot st c"
  unfolding find_slot_def set_entry_def by (rule arg_cong [where f = "\<lambda>P. List.find P _"]) auto

lemma set_entry_simps [simp]:
  "objects (set_entry s i e st) = objects st" "thread_cr3 (set_entry s i e st) = thread_cr3 st"
  "no_new_objects st (set_entry s i e st)"
  by (simp_all add: set_entry_def no_new_objects_def)

lemma hview_set_entry:
  assumes "find_slot st c = Some s" "1 \<le> i" "i < MAX_HANDLES"
  shows "hview (set_entry s i e st) = (hview st)((c, i) := e)"
proof (rule ext)
  fix k :: "u64 \<times> nat"
  obtain d j where k: "k = (d, j)" by (cases k)
  have "t \<noteq> s" if "find_slot st d = Some t" "d \<noteq> c" for t
    using find_slot_Some(3) [OF that(1)] find_slot_Some(3) [OF assms(1)] that(2) by auto
  then show "hview (set_entry s i e st) k = ((hview st)((c, i) := e)) k"
    using assms k by (auto simp: hview_def set_entry_def [of s i e st] split: option.split) (auto simp: set_entry_def [symmetric])
qed

lemma set_entry_ok:
  assumes ok: "ob_ok ext st" and s: "s < MAX_TABLES" "in_use (htables st s)" "1 \<le> i" "i < MAX_HANDLES"
    and e: "\<And>x. e = Some x \<Longrightarrow> h_refs x \<noteq> 0"
    and ext': "\<And>b. ext' b = ext b + int (entry_refs b (entries (htables st s) i)) - int (entry_refs b e)"
  shows "ob_ok ext' (set_entry s i e st)"
proof -
  have "ref_ok ext' (set_entry s i e st) b" for b
  proof -
    have "ref_ok ext st b" using ok by (simp add: ob_ok_def)
    moreover have "count_of (set_entry s i e st) b = count_of st b" by (simp add: count_of_def)
    ultimately show ?thesis using hrefs_set_entry [OF s, of e b] ext' [of b] by (auto simp: ref_ok_def)
  qed
  moreover have "tables_ok (set_entry s i e st)"
    using ok e by (auto simp: ob_ok_def tables_ok_def set_entry_def)
  ultimately show ?thesis using ok
    by (simp add: ob_ok_def headers_def) (simp add: set_entry_def heap_objects)
qed

lemma ref_ok_cong: "objects st' = objects st \<Longrightarrow> hrefs st' b = hrefs st b \<Longrightarrow> ref_ok ext st' b = ref_ok ext st b"
  by (simp add: ref_ok_def count_of_def)

lemma slot_for_spec:
  assumes ok: "ob_ok ext st" and sf: "slot_for c st = (r, st')"
  shows "ob_ok ext st' \<and> hview st' = hview st \<and> objects st' = objects st \<and> thread_cr3 st' = thread_cr3 st \<and> no_new_objects st st' \<and>
    find_slot st' c = r"
proof (cases "find_slot st c")
  case (Some s)
  with sf ok show ?thesis by (auto simp: slot_for_def no_new_objects_def)
next
  case None
  note none = this
  show ?thesis
  proof (cases "List.find (\<lambda>s. \<not> in_use (htables st s)) [0..<MAX_TABLES]")
    case None
    with sf ok none show ?thesis by (auto simp: slot_for_def no_new_objects_def)
  next
    case (Some s)
    let ?t = "\<lparr>slot_cr3 = c, in_use = True, entries = (\<lambda>_. None)\<rparr>"
    let ?st = "st\<lparr>htables := (htables st)(s := ?t)\<rparr>"
    from Some have s: "s < MAX_TABLES" "\<not> in_use (htables st s)" by (auto simp: find_Some_iff)
    from sf none Some have e: "r = Some s" "st' = ?st" by (simp_all add: slot_for_def)
    have nc: "\<not> (in_use (htables st t) \<and> slot_cr3 (htables st t) = c)" if "t < MAX_TABLES" for t
      using none that by (auto simp: find_slot_def find_None_iff)
    have fc: "find_slot ?st c = Some s"
      unfolding find_slot_def find_Some_iff using s nc by (intro exI [of _ s]) auto
    have fo: "find_slot ?st d = find_slot st d" if "d \<noteq> c" for d
      unfolding find_slot_def using s that by (intro find_cong) auto
    have "hview ?st k = hview st k" for k
      using fc fo [of "fst k"] none find_slot_Some(2) [of st "fst k"] s
      by (cases "fst k = c") (auto simp: hview_def split: option.split)
    moreover have "ob_ok ext ?st"
    proof -
      have "hrefs ?st = hrefs st" using hrefs_set_slot [OF s(1), of st ?t] s(2) by auto
      then have "ref_ok ext ?st b" for b using ok ref_ok_cong [of ?st st b ext] by (simp add: ob_ok_def)
      moreover have "tables_ok ?st" using ok nc by (auto simp: ob_ok_def tables_ok_def)
      ultimately show ?thesis using ok by (simp add: ob_ok_def headers_def heap_objects)
    qed
    ultimately show ?thesis using e fc by (auto simp: no_new_objects_def)
  qed
qed

lemma hview_slot:
  assumes "hview st (c, i) = Some e"
  obtains s where "find_slot st c = Some s" "s < MAX_TABLES" "in_use (htables st s)" "1 \<le> i" "i < MAX_HANDLES"
    "entries (htables st s) i = Some e"
  using assms by (auto simp: hview_def split: if_splits option.splits intro: that find_slot_Some)

lemma hrefs_ge:
  assumes "hview st (c, i) = Some e"
  shows "unat (h_refs e) \<le> hrefs st (h_object e)"
proof -
  obtain s where s: "s < MAX_TABLES" "in_use (htables st s)" "1 \<le> i" "i < MAX_HANDLES" "entries (htables st s) i = Some e"
    by (rule hview_slot [OF assms])
  have "unat (h_refs e) = entry_refs (h_object e) (entries (htables st s) i)" using s(5) by (simp add: entry_refs_def)
  also have "\<dots> \<le> slot_refs (h_object e) (htables st s)"
    using s member_le_sum [of i "{1..<MAX_HANDLES}" "\<lambda>i. entry_refs (h_object e) (entries (htables st s) i)"]
    by (simp add: slot_refs_def)
  also have "\<dots> \<le> hrefs st (h_object e)"
    using s(1) member_le_sum [of s "{..<MAX_TABLES}" "\<lambda>s. slot_refs (h_object e) (htables st s)"] by (simp add: hrefs_def)
  finally show ?thesis .
qed

lemma hview_refs: "ob_ok ext st \<Longrightarrow> hview st (c, i) = Some e \<Longrightarrow> h_refs e \<noteq> 0"
  by (erule hview_slot) (auto simp: ob_ok_def tables_ok_def)

text \<open>No handle dangles: what an open handle names is a live object.\<close>

lemma handle_live:
  assumes "ob_ok ext st" "\<forall>b. 0 \<le> ext b" "hview st (c, i) = Some e"
  shows "h_object e \<in> dom (objects st)"
proof (rule ccontr)
  assume "h_object e \<notin> dom (objects st)"
  then have "count_of st (h_object e) = 0" by (simp add: count_of_def domIff)
  moreover have "ref_ok ext st (h_object e)" using assms(1) by (simp add: ob_ok_def)
  moreover have "0 < unat (h_refs e)" using hview_refs [OF assms(1,3)] by (simp add: unat_gt_0)
  ultimately show False using hrefs_ge [OF assms(3)] assms(2) [THEN spec, of "h_object e"] by (simp add: ref_ok_def)
qed

lemma locate_hview:
  "locate st h = (case hview st (current_cr3 st, handle_to_index h) of None \<Rightarrow> None
     | Some e \<Rightarrow> Some (the (find_slot st (current_cr3 st)), handle_to_index h, e))"
  by (auto simp: locate_def hview_def Let_def split: option.split)

definition new_entry :: "nat \<Rightarrow> u32 \<Rightarrow> handle_entry" where
  "new_entry b acc = \<lparr>h_object = b, granted_access = acc, h_refs = 1\<rparr>"

context object_types
begin

lemma create_in_spec:
  assumes ok: "ob_ok ext st" "hook_inv st" and live: "b \<in> dom (objects st)"
  obtains r st' where "create_in types c b acc st = Some (r, st')" "ob_ok ext st'" "hook_inv st'" "dom (objects st') = dom (objects st)"
    "thread_cr3 st' = thread_cr3 st"
    "r = 0 \<and> hview st' = hview st \<and> (find_slot st' c = None \<or> (\<forall>i \<in> {1..<MAX_HANDLES}. hview st (c, i) \<noteq> None)) \<or>
     (\<exists>i. 1 \<le> i \<and> i < MAX_HANDLES \<and> r = index_to_handle i \<and> hview st (c, i) = None \<and>
        (\<forall>j. 1 \<le> j \<longrightarrow> j < i \<longrightarrow> hview st (c, j) \<noteq> None) \<and> hview st' = (hview st)((c, i) \<mapsto> new_entry b acc))"
proof -
  obtain q st1 where sf: "slot_for c st = (q, st1)" by (cases "slot_for c st")
  from slot_for_spec [OF ok(1) this] have s1: "ob_ok ext st1" "hview st1 = hview st" "objects st1 = objects st"
    "thread_cr3 st1 = thread_cr3 st" "no_new_objects st st1" "find_slot st1 c = q" by auto
  note inv1 = hook_inv_mono [OF ok(2) s1(5)]
  show thesis
  proof (cases q)
    case None
    with sf s1 inv1 show thesis by (intro that [of 0 st1]) (simp_all add: create_in_def)
  next
    case (Some s)
    with s1(6) have fs: "find_slot st1 c = Some s" by simp
    note fS = find_slot_Some [OF fs]
    have v: "hview st (c, j) = entries (htables st1 s) j" if "1 \<le> j" "j < MAX_HANDLES" for j
      using that fs s1(2) [symmetric] by (simp add: hview_def)
    show thesis
    proof (cases "List.find (\<lambda>i. entries (htables st1 s) i = None) [1..<MAX_HANDLES]")
      case None
      then have "\<forall>i \<in> {1..<MAX_HANDLES}. hview st (c, i) \<noteq> None" using v by (auto simp: find_None_iff)
      with sf Some s1 inv1 None show thesis by (intro that [of 0 st1]) (simp_all add: create_in_def)
    next
      case found: (Some i)
      then obtain k where k: "k < MAX_HANDLES - 1" "i = [1..<MAX_HANDLES] ! k" "entries (htables st1 s) i = None"
        "\<forall>j < k. entries (htables st1 s) ([1..<MAX_HANDLES] ! j) \<noteq> None" by (auto simp: find_Some_iff)
      then have i: "1 \<le> i" "i < MAX_HANDLES" "k = i - 1" by auto
      have before: "hview st (c, j) \<noteq> None" if "1 \<le> j" "j < i" for j
        using k(4) [rule_format, of "j - 1"] that i v [of j] by auto
      let ?e = "Some (new_entry b acc)"
      let ?st2 = "set_entry s i ?e st1"
      have "ob_ok (ext(b := ext b - 1)) ?st2"
        by (rule set_entry_ok [OF s1(1) fS(1,2) i(1,2)]) (auto simp: new_entry_def entry_refs_def k(3))
      moreover have "hook_inv ?st2" by (rule hook_inv_mono [OF inv1]) simp
      moreover have "b \<in> dom (objects ?st2)" using live s1(3) by simp
      ultimately obtain st3 where s3: "ob_reference_object types b ?st2 = Some st3" "hook_inv st3"
        "ob_ok ((ext(b := ext b - 1))(b := (ext(b := ext b - 1)) b + 1)) st3"
        "dom (objects st3) = dom (objects ?st2)" "htables st3 = htables ?st2" "thread_cr3 st3 = thread_cr3 ?st2"
        by (rule reference_spec)
      have "create_in types c b acc st = Some (index_to_handle i, st3)"
        using sf Some found s3(1) by (simp add: create_in_def new_entry_def)
      moreover have "hview st3 = (hview st)((c, i) \<mapsto> new_entry b acc)"
        using hview_cong [OF s3(5)] hview_set_entry [OF fs i(1,2), of ?e] s1(2) by simp
      moreover have "hview st (c, i) = None" using v [OF i(1,2)] k(3) by simp
      ultimately show thesis using s3 s1 i before by (intro that [of "index_to_handle i" st3]) auto
    qed
  qed
qed

lemma duplicate_spec:
  assumes ok: "ob_ok ext st" "hook_inv st" and nn: "\<forall>b. 0 \<le> ext b"
    and e: "hview st (current_cr3 st, handle_to_index h) = Some e" and room: "unat (h_refs e) + 1 < 2 ^ 32"
  obtains st' where "duplicate_handle types h st = Some (h, st')" "ob_ok ext st'" "hook_inv st'" "dom (objects st') = dom (objects st)"
    "thread_cr3 st' = thread_cr3 st"
    "hview st' = (hview st)((current_cr3 st, handle_to_index h) \<mapsto> e\<lparr>h_refs := h_refs e + 1\<rparr>)"
proof -
  let ?b = "h_object e" and ?i = "handle_to_index h"
  obtain s where s: "find_slot st (current_cr3 st) = Some s" "s < MAX_TABLES" "in_use (htables st s)" "1 \<le> ?i" "?i < MAX_HANDLES"
    "entries (htables st s) ?i = Some e" by (rule hview_slot [OF e])
  let ?e = "Some (e\<lparr>h_refs := h_refs e + 1\<rparr>)"
  let ?st = "set_entry s ?i ?e st"
  have u: "unat (h_refs e + 1) = unat (h_refs e) + 1" using room by (simp add: unat_word_ariths)
  have "ob_ok (ext(?b := ext ?b - 1)) ?st"
  proof (rule set_entry_ok [OF ok(1) s(2-5)])
    show "h_refs x \<noteq> 0" if "?e = Some x" for x using that u by (auto simp: word_unat_eq_iff)
  qed (use u s(6) in \<open>auto simp: entry_refs_def\<close>)
  moreover have "hook_inv ?st" by (rule hook_inv_mono [OF ok(2)]) simp
  moreover have "?b \<in> dom (objects ?st)" using handle_live [OF ok(1) nn e] by simp
  ultimately obtain st3 where s3: "ob_reference_object types ?b ?st = Some st3" "hook_inv st3"
    "ob_ok ((ext(?b := ext ?b - 1))(?b := (ext(?b := ext ?b - 1)) ?b + 1)) st3"
    "dom (objects st3) = dom (objects ?st)" "htables st3 = htables ?st" "thread_cr3 st3 = thread_cr3 ?st"
    by (rule reference_spec)
  have "duplicate_handle types h st = Some (h, st3)"
    using e s(1) s3(1) room by (simp add: duplicate_handle_def locate_hview)
  moreover have "hview st3 = (hview st)((current_cr3 st, ?i) \<mapsto> e\<lparr>h_refs := h_refs e + 1\<rparr>)"
    using hview_cong [OF s3(5)] hview_set_entry [OF s(1,4,5), of ?e] by simp
  ultimately show thesis using s3 by (intro that [of st3]) auto
qed

lemma close_spec:
  assumes ok: "ob_ok ext st" "hook_inv st" and nn: "\<forall>b. 0 \<le> ext b"
    and e: "hview st (current_cr3 st, handle_to_index h) = Some e"
  obtains st' where "ob_close_handle types h st = Some (STATUS_SUCCESS, st')" "ob_ok ext st'" "hook_inv st'"
    "dom (objects st') = dom (objects st) - (if count_of st (h_object e) = 1 then {h_object e} else {})" "thread_cr3 st' = thread_cr3 st"
    "hview st' = (hview st)((current_cr3 st, handle_to_index h) := if h_refs e > 1 then Some (e\<lparr>h_refs := h_refs e - 1\<rparr>) else None)"
proof -
  let ?b = "h_object e" and ?i = "handle_to_index h"
  obtain s where s: "find_slot st (current_cr3 st) = Some s" "s < MAX_TABLES" "in_use (htables st s)" "1 \<le> ?i" "?i < MAX_HANDLES"
    "entries (htables st s) ?i = Some e" by (rule hview_slot [OF e])
  let ?e = "if h_refs e > 1 then Some (e\<lparr>h_refs := h_refs e - 1\<rparr>) else None"
  let ?st = "set_entry s ?i ?e st"
  have nz: "0 < unat (h_refs e)" using hview_refs [OF ok(1) e] by (simp add: unat_gt_0)
  have u: "unat (h_refs e - 1) = unat (h_refs e) - 1" using unat_sub [of 1 "h_refs e"] nz by (simp add: word_le_nat_alt)
  have gt: "h_refs e > 1 \<longleftrightarrow> 1 < unat (h_refs e)" by (simp add: word_less_nat_alt)
  have one: "h_refs e = 1" if "\<not> h_refs e > 1" using that gt nz by (auto simp: word_unat_eq_iff)
  have "ob_ok (ext(?b := ext ?b + 1)) ?st"
  proof (rule set_entry_ok [OF ok(1) s(2-5)])
    show "h_refs x \<noteq> 0" if "?e = Some x" for x using that u gt by (auto simp: word_unat_eq_iff split: if_splits)
  qed (use u s(6) nz gt one in \<open>auto simp: entry_refs_def\<close>)
  moreover have "hook_inv ?st" by (rule hook_inv_mono [OF ok(2)]) simp
  moreover have "?b \<in> dom (objects ?st)" using handle_live [OF ok(1) nn e] by simp
  ultimately obtain st3 where s3: "ob_dereference_object types ?b ?st = Some st3" "hook_inv st3"
    "ob_ok ((ext(?b := ext ?b + 1))(?b := (ext(?b := ext ?b + 1)) ?b - 1)) st3"
    "dom (objects st3) = dom (objects ?st) - (if count_of ?st ?b = 1 then {?b} else {})" "htables st3 = htables ?st" "thread_cr3 st3 = thread_cr3 ?st"
    by (rule dereference_spec)
  have "ob_close_handle types h st = Some (STATUS_SUCCESS, st3)"
    using e s(1) s3(1) by (cases "h_refs e > 1") (simp_all add: ob_close_handle_def locate_hview)
  moreover have "hview st3 = (hview st)((current_cr3 st, ?i) := ?e)"
    using hview_cong [OF s3(5)] hview_set_entry [OF s(1,4,5), of ?e] by simp
  moreover have "count_of ?st ?b = count_of st ?b" by (simp add: count_of_def)
  ultimately show thesis using s3 by (intro that [of st3]) auto
qed

end

lemma count_list_map_filter:
  "distinct xs \<Longrightarrow> count_list (map f (List.map_filter es xs)) b =
     (\<Sum>i \<in> set xs. case es i of Some e \<Rightarrow> if f e = b then 1 else 0 | None \<Rightarrow> 0)"
proof (induction xs)
  case (Cons x xs)
  then show ?case by (cases "es x") (simp_all add: map_filter_simps)
qed (simp add: map_filter_simps)

text \<open>The references of an address space's handle table beyond one for each entry.\<close>

definition extra_refs :: "('ty, 'a) ob_state_scheme \<Rightarrow> u64 \<Rightarrow> nat \<Rightarrow> nat" where
  "extra_refs st c b = (\<Sum>i = 1..<MAX_HANDLES. case hview st (c, i) of Some e \<Rightarrow> if h_object e = b then unat (h_refs e) - 1 else 0 | None \<Rightarrow> 0)"

lemma slot_refs_split:
  assumes "ob_ok ext st" "find_slot st c = Some s"
  shows "slot_refs b (htables st s) = extra_refs st c b + count_list (map h_object (List.map_filter (entries (htables st s)) [1..<MAX_HANDLES])) b"
proof -
  have nz: "0 < unat (h_refs e)" if "entries (htables st s) i = Some e" for i e
    using assms(1) find_slot_Some [OF assms(2)] that by (auto simp: ob_ok_def tables_ok_def unat_gt_0)
  have "entry_refs b (entries (htables st s) i) =
      (case hview st (c, i) of Some e \<Rightarrow> if h_object e = b then unat (h_refs e) - 1 else 0 | None \<Rightarrow> 0) +
      (case entries (htables st s) i of Some e \<Rightarrow> if h_object e = b then 1 else 0 | None \<Rightarrow> 0)" if "i \<in> {1..<MAX_HANDLES}" for i
    using that assms(2) nz [of i] by (auto simp: hview_def entry_refs_def split: option.split)
  then have "(\<Sum>i = 1..<MAX_HANDLES. entry_refs b (entries (htables st s) i)) =
     extra_refs st c b + (\<Sum>i = 1..<MAX_HANDLES. case entries (htables st s) i of Some e \<Rightarrow> if h_object e = b then 1 else 0 | None \<Rightarrow> 0)"
    by (simp add: extra_refs_def sum.distrib)
  then show ?thesis using find_slot_Some(2) [OF assms(2)]
    by (simp add: slot_refs_def count_list_map_filter)
qed

context object_types
begin

lemma dereference_all:
  assumes "ob_ok ext st" "hook_inv st" "\<forall>b. int (count_list objs b) \<le> ext b"
  shows "\<exists>st'. foreach (ob_dereference_object types) objs st = Some st' \<and> hook_inv st' \<and>
    ob_ok (\<lambda>b. ext b - int (count_list objs b)) st' \<and> htables st' = htables st \<and> thread_cr3 st' = thread_cr3 st \<and>
    dom (objects st') \<subseteq> dom (objects st)"
  using assms
proof (induction objs arbitrary: ext st)
  case Nil
  then show ?case by simp
next
  case (Cons o' objs)
  have "1 \<le> ext o'" using Cons.prems(3) [THEN spec, of o'] by simp
  moreover have "ref_ok ext st o'" using Cons.prems(1) by (simp add: ob_ok_def)
  ultimately have live: "o' \<in> dom (objects st)" by (auto simp: ref_ok_def count_of_def split: option.splits)
  obtain st1 where s1: "ob_dereference_object types o' st = Some st1" "hook_inv st1" "ob_ok (ext(o' := ext o' - 1)) st1"
    "dom (objects st1) = dom (objects st) - (if count_of st o' = 1 then {o'} else {})" "htables st1 = htables st" "thread_cr3 st1 = thread_cr3 st"
    by (rule dereference_spec [OF Cons.prems(1,2) live])
  have "\<forall>b. int (count_list objs b) \<le> (ext(o' := ext o' - 1)) b" using Cons.prems(3) by (auto split: if_splits)
  from Cons.IH [OF s1(3,2) this] obtain st' where s2: "foreach (ob_dereference_object types) objs st1 = Some st'" "hook_inv st'"
    "ob_ok (\<lambda>b. (ext(o' := ext o' - 1)) b - int (count_list objs b)) st'" "htables st' = htables st1" "thread_cr3 st' = thread_cr3 st1"
    "dom (objects st') \<subseteq> dom (objects st1)" by blast
  have "(\<lambda>b. (ext(o' := ext o' - 1)) b - int (count_list objs b)) = (\<lambda>b. ext b - int (count_list (o' # objs) b))" by auto
  with s1 s2 show ?case by auto
qed

lemma free_table_spec:
  assumes ok: "ob_ok ext st" "hook_inv st" and nn: "\<forall>b. 0 \<le> ext b" and c: "c \<noteq> 0"
  obtains st' where "ob_free_table types c st = Some st'" "hook_inv st'" "ob_ok (\<lambda>b. ext b + int (extra_refs st c b)) st'"
    "thread_cr3 st' = thread_cr3 st" "hview st' = (\<lambda>k. if fst k = c then None else hview st k)" "dom (objects st') \<subseteq> dom (objects st)"
proof (cases "find_slot st c")
  case None
  then have "extra_refs st c b = 0" for b by (simp add: extra_refs_def hview_def)
  moreover have "hview st = (\<lambda>k. if fst k = c then None else hview st k)" using None by (auto simp: hview_def fun_eq_iff)
  ultimately show thesis using ok None c by (intro that [of st]) (simp_all add: ob_free_table_def)
next
  case (Some s)
  note fS = find_slot_Some [OF Some]
  let ?es = "entries (htables st s)"
  let ?objs = "map h_object (List.map_filter ?es [1..<MAX_HANDLES])"
  let ?t = "\<lparr>slot_cr3 = 0, in_use = False, entries = (\<lambda>i. if 1 \<le> i \<and> i < MAX_HANDLES then None else ?es i)\<rparr>"
  let ?st = "st\<lparr>htables := (htables st)(s := ?t)\<rparr>"
  let ?ext = "\<lambda>b. ext b + int (slot_refs b (htables st s))"
  have h: "hrefs ?st b + slot_refs b (htables st s) = hrefs st b" for b using hrefs_set_slot [OF fS(1), of st ?t b] by simp
  have ok1: "ob_ok ?ext ?st"
  proof -
    have "ref_ok ?ext ?st b" for b
    proof -
      have "ref_ok ext st b" using ok(1) by (simp add: ob_ok_def)
      then show ?thesis using h [of b] by (auto simp: ref_ok_def count_of_def)
    qed
    moreover have "tables_ok ?st" using ok(1) by (auto simp: ob_ok_def tables_ok_def)
    ultimately show ?thesis using ok(1) by (simp add: ob_ok_def headers_def heap_objects)
  qed
  have "hook_inv ?st" by (rule hook_inv_mono [OF ok(2)]) (rule same_objects)
  moreover have "\<forall>b. int (count_list ?objs b) \<le> ?ext b" using slot_refs_split [OF ok(1) Some] nn by simp
  ultimately obtain st' where s: "foreach (ob_dereference_object types) ?objs ?st = Some st'" "hook_inv st'"
    "ob_ok (\<lambda>b. ?ext b - int (count_list ?objs b)) st'" "htables st' = htables ?st" "thread_cr3 st' = thread_cr3 ?st" "dom (objects st') \<subseteq> dom (objects ?st)"
    using dereference_all [OF ok1] by blast
  have e: "(\<lambda>b. ?ext b - int (count_list ?objs b)) = (\<lambda>b. ext b + int (extra_refs st c b))"
    using slot_refs_split [OF ok(1) Some] by auto
  have un: "t = s" if "t < MAX_TABLES" "in_use (htables st t)" "slot_cr3 (htables st t) = c" for t
    using ok(1) fS that by (auto simp: ob_ok_def tables_ok_def)
  have "find_slot ?st c = None" using un c by (auto simp: find_slot_def find_None_iff)
  moreover have "find_slot ?st d = find_slot st d" if "d \<noteq> c" for d
    unfolding find_slot_def using that fS by (intro find_cong) auto
  moreover have "t \<noteq> s" if "find_slot st d = Some t" "d \<noteq> c" for d t using find_slot_Some(3) [OF that(1)] fS(3) that(2) by auto
  ultimately have "hview ?st k = (if fst k = c then None else hview st k)" for k
    by (auto simp: hview_def split: option.split)
  then have "hview st' = (\<lambda>k. if fst k = c then None else hview st k)" using hview_cong [OF s(4)] by auto
  moreover have "ob_free_table types c st = Some st'" using Some c s(1) by (simp add: ob_free_table_def Let_def)
  ultimately show thesis using s e by (intro that [of st']) auto
qed

end

context object_types
begin

lemma create_object_spec:
  assumes ok: "ob_ok ext st" and nn: "\<forall>b. 0 \<le> ext b" and n: "HEADER_SIZE + n < 2 ^ 31" "frames_at_hand (frames_needed (HEADER_SIZE + n)) st"
    and wb: "\<And>b st. same_ob st (wb b st)"
  obtains r st' where "ob_create_object ty n wb st = Some (r, st')"
    "case r of
       Inl e \<Rightarrow> e = STATUS_INSUFFICIENT_RESOURCES \<and> st' = st
     | Inr b \<Rightarrow> b \<notin> dom (objects st) \<and> dom (objects st') = insert b (dom (objects st)) \<and> ext b = 0 \<and> ob_ok (ext(b := 1)) st' \<and>
         count_of st' b = 1 \<and> htables st' = htables st \<and> thread_cr3 st' = thread_cr3 st"
proof -
  have heap: "pool_heap_ok TAG_OBJECT st (headers st)" and r: "\<forall>b. ref_ok ext st b" using ok by (simp_all add: ob_ok_def)
  have "0 < HEADER_SIZE + n" by (simp add: HEADER_SIZE_def)
  from pool_heap.alloc_law [OF heap this n] obtain q st1 where q: "pool_alloc_checked (HEADER_SIZE + n) TAG_OBJECT st = Some (q, st1)"
    "pool_only st st1" "case q of Inl e \<Rightarrow> e = STATUS_INSUFFICIENT_RESOURCES \<and> st1 = st
      | Inr p \<Rightarrow> p \<notin> headers st \<and> pool_heap_ok TAG_OBJECT st1 (insert p (headers st))" by blast
  note o1 = pool_only_ob [OF q(2)]
  show thesis
  proof (cases q)
    case (Inl e)
    with q show thesis by (intro that [of "Inl e" st]) (simp_all add: ob_create_object_def)
  next
    case (Inr p)
    let ?b = "p + HEADER_SIZE" and ?h = "\<lparr>ref_count = 1, header_type = ty, total_size = of_nat (HEADER_SIZE + n)\<rparr>"
    let ?st2 = "st1\<lparr>objects := (objects st1)(?b \<mapsto> ?h)\<rparr>"
    from q(3) Inr have p: "?b \<notin> dom (objects st)" "pool_heap_ok TAG_OBJECT st1 (insert p (headers st))" by (auto simp: headers_def)
    have "ref_ok ext st ?b" using r by blast
    moreover have "count_of st ?b = 0" using p(1) by (simp add: count_of_def domIff)
    ultimately have z: "ext ?b = 0" "hrefs st ?b = 0" using nn [rule_format, of ?b] by (simp_all add: ref_ok_def)
    have hr: "hrefs ?st2 = hrefs st" using hrefs_cong [of ?st2 st] o1(2) by auto
    have "ob_ok (ext(?b := 1)) ?st2"
      unfolding ob_ok_def
    proof (intro conjI)
      have "headers ?st2 = insert p (headers st)" using o1(1) by (auto simp: headers_def)
      then show "pool_heap_ok TAG_OBJECT ?st2 (headers ?st2)" using p(2) by (simp add: heap_objects)
      show "\<forall>c \<in> dom (objects ?st2). HEADER_SIZE \<le> c" using ok o1(1) by (auto simp: ob_ok_def)
      show "\<forall>c. ref_ok (ext(?b := 1)) ?st2 c"
        using r z hr o1(1) by (auto simp: ref_ok_def count_of_def domIff)
      show "tables_ok ?st2" using ok o1(2) by (simp add: ob_ok_def tables_ok_def)
    qed
    moreover note w = wb [of ?st2 ?b] and os = same_ob_simps [OF wb [of ?st2 ?b]]
    ultimately show thesis using q(1) Inr p(1) z o1 same_ob_ok [OF w]
      by (intro that [of "Inr ?b" "wb ?b ?st2"]) (auto simp: ob_create_object_def count_of_def Let_def)
  qed
qed

end

section \<open>Histories\<close>

text \<open>
  Every call of the object manager, in any order: objects are created with a body
  that keeps the callbacks' invariant, a reference is dropped only by who holds it, and the calling
  thread may change. \<open>ext\<close> follows the references held outside the handle tables; tearing a
  table down adds to it the references that its duplicated handles held, which nobody holds any more.
\<close>

inductive ob_history ::
    "('ty \<Rightarrow> ('ty, 'a) ob_state_scheme object_type) \<Rightarrow> (('ty, 'a) ob_state_scheme \<Rightarrow> bool) \<Rightarrow> ('ty, 'a) ob_state_scheme \<Rightarrow>
     ('ty, 'a) ob_state_scheme \<Rightarrow> (nat \<Rightarrow> int) \<Rightarrow> bool" for types inv st0 where
  boot: "ob_history types inv st0 st0 (\<lambda>_. 0)"
| created: "ob_history types inv st0 st ext \<Longrightarrow> HEADER_SIZE + n < 2 ^ 31 \<Longrightarrow> frames_at_hand (frames_needed (HEADER_SIZE + n)) st \<Longrightarrow>
     (\<forall>b st. same_ob st (wb b st)) \<Longrightarrow> ob_create_object ty n wb st = Some (Inr b, st') \<Longrightarrow> inv st' \<Longrightarrow> ob_history types inv st0 st' (ext(b := 1))"
| referenced: "ob_history types inv st0 st ext \<Longrightarrow> b \<in> dom (objects st) \<Longrightarrow> ob_reference_object types b st = Some st' \<Longrightarrow>
     ob_history types inv st0 st' (ext(b := ext b + 1))"
| dereferenced: "ob_history types inv st0 st ext \<Longrightarrow> 0 < ext b \<Longrightarrow> ob_dereference_object types b st = Some st' \<Longrightarrow>
     ob_history types inv st0 st' (ext(b := ext b - 1))"
| opened: "ob_history types inv st0 st ext \<Longrightarrow> b \<in> dom (objects st) \<Longrightarrow> ob_create_handle_in types c b acc st = Some (r, st') \<Longrightarrow>
     ob_history types inv st0 st' ext"
| duplicated: "ob_history types inv st0 st ext \<Longrightarrow> duplicate_handle types h st = Some (r, st') \<Longrightarrow> ob_history types inv st0 st' ext"
| closed: "ob_history types inv st0 st ext \<Longrightarrow> ob_close_handle types h st = Some (r, st') \<Longrightarrow> ob_history types inv st0 st' ext"
| torn_down: "ob_history types inv st0 st ext \<Longrightarrow> ob_free_table types c st = Some st' \<Longrightarrow> c \<noteq> 0 \<Longrightarrow>
     ob_history types inv st0 st' (\<lambda>b. ext b + int (extra_refs st c b))"
| switched: "ob_history types inv st0 st ext \<Longrightarrow> ob_history types inv st0 (st\<lparr>thread_cr3 := t\<rparr>) ext"

lemma switch_thread: "ob_ok ext (st\<lparr>thread_cr3 := t\<rparr>) = ob_ok ext st" "no_new_objects st (st\<lparr>thread_cr3 := t\<rparr>)"
proof -
  have "pool_heap_ok tag (st\<lparr>thread_cr3 := t\<rparr>) B = pool_heap_ok tag st B" for tag B
    by (simp add: pool_heap_ok_def pool_ok_def phys_wf_def frames_used_def frame_count_def blk_tag_def load_def)
  then show "ob_ok ext (st\<lparr>thread_cr3 := t\<rparr>) = ob_ok ext st"
    using hrefs_cong [of "st\<lparr>thread_cr3 := t\<rparr>" st] by (simp add: ob_ok_def headers_def ref_ok_def count_of_def tables_ok_def)
  show "no_new_objects st (st\<lparr>thread_cr3 := t\<rparr>)" by (simp add: no_new_objects_def)
qed

lemma held_live: "ob_ok ext st \<Longrightarrow> 0 < ext b \<Longrightarrow> b \<in> dom (objects st)"
proof (rule ccontr)
  assume "ob_ok ext st" "0 < ext b" "b \<notin> dom (objects st)"
  then have "ref_ok ext st b" "count_of st b = 0" by (simp_all add: ob_ok_def count_of_def domIff)
  with \<open>0 < ext b\<close> show False by (simp add: ref_ok_def)
qed

context object_types
begin

lemma history_ok:
  assumes "ob_history types hook_inv st0 st ext" "ob_ok (\<lambda>_. 0) st0" "hook_inv st0"
  shows "ob_ok ext st \<and> hook_inv st \<and> (\<forall>b. 0 \<le> ext b)"
  using assms
proof (induction rule: ob_history.induct)
  case boot
  then show ?case by simp
next
  case (created st ext n wb ty b st')
  then have ih: "ob_ok ext st" "\<forall>b. 0 \<le> ext b" by auto
  obtain r st'' where "ob_create_object ty n wb st = Some (r, st'')" "case r of
       Inl e \<Rightarrow> e = STATUS_INSUFFICIENT_RESOURCES \<and> st'' = st
     | Inr b \<Rightarrow> b \<notin> dom (objects st) \<and> dom (objects st'') = insert b (dom (objects st)) \<and> ext b = 0 \<and> ob_ok (ext(b := 1)) st'' \<and>
         count_of st'' b = 1 \<and> htables st'' = htables st \<and> thread_cr3 st'' = thread_cr3 st"
    by (rule create_object_spec [OF ih created.hyps(2,3), of wb ty]) (use created.hyps(4) in blast)
  with created.hyps(5) have "ob_ok (ext(b := 1)) st'" by simp
  with created.hyps(6) ih(2) show ?case by (simp add: fun_upd_def)
next
  case (referenced st ext b st')
  then have ih: "ob_ok ext st" "hook_inv st" "\<forall>b. 0 \<le> ext b" by auto
  show ?case by (rule reference_spec [OF ih(1,2) referenced.hyps(2)]) (use referenced.hyps(3) ih(3) in \<open>auto simp: fun_upd_def intro: add_nonneg_nonneg\<close>)
next
  case (dereferenced st ext b st')
  then have ih: "ob_ok ext st" "hook_inv st" "\<forall>b. 0 \<le> ext b" by auto
  show ?case by (rule dereference_spec [OF ih(1,2) held_live [OF ih(1) dereferenced.hyps(2)]]) (use dereferenced.hyps(2,3) ih(3) in \<open>auto simp: fun_upd_def\<close>)
next
  case (opened st ext b c acc r st')
  then have ih: "ob_ok ext st" "hook_inv st" "\<forall>b. 0 \<le> ext b" by auto
  show ?case by (rule create_in_spec [OF ih(1,2) opened.hyps(2), of c acc]) (use opened.hyps(3) ih(3) in \<open>auto simp: ob_create_handle_in_def\<close>)
next
  case (duplicated st ext h r st')
  then have ih: "ob_ok ext st" "hook_inv st" "\<forall>b. 0 \<le> ext b" by auto
  show ?case
  proof (cases "hview st (current_cr3 st, handle_to_index h)")
    case None
    with duplicated.hyps(2) ih show ?thesis by (simp add: duplicate_handle_def locate_hview)
  next
    case (Some e)
    with duplicated.hyps(2) have "unat (h_refs e) + 1 < 2 ^ 32"
      by (auto simp: duplicate_handle_def locate_hview Let_def split: if_splits)
    then show ?thesis by (rule duplicate_spec [OF ih Some]) (use duplicated.hyps(2) ih(3) in auto)
  qed
next
  case (closed st ext h r st')
  then have ih: "ob_ok ext st" "hook_inv st" "\<forall>b. 0 \<le> ext b" by auto
  show ?case
  proof (cases "hview st (current_cr3 st, handle_to_index h)")
    case None
    with closed.hyps(2) ih show ?thesis by (simp add: ob_close_handle_def locate_hview)
  next
    case (Some e)
    show ?thesis by (rule close_spec [OF ih Some]) (use closed.hyps(2) ih(3) in auto)
  qed
next
  case (torn_down st ext c st')
  then have ih: "ob_ok ext st" "hook_inv st" "\<forall>b. 0 \<le> ext b" by auto
  show ?case by (rule free_table_spec [OF ih torn_down.hyps(3)]) (use torn_down.hyps(2) ih(3) in \<open>auto intro: add_nonneg_nonneg\<close>)
next
  case (switched st ext t)
  then show ?case using hook_inv_mono [OF _ switch_thread(2)] by (auto simp: switch_thread(1))
qed

end

section \<open>Accounts that follow the reference count\<close>

text \<open>
  A predicate that taking and dropping a reference keep, and that does not look at the handle tables, is
  kept by every handle operation.
\<close>

locale counted_account =
  fixes types :: "'ty \<Rightarrow> ('ty, 'a) ob_state_scheme object_type"
    and acct :: "('ty, 'a) ob_state_scheme \<Rightarrow> bool"
  assumes on_ref: "acct st \<Longrightarrow> ob_reference_object types b st = Some st' \<Longrightarrow> acct st'"
    and on_deref: "acct st \<Longrightarrow> ob_dereference_object types b st = Some st' \<Longrightarrow> acct st'"
    and on_tables: "acct (st\<lparr>htables := t\<rparr>) = acct st"
begin

lemma acct_set_entry [simp]: "acct (set_entry s i e st) = acct st"
  by (simp add: set_entry_def on_tables)

lemma acct_slot_for: "acct st \<Longrightarrow> acct (snd (slot_for c st))"
  by (simp add: slot_for_def on_tables split: option.split)

lemma acct_create_in: "acct st \<Longrightarrow> create_in types c b acc st = Some (r, st') \<Longrightarrow> acct st'"
  using acct_slot_for [of st c]
  by (auto simp: create_in_def bind_eq_Some_conv split: prod.splits option.splits intro: on_ref [rotated])

lemma acct_duplicate: "acct st \<Longrightarrow> duplicate_handle types h st = Some (r, st') \<Longrightarrow> acct st'"
  by (auto simp: duplicate_handle_def Let_def bind_eq_Some_conv split: option.splits if_splits intro: on_ref [rotated])

lemma acct_close: "acct st \<Longrightarrow> ob_close_handle types h st = Some (r, st') \<Longrightarrow> acct st'"
  by (auto simp: ob_close_handle_def Let_def bind_eq_Some_conv split: option.splits if_splits) (erule on_deref [rotated], simp)+

lemma acct_foreach: "acct st \<Longrightarrow> foreach (ob_dereference_object types) bs st = Some st' \<Longrightarrow> acct st'"
  by (induction bs arbitrary: st) (auto simp: bind_eq_Some_conv dest: on_deref)

lemma acct_free_table: "acct st \<Longrightarrow> ob_free_table types c st = Some st' \<Longrightarrow> acct st'"
  by (auto simp: ob_free_table_def Let_def on_tables split: if_splits option.splits) (erule acct_foreach [rotated], simp add: on_tables)

end

end
