(* ===== verification/Io_Pipe.thy ===== *)
theory Io_Pipe
  imports Ob_Handles
begin

text \<open>
  Anonymous pipes (\<^verbatim>\<open>kernel/src/io/pipe.rs\<close>) and the kernel's object types. A pipe is a byte buffer with a
  cursor, shared by a read end and a write end; the write end's type counts its references in the
  buffer through the object manager's callbacks, which is how a reader learns that the last
  writer is gone. The state extends the object manager's with the leaked buffers and the bodies of the pipe
  ends. The object manager's interfaces are interpreted here on the kernel's own types.
\<close>

section \<open>Pipes\<close>

datatype ob_kind = PIPE_READ_TYPE | PIPE_WRITE_TYPE | FILE_TYPE | WRITABLE_FILE_TYPE | DEVICE_TYPE | DRIVER_TYPE

record pipe_buffer =
  pd_buf :: "u8 list"
  pd_pos :: nat
  pb_writers :: u64

record pipe_state = "ob_kind ob_state" +
  pipe_bufs :: "nat \<rightharpoonup> pipe_buffer"
  pipe_ends :: "nat \<rightharpoonup> nat"

definition PIPE_BUFFER_SIZE :: nat where "PIPE_BUFFER_SIZE = 48"
definition PIPE_END_SIZE :: nat where "PIPE_END_SIZE = 8"

definition end_buffer :: "'a pipe_state_scheme \<Rightarrow> nat \<Rightarrow> (nat \<times> pipe_buffer) option" where
  "end_buffer st body = do { p \<leftarrow> pipe_ends st body; pb \<leftarrow> pipe_bufs st p; Some (p, pb) }"

definition set_buffer :: "nat \<Rightarrow> pipe_buffer \<Rightarrow> 'a pipe_state_scheme \<Rightarrow> 'a pipe_state_scheme" where
  "set_buffer p pb st = st\<lparr>pipe_bufs := (pipe_bufs st)(p \<mapsto> pb)\<rparr>"

definition writer_referenced :: "nat \<Rightarrow> 'a pipe_state_scheme \<Rightarrow> 'a pipe_state_scheme option" where
  "writer_referenced body st = do {
     (p, pb) \<leftarrow> end_buffer st body;
     Some (set_buffer p (pb\<lparr>pb_writers := pb_writers pb + 1\<rparr>) st)
   }"

definition writer_dereferenced :: "nat \<Rightarrow> 'a pipe_state_scheme \<Rightarrow> 'a pipe_state_scheme option" where
  "writer_dereferenced body st = do {
     (p, pb) \<leftarrow> end_buffer st body;
     Some (set_buffer p (pb\<lparr>pb_writers := pb_writers pb - 1\<rparr>) st)
   }"

definition plain_type :: "u16 list \<Rightarrow> 's object_type" where
  "plain_type name = \<lparr>type_name = name, type_delete = None, on_reference = None, on_dereference = None\<rparr>"

fun kernel_types :: "ob_kind \<Rightarrow> 'a pipe_state_scheme object_type" where
  "kernel_types PIPE_WRITE_TYPE = \<lparr>type_name = [0x50, 0x69, 0x70, 0x65, 0x57, 0x72, 0x69, 0x74, 0x65],
     type_delete = None, on_reference = Some writer_referenced, on_dereference = Some writer_dereferenced\<rparr>"
| "kernel_types PIPE_READ_TYPE = plain_type [0x50, 0x69, 0x70, 0x65, 0x52, 0x65, 0x61, 0x64]"
| "kernel_types FILE_TYPE = plain_type [0x46, 0x69, 0x6C, 0x65]"
| "kernel_types WRITABLE_FILE_TYPE = plain_type [0x57, 0x72, 0x69, 0x74, 0x61, 0x62, 0x6C, 0x65, 0x46, 0x69, 0x6C, 0x65]"
| "kernel_types DEVICE_TYPE = plain_type [0x44, 0x65, 0x76, 0x69, 0x63, 0x65]"
| "kernel_types DRIVER_TYPE = plain_type [0x44, 0x72, 0x69, 0x76, 0x65, 0x72]"

definition write_end_body :: "nat \<Rightarrow> nat \<Rightarrow> 'a pipe_state_scheme \<Rightarrow> 'a pipe_state_scheme" where
  "write_end_body p body st = st\<lparr>pipe_ends := (pipe_ends st)(body \<mapsto> p)\<rparr>"

text \<open>An allocation failure in \<open>Box::new\<close> does not return; the two \<open>?\<close> leave what was made before them.\<close>

definition pipe_create :: "'a pipe_state_scheme \<Rightarrow> ((nat \<times> nat) option \<times> 'a pipe_state_scheme) option" where
  "pipe_create st = do {
     (p, st) \<leftarrow> global_alloc PIPE_BUFFER_SIZE 8 st;
     require (p \<noteq> 0);
     let st = set_buffer p \<lparr>pd_buf = [], pd_pos = 0, pb_writers = 1\<rparr> st;
     (r, st) \<leftarrow> ob_create_object PIPE_READ_TYPE PIPE_END_SIZE (write_end_body p) st;
     (case r of
        Inl _ \<Rightarrow> Some (None, st)
      | Inr rend \<Rightarrow> do {
          (w, st) \<leftarrow> ob_create_object PIPE_WRITE_TYPE PIPE_END_SIZE (write_end_body p) st;
          (case w of
             Inl _ \<Rightarrow> Some (None, st)
           | Inr wend \<Rightarrow> Some (Some (rend, wend), st))
        })
   }"

definition is_read_end :: "'a pipe_state_scheme \<Rightarrow> nat \<Rightarrow> bool option" where
  "is_read_end st body = do { r \<leftarrow> ob_check_type st body PIPE_READ_TYPE; Some (r = Inr ()) }"

definition is_write_end :: "'a pipe_state_scheme \<Rightarrow> nat \<Rightarrow> bool option" where
  "is_write_end st body = do { r \<leftarrow> ob_check_type st body PIPE_WRITE_TYPE; Some (r = Inr ()) }"

text \<open>\<open>chunk\<close> is the copy of the user buffer that is made before the lock is taken.\<close>

definition pipe_write :: "nat \<Rightarrow> u8 list \<Rightarrow> 'a pipe_state_scheme \<Rightarrow> (nat \<times> 'a pipe_state_scheme) option" where
  "pipe_write end' chunk st = do {
     (p, pb) \<leftarrow> end_buffer st end';
     Some (length chunk, set_buffer p (pb\<lparr>pd_buf := pd_buf pb @ chunk\<rparr>) st)
   }"

text \<open>The bytes copied to the caller, the end-of-file flag and the new state.\<close>

definition try_read :: "nat \<Rightarrow> nat \<Rightarrow> 'a pipe_state_scheme \<Rightarrow> (u8 list \<times> bool \<times> 'a pipe_state_scheme) option" where
  "try_read end' mx st = do {
     (p, pb) \<leftarrow> end_buffer st end';
     avail \<leftarrow> sub_nat (length (pd_buf pb)) (pd_pos pb);
     if avail = 0 then Some ([], pb_writers pb = 0, st)
     else do {
       let n = min avail mx;
       let chunk = take n (drop (pd_pos pb) (pd_buf pb));
       Some (chunk, False, set_buffer p (pb\<lparr>pd_pos := pd_pos pb + n\<rparr>) st)
     }
   }"

section \<open>The kernel's types keep the callbacks' contract\<close>

lemma more_pipe:
  assumes "ob_state.more st' = ob_state.more st"
  shows "pipe_bufs st' = pipe_bufs st" "pipe_ends st' = pipe_ends st" "end_buffer st' b = end_buffer st b"
proof -
  show "pipe_bufs st' = pipe_bufs st" "pipe_ends st' = pipe_ends st" using assms by (cases st; cases st'; simp)+
  then show "end_buffer st' b = end_buffer st b" by (simp add: end_buffer_def)
qed

definition pipe_inv :: "'a pipe_state_scheme \<Rightarrow> bool" where
  "pipe_inv st \<longleftrightarrow> (\<forall>b h. objects st b = Some h \<longrightarrow> header_type h = PIPE_WRITE_TYPE \<longrightarrow> end_buffer st b \<noteq> None)"

lemma set_buffer_simps [simp]:
  "same_ob st (set_buffer p pb st)" "objects (set_buffer p pb st) = objects st" "pipe_ends (set_buffer p pb st) = pipe_ends st"
  "htables (set_buffer p pb st) = htables st"
  by (simp_all add: set_buffer_def same_ob_def ob_state.truncate_def)

lemma end_buffer_set:
  "end_buffer (set_buffer p pb st) b = (if pipe_ends st b = Some p then Some (p, pb) else end_buffer st b)"
  by (cases "pipe_ends st b") (auto simp: end_buffer_def set_buffer_def)

lemma end_buffer_end: "end_buffer st b = Some (p, pb) \<Longrightarrow> pipe_ends st b = Some p"
  by (auto simp: end_buffer_def bind_eq_Some_conv)

lemma pipe_inv_set_buffer: "pipe_inv st \<Longrightarrow> pipe_inv (set_buffer p pb st)"
  by (auto simp: pipe_inv_def end_buffer_set)

lemma kernel_hooks:
  "is_hook (kernel_types k) f \<longleftrightarrow> k = PIPE_WRITE_TYPE \<and> (f = writer_referenced \<or> f = writer_dereferenced)"
  by (cases k) (auto simp: is_hook_def plain_type_def)

interpretation kt: object_types "kernel_types :: ob_kind \<Rightarrow> 'a pipe_state_scheme object_type" pipe_inv
proof unfold_locales
  fix st :: "'a pipe_state_scheme" and b h and f :: "nat \<Rightarrow> 'a pipe_state_scheme \<Rightarrow> 'a pipe_state_scheme option"
  assume i: "pipe_inv st" "objects st b = Some h" "is_hook (kernel_types (header_type h)) f"
  then have "end_buffer st b \<noteq> None" by (simp add: pipe_inv_def kernel_hooks)
  then obtain p pb where e: "end_buffer st b = Some (p, pb)" by auto
  from i(3) consider "f = writer_referenced" | "f = writer_dereferenced" by (auto simp: kernel_hooks)
  then show "\<exists>st'. f b st = Some st' \<and> same_ob st st' \<and> pipe_inv st'"
    by cases (simp_all add: e writer_referenced_def writer_dereferenced_def pipe_inv_set_buffer [OF i(1)])
next
  fix st st' :: "'a pipe_state_scheme"
  assume "pipe_inv st" "no_new_objects st st'"
  then show "pipe_inv st'" using more_pipe(3) [of st' st] by (fastforce simp: pipe_inv_def no_new_objects_def)
qed

section \<open>Writers are references to the write end\<close>

definition writers_ok :: "'a pipe_state_scheme \<Rightarrow> bool" where
  "writers_ok st \<longleftrightarrow>
     (\<forall>b h. objects st b = Some h \<longrightarrow> header_type h = PIPE_WRITE_TYPE \<longrightarrow>
        (\<exists>p pb. end_buffer st b = Some (p, pb) \<and> pb_writers pb = of_int (ref_count h))) \<and>
     (\<forall>b c h k. objects st b = Some h \<longrightarrow> header_type h = PIPE_WRITE_TYPE \<longrightarrow> objects st c = Some k \<longrightarrow>
        header_type k = PIPE_WRITE_TYPE \<longrightarrow> pipe_ends st b = pipe_ends st c \<longrightarrow> b = c)"

lemma pool_free_more:
  assumes "pool_free p tag st = Some st'"
  shows "pool_state.more st' = pool_state.more st"
proof -
  have store: "store va v s = Some s' \<Longrightarrow> pool_state.more s' = pool_state.more s" for va v and s s' :: "'a pool_state_scheme"
    by (auto simp: store_def Let_def bind_eq_Some_conv)
  have ins: "free_block_insert a n s = Some s' \<Longrightarrow> pool_state.more s' = pool_state.more s" for a n and s s' :: "'a pool_state_scheme"
    by (auto simp: free_block_insert_def set_blk_size_def set_blk_next_def bind_eq_Some_conv dest!: store)
  have fr: "mm_free_contiguous_pages a n s = Some s' \<Longrightarrow> pool_state.more s' = pool_state.more s" for a n and s s' :: "'a pool_state_scheme"
    by (erule mm_free_only_db) simp
  show ?thesis using assms
    by (auto simp: pool_free_def Let_def bind_eq_Some_conv split: if_splits dest!: ins fr)
qed

lemma end_buffer_objects [simp]: "end_buffer (st\<lparr>objects := m\<rparr>) b = end_buffer st b"
  by (simp add: end_buffer_def)

lemma writers_upd:
  assumes "writers_ok st" "pipe_ends st' = pipe_ends st"
    "\<And>c h'. objects st' c = Some h' \<Longrightarrow> header_type h' = PIPE_WRITE_TYPE \<Longrightarrow>
       (\<exists>h. objects st c = Some h \<and> header_type h = PIPE_WRITE_TYPE) \<and>
       (\<exists>p pb. end_buffer st' c = Some (p, pb) \<and> pb_writers pb = of_int (ref_count h'))"
  shows "writers_ok st'"
  using assms unfolding writers_ok_def by metis

text \<open>The count of one write end and the writers of its buffer move together.\<close>

lemma writers_move:
  assumes w: "writers_ok st" and h: "objects st b = Some h" "header_type h = PIPE_WRITE_TYPE"
    and e: "end_buffer st b = Some (p, pb)" and n: "v = of_int n"
  shows "writers_ok (set_buffer p (pb\<lparr>pb_writers := v\<rparr>) (st\<lparr>objects := (objects st)(b \<mapsto> h\<lparr>ref_count := n\<rparr>)\<rparr>))"
proof (rule writers_upd [OF w])
  let ?st' = "set_buffer p (pb\<lparr>pb_writers := v\<rparr>) (st\<lparr>objects := (objects st)(b \<mapsto> h\<lparr>ref_count := n\<rparr>)\<rparr>)"
  show "pipe_ends ?st' = pipe_ends st" by simp
  fix c h' assume c: "objects ?st' c = Some h'" "header_type h' = PIPE_WRITE_TYPE"
  show "(\<exists>h. objects st c = Some h \<and> header_type h = PIPE_WRITE_TYPE) \<and>
       (\<exists>p pb. end_buffer ?st' c = Some (p, pb) \<and> pb_writers pb = of_int (ref_count h'))"
  proof (cases "c = b")
    case True
    with c h n end_buffer_end [OF e] show ?thesis by (auto simp: end_buffer_set)
  next
    case False
    with c have oc: "objects st c = Some h'" by simp
    with w h c(2) False end_buffer_end [OF e] have "pipe_ends st c \<noteq> Some p" unfolding writers_ok_def by metis
    moreover from w oc c(2) have "\<exists>p pb. end_buffer st c = Some (p, pb) \<and> pb_writers pb = of_int (ref_count h')"
      unfolding writers_ok_def by blast
    ultimately show ?thesis using oc c(2) by (simp add: end_buffer_set)
  qed
qed

lemma writers_other:
  assumes "writers_ok st" "objects st b = Some h" "header_type h \<noteq> PIPE_WRITE_TYPE"
  shows "writers_ok (st\<lparr>objects := (objects st)(b \<mapsto> h\<lparr>ref_count := n\<rparr>)\<rparr>)"
proof (rule writers_upd [OF assms(1)])
  fix c h' assume "objects (st\<lparr>objects := (objects st)(b \<mapsto> h\<lparr>ref_count := n\<rparr>)\<rparr>) c = Some h'" "header_type h' = PIPE_WRITE_TYPE"
  with assms(3) have "objects st c = Some h'" by (auto split: if_splits)
  with assms(1) \<open>header_type h' = PIPE_WRITE_TYPE\<close>
  show "(\<exists>h. objects st c = Some h \<and> header_type h = PIPE_WRITE_TYPE) \<and>
    (\<exists>p pb. end_buffer (st\<lparr>objects := (objects st)(b \<mapsto> h\<lparr>ref_count := n\<rparr>)\<rparr>) c = Some (p, pb) \<and> pb_writers pb = of_int (ref_count h'))"
    by (auto simp: writers_ok_def)
qed simp

lemma writers_reference:
  assumes w: "writers_ok st" and r: "ob_reference_object kernel_types b st = Some st'"
  shows "writers_ok st'"
proof -
  from r obtain h where h: "objects st b = Some h" and
    st': "run_hook (on_reference (kernel_types (header_type h))) b (st\<lparr>objects := (objects st)(b \<mapsto> h\<lparr>ref_count := ref_count h + 1\<rparr>)\<rparr>) = Some st'"
    by (auto simp: ob_reference_object_def set_ref_count_def bind_eq_Some_conv split: if_splits)
  show ?thesis
  proof (cases "header_type h = PIPE_WRITE_TYPE")
    case True
    with w h obtain p pb where e: "end_buffer st b = Some (p, pb)" "pb_writers pb = of_int (ref_count h)"
      unfolding writers_ok_def by blast
    have "st' = set_buffer p (pb\<lparr>pb_writers := pb_writers pb + 1\<rparr>) (st\<lparr>objects := (objects st)(b \<mapsto> h\<lparr>ref_count := ref_count h + 1\<rparr>)\<rparr>)"
      using st' True e(1) by (simp add: run_hook_def writer_referenced_def)
    with writers_move [OF w h True e(1), of "pb_writers pb + 1" "ref_count h + 1"] e(2) show ?thesis by simp
  next
    case False
    then have "st' = st\<lparr>objects := (objects st)(b \<mapsto> h\<lparr>ref_count := ref_count h + 1\<rparr>)\<rparr>"
      using st' by (cases "header_type h") (simp_all add: run_hook_def plain_type_def)
    with writers_other [OF w h False] show ?thesis by simp
  qed
qed

text \<open>What dropping a reference does, before the block of a dead object goes back to the pool.\<close>

lemma dereference_steps:
  assumes "ob_dereference_object kernel_types b st = Some st'"
  obtains h st1 where "objects st b = Some h" "0 < ref_count h"
    "(if header_type h = PIPE_WRITE_TYPE then writer_dereferenced b st = Some st1 else st1 = st)"
    "if ref_count h = 1 then \<exists>st2 hdr. pool_free hdr TAG_OBJECT (st1\<lparr>objects := (objects st)(b \<mapsto> h\<lparr>ref_count := ref_count h - 1\<rparr>)\<rparr>) = Some st2 \<and>
        st' = st2\<lparr>objects := (objects st2)(b := None)\<rparr>
     else st' = st1\<lparr>objects := (objects st)(b \<mapsto> h\<lparr>ref_count := ref_count h - 1\<rparr>)\<rparr>"
    "objects st1 = objects st"
proof -
  from assms obtain h hdr st1 k where a: "objects st b = Some h" "run_hook (on_dereference (kernel_types (header_type h))) b st = Some st1"
    "objects st1 b = Some k" "0 < ref_count k"
    "(if ref_count k = 1 then do {
       st \<leftarrow> run_hook (type_delete (kernel_types (header_type k))) b (st1\<lparr>objects := (objects st1)(b \<mapsto> k\<lparr>ref_count := ref_count k - 1\<rparr>)\<rparr>);
       st \<leftarrow> pool_free hdr TAG_OBJECT st;
       Some (st\<lparr>objects := (objects st)(b := None)\<rparr>)
     } else Some (st1\<lparr>objects := (objects st1)(b \<mapsto> k\<lparr>ref_count := ref_count k - 1\<rparr>)\<rparr>)) = Some st'"
    by (auto simp: ob_dereference_object_def set_ref_count_def bind_eq_Some_conv split: if_splits)
  have hook: "if header_type h = PIPE_WRITE_TYPE then writer_dereferenced b st = Some st1 else st1 = st"
    using a(2) by (cases "header_type h") (simp_all add: run_hook_def plain_type_def)
  then have "objects st1 = objects st" by (auto simp: writer_dereferenced_def bind_eq_Some_conv split: if_splits)
  moreover have "run_hook (type_delete (kernel_types t)) b s = Some s" for t and s :: "'a pipe_state_scheme"
    by (cases t) (simp_all add: run_hook_def plain_type_def)
  ultimately show thesis using a hook by (intro that [of h st1]) (auto simp: bind_eq_Some_conv split: if_splits)
qed

lemma writers_dereference:
  assumes w: "writers_ok st" and d: "ob_dereference_object kernel_types b st = Some st'"
  shows "writers_ok st'"
proof -
  obtain h st1 where s: "objects st b = Some h" "0 < ref_count h"
    "if header_type h = PIPE_WRITE_TYPE then writer_dereferenced b st = Some st1 else st1 = st"
    "if ref_count h = 1 then \<exists>st2 hdr. pool_free hdr TAG_OBJECT (st1\<lparr>objects := (objects st)(b \<mapsto> h\<lparr>ref_count := ref_count h - 1\<rparr>)\<rparr>) = Some st2 \<and>
        st' = st2\<lparr>objects := (objects st2)(b := None)\<rparr>
     else st' = st1\<lparr>objects := (objects st)(b \<mapsto> h\<lparr>ref_count := ref_count h - 1\<rparr>)\<rparr>"
    by (rule dereference_steps [OF d])
  let ?n = "ref_count h - 1"
  let ?st = "st1\<lparr>objects := (objects st)(b \<mapsto> h\<lparr>ref_count := ?n\<rparr>)\<rparr>"
  have w1: "writers_ok ?st"
  proof (cases "header_type h = PIPE_WRITE_TYPE")
    case True
    with w s(1) obtain p pb where e: "end_buffer st b = Some (p, pb)" "pb_writers pb = of_int (ref_count h)"
      unfolding writers_ok_def by blast
    have "?st = set_buffer p (pb\<lparr>pb_writers := pb_writers pb - 1\<rparr>) (st\<lparr>objects := (objects st)(b \<mapsto> h\<lparr>ref_count := ?n\<rparr>)\<rparr>)"
      using s(3) True e(1) by (auto simp: writer_dereferenced_def set_buffer_def)
    with writers_move [OF w s(1) True e(1), of "pb_writers pb - 1" ?n] e(2) show ?thesis by simp
  next
    case False
    with s(3) writers_other [OF w s(1) False, of ?n] show ?thesis by simp
  qed
  show ?thesis
  proof (cases "ref_count h = 1")
    case True
    with s(4) obtain st2 hdr where f: "pool_free hdr TAG_OBJECT ?st = Some st2" "st' = st2\<lparr>objects := (objects st2)(b := None)\<rparr>" by auto
    from pool_free_more [OF f(1)] have po: "pool_only ?st st2" by (simp add: pool_only_def)
    note o2 = pool_only_ob [OF po] and m2 = more_pipe [OF pool_only_ob(4) [OF po]]
    show ?thesis
    proof (rule writers_upd [OF w1])
      show "pipe_ends st' = pipe_ends ?st" using f(2) m2(2) by simp
      fix c k assume "objects st' c = Some k" "header_type k = PIPE_WRITE_TYPE"
      with f(2) o2(1) have "objects ?st c = Some k" by (auto split: if_splits)
      with w1 \<open>header_type k = PIPE_WRITE_TYPE\<close> m2(3) f(2)
      show "(\<exists>h. objects ?st c = Some h \<and> header_type h = PIPE_WRITE_TYPE) \<and>
        (\<exists>p pb. end_buffer st' c = Some (p, pb) \<and> pb_writers pb = of_int (ref_count k))"
        unfolding writers_ok_def by (simp del: fun_upd_apply)
    qed
  next
    case False
    with s(4) w1 show ?thesis by simp
  qed
qed

interpretation writers: counted_account "kernel_types :: ob_kind \<Rightarrow> 'a pipe_state_scheme object_type" writers_ok
proof unfold_locales
  fix st :: "'a pipe_state_scheme" and t
  show "writers_ok (st\<lparr>htables := t\<rparr>) = writers_ok st" by (simp add: writers_ok_def end_buffer_def)
qed (use writers_reference writers_dereference in blast)+

section \<open>A pipe as a byte stream\<close>

definition pending :: "'a pipe_state_scheme \<Rightarrow> nat \<Rightarrow> u8 list" where
  "pending st p = (case pipe_bufs st p of None \<Rightarrow> [] | Some pb \<Rightarrow> drop (pd_pos pb) (pd_buf pb))"

definition pipe_ok :: "'a pipe_state_scheme \<Rightarrow> nat \<Rightarrow> nat \<Rightarrow> nat \<Rightarrow> bool" where
  "pipe_ok st p r w \<longleftrightarrow> pipe_ends st r = Some p \<and> pipe_ends st w = Some p \<and>
     (\<exists>pb. pipe_bufs st p = Some pb \<and> pd_pos pb \<le> length (pd_buf pb))"

lemma pipe_write_spec:
  assumes "pipe_ok st p r w"
  obtains st' where "pipe_write w bs st = Some (length bs, st')" "pipe_ok st' p r w" "pending st' p = pending st p @ bs"
  using assms that by (auto simp: pipe_ok_def pipe_write_def end_buffer_def set_buffer_def pending_def)

lemma try_read_spec:
  assumes "pipe_ok st p r w"
  obtains eof st' where "try_read r n st = Some (take n (pending st p), eof, st')" "pipe_ok st' p r w"
    "pending st' p = drop n (pending st p)" "eof \<Longrightarrow> pending st p = []"
proof -
  from assms obtain pb where pb: "pipe_ends st r = Some p" "pipe_ends st w = Some p" "pipe_bufs st p = Some pb" "pd_pos pb \<le> length (pd_buf pb)"
    by (auto simp: pipe_ok_def)
  show thesis
  proof (cases "length (pd_buf pb) = pd_pos pb")
    case True
    with pb assms show thesis
      by (intro that [of "pb_writers pb = 0" st]) (simp_all add: try_read_def end_buffer_def pending_def)
  next
    case False
    let ?n = "min (length (pd_buf pb) - pd_pos pb) n"
    have "take ?n (drop (pd_pos pb) (pd_buf pb)) = take n (drop (pd_pos pb) (pd_buf pb))"
      "drop (pd_pos pb + ?n) (pd_buf pb) = drop n (drop (pd_pos pb) (pd_buf pb))"
      by (auto simp: min_def add.commute)
    with pb False show thesis
      by (intro that [of False "set_buffer p (pb\<lparr>pd_pos := pd_pos pb + ?n\<rparr>) st"])
        (auto simp: try_read_def end_buffer_def pending_def Let_def pipe_ok_def set_buffer_def)
  qed
qed

datatype pipe_op = WriteOp "u8 list" | ReadOp nat

fun pipe_run :: "nat \<Rightarrow> nat \<Rightarrow> pipe_op list \<Rightarrow> 'a pipe_state_scheme \<Rightarrow> (u8 list \<times> 'a pipe_state_scheme) option" where
  "pipe_run r w [] st = Some ([], st)"
| "pipe_run r w (WriteOp bs # ops) st = do { (n, st) \<leftarrow> pipe_write w bs st; pipe_run r w ops st }"
| "pipe_run r w (ReadOp n # ops) st = do { (out, eof, st) \<leftarrow> try_read r n st; (rest, st) \<leftarrow> pipe_run r w ops st; Some (out @ rest, st) }"

fun written :: "pipe_op list \<Rightarrow> u8 list" where
  "written [] = []"
| "written (WriteOp bs # ops) = bs @ written ops"
| "written (ReadOp n # ops) = written ops"

lemma pipe_run_spec:
  "pipe_ok st p r w \<Longrightarrow> \<exists>out st'. pipe_run r w ops st = Some (out, st') \<and> pipe_ok st' p r w \<and> out @ pending st' p = pending st p @ written ops"
proof (induction r w ops st rule: pipe_run.induct)
  case (2 r w bs ops st)
  obtain st1 where "pipe_write w bs st = Some (length bs, st1)" "pipe_ok st1 p r w" "pending st1 p = pending st p @ bs"
    by (rule pipe_write_spec [OF 2(2)])
  with "2.IH" [OF _ refl] show ?case by fastforce
next
  case (3 r w n ops st)
  obtain eof st1 where t: "try_read r n st = Some (take n (pending st p), eof, st1)" "pipe_ok st1 p r w" "pending st1 p = drop n (pending st p)"
    by (rule try_read_spec [OF 3(2)])
  with "3.IH" [OF t(1) refl refl] obtain out st' where o: "pipe_run r w ops st1 = Some (out, st')" "pipe_ok st' p r w" "out @ pending st' p = pending st1 p @ written ops"
    by blast
  have "(take n (pending st p) @ out) @ pending st' p = pending st p @ written ops"
    using o(3) t(3) by (metis append_assoc append_take_drop_id)
  with t o show ?case by simp
qed simp

section \<open>Handle values\<close>

lemma handle_index [simp]: "i < MAX_HANDLES \<Longrightarrow> handle_to_index (index_to_handle i) = i"
proof -
  assume i: "i < MAX_HANDLES"
  then have u: "unat (of_nat i :: u64) = i" by (simp add: MAX_HANDLES_def unat_of_nat take_bit_nat_eq_self)
  have "unat (push_bit 2 (of_nat i) :: u64) = i * 4"
    using i u by (simp add: push_bit_eq_mult unat_word_ariths MAX_HANDLES_def)
  then show ?thesis by (simp add: handle_to_index_def index_to_handle_def unat_drop_bit_eq)
qed

lemma index_to_handle_nonzero: "1 \<le> i \<Longrightarrow> i < MAX_HANDLES \<Longrightarrow> index_to_handle i \<noteq> 0"
proof
  assume i: "1 \<le> i" "i < MAX_HANDLES" and z: "index_to_handle i = 0"
  from handle_index [OF i(2)] z i(1) show False by (simp add: handle_to_index_def)
qed

section \<open>Properties\<close>

definition demo_ob :: pipe_state where
  "demo_ob = \<lparr>phys_offset = phys_offset demo_pool, pfn_db = pfn_db demo_pool, ram = ram demo_pool, cr3 = 0, kernel_pml4 = 0, geom = (0, 0),
     slot_map = [], slot_hint = 0, registry = [], paged_out = [], last_slot = None, blk = blk demo_pool, vads = [],
     free_list = 0, bytes_in_use = 0, allocations = 0, pool_frees = 0,
     objects = Map.empty, htables = (\<lambda>_. \<lparr>slot_cr3 = 0, in_use = False, entries = (\<lambda>_. None)\<rparr>), thread_cr3 = Some 0x5000,
     pipe_bufs = Map.empty(64 \<mapsto> \<lparr>pd_buf = [1, 2, 3], pd_pos = 1, pb_writers = 1\<rparr>), pipe_ends = Map.empty(8 \<mapsto> 64, 16 \<mapsto> 64)\<rparr>"

lemma demo_ob_ok: "ob_ok (\<lambda>_. 0) demo_ob" "pipe_inv demo_ob" "\<not> online demo_ob"
proof -
  have "pool_ok demo_ob [] []"
    using demo_pool_ok(1) by (simp add: pool_ok_def demo_ob_def phys_wf_def frame_count_def demo_pool_def mm_state.defs pool_state.defs)
  then have "pool_heap_ok TAG_OBJECT demo_ob (headers demo_ob)"
    by (auto simp: pool_heap_ok_def headers_def demo_ob_def)
  moreover have "hrefs demo_ob b = 0" for b by (simp add: hrefs_def demo_ob_def)
  ultimately show "ob_ok (\<lambda>_. 0) demo_ob"
    by (simp add: ob_ok_def ref_ok_def count_of_def tables_ok_def) (simp add: demo_ob_def)
  show "pipe_inv demo_ob" by (simp add: pipe_inv_def demo_ob_def)
  show "\<not> online demo_ob" by (simp add: online_def slot_count_def demo_ob_def)
qed

text \<open>A state with one object, whose creator holds the only reference.\<close>

lemma demo_created:
  obtains b st' where "ob_create_object FILE_TYPE 8 (\<lambda>_ st. st) demo_ob = Some (Inr b, st')" "b \<in> dom (objects st')"
    "ob_ok ((\<lambda>_. 0)(b := 1)) st'" "pipe_inv st'" "count_of st' b = 1" "current_cr3 st' = 0x5000" "htables st' = htables demo_ob"
proof -
  have sz: "HEADER_SIZE + 8 < 2 ^ 31" "0 < HEADER_SIZE + 8" "frames_needed (HEADER_SIZE + 8) = 16"
    by (simp_all add: HEADER_SIZE_def frames_needed_def LARGE_THRESHOLD_def PAGE_SIZE_def POOL_ALIGN_def SLAB_PAGES_def)
  note hand = at_hand_offline [OF demo_ob_ok(3)]
  have "frames_used demo_ob = {..<6}" "frame_count demo_ob = 64"
    using demo_pool_ok(3,4) by (simp_all add: frames_used_def frame_count_def demo_ob_def)
  moreover have "{6..<6 + 16} \<inter> {..<6 :: nat} = {}" by auto
  ultimately have run: "\<not> (\<forall>i. i + 16 \<le> frame_count demo_ob \<longrightarrow> {i..<i + 16} \<inter> frames_used demo_ob \<noteq> {})"
    by (simp only: not_all not_imp) (rule exI [of _ 6], simp)
  from demo_ob_ok(1) obtain fs ls where "pool_ok demo_ob fs ls" by (auto simp: ob_ok_def pool_heap_ok_def)
  from pool_alloc_spec [OF this sz(2,1) hand, of TAG_OBJECT] obtain p s where
    p: "pool_alloc (HEADER_SIZE + 8) TAG_OBJECT demo_ob = Some (p, s)" and
    q: "if p = 0 then s = demo_ob \<and> (\<forall>i. i + 16 \<le> frame_count demo_ob \<longrightarrow> {i..<i + 16} \<inter> frames_used demo_ob \<noteq> {})
        else pool_allocated (HEADER_SIZE + 8) TAG_OBJECT ls demo_ob p s" unfolding sz(3) by blast
  have p0: "p \<noteq> 0" using q run by meson
  have nn: "\<forall>b :: nat. 0 \<le> (\<lambda>_. 0 :: int) b" by simp
  have wb: "same_ob st ((\<lambda>_ st. st) b st)" for b :: nat and st :: pipe_state by (simp add: same_ob_def)
  obtain r st' where r: "ob_create_object FILE_TYPE 8 (\<lambda>_ st. st) demo_ob = Some (r, st')"
    "case r of
       Inl e \<Rightarrow> e = STATUS_INSUFFICIENT_RESOURCES \<and> st' = demo_ob
     | Inr b \<Rightarrow> b \<notin> dom (objects demo_ob) \<and> dom (objects st') = insert b (dom (objects demo_ob)) \<and> (0 :: int) = 0 \<and> ob_ok ((\<lambda>_. 0)(b := 1)) st' \<and>
         count_of st' b = 1 \<and> htables st' = htables demo_ob \<and> thread_cr3 st' = thread_cr3 demo_ob"
    by (rule kt.create_object_spec [OF demo_ob_ok(1) nn sz(1) hand wb, of FILE_TYPE])
  from r(1) p p0 obtain b where b: "r = Inr b" "st' = s\<lparr>objects := (objects s)(b \<mapsto> \<lparr>ref_count = 1, header_type = FILE_TYPE, total_size = of_nat (HEADER_SIZE + 8)\<rparr>)\<rparr>"
    by (auto simp: ob_create_object_def pool_alloc_checked_def Let_def)
  have "dom (objects st') = {b}" using r(2) b(1) by (simp add: demo_ob_def)
  then have only: "objects st' c = Some h \<Longrightarrow> c = b" for c h by (metis domI singletonD)
  have ty: "objects st' b = Some h \<Longrightarrow> header_type h = FILE_TYPE" for h using b(2) by auto
  have "pipe_inv st'" unfolding pipe_inv_def
  proof (intro allI impI)
    fix c h assume "objects st' c = Some h" "header_type h = PIPE_WRITE_TYPE"
    with only ty show "end_buffer st' c \<noteq> None" by (metis ob_kind.distinct(11))
  qed
  with r b(1) show thesis by (intro that [of b st']) (simp_all add: current_cr3_def demo_ob_def)
qed





text \<open>
  Tearing down a process's table empties exactly that table, and drops one reference for each entry. A handle that was
  duplicated holds one reference for each copy, so the others stay counted although nobody holds them: the
  object of such a handle survives the process.
\<close>

theorem ob_free_table_correct:
  assumes ok: "ob_ok ext st" "pipe_inv st" "\<forall>b. 0 \<le> ext b" and c: "c \<noteq> 0"
  shows "\<exists>st'. ob_free_table kernel_types c st = Some st' \<and>
    hview st' = (\<lambda>k. if fst k = c then None else hview st k) \<and>
    (\<forall>b. count_of st' b = int (hrefs st' b) + ext b + int (extra_refs st c b)) \<and>
    (\<forall>i e. hview st (c, i) = Some e \<longrightarrow> h_refs e > 1 \<longrightarrow> h_object e \<in> dom (objects st'))"
proof -
  obtain st' where s: "ob_free_table kernel_types c st = Some st'" "ob_ok (\<lambda>b. ext b + int (extra_refs st c b)) st'"
    "hview st' = (\<lambda>k. if fst k = c then None else hview st k)"
    by (rule kt.free_table_spec [OF ok c])
  from s(2) have r: "count_of st' b = int (hrefs st' b) + (ext b + int (extra_refs st c b))" for b by (simp add: ob_ok_def ref_ok_def)
  have "h_object e \<in> dom (objects st')" if "hview st (c, i) = Some e" "h_refs e > 1" for i e
  proof (rule held_live [OF s(2)])
    have i: "i \<in> {1..<MAX_HANDLES}" using that(1) by (auto simp: hview_def split: if_splits)
    have "0 < unat (h_refs e) - 1" using that(2) by (simp add: word_less_nat_alt)
    also have "\<dots> \<le> extra_refs st c (h_object e)"
      unfolding extra_refs_def using that(1)
        member_le_sum [OF i, of "\<lambda>i. case hview st (c, i) of Some x \<Rightarrow> if h_object x = h_object e then unat (h_refs x) - 1 else 0 | None \<Rightarrow> 0"]
      by simp
    finally show "0 < ext (h_object e) + int (extra_refs st c (h_object e))" using ok(3) [rule_format, of "h_object e"] by linarith
  qed
  with s(1,3) r show ?thesis by (auto simp: add.assoc)
qed

theorem ob_free_table_witness:
  "\<exists>b st. ob_create_object FILE_TYPE 8 (\<lambda>_ st. st) demo_ob = Some (Inr b, st) \<and> (\<exists>st'. ob_free_table kernel_types 0x5000 st = Some st')"
proof -
  obtain b st where c: "ob_create_object FILE_TYPE 8 (\<lambda>_ st. st) demo_ob = Some (Inr b, st)"
    "ob_ok ((\<lambda>_. 0)(b := 1)) st" "pipe_inv st" by (rule demo_created)
  moreover have "\<forall>c. 0 \<le> ((\<lambda>_. 0 :: int)(b := 1)) c" by simp
  ultimately show ?thesis using ob_free_table_correct [OF c(2,3), of "0x5000"] by auto
qed

text \<open>
  C29. A pipe is a byte stream: for every sequence of writes and reads, the bytes read so far followed by those still in
  the pipe are the bytes that were in it at the start followed by those written, in order.
\<close>

theorem pipe_stream_correct:
  assumes "pipe_ok st p r w"
  shows "\<exists>out st'. pipe_run r w ops st = Some (out, st') \<and> pipe_ok st' p r w \<and> out @ pending st' p = pending st p @ written ops"
  using assms by (rule pipe_run_spec)

theorem pipe_stream_witness:
  "pipe_ok demo_ob 64 8 16 \<and> (\<exists>out st'. pipe_run 8 16 [ReadOp 1, WriteOp [9], ReadOp 5] demo_ob = Some (out, st') \<and> out = [2, 3, 9])"
proof -
  have ok: "pipe_ok demo_ob 64 8 16" by (simp add: pipe_ok_def demo_ob_def)
  from pipe_stream_correct [OF this, of "[ReadOp 1, WriteOp [9], ReadOp 5]"]
  obtain out st' where o: "pipe_run 8 16 [ReadOp 1, WriteOp [9], ReadOp 5] demo_ob = Some (out, st')" by blast
  then have "out = [2, 3, 9]"
    by (simp add: demo_ob_def try_read_def pipe_write_def end_buffer_def set_buffer_def)
  with o ok show ?thesis by blast
qed



end
