(* ===== verification/Crt_Fd.thy ===== *)
theory Crt_Fd
  imports Io_Pipe
begin

text \<open>
  The descriptor table of the C runtime (\<^verbatim>\<open>msvcrt/src/lib.rs\<close>) and the handle services it calls (\<^verbatim>\<open>kernel/src/syscalls.rs\<close>).
  A descriptor names a handle of the kernel; each operation is a function of the services, so the runtime's laws are
  proved against their contract alone. The contract is then discharged by the kernel's handle tables.
\<close>

section \<open>Services of the kernel\<close>

text \<open>The kernel and the standard handles of the calling thread.\<close>

record thread_kernel =
  std_handles :: "nat \<Rightarrow> u64"
  machine :: pipe_state

definition on_machine :: "(pipe_state \<Rightarrow> ('a \<times> pipe_state) option) \<Rightarrow> thread_kernel \<Rightarrow> ('a \<times> thread_kernel) option" where
  "on_machine f k = do { (r, st) \<leftarrow> f (machine k); Some (r, k\<lparr>machine := st\<rparr>) }"

definition nt_duplicate_object :: "u64 \<Rightarrow> pipe_state \<Rightarrow> (u64 \<times> pipe_state) option" where
  "nt_duplicate_object src_handle st = duplicate_handle kernel_types src_handle st"

definition nt_close :: "u64 \<Rightarrow> pipe_state \<Rightarrow> (nt_status \<times> pipe_state) option" where
  "nt_close handle st =
     (if handle = - 1 \<or> handle = - 2 then Some (STATUS_SUCCESS, st) else ob_close_handle kernel_types handle st)"

text \<open>
  \<open>out_ptr\<close> is the user buffer and \<open>copied\<close> whether the copy to it succeeds; the handles are what is copied. A failed copy
  leaves both handles open.
\<close>

definition nt_create_pipe :: "u64 \<Rightarrow> bool \<Rightarrow> pipe_state \<Rightarrow> ((u64 \<times> u64) option \<times> pipe_state) option" where
  "nt_create_pipe out_ptr copied st =
     (if out_ptr = 0 then Some (None, st)
      else do {
        (ends, st) \<leftarrow> pipe_create st;
        (case ends of
           None \<Rightarrow> Some (None, st)
         | Some (r, w) \<Rightarrow> do {
             (rh, st) \<leftarrow> ob_create_handle kernel_types r 0 st;
             (wh, st) \<leftarrow> ob_create_handle kernel_types w 0 st;
             st \<leftarrow> ob_dereference_object kernel_types r st;
             st \<leftarrow> ob_dereference_object kernel_types w st;
             Some (if copied then Some (rh, wh) else None, st)
           })
      })"

definition nt_set_std_handle :: "nat \<Rightarrow> u64 \<Rightarrow> thread_kernel \<Rightarrow> u64 \<times> thread_kernel" where
  "nt_set_std_handle which h st =
     (if 2 < which then (0, st) else (1, st\<lparr>std_handles := (std_handles st)(which := h)\<rparr>))"

definition nt_get_std_handle :: "nat \<Rightarrow> thread_kernel \<Rightarrow> u64" where
  "nt_get_std_handle which st = (if 2 < which then 0 else std_handles st which)"

text \<open>The services the runtime uses, over any kernel state; opening the console device is one of them.\<close>

record 'k services =
  svc_duplicate :: "u64 \<Rightarrow> 'k \<Rightarrow> (u64 \<times> 'k) option"
  svc_close :: "u64 \<Rightarrow> 'k \<Rightarrow> (nt_status \<times> 'k) option"
  svc_create_pipe :: "'k \<Rightarrow> ((u64 \<times> u64) option \<times> 'k) option"
  svc_get_std :: "nat \<Rightarrow> 'k \<Rightarrow> u64"
  svc_set_std :: "nat \<Rightarrow> u64 \<Rightarrow> 'k \<Rightarrow> 'k"
  svc_open_console :: "'k \<Rightarrow> (u64 \<times> 'k) option"

definition kernel_services :: "(thread_kernel \<Rightarrow> (u64 \<times> thread_kernel) option) \<Rightarrow> thread_kernel services" where
  "kernel_services open_console = \<lparr>
     svc_duplicate = (\<lambda>h. on_machine (nt_duplicate_object h)),
     svc_close = (\<lambda>h. on_machine (nt_close h)),
     svc_create_pipe = on_machine (nt_create_pipe 1 True),
     svc_get_std = nt_get_std_handle,
     svc_set_std = (\<lambda>i h st. snd (nt_set_std_handle i h st)),
     svc_open_console = open_console\<rparr>"

section \<open>The descriptor table\<close>

definition FD_MAX :: nat where "FD_MAX = 40"

record 'k crt =
  fd_table :: "nat \<Rightarrow> u64"
  fd_ready :: bool
  console_cache :: u64
  os :: 'k

definition console_handle :: "'k services \<Rightarrow> 'k crt \<Rightarrow> (u64 \<times> 'k crt) option" where
  "console_handle sv s =
     (if console_cache s = 0 then do {
        (h, k) \<leftarrow> svc_open_console sv (os s);
        Some (h, s\<lparr>console_cache := h, os := k\<rparr>)
      } else Some (console_cache s, s))"

definition seed_fd :: "'k services \<Rightarrow> nat \<Rightarrow> 'k crt \<Rightarrow> 'k crt option" where
  "seed_fd sv i s = do {
     let h = svc_get_std sv i (os s);
     (h, s) \<leftarrow> (if h \<noteq> 0 then Some (h, s) else console_handle sv s);
     Some (s\<lparr>fd_table := (fd_table s)(i := h)\<rparr>)
   }"

definition fd_init :: "'k services \<Rightarrow> 'k crt \<Rightarrow> 'k crt option" where
  "fd_init sv s = (if fd_ready s then Some s else foreach (seed_fd sv) [0..<3] (s\<lparr>fd_ready := True\<rparr>))"

definition fd_alloc :: "'k services \<Rightarrow> u64 \<Rightarrow> 'k crt \<Rightarrow> (int \<times> 'k crt) option" where
  "fd_alloc sv handle s = do {
     s \<leftarrow> fd_init sv s;
     (case find (\<lambda>i. fd_table s i = 0) [3..<FD_MAX] of
        Some i \<Rightarrow> Some (int i, s\<lparr>fd_table := (fd_table s)(i := handle)\<rparr>)
      | None \<Rightarrow> Some (-1, s))
   }"

text \<open>Whether \<open>fd\<close> names an entry, and whether that entry is in use.\<close>

definition fd_in_range :: "int \<Rightarrow> bool" where
  "fd_in_range fd \<longleftrightarrow> 0 \<le> fd \<and> nat fd < FD_MAX"

definition fd_open :: "'k crt \<Rightarrow> int \<Rightarrow> bool" where
  "fd_open s fd \<longleftrightarrow> fd_in_range fd \<and> fd_table s (nat fd) \<noteq> 0"

definition get_osfhandle :: "'k services \<Rightarrow> int \<Rightarrow> 'k crt \<Rightarrow> (u64 \<times> 'k crt) option" where
  "get_osfhandle sv fd s = do {
     s \<leftarrow> fd_init sv s;
     Some (if fd_open s fd then fd_table s (nat fd) else - 1, s)
   }"

definition open_osfhandle :: "'k services \<Rightarrow> u64 \<Rightarrow> 'k crt \<Rightarrow> (int \<times> 'k crt) option" where
  "open_osfhandle sv handle s = fd_alloc sv handle s"

text \<open>The descriptors stored through \<open>fds\<close>, when the call succeeds.\<close>

definition pipe_fds :: "'k services \<Rightarrow> bool \<Rightarrow> 'k crt \<Rightarrow> ((int \<times> int) option \<times> int \<times> 'k crt) option" where
  "pipe_fds sv fds_null s =
     (if fds_null then Some (None, -1, s)
      else do {
        s \<leftarrow> fd_init sv s;
        (handles, k) \<leftarrow> svc_create_pipe sv (os s);
        let s = s\<lparr>os := k\<rparr>;
        (case handles of
           None \<Rightarrow> Some (None, -1, s)
         | Some (rh, wh) \<Rightarrow> do {
             (rfd, s) \<leftarrow> fd_alloc sv rh s;
             (wfd, s) \<leftarrow> fd_alloc sv wh s;
             if rfd < 0 \<or> wfd < 0 then Some (None, -1, s) else Some (Some (rfd, wfd), 0, s)
           })
      })"

definition dup_handle :: "'k services \<Rightarrow> u64 \<Rightarrow> 'k crt \<Rightarrow> (u64 \<times> 'k crt) option" where
  "dup_handle sv h s =
     (if h = 0 then Some (0, s)
      else do { (h', k) \<leftarrow> svc_duplicate sv h (os s); Some (h', s\<lparr>os := k\<rparr>) })"

definition dup_fd :: "'k services \<Rightarrow> int \<Rightarrow> 'k crt \<Rightarrow> (int \<times> 'k crt) option" where
  "dup_fd sv fd s = do {
     s \<leftarrow> fd_init sv s;
     if \<not> fd_open s fd then Some (-1, s)
     else do {
       (d, s) \<leftarrow> dup_handle sv (fd_table s (nat fd)) s;
       if d = 0 then Some (-1, s) else fd_alloc sv d s
     }
   }"

definition dup2_fd :: "'k services \<Rightarrow> int \<Rightarrow> int \<Rightarrow> 'k crt \<Rightarrow> (int \<times> 'k crt) option" where
  "dup2_fd sv src dst s = do {
     s \<leftarrow> fd_init sv s;
     if \<not> fd_open s src then Some (-1, s)
     else if \<not> fd_in_range dst then Some (-1, s)
     else do {
       (d, s) \<leftarrow> dup_handle sv (fd_table s (nat src)) s;
       if d = 0 then Some (-1, s)
       else do {
         let old = fd_table s (nat dst);
         k \<leftarrow> (if old \<noteq> 0 \<and> old \<noteq> fd_table s (nat src) then do { (_, k) \<leftarrow> svc_close sv old (os s); Some k } else Some (os s));
         let k = (if dst \<le> 2 then svc_set_std sv (nat dst) d k else k);
         Some (0, s\<lparr>fd_table := (fd_table s)(nat dst := d), os := k\<rparr>)
       }
     }
   }"

definition close_fd :: "'k services \<Rightarrow> int \<Rightarrow> 'k crt \<Rightarrow> (int \<times> 'k crt) option" where
  "close_fd sv fd s = do {
     s \<leftarrow> fd_init sv s;
     if 3 \<le> fd \<and> fd_open s fd then do {
       (_, k) \<leftarrow> svc_close sv (fd_table s (nat fd)) (os s);
       Some (0, s\<lparr>fd_table := (fd_table s)(nat fd := 0), os := k\<rparr>)
     } else Some (0, s)
   }"

section \<open>The contract of the handle services\<close>

text \<open>
  \<open>copies k i\<close> is how often the handle of index \<open>i\<close> is open. A duplicate has the value of the original and counts once
  more; a close counts once less. The standard handles are not counted.
\<close>

locale handle_service =
  fixes sv :: "'k services" and kinv :: "'k \<Rightarrow> bool" and copies :: "'k \<Rightarrow> nat \<Rightarrow> nat" and index :: "u64 \<Rightarrow> nat"
  assumes duplicate: "kinv k \<Longrightarrow> svc_duplicate sv h k = Some (r, k') \<Longrightarrow>
      kinv k' \<and> (if copies k (index h) = 0 then r = 0 \<and> copies k' = copies k
        else r = h \<and> copies k' = (copies k)(index h := copies k (index h) + 1))"
    and close: "kinv k \<Longrightarrow> \<exists>r k'. svc_close sv h k = Some (r, k') \<and> kinv k' \<and> copies k' = (copies k)(index h := copies k (index h) - 1)"
    and set_std: "kinv k \<Longrightarrow> kinv (svc_set_std sv i h k) \<and> copies (svc_set_std sv i h k) = copies k"

text \<open>The descriptors that name the handle of index \<open>i\<close>.\<close>

definition namers :: "(u64 \<Rightarrow> nat) \<Rightarrow> (nat \<Rightarrow> u64) \<Rightarrow> nat \<Rightarrow> nat set" where
  "namers index t i = {fd. fd < FD_MAX \<and> t fd \<noteq> 0 \<and> index (t fd) = i}"

lemma finite_namers [simp]: "finite (namers index t i)"
  by (simp add: namers_def)

lemma card_namers_upd:
  assumes "fd < FD_MAX"
  shows "card (namers index (t(fd := h)) i) + (if t fd \<noteq> 0 \<and> index (t fd) = i then 1 else 0) =
    card (namers index t i) + (if h \<noteq> 0 \<and> index h = i then 1 else 0)"
proof -
  obtain S where S: "S = namers index t i - {fd}" by simp
  have "namers index (t(fd := h)) i = (if h \<noteq> 0 \<and> index h = i then insert fd S else S)"
    using assms by (auto simp: namers_def S)
  moreover have "namers index t i = (if t fd \<noteq> 0 \<and> index (t fd) = i then insert fd S else S)"
    using assms by (auto simp: namers_def S)
  moreover have "fd \<notin> S" "finite S" by (simp_all add: S)
  ultimately show ?thesis by simp
qed

end
