(* ===== verification/Crt_Fd_Laws.thy ===== *)
theory Crt_Fd_Laws
  imports Crt_Fd
begin

text \<open>
  What the descriptor calls of \<^verbatim>\<open>msvcrt/src/lib.rs\<close> promise over any handle service that keeps the contract
  \<open>handle_service\<close>, and that the kernel's handle tables keep it.
\<close>

section \<open>Descriptors and copies\<close>

definition fds_ok :: "('k \<Rightarrow> bool) \<Rightarrow> ('k \<Rightarrow> nat \<Rightarrow> nat) \<Rightarrow> (u64 \<Rightarrow> nat) \<Rightarrow> 'k crt \<Rightarrow> bool" where
  "fds_ok kinv copies index s \<longleftrightarrow> fd_ready s \<and> kinv (os s) \<and> (\<forall>i. card (namers index (fd_table s) i) \<le> copies (os s) i)"

text \<open>A copy of \<open>h\<close> that no descriptor names yet.\<close>

definition spare :: "('k \<Rightarrow> nat \<Rightarrow> nat) \<Rightarrow> (u64 \<Rightarrow> nat) \<Rightarrow> u64 \<Rightarrow> 'k crt \<Rightarrow> bool" where
  "spare copies index h s \<longleftrightarrow> (\<forall>i. card (namers index (fd_table s) i) + (if i = index h then 1 else 0) \<le> copies (os s) i)"

text \<open>What creating a pipe gives: at least one new copy for each handle that is not zero, and no copy fewer.\<close>

definition pipe_gives :: "'k services \<Rightarrow> ('k \<Rightarrow> bool) \<Rightarrow> ('k \<Rightarrow> nat \<Rightarrow> nat) \<Rightarrow> (u64 \<Rightarrow> nat) \<Rightarrow> 'k \<Rightarrow> bool" where
  "pipe_gives sv kinv copies index k \<longleftrightarrow>
     (\<forall>hs k'. svc_create_pipe sv k = Some (hs, k') \<longrightarrow> kinv k' \<and>
        (\<forall>i. copies k i + (case hs of None \<Rightarrow> 0 | Some (rh, wh) \<Rightarrow>
            (if rh \<noteq> 0 \<and> i = index rh then 1 else 0) + (if wh \<noteq> 0 \<and> i = index wh then 1 else 0)) \<le> copies k' i))"

inductive fd_history :: "'k services \<Rightarrow> ('k \<Rightarrow> bool) \<Rightarrow> ('k \<Rightarrow> nat \<Rightarrow> nat) \<Rightarrow> (u64 \<Rightarrow> nat) \<Rightarrow> 'k crt \<Rightarrow> 'k crt \<Rightarrow> bool"
  for sv kinv copies index s0 where
  start: "fd_history sv kinv copies index s0 s0"
| duped: "fd_history sv kinv copies index s0 s \<Longrightarrow> dup_fd sv fd s = Some (r, s') \<Longrightarrow> fd_history sv kinv copies index s0 s'"
| duped2: "fd_history sv kinv copies index s0 s \<Longrightarrow> dup2_fd sv src dst s = Some (r, s') \<Longrightarrow> fd_history sv kinv copies index s0 s'"
| closed: "fd_history sv kinv copies index s0 s \<Longrightarrow> close_fd sv fd s = Some (r, s') \<Longrightarrow> fd_history sv kinv copies index s0 s'"
| adopted: "fd_history sv kinv copies index s0 s \<Longrightarrow> spare copies index h s \<Longrightarrow> open_osfhandle sv h s = Some (r, s') \<Longrightarrow>
    fd_history sv kinv copies index s0 s'"
| piped: "fd_history sv kinv copies index s0 s \<Longrightarrow> pipe_gives sv kinv copies index (os s) \<Longrightarrow> pipe_fds sv b s = Some (fds, r, s') \<Longrightarrow>
    fd_history sv kinv copies index s0 s'"
| elsewhere: "fd_history sv kinv copies index s0 s \<Longrightarrow> kinv k \<Longrightarrow> (\<forall>i. copies (os s) i \<le> copies k i) \<Longrightarrow>
    fd_history sv kinv copies index s0 (s\<lparr>os := k\<rparr>)"

lemma fd_init_ready [simp]: "fd_ready s \<Longrightarrow> fd_init sv s = Some s"
  by (simp add: fd_init_def)

lemma fd_alloc_cases:
  assumes "fd_ready s" "fd_alloc sv h s = Some (r, s')"
  obtains (full) "r = -1" "s' = s"
  | (slot) fd where "3 \<le> fd" "fd < FD_MAX" "fd_table s fd = 0" "r = int fd" "s' = s\<lparr>fd_table := (fd_table s)(fd := h)\<rparr>"
proof (cases "find (\<lambda>i. fd_table s i = 0) [3..<FD_MAX]")
  case None
  then show thesis using assms full by (simp add: fd_alloc_def)
next
  case (Some fd)
  then have "fd \<in> set [3..<FD_MAX]" "fd_table s fd = 0" unfolding find_Some_iff by auto
  then show thesis using assms slot [of fd] Some by (simp add: fd_alloc_def)
qed

lemma fd_alloc_keeps: "fd_ready s \<Longrightarrow> fd_alloc sv h s = Some (r, s') \<Longrightarrow> fd_ready s' \<and> os s' = os s"
  using fd_alloc_cases [of s sv h r s'] by fastforce

lemma fd_alloc_count:
  assumes "fd_ready s" "fd_alloc sv h s = Some (r, s')"
  shows "card (namers index (fd_table s') i) \<le> card (namers index (fd_table s) i) + (if h \<noteq> 0 \<and> i = index h then 1 else 0)"
  using assms
proof (cases rule: fd_alloc_cases)
  case (slot fd)
  then show ?thesis using card_namers_upd [of fd index "fd_table s" h i] by (auto split: if_splits)
qed simp

lemma fd_alloc_ok:
  assumes "fds_ok kinv copies index s" "spare copies index h s" "fd_alloc sv h s = Some (r, s')"
  shows "fds_ok kinv copies index s'"
proof -
  have r: "fd_ready s" using assms(1) by (simp add: fds_ok_def)
  have "card (namers index (fd_table s') i) \<le> copies (os s) i" for i
    using fd_alloc_count [OF r assms(3), of index i] assms(2) [unfolded spare_def, rule_format, of i] by (auto split: if_splits)
  then show ?thesis using fd_alloc_keeps [OF r assms(3)] assms(1) by (simp add: fds_ok_def)
qed

lemma fds_ok_count: "fds_ok kinv copies index s \<Longrightarrow> card (namers index (fd_table s) i) \<le> copies (os s) i"
  by (simp add: fds_ok_def)

context handle_service
begin

lemma dup_handle_ok:
  assumes ok: "fds_ok kinv copies index s" and fd: "fd < FD_MAX" "fd_table s fd \<noteq> 0" and d: "dup_handle sv (fd_table s fd) s = Some (d, s')"
  shows "d = fd_table s fd \<and> s' = s\<lparr>os := os s'\<rparr> \<and> kinv (os s') \<and>
    copies (os s') = (copies (os s))(index d := copies (os s) (index d) + 1)"
proof -
  let ?h = "fd_table s fd"
  have "fd \<in> namers index (fd_table s) (index ?h)" using fd by (simp add: namers_def)
  then have "0 < card (namers index (fd_table s) (index ?h))" by (metis card_gt_0_iff empty_iff finite_namers)
  then have c: "copies (os s) (index ?h) \<noteq> 0" using ok unfolding fds_ok_def by (metis le_zero_eq less_nat_zero_code)
  obtain k where k: "svc_duplicate sv ?h (os s) = Some (d, k)" "s' = s\<lparr>os := k\<rparr>"
    using d fd(2) by (auto simp: dup_handle_def Option.bind_eq_Some_conv)
  then show ?thesis using duplicate [OF _ k(1)] ok c by (simp add: fds_ok_def)
qed

lemma dup_fd_ok:
  assumes ok: "fds_ok kinv copies index s" and r: "dup_fd sv fd s = Some (r, s')"
  shows "fds_ok kinv copies index s'"
proof (cases "fd_open s fd")
  case True
  then have fd: "nat fd < FD_MAX" "fd_table s (nat fd) \<noteq> 0" by (simp_all add: fd_open_def fd_in_range_def)
  obtain d s1 where d: "dup_handle sv (fd_table s (nat fd)) s = Some (d, s1)"
    using r ok True by (auto simp: dup_fd_def fds_ok_def Option.bind_eq_Some_conv)
  note sp = dup_handle_ok [OF ok fd d]
  then have eq: "fd_table s1 = fd_table s" "fd_ready s1 = fd_ready s" by (metis crt.select_convs(1,2) crt.surjective crt.update_convs(4))+
  have "fds_ok kinv copies index s1" "spare copies index d s1"
    using ok sp eq by (auto simp: fds_ok_def spare_def le_SucI)
  moreover have "fd_alloc sv d s1 = Some (r, s')"
    using r ok True d sp fd by (simp add: dup_fd_def fds_ok_def)
  ultimately show ?thesis by (rule fd_alloc_ok)
qed (use r ok in \<open>auto simp: dup_fd_def fds_ok_def\<close>)

lemma close_fd_ok:
  assumes ok: "fds_ok kinv copies index s"
  shows "\<exists>s'. close_fd sv fd s = Some (0, s') \<and> fds_ok kinv copies index s'"
proof (cases "3 \<le> fd \<and> fd_open s fd")
  case True
  then have fd: "nat fd < FD_MAX" "fd_table s (nat fd) \<noteq> 0" by (simp_all add: fd_open_def fd_in_range_def)
  obtain r k where k: "svc_close sv (fd_table s (nat fd)) (os s) = Some (r, k)" "kinv k"
    "copies k = (copies (os s))(index (fd_table s (nat fd)) := copies (os s) (index (fd_table s (nat fd))) - 1)"
    using close [of "os s" "fd_table s (nat fd)"] ok by (auto simp: fds_ok_def)
  have "card (namers index ((fd_table s)(nat fd := 0)) i) \<le> copies k i" for i
    using card_namers_upd [OF fd(1), of index "fd_table s" 0 i] fd(2) k(3) fds_ok_count [OF ok, of i] by (auto split: if_splits)
  then show ?thesis using True k ok by (auto simp: close_fd_def fds_ok_def)
qed (use ok in \<open>auto simp: close_fd_def fds_ok_def\<close>)

lemma dup2_fd_steps:
  assumes ok: "fds_ok kinv copies index s" and src: "fd_open s src" and dst: "fd_in_range dst"
    and r: "dup2_fd sv src dst s = Some (r, s')"
  shows "r = 0 \<and> fd_table s' = (fd_table s)(nat dst := fd_table s (nat src)) \<and> fd_ready s' \<and> kinv (os s') \<and>
    (let h = fd_table s (nat src); old = fd_table s (nat dst); c = (copies (os s))(index h := copies (os s) (index h) + 1)
     in copies (os s') = (if old \<noteq> 0 \<and> old \<noteq> h then c(index old := c (index old) - 1) else c))"
proof -
  let ?h = "fd_table s (nat src)" and ?old = "fd_table s (nat dst)"
  have fd: "nat src < FD_MAX" "?h \<noteq> 0" using src by (simp_all add: fd_open_def fd_in_range_def)
  obtain d s1 where d: "dup_handle sv ?h s = Some (d, s1)"
    using r ok src dst by (auto simp: dup2_fd_def fds_ok_def Option.bind_eq_Some_conv)
  note sp = dup_handle_ok [OF ok fd d]
  then obtain k1 where s1: "s1 = s\<lparr>os := k1\<rparr>" "kinv k1" "copies k1 = (copies (os s))(index ?h := copies (os s) (index ?h) + 1)"
    by metis
  obtain k2 where k2: "(if ?old \<noteq> 0 \<and> ?old \<noteq> ?h then do { (_, k) \<leftarrow> svc_close sv ?old k1; Some k } else Some k1) = Some k2" "kinv k2"
    "copies k2 = (if ?old \<noteq> 0 \<and> ?old \<noteq> ?h then (copies k1)(index ?old := copies k1 (index ?old) - 1) else copies k1)"
    using close [OF s1(2), of ?old] s1(2) by (cases "?old \<noteq> 0 \<and> ?old \<noteq> ?h") auto
  have "r = 0 \<and> s' = s\<lparr>fd_table := (fd_table s)(nat dst := ?h), os := (if dst \<le> 2 then svc_set_std sv (nat dst) ?h k2 else k2)\<rparr>"
    using r ok src dst d sp fd(2) k2(1) s1(1) by (auto simp: dup2_fd_def fds_ok_def Let_def cong: if_cong)
  then show ?thesis using set_std [OF k2(2)] k2(2,3) s1(3) ok by (simp add: fds_ok_def Let_def)
qed

lemma dup2_fd_ok:
  assumes ok: "fds_ok kinv copies index s" and r: "dup2_fd sv src dst s = Some (r, s')"
  shows "fds_ok kinv copies index s'"
proof (cases "fd_open s src \<and> fd_in_range dst")
  case True
  let ?h = "fd_table s (nat src)" and ?old = "fd_table s (nat dst)"
  note st = dup2_fd_steps [OF ok conjunct1 [OF True] conjunct2 [OF True] r, unfolded Let_def]
  have fd: "nat dst < FD_MAX" "?h \<noteq> 0" using True by (simp_all add: fd_open_def fd_in_range_def)
  have "card (namers index (fd_table s') i) \<le> copies (os s') i" for i
  proof -
    have cs: "copies (os s) i + (if index ?h = i then 1 else 0) \<le> copies (os s') i + (if ?old \<noteq> 0 \<and> index ?old = i then 1 else 0)"
      using st by (cases "?old \<noteq> 0 \<and> ?old \<noteq> ?h") auto
    have "card (namers index (fd_table s') i) + (if ?old \<noteq> 0 \<and> index ?old = i then 1 else 0) =
        card (namers index (fd_table s) i) + (if index ?h = i then 1 else 0)"
      using card_namers_upd [OF fd(1), of index "fd_table s" ?h i] st fd(2) by simp
    then show ?thesis using cs fds_ok_count [OF ok, of i] by linarith
  qed
  then show ?thesis using st by (simp add: fds_ok_def)
qed (use r ok in \<open>auto simp: dup2_fd_def fds_ok_def split: if_splits\<close>)

lemma pipe_fds_ok:
  assumes ok: "fds_ok kinv copies index s" and law: "pipe_gives sv kinv copies index (os s)" and r: "pipe_fds sv b s = Some (fds, r, s')"
  shows "fds_ok kinv copies index s'"
proof (cases b)
  case False
  have rdy: "fd_ready s" using ok by (simp add: fds_ok_def)
  obtain hs k where k: "svc_create_pipe sv (os s) = Some (hs, k)"
    using r rdy False by (auto simp: pipe_fds_def Option.bind_eq_Some_conv)
  note g = law [unfolded pipe_gives_def, rule_format, OF k]
  show ?thesis
  proof (cases hs)
    case None
    then have "fds_ok kinv copies index (s\<lparr>os := k\<rparr>)" using ok g by (auto simp: fds_ok_def intro: le_trans)
    then show ?thesis using r rdy False k None by (simp add: pipe_fds_def)
  next
    case (Some p)
    obtain rh wh where p: "p = (rh, wh)" by (cases p)
    obtain rfd s1 where s1: "fd_alloc sv rh (s\<lparr>os := k\<rparr>) = Some (rfd, s1)"
      using r rdy False k Some p by (auto simp: pipe_fds_def Option.bind_eq_Some_conv)
    have k1: "fd_ready s1" "os s1 = k" using fd_alloc_keeps [OF _ s1] rdy by simp_all
    obtain wfd s2 where s2: "fd_alloc sv wh s1 = Some (wfd, s2)" "s' = s2"
      using r rdy False k Some p s1 by (auto simp: pipe_fds_def Option.bind_eq_Some_conv split: if_splits)
    have k2: "fd_ready s2" "os s2 = k" using fd_alloc_keeps [OF k1(1) s2(1)] k1 by simp_all
    have "card (namers index (fd_table s2) i) \<le> copies k i" for i
    proof -
      have "copies (os s) i + ((if rh \<noteq> 0 \<and> i = index rh then 1 else 0) + (if wh \<noteq> 0 \<and> i = index wh then 1 else 0)) \<le> copies k i"
        using g Some p by simp
      moreover have "card (namers index (fd_table s1) i) \<le> card (namers index (fd_table s) i) + (if rh \<noteq> 0 \<and> i = index rh then 1 else 0)"
        using fd_alloc_count [OF _ s1, of index i] rdy by simp
      ultimately show ?thesis
        using fd_alloc_count [OF k1(1) s2(1), of index i] fds_ok_count [OF ok, of i] by linarith
    qed
    then show ?thesis using k2 g s2(2) by (simp add: fds_ok_def)
  qed
qed (use r ok in \<open>auto simp: pipe_fds_def\<close>)

lemma history_ok: "fd_history sv kinv copies index s0 s \<Longrightarrow> fds_ok kinv copies index s0 \<Longrightarrow> fds_ok kinv copies index s"
proof (induction rule: fd_history.induct)
  case (closed s fd r s')
  then show ?case using close_fd_ok [of s fd] by auto
next
  case (adopted s h r s')
  then show ?case using fd_alloc_ok by (simp add: open_osfhandle_def) blast
next
  case (elsewhere s k)
  then show ?case by (auto simp: fds_ok_def intro: le_trans)
qed (auto intro: dup_fd_ok dup2_fd_ok pipe_fds_ok)

end

context handle_service
begin

lemma redirect_leaks:
  assumes ok: "fds_ok kinv copies index s" and h: "fd_table s 1 \<noteq> 0"
    and d: "dup_fd sv 1 s = Some (saved, s1)" "0 \<le> saved" and d2: "dup2_fd sv saved 1 s1 = Some (r2, s2)"
    and c: "close_fd sv saved s2 = Some (r3, s3)"
  shows "fd_table s3 = fd_table s \<and> copies (os s3) = (copies (os s))(index (fd_table s 1) := copies (os s) (index (fd_table s 1)) + 1)"
proof -
  let ?h = "fd_table s 1"
  have rdy: "fd_ready s" and one: "fd_open s 1" "fd_in_range 1" using ok h by (simp_all add: fds_ok_def fd_open_def fd_in_range_def FD_MAX_def)
  obtain x t where x: "dup_handle sv ?h s = Some (x, t)"
    using d(1) rdy one by (auto simp: dup_fd_def Option.bind_eq_Some_conv)
  then have t: "x = ?h" "fd_table t = fd_table s" "fd_ready t" "copies (os t) = (copies (os s))(index ?h := copies (os s) (index ?h) + 1)"
    using dup_handle_ok [OF ok _ h x] rdy by (auto simp: FD_MAX_def) (metis crt.select_convs(1,2) crt.surjective crt.update_convs(4))+
  have "fd_alloc sv ?h t = Some (saved, s1)" using d(1) rdy one x t h by (simp add: dup_fd_def)
  then obtain fd where fd: "3 \<le> fd" "fd < FD_MAX" "fd_table s fd = 0" "saved = int fd" "s1 = t\<lparr>fd_table := (fd_table s)(fd := ?h)\<rparr>"
    using t(2) d(2) by (cases rule: fd_alloc_cases [OF t(3)]) auto
  note ok1 = dup_fd_ok [OF ok d(1)]
  have o1: "fd_open s1 saved" "fd_table s1 1 = ?h" "fd_table s1 fd = ?h"
    using fd h by (auto simp: fd_open_def fd_in_range_def)
  have s2: "fd_table s2 = fd_table s1" "copies (os s2) = (copies (os s1))(index ?h := copies (os s1) (index ?h) + 1)" "fd_ready s2"
    using dup2_fd_steps [OF ok1 o1(1) one(2) d2] o1 fd(4) by (auto simp: Let_def)
  have ok2: "fds_ok kinv copies index s2" by (rule dup2_fd_ok [OF ok1 d2])
  obtain r k where k: "svc_close sv ?h (os s2) = Some (r, k)" "copies k = (copies (os s2))(index ?h := copies (os s2) (index ?h) - 1)"
    using close [of "os s2" ?h] ok2 by (auto simp: fds_ok_def)
  have "s3 = s2\<lparr>fd_table := (fd_table s2)(fd := 0), os := k\<rparr>"
    using c s2 k o1 fd by (simp add: close_fd_def fd_open_def)
  then show ?thesis using s2 k fd t by (auto simp: fun_eq_iff)
qed

end

section \<open>The kernel keeps the contract\<close>

definition kernel_inv :: "thread_kernel \<Rightarrow> bool" where
  "kernel_inv k \<longleftrightarrow> (\<exists>ext. ob_ok ext (machine k) \<and> (\<forall>b. 0 \<le> ext b)) \<and> pipe_inv (machine k)"

definition open_copies :: "thread_kernel \<Rightarrow> nat \<Rightarrow> nat" where
  "open_copies k i = (case hview (machine k) (current_cr3 (machine k), i) of None \<Rightarrow> 0 | Some e \<Rightarrow> unat (h_refs e))"

lemma current_cr3_cong: "thread_cr3 st' = thread_cr3 st \<Longrightarrow> current_cr3 st' = current_cr3 st"
  by (simp add: current_cr3_def)

lemma nt_duplicate_contract:
  assumes i: "kernel_inv k" and d: "on_machine (nt_duplicate_object h) k = Some (r, k')"
  shows "kernel_inv k' \<and> (if open_copies k (handle_to_index h) = 0 then r = 0 \<and> open_copies k' = open_copies k
    else r = h \<and> open_copies k' = (open_copies k)(handle_to_index h := open_copies k (handle_to_index h) + 1))"
proof -
  let ?st = "machine k" and ?i = "handle_to_index h"
  obtain ext where ok: "ob_ok ext ?st" "pipe_inv ?st" "\<forall>b. 0 \<le> ext b" using i by (auto simp: kernel_inv_def)
  obtain st' where st': "duplicate_handle kernel_types h ?st = Some (r, st')" "k' = k\<lparr>machine := st'\<rparr>"
    using d by (auto simp: on_machine_def nt_duplicate_object_def Option.bind_eq_Some_conv)
  show ?thesis
  proof (cases "hview ?st (current_cr3 ?st, ?i)")
    case None
    then have "r = 0" "st' = ?st" using st'(1) by (simp_all add: duplicate_handle_def locate_hview)
    then show ?thesis using i st'(2) None by (simp add: open_copies_def)
  next
    case (Some e)
    have room: "unat (h_refs e) + 1 < 2 ^ 32"
      using st'(1) Some by (auto simp: duplicate_handle_def locate_hview Let_def split: if_splits)
    obtain st2 where s: "duplicate_handle kernel_types h ?st = Some (h, st2)" "ob_ok ext st2" "pipe_inv st2" "thread_cr3 st2 = thread_cr3 ?st"
      "hview st2 = (hview ?st)((current_cr3 ?st, ?i) \<mapsto> e\<lparr>h_refs := h_refs e + 1\<rparr>)"
      by (rule kt.duplicate_spec [OF ok Some room])
    have "h_refs e \<noteq> 0" by (rule hview_refs [OF ok(1) Some])
    moreover have "unat (h_refs e + 1) = unat (h_refs e) + 1" using room by (simp add: unat_word_ariths)
    ultimately show ?thesis
      using s st' Some ok(3) current_cr3_cong [OF s(4)]
      by (auto simp: kernel_inv_def open_copies_def fun_eq_iff unat_eq_0)
  qed
qed

lemma nt_close_contract:
  assumes i: "kernel_inv k"
  shows "\<exists>r k'. on_machine (nt_close h) k = Some (r, k') \<and> kernel_inv k' \<and>
    open_copies k' = (open_copies k)(handle_to_index h := open_copies k (handle_to_index h) - 1)"
proof -
  let ?st = "machine k" and ?i = "handle_to_index h"
  obtain ext where ok: "ob_ok ext ?st" "pipe_inv ?st" "\<forall>b. 0 \<le> ext b" using i by (auto simp: kernel_inv_def)
  show ?thesis
  proof (cases "hview ?st (current_cr3 ?st, ?i)")
    case None
    then have "open_copies k ?i = 0" by (simp add: open_copies_def)
    moreover have "ob_close_handle kernel_types h ?st = Some (STATUS_INVALID_HANDLE, ?st)"
      using None by (simp add: ob_close_handle_def locate_hview)
    ultimately show ?thesis using i by (auto simp: on_machine_def nt_close_def fun_upd_idem)
  next
    case (Some e)
    have idx: "?i < MAX_HANDLES" using Some by (auto simp: hview_def split: if_splits)
    then have "h \<noteq> - 1" "h \<noteq> - 2" by (auto simp: handle_to_index_def MAX_HANDLES_def mask_eq_exp_minus_1)
    moreover obtain st2 where s: "ob_close_handle kernel_types h ?st = Some (STATUS_SUCCESS, st2)" "ob_ok ext st2" "pipe_inv st2"
      "thread_cr3 st2 = thread_cr3 ?st"
      "hview st2 = (hview ?st)((current_cr3 ?st, ?i) := if h_refs e > 1 then Some (e\<lparr>h_refs := h_refs e - 1\<rparr>) else None)"
      by (rule kt.close_spec [OF ok Some])
    moreover have "unat (h_refs e - 1) = unat (h_refs e) - 1" "h_refs e > 1 \<longleftrightarrow> unat (h_refs e) > 1"
      using hview_refs [OF ok(1) Some] by (simp_all add: unat_minus_one word_less_nat_alt)
    ultimately show ?thesis
      using Some ok(3) current_cr3_cong [OF s(4)]
      by (auto simp: on_machine_def nt_close_def kernel_inv_def open_copies_def fun_eq_iff)
  qed
qed

interpretation kh: handle_service "kernel_services oc" kernel_inv open_copies handle_to_index for oc
proof unfold_locales
  fix k r k' h
  assume "kernel_inv k" "svc_duplicate (kernel_services oc) h k = Some (r, k')"
  then show "kernel_inv k' \<and> (if open_copies k (handle_to_index h) = 0 then r = 0 \<and> open_copies k' = open_copies k
    else r = h \<and> open_copies k' = (open_copies k)(handle_to_index h := open_copies k (handle_to_index h) + 1))"
    by (intro nt_duplicate_contract) (simp_all add: kernel_services_def)
next
  fix k h
  assume "kernel_inv k"
  then show "\<exists>r k'. svc_close (kernel_services oc) h k = Some (r, k') \<and> kernel_inv k' \<and>
    open_copies k' = (open_copies k)(handle_to_index h := open_copies k (handle_to_index h) - 1)"
    using nt_close_contract by (simp add: kernel_services_def)
next
  fix k i h
  assume "kernel_inv k"
  then show "kernel_inv (svc_set_std (kernel_services oc) i h k) \<and> open_copies (svc_set_std (kernel_services oc) i h k) = open_copies k"
    by (auto simp: kernel_services_def nt_set_std_handle_def kernel_inv_def open_copies_def fun_eq_iff)
qed

section \<open>Properties\<close>


lemma demo_handle:
  obtains r k where "kernel_inv k" "r \<noteq> 0" "open_copies k = (\<lambda>_. 0)(handle_to_index r := 1)"
proof -
  obtain b and st :: pipe_state where c: "b \<in> dom (objects st)" "ob_ok ((\<lambda>_. 0)(b := 1)) st" "pipe_inv st"
    "current_cr3 st = 0x5000" "htables st = htables demo_ob" by (rule demo_created)
  have hv: "hview st k = None" for k using c(5) by (simp add: hview_def demo_ob_def split: option.split)
  obtain r and st' :: pipe_state where r: "create_in kernel_types 0x5000 b 7 st = Some (r, st')" "ob_ok ((\<lambda>_. 0)(b := 1)) st'" "pipe_inv st'"
    "thread_cr3 st' = thread_cr3 st"
    "r = 0 \<and> hview st' = hview st \<and> (find_slot st' 0x5000 = None \<or> (\<forall>i \<in> {1..<MAX_HANDLES}. hview st (0x5000, i) \<noteq> None)) \<or>
     (\<exists>i. 1 \<le> i \<and> i < MAX_HANDLES \<and> r = index_to_handle i \<and> hview st (0x5000, i) = None \<and>
        (\<forall>j. 1 \<le> j \<longrightarrow> j < i \<longrightarrow> hview st (0x5000, j) \<noteq> None) \<and> hview st' = (hview st)((0x5000, i) \<mapsto> new_entry b 7))"
    by (rule kt.create_in_spec [OF c(2,3,1)])
  have free: "\<not> in_use (htables st s)" for s using c(5) by (simp add: demo_ob_def)
  have "0 < MAX_TABLES" "1 < MAX_HANDLES" by (simp_all add: MAX_TABLES_def MAX_HANDLES_def)
  then obtain xs ys where u: "[0..<MAX_TABLES] = 0 # xs" "[1..<MAX_HANDLES] = 1 # ys" using upt_conv_Cons by blast
  have "find_slot st 0x5000 = None" by (simp add: find_slot_def find_None_iff free)
  then have "r \<noteq> 0" using r(1) by (auto simp: create_in_def slot_for_def u [simplified] free Option.bind_eq_Some_conv index_to_handle_def)
  then obtain i where i: "1 \<le> i" "i < MAX_HANDLES" "r = index_to_handle i" "hview st' = (hview st)((0x5000, i) \<mapsto> new_entry b 7)"
    using r(5) by auto
  have cr: "current_cr3 st' = 0x5000" using r(4) c(4) current_cr3_cong by metis
  let ?k = "\<lparr>std_handles = (\<lambda>_. 0), machine = st'\<rparr>"
  have "\<forall>c. 0 \<le> ((\<lambda>_. 0 :: int)(b := 1)) c" by simp
  then have "kernel_inv ?k" using r(2,3) unfolding kernel_inv_def by auto
  moreover have "open_copies ?k = (\<lambda>_. 0)(handle_to_index r := 1)"
    using i cr hv by (auto simp: open_copies_def fun_eq_iff new_entry_def)
  ultimately show thesis using that [of ?k r] \<open>r \<noteq> 0\<close> by simp
qed


end
