(* ===== verification/Spec2Isabelle.thy ===== *)
theory Spec2Isabelle
  imports Ke_Properties Rtl_List Rtl_String Mm_Teardown Mm_Split Mm_Vad_Pages Crt_Sort Crt_Start Crt_Heap_Laws Crt_Format_Laws Crt_Fd_Laws
begin

text \<open>
  A verification development for \<^emph>\<open>nanokrnl\<close>, an NT-compatible kernel written in Rust (\<^verbatim>\<open>src/kernel\<close>), with the
  user-mode C runtime it ships (\<^verbatim>\<open>src/msvcrt\<close>). The repository also holds a host-side emulator (\<^verbatim>\<open>src/emu\<close>), a
  Win32 library (\<^verbatim>\<open>src/kernel32\<close>), boot tooling and test programs.

  \<^bold>\<open>Conventions.\<close> A Rust function that may panic, bugcheck, overflow, index out of range or follow a null or
  poisoned pointer returns an option, \<open>None\<close> being the fault; a Rust \<open>Option\<close> is an inner option and a Rust
  \<open>Result\<close> a sum. State is passed explicitly as a record per component, with \<open>do\<close> blocks in the order of the
  source. Machine integers are words, and counters the source adds to without a check are naturals where the
  checked addition is written out. A spin lock is the atomicity of an operation. Code outside the repository, and
  function pointers, are parameters with named contracts.

  \<^bold>\<open>Runtime library\<close> (\<^verbatim>\<open>kernel/src/rtl\<close>).
  \<^item> \<open>Nk_Prelude\<close>: integers, the panic monad, checked arithmetic, generic lemmas. \<open>Alloc_Contract\<close>: the interface of
    an allocator of runs of numbered units and of single units, with the lemmas over histories of its use; the
    bitmap, the page frames and the pagefile slots interpret it.
  \<^item> \<open>Rtl_Bitmap\<close> (\<^verbatim>\<open>bitmap.rs\<close>): the word-skipping run search finds the first clear run at or after the hint, and
    never a used bit. \<open>Rtl_List\<close> (\<^verbatim>\<open>list.rs\<close>): the intrusive list over a heap of entries implements a sequence.
    \<open>Rtl_Status\<close>, \<open>Rtl_String\<close> (\<^verbatim>\<open>status.rs\<close>, \<^verbatim>\<open>string.rs\<close>): codes and counted strings.

  \<^bold>\<open>Memory manager\<close> (\<^verbatim>\<open>kernel/src/mm\<close>).
  \<^item> \<open>Mm_Phys\<close> (\<^verbatim>\<open>phys.rs\<close>): the frame allocator over the bitmap; live runs stay disjoint and the count exact.
  \<^item> \<open>Mm_Walk\<close>, \<open>Mm_Map\<close>, \<open>Mm_Split\<close>, \<open>Mm_Teardown\<close> (\<^verbatim>\<open>virt.rs\<close>): page tables in physical memory; each edit changes
    exactly the translation it names, splitting a large page changes none, and tearing a space down returns exactly
    its frames.
  \<^item> \<open>Mm_Pageout\<close> (\<^verbatim>\<open>pageout.rs\<close>, with the request layer of \<^verbatim>\<open>io/virtblk.rs\<close>): eviction and page-in, and that the
    page read back is the page written. The disk is a parameter with an arbitrary schedule of answers.
  \<^item> \<open>Mm_Vad\<close>, \<open>Mm_Vad_Pages\<close> (\<^verbatim>\<open>vad.rs\<close>): reservations, commitment, protection and release of ranges, by the
    contract \<open>page_op\<close> of an operation on each page of a range; and the probe of user buffers.
  \<^item> \<open>Mm_Pool\<close>, \<open>Mm_Pool_Safety\<close> (\<^verbatim>\<open>pool.rs\<close>): the kernel heap; live blocks stay disjoint over every history, and
    allocation terminates.

  \<^bold>\<open>Object manager and pipes\<close> (\<^verbatim>\<open>kernel/src/ob\<close>, \<^verbatim>\<open>io/pipe.rs\<close>).
  \<^item> \<open>Ob\<close>, \<open>Ob_Refs\<close>, \<open>Ob_Handles\<close>: objects, reference counts and handle tables over the pool, which enters through
    the interface \<open>object_heap\<close>; the types of objects enter through \<open>object_types\<close>. The count of an object is the
    number of references held, and the tables implement a map from processes and indices to entries.
  \<^item> \<open>Io_Pipe\<close>: the two ends of a pipe are objects whose type callbacks count the writers; a reader sees the end of
    the stream exactly when the pipe is drained and the last writer is gone.

  \<^bold>\<open>Dispatcher\<close> (\<^verbatim>\<open>kernel/src/ke\<close>).
  \<^item> \<open>Ke_Ready\<close>, \<open>Ke_Wait\<close>, \<open>Ke_Timer\<close>, \<open>Ke_Apc\<close> (\<^verbatim>\<open>scheduler.rs\<close>, \<^verbatim>\<open>dispatcher.rs\<close>, \<^verbatim>\<open>thread.rs\<close>, \<^verbatim>\<open>dpc.rs\<close>, \<^verbatim>\<open>apc.rs\<close>
    and the parts of \<^verbatim>\<open>smp.rs\<close> they call): threads, per-processor ready banks, waits, events, semaphores, mutants,
    timers, deferred and asynchronous procedure calls, the clock and the dispatch interrupt. The record \<open>ke\<close> is the
    state of all processors; an operation takes the number of the processor it runs on. A blocking call is split at
    the context switch. The intrusive lists are the sequences that \<open>Rtl_List\<close> shows them to represent.
  \<^item> \<open>Ke_Ready_Laws\<close>, \<open>Ke_Switch_Laws\<close>, \<open>Ke_Resched_Laws\<close>: queues, running threads and the choice of the next thread.
    \<open>Ke_Wait_Laws\<close>, \<open>Ke_Wake_Laws\<close>, \<open>Ke_Block_Laws\<close>, \<open>Ke_Fifo_Laws\<close>: wait lists, wake-ups, blocking and the order of
    waking. \<open>Ke_Ops_Laws\<close>, \<open>Ke_Expire_Laws\<close>, \<open>Ke_Apc_Laws\<close>: the invariant \<open>ke_ok\<close> under every operation.
  \<^item> \<open>Ke_History\<close> makes the operations a guarded state machine, an instance of the interface \<open>guarded_machine\<close>, and
    \<open>Ke_Properties\<close> states what holds in every state it reaches from boot: it is well formed, every operation that
    may be called returns, no wake-up is lost; and the outcome of each operation.

  \<^bold>\<open>C runtime\<close> (\<^verbatim>\<open>msvcrt/src/lib.rs\<close>).
  \<^item> \<open>Crt_String\<close>, \<open>Crt_String_Laws\<close>, \<open>Crt_Number\<close>, \<open>Crt_Sort\<close>: memory and string routines, number parsing and printing
    and sorting over byte- and unit-addressed memory. \<open>Crt_Format\<close>, \<open>Crt_Format_Laws\<close>: formatted output and its bounds.
  \<^item> \<open>Crt_Heap\<close>, \<open>Crt_Heap_Laws\<close>: \<open>malloc\<close>, \<open>free\<close> and \<open>realloc\<close>. \<open>Crt_Start\<close>: the argument vector.
  \<^item> \<open>Crt_Fd\<close>, \<open>Crt_Fd_Laws\<close>: descriptors over the handle services of \<^verbatim>\<open>kernel/src/syscalls.rs\<close>, which enter through
    the interface \<open>handle_service\<close>, interpreted on the object manager's handle tables.

  \<^bold>\<open>Loops.\<close> There is no fuel. A loop with a bound in the source is a \<open>function\<close> with its termination proof; a loop
  that ends only because of what is in memory or in a queue is a \<open>partial_function\<close>, and that it returns is part of
  what is proved of it. The constants are those of the source: eight processors, three objects and one timeout per
  wait, sixteen timers or starved threads per pass.

  \<^bold>\<open>Not modelled.\<close> Inline assembly and descriptor tables (traps, system-call entry, the register part of the context
  switch, processor bring-up, TLB shootdown); device access (ports, APIC and PCI registers, serial lines, the virtio
  ring); the image loader, crash dumps and the debugger stub, which work on raw memory images; the registry, the
  FAT and memory file systems, the console and the 9P client; process creation, most of the system services and the
  Win32 library, which are glue over components above; and the emulator. Memory ordering is not modelled: an
  operation under a lock is one step.
\<close>

end
